(* ===== verification/Prelude.thy ===== *)
theory Prelude
  imports Main "HOL-Library.Word"
begin

unbundle bit_operations_syntax

text \<open>
  Shared vocabulary of the development: the machine integer types of the kernel, the error
  numbers and page constants the components share, and the generic facts on words, bits,
  options and lists that the component theories rest on.  In particular the naturally
  aligned power-of-two blocks \<open>blk a k\<close> (all addresses that agree with \<open>a\<close> from bit
  \<open>k\<close> upwards), on which the buddy allocator and the page tables are stated.
\<close>

section \<open>Machine integers\<close>

type_synonym u8 = "8 word"
type_synonym u16 = "16 word"
type_synonym u32 = "32 word"
type_synonym u64 = "64 word"

text \<open>A byte of a C string or a device buffer; \<^verbatim>\<open>char\<close> is signed on the target.\<close>

type_synonym byte = "8 word"

abbreviation UINT64_MAX :: u64 where "UINT64_MAX \<equiv> - 1"

section \<open>Error numbers (file_system/vfs_defs.h)\<close>

named_theorems errno_defs \<open>the numeric values of the error codes\<close>

definition EPERM :: int where [errno_defs]: "EPERM = 1"
definition ENOENT :: int where [errno_defs]: "ENOENT = 2"
definition ESRCH :: int where [errno_defs]: "ESRCH = 3"
definition EINTR :: int where [errno_defs]: "EINTR = 4"
definition EIO :: int where [errno_defs]: "EIO = 5"
definition E2BIG :: int where [errno_defs]: "E2BIG = 7"
definition EBADF :: int where [errno_defs]: "EBADF = 9"
definition ECHILD :: int where [errno_defs]: "ECHILD = 10"
definition ENOMEM :: int where [errno_defs]: "ENOMEM = 12"
definition EACCES :: int where [errno_defs]: "EACCES = 13"
definition EBUSY :: int where [errno_defs]: "EBUSY = 16"
definition EEXIST :: int where [errno_defs]: "EEXIST = 17"
definition ENODEV :: int where [errno_defs]: "ENODEV = 19"
definition ENOTDIR :: int where [errno_defs]: "ENOTDIR = 20"
definition EISDIR :: int where [errno_defs]: "EISDIR = 21"
definition EINVAL :: int where [errno_defs]: "EINVAL = 22"
definition EMFILE :: int where [errno_defs]: "EMFILE = 24"
definition ENOTTY :: int where [errno_defs]: "ENOTTY = 25"
definition ENOSPC :: int where [errno_defs]: "ENOSPC = 28"
definition EROFS :: int where [errno_defs]: "EROFS = 30"
definition EPIPE :: int where [errno_defs]: "EPIPE = 32"
definition ERANGE :: int where [errno_defs]: "ERANGE = 34"
definition ENAMETOOLONG :: int where [errno_defs]: "ENAMETOOLONG = 36"
definition ENOTEMPTY :: int where [errno_defs]: "ENOTEMPTY = 39"
definition ELOOP :: int where [errno_defs]: "ELOOP = 40"
definition ENOTSUP :: int where [errno_defs]: "ENOTSUP = 95"

section \<open>Page constants (paging/paging_defs.h)\<close>

definition PAGE_SIZE :: u64 where "PAGE_SIZE = 4096"
definition PAGE_SIZE_LOG2 :: nat where "PAGE_SIZE_LOG2 = 12"

section \<open>Bits of 64-bit words\<close>

lemma bit64: "bit (a::u64) i \<Longrightarrow> i < 64"
  using bit_imp_le_length [of a i] by simp

lemma word64_bits_eqI: "(\<And>i. i < 64 \<Longrightarrow> bit a i = bit b i) \<Longrightarrow> a = (b::u64)"
  by (rule bit_word_eqI) simp

lemma unat64_less: "unat (x::u64) < 2 ^ 64"
  using unsigned_less [of x] by simp

lemma bit_two_pow: "bit ((2::u64) ^ k) i \<longleftrightarrow> i = k \<and> k < 64"
  by (auto simp: bit_exp_iff possible_bit_def dest: bit64)

lemma all_ge_split: "(\<forall>i\<ge>k. P i) \<longleftrightarrow> P k \<and> (\<forall>i\<ge>Suc k. P i)" for k :: nat
  by (metis Suc_leD le_SucI not_less_eq_eq order_antisym_conv order_refl)

lemma unat_two_pow: "k < 64 \<Longrightarrow> unat ((2::u64) ^ k) = 2 ^ k"
  proof -
  assume k: "k < 64"
  have "unat (of_nat (2 ^ k) :: u64) = 2 ^ k mod 2 ^ 64"
    unfolding unat_of_nat by simp
  also have "\<dots> = 2 ^ k" using k by (intro mod_less power_strict_increasing) auto
  finally show ?thesis by simp
qed

section \<open>Naturally aligned power-of-two blocks\<close>

definition aligned :: "u64 \<Rightarrow> nat \<Rightarrow> bool" where
  "aligned a k \<longleftrightarrow> take_bit k a = 0"

definition blk :: "u64 \<Rightarrow> nat \<Rightarrow> u64 set" where
  "blk a k = {x. drop_bit k x = drop_bit k a}"

lemma aligned_bits: "aligned a k \<longleftrightarrow> (\<forall>i<k. \<not> bit a i)"
proof
  assume *: "aligned a k"
  show "\<forall>i<k. \<not> bit a i"
  proof (intro allI impI)
    fix i assume "i < k"
    with * have "bit (take_bit k a) i = bit a i" by (simp add: bit_take_bit_iff)
    with * show "\<not> bit a i" by (simp add: aligned_def)
  qed
next
  assume "\<forall>i<k. \<not> bit a i"
  then show "aligned a k" unfolding aligned_def
    by (intro word64_bits_eqI) (simp add: bit_take_bit_iff)
qed

lemma blk_bits: "x \<in> blk a k \<longleftrightarrow> (\<forall>i\<ge>k. bit x i = bit a i)"
proof -
  have "drop_bit k x = drop_bit k a \<longleftrightarrow> (\<forall>n. bit x (k + n) = bit a (k + n))"
    by (simp add: bit_eq_iff bit_drop_bit_eq) (metis bit64 add_leD2 leD leI le_add2 nat_less_le)
  then show ?thesis unfolding blk_def by (auto simp: nat_le_iff_add)
qed

lemma blk_refl [simp, intro]: "a \<in> blk a k"
  by (simp add: blk_def)

lemma aligned_mono: "aligned a k \<Longrightarrow> j \<le> k \<Longrightarrow> aligned a j"
  by (simp add: aligned_bits)

lemma aligned_xor: "aligned a k \<Longrightarrow> k \<le> j \<Longrightarrow> aligned (a XOR 2 ^ j) k"
  by (auto simp: aligned_bits bit_xor_iff bit_two_pow)

lemma xor_xor_cancel [simp]: "(a XOR b) XOR b = (a :: u64)"
  by (simp add: xor.assoc)

lemma xor_two_pow_neq: "k < 64 \<Longrightarrow> a XOR 2 ^ k \<noteq> (a :: u64)"
  by (metis bit_two_pow bit_xor_iff)

text \<open>Splitting and merging: a block is the disjoint union of its two halves.\<close>

lemma blk_split:
  assumes "k < 64"
  shows "blk a (Suc k) = blk a k \<union> blk (a XOR 2 ^ k) k"
proof -
  have "x \<in> blk a (Suc k) \<longleftrightarrow> x \<in> blk a k \<or> x \<in> blk (a XOR 2 ^ k) k" for x
    using assms all_ge_split [of k "\<lambda>i. bit x i = bit a i"]
      all_ge_split [of k "\<lambda>i. bit x i = bit (a XOR 2 ^ k) i"]
    by (auto simp: blk_bits bit_xor_iff bit_two_pow)
  then show ?thesis by blast
qed

lemma blk_halves_disjoint:
  assumes "k < 64"
  shows "blk a k \<inter> blk (a XOR 2 ^ k) k = {}"
  using assms by (auto simp: blk_bits bit_xor_iff bit_two_pow)

text \<open>Two blocks that meet are nested, the one of lower order inside the other.\<close>

lemma blk_nested:
  assumes "x \<in> blk a j" and "x \<in> blk b k" and "j \<le> k"
  shows "blk a j \<subseteq> blk b k"
  using assms by (auto simp: blk_bits)

lemma blk_xor_base: "k < j \<Longrightarrow> blk (a XOR 2 ^ k) j = blk a j"
  by (auto simp: set_eq_iff blk_bits bit_xor_iff bit_two_pow)

lemma aligned_blk_unique:
  assumes "aligned a k" and "aligned b k" and "a \<in> blk b k"
  shows "a = b"
  using assms by (intro word64_bits_eqI) (metis aligned_bits blk_bits not_le)

text \<open>An aligned block is the interval of its \<open>2^k\<close> addresses.\<close>

lemma aligned_dvd: "k < 64 \<Longrightarrow> aligned a k \<longleftrightarrow> 2 ^ k dvd unat a"
proof -
  assume "k < 64"
  have "aligned a k \<longleftrightarrow> unat (take_bit k a) = 0" by (simp add: aligned_def unat_0_iff)
  also have "unat (take_bit k a) = take_bit k (unat a)" by (rule unsigned_take_bit_eq)
  also have "\<dots> = unat a mod 2 ^ k" by (rule take_bit_eq_mod)
  finally show ?thesis by (simp add: dvd_eq_mod_eq_0)
qed

lemma blk_interval:
  assumes "k < 64" and "aligned a k"
  shows "x \<in> blk a k \<longleftrightarrow> unat a \<le> unat x \<and> unat x < unat a + 2 ^ k"
proof -
  obtain m where m: "unat a = 2 ^ k * m" using assms aligned_dvd by (auto elim: dvdE)
  have d: "unat (drop_bit k y) = unat y div 2 ^ k" for y :: u64
    by (simp only: unat_drop_bit_eq drop_bit_eq_div [of k "unat y"])
  have "x \<in> blk a k \<longleftrightarrow> unat x div 2 ^ k = m"
    using m by (simp add: blk_def word_unat_eq_iff d)
  also have "\<dots> \<longleftrightarrow> m \<le> unat x div 2 ^ k \<and> unat x div 2 ^ k < Suc m" by auto
  also have "\<dots> \<longleftrightarrow> unat a \<le> unat x \<and> unat x < unat a + 2 ^ k"
    unfolding m by (simp add: less_eq_div_iff_mult_less_eq div_less_iff_less_mult algebra_simps)
  finally show ?thesis .
qed

end
