(* ===== verification/Util_Math.thy ===== *)
theory Util_Math
  imports Prelude
begin

text \<open>
  \<^verbatim>\<open>util/math.c\<close>: integer power by repeated multiplication, position of the highest and
  lowest set bit, the power-of-two test and the first-zero-bit search of a bitmap, on 64-bit
  words.  The compiler builtins \<^verbatim>\<open>__builtin_clzll\<close> and \<^verbatim>\<open>__builtin_ctzll\<close> are
  undefined on 0, so the operations built on them return \<open>None\<close> there.
\<close>

section \<open>Definitions\<close>

text \<open>\<^verbatim>\<open>pow\<close>: the loop multiplies \<open>exp\<close> times, wrapping around modulo \<open>2^64\<close>.\<close>

fun pow_loop :: "u64 \<Rightarrow> nat \<Rightarrow> u64 \<Rightarrow> u64" where
  "pow_loop base 0 result = result"
| "pow_loop base (Suc n) result = pow_loop base n (result * base)"

definition pow64 :: "u64 \<Rightarrow> u64 \<Rightarrow> u64" where
  "pow64 base exp = pow_loop base (unat exp) 1"

text \<open>Leading and trailing zero counts of a nonzero word, as the builtins define them.\<close>

definition clzll :: "u64 \<Rightarrow> nat" where
  "clzll num = length (takeWhile (\<lambda>i. \<not> bit num i) (rev [0..<64]))"

definition ctzll :: "u64 \<Rightarrow> nat" where
  "ctzll num = length (takeWhile (\<lambda>i. \<not> bit num i) [0..<64])"

definition BiggestBit :: "u64 \<Rightarrow> nat option" where
  "BiggestBit num = (if num = 0 then None else Some (63 - clzll num))"

definition SmallestBit :: "u64 \<Rightarrow> nat option" where
  "SmallestBit num = (if num = 0 then None else Some (ctzll num))"

definition IsPowerOfTwo :: "u64 \<Rightarrow> bool" where
  "IsPowerOfTwo num = (if num = 0 then False else num AND (num - 1) = 0)"

text \<open>\<^verbatim>\<open>FindFirstUnsetInBuffer\<close>: the index of the first 0 bit, or -1.\<close>

fun find_first_unset_from :: "nat \<Rightarrow> u64 list \<Rightarrow> int" where
  "find_first_unset_from i [] = -1"
| "find_first_unset_from i (w # ws) =
     (if w \<noteq> UINT64_MAX then int (i * 64 + ctzll (NOT w)) else find_first_unset_from (Suc i) ws)"

definition FindFirstUnsetInBuffer :: "u64 list \<Rightarrow> int" where
  "FindFirstUnsetInBuffer buffer = find_first_unset_from 0 buffer"

section \<open>Facts\<close>

lemma pow_loop_eq: "pow_loop base n result = result * base ^ n"
  by (induction n arbitrary: result) (auto simp: algebra_simps)

lemma pow64_eq: "pow64 base exp = base ^ unat exp"
  by (simp add: pow64_def pow_loop_eq)

lemma word_nonzero_bit: "(num::u64) \<noteq> 0 \<Longrightarrow> \<exists>i<64. bit num i"
  by (metis bit64 bit_0_eq bot_apply word64_bits_eqI bot_bool_def)

lemma takeWhile_length_first:
  assumes "i < length xs" "P (xs ! i)" "\<forall>j<i. \<not> P (xs ! j)"
  shows "length (takeWhile (\<lambda>x. \<not> P x) xs) = i"
  using assms
proof (induction xs arbitrary: i)
  case (Cons x xs)
  show ?case
  proof (cases i)
    case 0 with Cons.prems show ?thesis by simp
  next
    case (Suc j)
    have "\<not> P x" using Cons.prems(3) Suc by force
    moreover have "length (takeWhile (\<lambda>x. \<not> P x) xs) = j"
      using Cons.prems Suc by (intro Cons.IH) auto
    ultimately show ?thesis using Suc by simp
  qed
qed simp

lemma takeWhile_not_upt_eq:
  assumes "bit num i" "\<forall>j<i. \<not> bit num j"
  shows "ctzll num = i"
proof -
  have "i < 64" using assms(1) by (rule bit64)
  then show ?thesis unfolding ctzll_def using assms
    by (intro takeWhile_length_first [where P = "bit num"]) auto
qed

lemma ctzll_bit:
  assumes "num \<noteq> 0"
  shows "bit num (ctzll num)" and "j < ctzll num \<Longrightarrow> \<not> bit num j" and "ctzll num < 64"
proof -
  define i where "i = (LEAST i. bit num i)"
  have i: "bit num i" and min: "\<forall>j<i. \<not> bit num j"
    using word_nonzero_bit [OF assms] unfolding i_def by (auto intro: LeastI dest: not_less_Least)
  have eq: "ctzll num = i" using takeWhile_not_upt_eq [OF i min] .
  show "bit num (ctzll num)" using eq i by simp
  show "j < ctzll num \<Longrightarrow> \<not> bit num j" using eq min by simp
  show "ctzll num < 64" using eq bit64 [OF i] by simp
qed

lemma clzll_eq:
  assumes "bit num i" "\<forall>j>i. \<not> bit num j"
  shows "clzll num = 63 - i"
proof -
  have i: "i < 64" using assms(1) by (rule bit64)
  have "length (takeWhile (\<lambda>i. \<not> bit num i) (rev [0..<64])) = 63 - i"
  proof (rule takeWhile_length_first [where P = "bit num"])
    show "63 - i < length (rev [0..<64])" by simp
    show "bit num (rev [0..<64] ! (63 - i))" using i assms(1) by (simp add: rev_nth)
    show "\<forall>j<63 - i. \<not> bit num (rev [0..<64] ! j)" using assms(2) by (simp add: rev_nth)
  qed
  then show ?thesis by (simp add: clzll_def)
qed

lemma clzll_bit:
  assumes "num \<noteq> 0"
  shows "bit num (63 - clzll num)" and "63 - clzll num < j \<Longrightarrow> \<not> bit num j" and "clzll num < 64"
proof -
  define S where "S = {i. bit num i}"
  have S: "S \<noteq> {}" "finite S"
    using word_nonzero_bit [OF assms] bit64 by (auto simp: S_def intro: finite_subset [of _ "{..<64}"])
  define i where "i = Max S"
  have i: "bit num i" using Max_in [OF S(2,1)] by (simp add: i_def S_def)
  have max: "\<forall>j>i. \<not> bit num j"
    using Max_ge [OF S(2)] unfolding i_def S_def by (metis mem_Collect_eq not_less)
  have eq: "clzll num = 63 - i" using clzll_eq [OF i max] .
  have i64: "i < 64" using bit64 [OF i] .
  show "bit num (63 - clzll num)" using eq i i64 by simp
  show "63 - clzll num < j \<Longrightarrow> \<not> bit num j" using eq max i64 by simp
  show "clzll num < 64" using eq by simp
qed

lemma high_bit_bounds:
  assumes "bit (num::u64) b" and "\<forall>j>b. \<not> bit num j"
  shows "2 ^ b \<le> unat num" and "unat num < 2 ^ Suc b"
proof -
  have bu: "bit (unat num) j = bit num j" for j
    by (auto simp: bit_unsigned_iff possible_bit_def dest: bit64)
  have "take_bit (Suc b) (unat num) = unat num"
    by (intro bit_eqI) (use assms(2) in \<open>auto simp: bit_take_bit_iff bu less_Suc_eq_le not_le [symmetric]\<close>)
  then show "unat num < 2 ^ Suc b"
    using take_bit_nat_less_exp [of "Suc b" "unat num"] by simp
  have "bit (unat num) b" using assms(1) bu by simp
  then show "2 ^ b \<le> unat num"
    by (metis bit_iff_odd div_less even_zero not_less)
qed

lemma BiggestBit_bounds:
  assumes "BiggestBit num = Some b"
  shows "b < 64" and "2 ^ b \<le> unat num" and "unat num < 2 ^ Suc b"
proof -
  from assms have nz: "num \<noteq> 0" and b: "b = 63 - clzll num"
    by (auto simp: BiggestBit_def split: if_splits)
  show "b < 64" using b by simp
  show "2 ^ b \<le> unat num" "unat num < 2 ^ Suc b"
    using high_bit_bounds [of num b] clzll_bit [OF nz] b by blast+
qed

lemma SmallestBit_aligned:
  assumes "SmallestBit num = Some b"
  shows "b < 64" and "aligned num b" and "bit num b"
  using assms ctzll_bit [of num] by (auto simp: SmallestBit_def aligned_bits split: if_splits)


text \<open>The power-of-two test is exact.\<close>

lemma nat_and_pred_zero:
  "0 < n \<Longrightarrow> n AND (n - 1) = 0 \<longleftrightarrow> (\<exists>k. n = 2 ^ k)" for n :: nat
proof (induction n rule: less_induct)
  case (less n)
  show ?case
  proof (cases "even n")
    case True
    then obtain m where m: "n = 2 * m" by blast
    with less.prems have m0: "0 < m" "m < n" by auto
    have "n - 1 = 1 + 2 * (m - 1)" using m m0 by simp
    then have "n AND (n - 1) = 2 * (m AND (m - 1))"
      using m by (simp add: and_rec [of "2 * m"])
    then have "n AND (n - 1) = 0 \<longleftrightarrow> (\<exists>k. m = 2 ^ k)"
      using less.IH [OF m0(2,1)] by simp
    also have "\<dots> \<longleftrightarrow> (\<exists>k. n = 2 ^ k)"
    proof
      assume "\<exists>k. m = 2 ^ k"
      then show "\<exists>k. n = 2 ^ k" using m by (metis power_Suc)
    next
      assume "\<exists>k. n = 2 ^ k"
      then obtain k where k: "n = 2 ^ k" by blast
      with True have "k \<noteq> 0" by (metis odd_one power_0)
      then obtain j where "k = Suc j" by (cases k) auto
      with k m show "\<exists>k. m = 2 ^ k" by auto
    qed
    finally show ?thesis .
  next
    case False
    then obtain m where m: "n = 1 + 2 * m" by (metis oddE add.commute)
    have "n AND (n - 1) = 2 * m"
      using m by (simp add: and_rec [of "Suc (2 * m)"])
    moreover have "(\<exists>k. n = 2 ^ k) \<longleftrightarrow> m = 0"
    proof
      assume "\<exists>k. n = 2 ^ k"
      then obtain k where k: "n = 2 ^ k" by blast
      with False have "k = 0" by (metis dvd_power gr0I)
      with k m show "m = 0" by simp
    next
      assume "m = 0"
      with m show "\<exists>k. n = 2 ^ k" by (metis add.right_neutral mult_0_right power_0)
    qed
    ultimately show ?thesis by simp
  qed
qed

lemma IsPowerOfTwo_iff: "IsPowerOfTwo num \<longleftrightarrow> (\<exists>k. unat num = 2 ^ k)"
proof (cases "num = 0")
  case True
  then show ?thesis by (simp add: IsPowerOfTwo_def)
next
  case False
  then have pos: "0 < unat num" by (simp add: unat_gt_0)
  have "num AND (num - 1) = 0 \<longleftrightarrow> unat (num AND (num - 1)) = 0" by (simp add: unat_eq_zero)
  also have "unat (num AND (num - 1)) = unat num AND (unat num - 1)"
    using False by (simp add: unsigned_and_eq unat_minus_one)
  finally show ?thesis using False nat_and_pred_zero [OF pos] by (simp add: IsPowerOfTwo_def)
qed

text \<open>The bitmap search returns the first clear bit, and -1 exactly when all bits are set.\<close>

definition bitmap_bit :: "u64 list \<Rightarrow> nat \<Rightarrow> bool" where
  "bitmap_bit ws n \<longleftrightarrow> n div 64 < length ws \<and> bit (ws ! (n div 64)) (n mod 64)"

lemma not_max_has_clear_bit: "w \<noteq> UINT64_MAX \<Longrightarrow> NOT w \<noteq> (0::u64)"
  by (metis bit.compl_zero bit.double_compl)

lemma find_first_unset_from_spec:
  "find_first_unset_from i ws = -1 \<and> (\<forall>w\<in>set ws. w = UINT64_MAX) \<or>
   (\<exists>n. find_first_unset_from i ws = int (i * 64 + n) \<and> n < 64 * length ws \<and>
      \<not> bitmap_bit ws n \<and> (\<forall>m<n. bitmap_bit ws m))"
proof (induction ws arbitrary: i)
  case (Cons w ws)
  show ?case
  proof (cases "w = UINT64_MAX")
    case True
    have "(64 + n) div 64 = Suc (n div 64)" for n :: nat by simp
    then have sh: "bitmap_bit (w # ws) (64 + n) = bitmap_bit ws n" for n
      by (simp only: bitmap_bit_def) simp
    have lo: "bitmap_bit (w # ws) m" if "m < 64" for m
      using that True by (simp add: bitmap_bit_def)
    from Cons.IH [of "Suc i"] show ?thesis
    proof (elim disjE exE conjE)
      fix n assume n: "find_first_unset_from (Suc i) ws = int (Suc i * 64 + n)" "n < 64 * length ws"
        "\<not> bitmap_bit ws n" "\<forall>m<n. bitmap_bit ws m"
      have "bitmap_bit (w # ws) m" if "m < 64 + n" for m
      proof (cases "m < 64")
        case False
        then have "m = 64 + (m - 64)" "m - 64 < n" using that by auto
        then show ?thesis using n(4) sh by metis
      qed (rule lo)
      then show ?thesis using True n sh by (intro disjI2 exI [of _ "64 + n"]) auto
    qed (use True in simp)
  next
    case False
    note c = ctzll_bit [OF not_max_has_clear_bit [OF False]]
    have "bitmap_bit (w # ws) m \<longleftrightarrow> bit w m" if "m < 64" for m
      using that by (simp add: bitmap_bit_def)
    then show ?thesis using False c
      by (intro disjI2 exI [of _ "ctzll (NOT w)"]) (auto simp: bit_not_iff)
  qed
qed simp

end
