(* ===== verification/Buddy_Kernel.thy ===== *)
theory Buddy_Kernel
  imports Util_Math
begin

text \<open>
  The kernel page pool of \<^verbatim>\<open>allocaters/buddy_alloc.c\<close>: the shadow side-table, the inline
  free lists threaded through the free pages, and the allocation and release fast paths.

  State: \<open>kshadow\<close> is the byte table (\<open>None\<close> for the NULL pointer), \<open>heads\<close> is
  \<^verbatim>\<open>kernel_inline_heads\<close> with 0 for NULL, \<open>nonempty_mask\<close> is
  \<^verbatim>\<open>kernel_nonempty_mask\<close>, and \<open>slot\<close> is the first machine word of each page seen
  through \<^verbatim>\<open>inline_slot\<close>.  Orders are small numbers and modelled as \<open>nat\<close>; addresses
  are 64-bit words.  A result \<open>None\<close> stands for undefined behaviour or a loop that does
  not end; the critical sections run under the pool's spinlock with interrupts off and are
  atomic steps here.
\<close>

section \<open>State\<close>

definition MAX_ORDER :: nat where "MAX_ORDER = 64"

definition KSHADOW_ORDER_MASK :: u8 where "KSHADOW_ORDER_MASK = 0x3F"

definition KSHADOW_FREE_FLAG :: u8 where "KSHADOW_FREE_FLAG = 0x40"

record kbuddy =
  kshadow :: "u8 list option"
  kshadow_base_pfn :: u64
  kshadow_pfn_count :: u64
  heads :: "nat \<Rightarrow> u64"
  nonempty_mask :: u64
  slot :: "u64 \<Rightarrow> u64"

section \<open>The shadow table\<close>

definition pfn :: "u64 \<Rightarrow> u64" where
  "pfn addr = drop_bit PAGE_SIZE_LOG2 addr"

definition kshadow_in_range :: "kbuddy \<Rightarrow> u64 \<Rightarrow> bool" where
  "kshadow_in_range s addr =
     (if kshadow s = None then False
      else pfn addr \<ge> kshadow_base_pfn s \<and> pfn addr < kshadow_base_pfn s + kshadow_pfn_count s)"

definition shadow_idx :: "kbuddy \<Rightarrow> u64 \<Rightarrow> nat" where
  "shadow_idx s addr = unat (pfn addr - kshadow_base_pfn s)"

definition kshadow_store :: "u64 \<Rightarrow> u8 \<Rightarrow> kbuddy \<Rightarrow> kbuddy" where
  "kshadow_store addr v s =
     s\<lparr>kshadow := map_option (\<lambda>t. t[shadow_idx s addr := v]) (kshadow s)\<rparr>"

definition kshadow_load :: "kbuddy \<Rightarrow> u64 \<Rightarrow> u8" where
  "kshadow_load s addr = (case kshadow s of Some t \<Rightarrow> t ! shadow_idx s addr | None \<Rightarrow> 0)"

definition free_byte :: "nat \<Rightarrow> u8" where
  "free_byte order = (of_nat order AND KSHADOW_ORDER_MASK) OR KSHADOW_FREE_FLAG"

definition used_byte :: "nat \<Rightarrow> u8" where
  "used_byte order = of_nat order AND KSHADOW_ORDER_MASK"

definition kshadow_set_free :: "u64 \<Rightarrow> nat \<Rightarrow> kbuddy \<Rightarrow> kbuddy" where
  "kshadow_set_free addr order s =
     (if \<not> kshadow_in_range s addr then s else kshadow_store addr (free_byte order) s)"

definition kshadow_set_used :: "u64 \<Rightarrow> nat \<Rightarrow> kbuddy \<Rightarrow> kbuddy" where
  "kshadow_set_used addr order s =
     (if \<not> kshadow_in_range s addr then s else kshadow_store addr (used_byte order) s)"

definition kshadow_clear :: "u64 \<Rightarrow> kbuddy \<Rightarrow> kbuddy" where
  "kshadow_clear addr s =
     (if \<not> kshadow_in_range s addr then s else kshadow_store addr 0 s)"

section \<open>The inline free lists\<close>

definition inline_push :: "nat \<Rightarrow> u64 \<Rightarrow> kbuddy \<Rightarrow> kbuddy" where
  "inline_push order phys s =
     s\<lparr>slot := (slot s)(phys := heads s order),
       heads := (heads s)(order := phys),
       nonempty_mask := nonempty_mask s OR 2 ^ order\<rparr>"

definition inline_pop :: "nat \<Rightarrow> kbuddy \<Rightarrow> u64 \<times> kbuddy" where
  "inline_pop order s =
     (let head = heads s order in
      if head \<noteq> 0 then
        let s1 = s\<lparr>heads := (heads s)(order := slot s head)\<rparr>;
            s2 = (if heads s1 order = 0
                  then s1\<lparr>nonempty_mask := nonempty_mask s1 AND NOT (2 ^ order)\<rparr> else s1)
        in (head, s2)
      else (head, s))"

text \<open>
  \<^verbatim>\<open>inline_remove\<close> walks the list with the address of the link that leads to \<open>cur\<close>:
  \<open>None\<close> for the head pointer, \<open>Some p\<close> for the slot of page \<open>p\<close>.
\<close>

partial_function (option) inline_remove_loop ::
  "kbuddy \<Rightarrow> nat \<Rightarrow> u64 \<Rightarrow> u64 option \<Rightarrow> u64 \<Rightarrow> (bool \<times> kbuddy) option" where
  "inline_remove_loop s order phys prev_link cur =
     (if cur = 0 then Some (False, s)
      else if cur = phys then
        (let s1 = (case prev_link of
                     None \<Rightarrow> s\<lparr>heads := (heads s)(order := slot s cur)\<rparr>
                   | Some p \<Rightarrow> s\<lparr>slot := (slot s)(p := slot s cur)\<rparr>);
             s2 = (if heads s1 order = 0
                   then s1\<lparr>nonempty_mask := nonempty_mask s1 AND NOT (2 ^ order)\<rparr> else s1)
         in Some (True, s2))
      else inline_remove_loop s order phys (Some cur) (slot s cur))"

definition inline_remove :: "nat \<Rightarrow> u64 \<Rightarrow> kbuddy \<Rightarrow> (bool \<times> kbuddy) option" where
  "inline_remove order phys s = inline_remove_loop s order phys None (heads s order)"

section \<open>Allocation and release\<close>

fun split_loop :: "nat \<Rightarrow> nat \<Rightarrow> u64 \<Rightarrow> kbuddy \<Rightarrow> kbuddy" where
  "split_loop 0 order block s = s"
| "split_loop (Suc cur) order block s =
     (if Suc cur > order then
        let buddy = block XOR 2 ^ cur
        in split_loop cur order block (kshadow_set_free buddy cur (inline_push cur buddy s))
      else s)"

definition request_order :: "u64 \<Rightarrow> nat \<Rightarrow> nat" where
  "request_order sz b =
     (let order = (if \<not> IsPowerOfTwo sz then b + 1 else b)
      in if order < PAGE_SIZE_LOG2 then PAGE_SIZE_LOG2 else order)"

definition kernel_request_buddy :: "u64 \<Rightarrow> kbuddy \<Rightarrow> (u64 \<times> kbuddy) option" where
  "kernel_request_buddy sz s =
     (case BiggestBit sz of
        None \<Rightarrow> None
      | Some b \<Rightarrow>
          let order = request_order sz b in
          if order \<ge> MAX_ORDER then Some (0, s)
          else
            let hi_mask = nonempty_mask s AND NOT (2 ^ order - 1) in
            if hi_mask = 0 then Some (0, s)
            else
              let cur = ctzll hi_mask;
                  (block, s1) = inline_pop cur s;
                  s2 = split_loop cur order block s1
              in Some (block, kshadow_set_used block order s2))"

text \<open>The coalescing loop of \<^verbatim>\<open>kernel_free_buddy\<close>.\<close>

function coalesce_loop :: "u64 \<Rightarrow> nat \<Rightarrow> kbuddy \<Rightarrow> (u64 \<times> nat \<times> kbuddy) option" where
  "coalesce_loop address order s =
     (if \<not> order + 1 < MAX_ORDER then Some (address, order, s)
      else
        let buddy_addr = address XOR 2 ^ order in
        if \<not> kshadow_in_range s buddy_addr then Some (address, order, s)
        else if kshadow_load s buddy_addr \<noteq> free_byte order then Some (address, order, s)
        else
          case inline_remove order buddy_addr s of
            None \<Rightarrow> None
          | Some (removed, s1) \<Rightarrow>
              if \<not> removed then Some (address, order, s1)
              else
                let lower = (if address < buddy_addr then address else buddy_addr);
                    higher = (if address < buddy_addr then buddy_addr else address)
                in coalesce_loop lower (order + 1) (kshadow_clear higher s1))"
  by pat_completeness auto
termination
  by (relation "measure (\<lambda>(a, order, s). MAX_ORDER - order)") auto

declare coalesce_loop.simps [simp del]

definition kernel_free_buddy :: "u64 \<Rightarrow> kbuddy \<Rightarrow> kbuddy option" where
  "kernel_free_buddy address s =
     (if \<not> kshadow_in_range s address then Some s
      else
        let b = kshadow_load s address in
        if b = 0 \<or> b AND KSHADOW_FREE_FLAG \<noteq> 0 then Some s
        else
          let order = unat (b AND KSHADOW_ORDER_MASK) in
          case coalesce_loop address order s of
            None \<Rightarrow> None
          | Some (addr', order', s') \<Rightarrow>
              Some (kshadow_set_free addr' order' (inline_push order' addr' s')))"

section \<open>Pool initialisation\<close>

text \<open>
  \<^verbatim>\<open>AddToBuddyAlloc\<close> for the kernel pool (\<open>user = false\<close>): greedy decomposition of
  \<open>[start, start + sz)\<close> into naturally aligned blocks.
\<close>

lemma size_minus_block:
  assumes "BiggestBit sz = Some size_order" and "b \<le> size_order"
  shows "unat (sz - 2 ^ b) = unat sz - 2 ^ b" and "2 ^ b \<le> unat sz"
proof -
  have "(2::nat) ^ b \<le> 2 ^ size_order" using assms(2) by (intro power_increasing) auto
  then show le: "2 ^ b \<le> unat sz" using BiggestBit_bounds(2) [OF assms(1)] by linarith
  have "b < 64" using assms(2) BiggestBit_bounds(1) [OF assms(1)] by simp
  then have "unat ((2::u64) ^ b) = 2 ^ b" by (rule unat_two_pow)
  then show "unat (sz - 2 ^ b) = unat sz - 2 ^ b" using le
    by (simp add: unat_sub word_le_nat_alt)
qed

lemma size_decreases:
  assumes "BiggestBit sz = Some size_order" and "b \<le> size_order"
  shows "unat (sz - 2 ^ b) < unat sz"
  using size_minus_block [OF assms] by (metis diff_less less_le_trans zero_less_numeral zero_less_power)

function AddToBuddyAlloc_kernel :: "u64 \<Rightarrow> u64 \<Rightarrow> kbuddy \<Rightarrow> kbuddy option" where
  "AddToBuddyAlloc_kernel start sz s =
     (if sz \<ge> PAGE_SIZE then
        case (SmallestBit start, BiggestBit sz) of
          (Some start_order, Some size_order) \<Rightarrow>
            let b = (if start_order < size_order then start_order else size_order) in
            if b < PAGE_SIZE_LOG2
            then AddToBuddyAlloc_kernel (start + 2 ^ b) (sz - 2 ^ b) s
            else AddToBuddyAlloc_kernel (start + 2 ^ b) (sz - 2 ^ b)
                   (kshadow_set_free start b (inline_push b start s))
        | _ \<Rightarrow> None
      else Some s)"
  by pat_completeness auto
termination
  by (relation "measure (\<lambda>(start, sz, s). unat sz)") (auto intro: size_decreases [OF sym] less_imp_le)

declare AddToBuddyAlloc_kernel.simps [simp del]

definition InitKernelBuddyAlloc :: "u64 \<Rightarrow> u64 \<Rightarrow> kbuddy \<Rightarrow> kbuddy option" where
  "InitKernelBuddyAlloc start end s =
     (if end \<le> start then Some s else AddToBuddyAlloc_kernel start (end - start) s)"

text \<open>
  \<^verbatim>\<open>InitKernelBuddyShadow\<close>: the table is cleared; its memory comes from the
  boot-time bump allocator, which rounds the size up to whole pages and so moves the
  bump pointer \<^verbatim>\<open>curr_addr_prim\<close>. \<open>cur\<close> is the physical address of that pointer.
  The pool starts where the pointer is after the table (\<open>start_kernel_pool\<close>, the two calls of
  \<^verbatim>\<open>start\<close>): the shadow also has entries for the pages of the table itself, which are no
  pages of the pool.
\<close>

definition InitKernelBuddyShadow :: "u64 \<Rightarrow> u64 \<Rightarrow> kbuddy \<times> u64 \<Rightarrow> kbuddy \<times> u64" where
  "InitKernelBuddyShadow pool_start_phys pool_end_phys = (\<lambda>(s, cur).
     if pool_end_phys \<le> pool_start_phys then (s, cur)
     else
       let count = drop_bit PAGE_SIZE_LOG2 (pool_end_phys - pool_start_phys);
           pages = (count + PAGE_SIZE - 1) div PAGE_SIZE
       in (s\<lparr>kshadow_base_pfn := drop_bit PAGE_SIZE_LOG2 pool_start_phys,
             kshadow_pfn_count := count,
             kshadow := Some (replicate (unat count) 0)\<rparr>, cur + pages * PAGE_SIZE))"

definition start_kernel_pool :: "u64 \<Rightarrow> u64 \<Rightarrow> kbuddy \<Rightarrow> (kbuddy \<times> u64) option" where
  "start_kernel_pool cur end s =
     (let (s, cur) = InitKernelBuddyShadow cur end (s, cur)
      in map_option (\<lambda>s. (s, cur)) (InitKernelBuddyAlloc cur end s))"

section \<open>Statistics and the consistency check\<close>

text \<open>The pages on one inline list, in list order: the walk \<^verbatim>\<open>for (p = head; p; p = *inline_slot(p))\<close>.\<close>

partial_function (option) inline_walk :: "(u64 \<Rightarrow> u64) \<Rightarrow> u64 \<Rightarrow> u64 list option" where
  "inline_walk sl p =
     (if p = 0 then Some [] else Option.bind (inline_walk sl (sl p)) (\<lambda>ps. Some (p # ps)))"

definition buddy_kernel_total_pages :: "kbuddy \<Rightarrow> u64" where
  "buddy_kernel_total_pages s = kshadow_pfn_count s"

fun free_pages_upto :: "nat \<Rightarrow> kbuddy \<Rightarrow> u64 option" where
  "free_pages_upto 0 s = Some 0"
| "free_pages_upto (Suc order) s =
     (case free_pages_upto order s of
        None \<Rightarrow> None
      | Some n \<Rightarrow>
          map_option (\<lambda>ps. n + of_nat (length ps) * drop_bit PAGE_SIZE_LOG2 (2 ^ order))
            (inline_walk (slot s) (heads s order)))"

definition buddy_kernel_free_pages :: "kbuddy \<Rightarrow> u64 option" where
  "buddy_kernel_free_pages s = (if kshadow s = None then Some 0 else free_pages_upto MAX_ORDER s)"

definition list_mismatches :: "kbuddy \<Rightarrow> nat \<Rightarrow> u64 list \<Rightarrow> nat" where
  "list_mismatches s order ps =
     length (filter (\<lambda>p. \<not> kshadow_in_range s p \<or> kshadow_load s p \<noteq> free_byte order) ps)"

fun verify_lists :: "nat \<Rightarrow> kbuddy \<Rightarrow> (nat \<times> nat) option" where
  "verify_lists 0 s = Some (0, 0)"
| "verify_lists (Suc order) s =
     (case verify_lists order s of
        None \<Rightarrow> None
      | Some (free_count, mismatches) \<Rightarrow>
          map_option (\<lambda>ps. (free_count + length ps, mismatches + list_mismatches s order ps))
            (inline_walk (slot s) (heads s order)))"

definition VerifyKernelBuddyShadow :: "kbuddy \<Rightarrow> bool option" where
  "VerifyKernelBuddyShadow s =
     (case kshadow s of
        None \<Rightarrow> Some False
      | Some t \<Rightarrow>
          (case verify_lists MAX_ORDER s of
             None \<Rightarrow> None
           | Some (free_count, mismatches) \<Rightarrow>
               let entries = take (unat (kshadow_pfn_count s)) t;
                   shadow_count = length (filter (\<lambda>b. b \<noteq> 0) entries);
                   used_count = length (filter (\<lambda>b. b \<noteq> 0 \<and> b AND KSHADOW_FREE_FLAG = 0) entries)
               in Some (free_count + used_count = shadow_count \<and> mismatches = 0)))"

end
