(* ===== verification/Buddy_Kernel_Lists.thy ===== *)
theory Buddy_Kernel_Lists
  imports Buddy_Kernel
begin

text \<open>
  The two data layers of the kernel pool, each against its abstraction: the inline lists
  represent one list of page addresses per order, and the shadow table represents a function
  from page-aligned addresses to bytes.
\<close>

section \<open>Inline lists\<close>

fun chain :: "(u64 \<Rightarrow> u64) \<Rightarrow> u64 \<Rightarrow> u64 list \<Rightarrow> bool" where
  "chain sl p [] \<longleftrightarrow> p = 0"
| "chain sl p (a # as) \<longleftrightarrow> p = a \<and> a \<noteq> 0 \<and> chain sl (sl a) as"

lemma chain_upd [simp]: "x \<notin> set L \<Longrightarrow> chain (sl(x := v)) p L = chain sl p L"
  by (induction L arbitrary: p) auto

lemma chain_0 [simp]: "chain sl 0 L \<longleftrightarrow> L = []"
  by (cases L) auto

lemma chain_head: "chain sl p L \<Longrightarrow> p = 0 \<longleftrightarrow> L = []"
  by (cases L) auto

lemma chain_not_null: "chain sl p L \<Longrightarrow> 0 \<notin> set L"
  by (induction L arbitrary: p) auto

text \<open>The chain up to a page whose link is redirected to the tail.\<close>

lemma chain_splice:
  assumes "chain sl p (P @ q # a # L)" and "distinct (P @ q # a # L)"
  shows "chain (sl(q := sl a)) p (P @ q # L)"
  using assms by (induction P arbitrary: p) auto

lemma inline_walk_chain: "chain sl p L \<Longrightarrow> inline_walk sl p = Some L"
proof (induction L arbitrary: p)
  case Nil
  then show ?case by (simp add: inline_walk.simps)
next
  case (Cons a L)
  then show ?case by (subst inline_walk.simps) simp
qed

text \<open>
  \<open>inline_lists s G\<close>: list \<open>k\<close> holds exactly the addresses \<open>G k\<close>, each page is on at
  most one list, and the mask tells which lists are not empty.
\<close>

definition inline_lists :: "kbuddy \<Rightarrow> (nat \<Rightarrow> u64 list) \<Rightarrow> bool" where
  "inline_lists s G \<longleftrightarrow>
     (\<forall>k<64. chain (slot s) (heads s k) (G k) \<and> distinct (G k) \<and>
        (bit (nonempty_mask s) k \<longleftrightarrow> G k \<noteq> [])) \<and>
     (\<forall>j<64. \<forall>k<64. j \<noteq> k \<longrightarrow> set (G j) \<inter> set (G k) = {})"

lemma inline_listsD:
  assumes "inline_lists s G" and "k < 64"
  shows "chain (slot s) (heads s k) (G k)" and "distinct (G k)"
    and "bit (nonempty_mask s) k \<longleftrightarrow> G k \<noteq> []"
    and "j < 64 \<Longrightarrow> j \<noteq> k \<Longrightarrow> set (G j) \<inter> set (G k) = {}"
  using assms by (auto simp: inline_lists_def)

lemma inline_push_lists:
  assumes G: "inline_lists s G" and k: "k < 64" and a: "a \<noteq> 0" "\<forall>j<64. a \<notin> set (G j)"
  shows "inline_lists (inline_push k a s) (G(k := a # G k))"
  using assms unfolding inline_lists_def inline_push_def
  by (auto simp: bit_or_iff bit_two_pow)

lemma inline_lists_shrink:
  assumes G: "inline_lists s G" and k: "k < 64"
    and "set L \<subseteq> set (G k)" and "distinct L"
    and "chain (slot s') (heads s' k) L" and "bit (nonempty_mask s') k \<longleftrightarrow> L \<noteq> []"
    and "\<And>j. j < 64 \<Longrightarrow> j \<noteq> k \<Longrightarrow>
      chain (slot s') (heads s' j) (G j) \<and> bit (nonempty_mask s') j = bit (nonempty_mask s) j"
  shows "inline_lists s' (G(k := L))"
proof -
  have "set ((G(k := L)) i) \<inter> set ((G(k := L)) j) = {}" if "i < 64" "j < 64" "i \<noteq> j" for i j
    using that assms(3) inline_listsD(4) [OF G that(2,1)] by (fastforce split: if_splits)
  then show ?thesis using assms inline_listsD [OF G] unfolding inline_lists_def by auto
qed

text \<open>Two states with the same shadow table.\<close>

definition same_shadow :: "kbuddy \<Rightarrow> kbuddy \<Rightarrow> bool" where
  "same_shadow s s' \<longleftrightarrow> kshadow s' = kshadow s \<and> kshadow_base_pfn s' = kshadow_base_pfn s \<and>
     kshadow_pfn_count s' = kshadow_pfn_count s"

lemma inline_pop_lists:
  assumes G: "inline_lists s G" and k: "k < 64" and ne: "G k = a # L"
  obtains s' where "inline_pop k s = (a, s')" and "inline_lists s' (G(k := L))"
    and "same_shadow s s'" and "slot s' = slot s"
proof -
  note D = inline_listsD [OF G k]
  from D(1) ne have h: "heads s k = a" "a \<noteq> 0" and c: "chain (slot s) (slot s a) L" by auto
  have e: "slot s a = 0 \<longleftrightarrow> L = []" using c by (rule chain_head)
  let ?s' = "snd (inline_pop k s)"
  have "inline_lists ?s' (G(k := L))"
    using ne h c e D(2,3) inline_listsD(1) [OF G]
    by (intro inline_lists_shrink [OF G k])
      (auto simp: inline_pop_def Let_def bit_and_iff bit_not_iff bit_two_pow)
  moreover have "inline_pop k s = (a, ?s')" using h by (simp add: inline_pop_def Let_def)
  moreover have "same_shadow s ?s'" "slot ?s' = slot s"
    by (simp_all add: inline_pop_def Let_def same_shadow_def)
  ultimately show ?thesis using that by blast
qed

text \<open>The removal loop, started anywhere inside the list.\<close>

lemma inline_remove_loop_absent:
  assumes "chain (slot s) cur L" and "a \<notin> set L"
  shows "inline_remove_loop s k a pl cur = Some (False, s)"
  using assms
proof (induction L arbitrary: cur pl)
  case Nil
  then show ?case by (simp add: inline_remove_loop.simps)
next
  case (Cons b L)
  then show ?case by (subst inline_remove_loop.simps) auto
qed

lemma inline_remove_loop_present:
  assumes "chain (slot s) cur (P @ a # L)" and "distinct (P @ a # L)"
  shows "inline_remove_loop s k a pl cur =
    (let s1 = (case (if P = [] then pl else Some (last P)) of
                 None \<Rightarrow> s\<lparr>heads := (heads s)(k := slot s a)\<rparr>
               | Some p \<Rightarrow> s\<lparr>slot := (slot s)(p := slot s a)\<rparr>);
         s2 = (if heads s1 k = 0
               then s1\<lparr>nonempty_mask := nonempty_mask s1 AND NOT (2 ^ k)\<rparr> else s1)
     in Some (True, s2))"
  using assms
proof (induction P arbitrary: cur pl)
  case Nil
  then show ?case by (subst inline_remove_loop.simps) auto
next
  case (Cons b P)
  then have "cur = b" "b \<noteq> 0" "b \<noteq> a" by auto
  moreover have "inline_remove_loop s k a (Some b) (slot s b) =
    (let s1 = (case (if P = [] then Some b else Some (last P)) of
                 None \<Rightarrow> s\<lparr>heads := (heads s)(k := slot s a)\<rparr>
               | Some p \<Rightarrow> s\<lparr>slot := (slot s)(p := slot s a)\<rparr>);
         s2 = (if heads s1 k = 0
               then s1\<lparr>nonempty_mask := nonempty_mask s1 AND NOT (2 ^ k)\<rparr> else s1)
     in Some (True, s2))"
    using Cons.prems by (intro Cons.IH) auto
  ultimately show ?case by (subst inline_remove_loop.simps) (cases "P = []"; simp)
qed

lemma inline_remove_absent:
  assumes "inline_lists s G" and "k < 64" and "a \<notin> set (G k)"
  shows "inline_remove k a s = Some (False, s)"
  unfolding inline_remove_def
  using inline_remove_loop_absent [OF inline_listsD(1) [OF assms(1,2)] assms(3)] .

lemma inline_remove_lists:
  assumes G: "inline_lists s G" and k: "k < 64" and a: "a \<in> set (G k)"
  obtains s' where "inline_remove k a s = Some (True, s')"
    and "inline_lists s' (G(k := remove1 a (G k)))"
    and "same_shadow s s'"
    and "\<forall>x. x \<notin> set (G k) \<longrightarrow> slot s' x = slot s x"
proof -
  note D = inline_listsD [OF G k]
  from a obtain P L where PL: "G k = P @ a # L" "a \<notin> set P" by (meson split_list_first)
  have rem: "remove1 a (G k) = P @ L" using PL by (simp add: remove1_append)
  have ch: "chain (slot s) (heads s k) (P @ a # L)" and di: "distinct (P @ a # L)"
    using D(1,2) PL by auto
  note res = inline_remove_loop_present [OF ch di, of k None]
  show ?thesis
  proof (cases P rule: rev_cases)
    case Nil
    from ch Nil have h: "heads s k = a" "a \<noteq> 0" and c: "chain (slot s) (slot s a) L" by auto
    have e: "slot s a = 0 \<longleftrightarrow> L = []" using c by (rule chain_head)
    let ?s1 = "s\<lparr>heads := (heads s)(k := slot s a)\<rparr>"
    let ?s' = "if slot s a = 0
      then ?s1\<lparr>nonempty_mask := nonempty_mask ?s1 AND NOT (2 ^ k)\<rparr> else ?s1"
    have "inline_remove k a s = Some (True, ?s')"
      unfolding inline_remove_def using res Nil by (simp add: Let_def)
    moreover have "inline_lists ?s' (G(k := remove1 a (G k)))"
      using PL Nil rem c e di D(3) inline_listsD(1) [OF G]
      by (intro inline_lists_shrink [OF G k]) (auto simp: bit_and_iff bit_not_iff bit_two_pow)
    ultimately show ?thesis using that by (simp add: same_shadow_def split: if_splits)
  next
    case (snoc Q q)
    have c: "chain ((slot s)(q := slot s a)) (heads s k) (P @ L)"
      using chain_splice [of "slot s" "heads s k" Q q a L] ch di snoc by simp
    have hd0: "heads s k \<noteq> 0" using chain_head [OF ch] snoc by auto
    have q: "q \<in> set (G k)" using PL snoc by simp
    let ?s' = "s\<lparr>slot := (slot s)(q := slot s a)\<rparr>"
    have "inline_remove k a s = Some (True, ?s')"
      unfolding inline_remove_def using res snoc hd0 by (simp add: Let_def)
    moreover have "inline_lists ?s' (G(k := remove1 a (G k)))"
    proof (rule inline_lists_shrink [OF G k])
      fix j assume j: "j < 64" "j \<noteq> k"
      then have "q \<notin> set (G j)" using D(4) [OF j(1)] q by auto
      then show "chain (slot ?s') (heads ?s' j) (G j) \<and>
          bit (nonempty_mask ?s') j = bit (nonempty_mask s) j"
        using inline_listsD(1) [OF G j(1)] by simp
    qed (use c di D(3) PL rem snoc in auto)
    ultimately show ?thesis using that q by (simp add: same_shadow_def)
  qed
qed

end
