(* ===== verification/Buddy_Kernel_Inv.thy ===== *)
theory Buddy_Kernel_Inv
  imports Buddy_Kernel_Lists
begin

text \<open>
  The representation invariant of the kernel pool and its abstract view: a set \<open>F\<close> of free
  blocks, a set \<open>U\<close> of allocated blocks, and, in the middle of an operation, the block
  \<open>H\<close> in hand.  Each primitive move of the allocator (taking a block off a list, splitting
  it, merging it with its buddy, marking it used, giving it back) is one lemma on \<open>pool\<close>;
  the allocation and release theorems compose them.
\<close>

section \<open>Families of blocks\<close>

definition block_family :: "(u64 \<times> nat) set \<Rightarrow> bool" where
  "block_family B \<longleftrightarrow>
     (\<forall>a k. (a, k) \<in> B \<longrightarrow> 12 \<le> k \<and> k < 64 \<and> aligned a k) \<and>
     (\<forall>a j b k. (a, j) \<in> B \<longrightarrow> (b, k) \<in> B \<longrightarrow> (a, j) \<noteq> (b, k) \<longrightarrow> blk a j \<inter> blk b k = {})"

definition covers :: "(u64 \<times> nat) set \<Rightarrow> u64 set" where
  "covers B = (\<Union>(a, k)\<in>B. blk a k)"

lemma covers_simps [simp]:
  "covers {} = {}" "covers (insert (a, k) B) = blk a k \<union> covers B"
  "covers (A \<union> B) = covers A \<union> covers B"
  by (auto simp: covers_def)

lemma block_familyD:
  assumes "block_family B" and "(a, k) \<in> B"
  shows "12 \<le> k" and "k < 64" and "aligned a k" and "aligned a 12"
    and "(b, j) \<in> B \<Longrightarrow> (a, k) \<noteq> (b, j) \<Longrightarrow> blk a k \<inter> blk b j = {}"
proof -
  from assms show "12 \<le> k" "k < 64" "aligned a k" unfolding block_family_def by blast+
  then show "aligned a 12" by (blast intro: aligned_mono)
  show "(b, j) \<in> B \<Longrightarrow> (a, k) \<noteq> (b, j) \<Longrightarrow> blk a k \<inter> blk b j = {}"
    using assms unfolding block_family_def by blast
qed

lemma block_family_subset: "block_family B \<Longrightarrow> A \<subseteq> B \<Longrightarrow> block_family A"
  unfolding block_family_def by blast

lemma block_family_unique:
  assumes "block_family B" and "(a, j) \<in> B" and "(a, k) \<in> B"
  shows "j = k"
  using block_familyD(5) [OF assms(1,2,3)] by (metis IntI blk_refl empty_iff prod.inject)

lemma block_family_insert:
  assumes "12 \<le> k" "k < 64" "aligned a k" "block_family B" "blk a k \<inter> covers B = {}"
  shows "block_family (insert (a, k) B)"
proof -
  have "blk a k \<inter> blk b j = {}" if "(b, j) \<in> B" for b j
    using that assms(5) by (auto simp: covers_def)
  with assms(1-4) show ?thesis unfolding block_family_def by blast
qed

lemma block_family_notin_covers:
  assumes "block_family (insert (a, k) B)" and "(a, k) \<notin> B"
  shows "blk a k \<inter> covers B = {}"
  proof -
  have "blk a k \<inter> blk b j = {}" if "(b, j) \<in> B" for b j
    using that assms unfolding block_family_def by (metis insertCI)
  then show ?thesis by (auto simp: covers_def)
qed

text \<open>Splitting a block of the family into its halves, and the converse merge.\<close>

lemma block_family_split:
  assumes fam: "block_family (insert (a, Suc k) B)" and new: "(a, Suc k) \<notin> B" and k: "12 \<le> k"
  shows "block_family (insert (a, k) (insert (a XOR 2 ^ k, k) B))"
    and "(a, k) \<notin> B" and "(a XOR 2 ^ k, k) \<notin> B"
proof -
  have al: "Suc k < 64" "aligned a (Suc k)" using fam by (auto simp: block_family_def)
  have dis: "blk a (Suc k) \<inter> covers B = {}" by (rule block_family_notin_covers [OF fam new])
  have sp: "blk a (Suc k) = blk a k \<union> blk (a XOR 2 ^ k) k" using al by (simp add: blk_split)
  have al2: "aligned a k" using al by (auto intro: aligned_mono)
  then have al2: "aligned a k" "aligned (a XOR 2 ^ k) k" by (simp_all add: aligned_xor)
  have "block_family B" using fam by (rule block_family_subset) auto
  then have "block_family (insert (a XOR 2 ^ k, k) B)"
    using k al al2 dis sp by (intro block_family_insert) auto
  then show "block_family (insert (a, k) (insert (a XOR 2 ^ k, k) B))"
    by (rule block_family_insert [rotated 3])
      (use k al al2 dis sp blk_halves_disjoint [of k a] in auto)
  have "a \<in> blk a (Suc k)" "a XOR 2 ^ k \<in> blk a (Suc k)" using sp by auto
  with dis show "(a, k) \<notin> B" "(a XOR 2 ^ k, k) \<notin> B" by (auto simp: covers_def)
qed

lemma lower_half_less:
  assumes "k < 64"
  shows "a < a XOR 2 ^ k \<longleftrightarrow> \<not> bit (a::u64) k"
proof -
  have *: "x < x XOR 2 ^ k" if "\<not> bit x k" for x :: u64
  proof -
    have "x XOR 2 ^ k = x OR 2 ^ k"
      using that by (intro word64_bits_eqI) (auto simp: bit_xor_iff bit_or_iff bit_two_pow)
    then have "unat (x XOR 2 ^ k) = unat x OR 2 ^ k"
      using assms by (simp add: unsigned_or_eq unat_two_pow)
    also have "\<dots> = unat x + 2 ^ k"
      using that by (intro disjunctive_add [symmetric])
        (auto simp: bit_exp_iff bit_unsigned_iff)
    finally show ?thesis by (simp add: word_less_nat_alt)
  qed
  show ?thesis
  proof
    assume "a < a XOR 2 ^ k"
    then show "\<not> bit a k" using * [of "a XOR 2 ^ k"] assms
      by (auto simp: bit_xor_iff bit_two_pow)
  qed (rule *)
qed

definition buddy_lower :: "u64 \<Rightarrow> nat \<Rightarrow> u64" where
  "buddy_lower a k = (if a < a XOR 2 ^ k then a else a XOR 2 ^ k)"

lemma buddy_lower_cases: "buddy_lower a k = a \<or> buddy_lower a k = a XOR 2 ^ k"
  by (auto simp: buddy_lower_def)

lemma buddy_lower_aligned:
  assumes "k < 64" and "aligned a k"
  shows "aligned (buddy_lower a k) (Suc k)"
  using assms by (auto simp: buddy_lower_def lower_half_less aligned_bits bit_xor_iff bit_two_pow
    less_Suc_eq)

lemma buddy_lower_blk:
  assumes "k < 64"
  shows "blk (buddy_lower a k) (Suc k) = blk a k \<union> blk (a XOR 2 ^ k) k"
  using assms by (auto simp: buddy_lower_def blk_split)

lemma block_family_merge:
  assumes fam: "block_family (insert (a, k) (insert (a XOR 2 ^ k, k) B))"
    and new: "(a, k) \<notin> B" "(a XOR 2 ^ k, k) \<notin> B" and k: "Suc k < 64"
  shows "block_family (insert (buddy_lower a k, Suc k) B)"
    and "(buddy_lower a k, Suc k) \<notin> B"
proof -
  have ak: "12 \<le> k" "aligned a k" using fam by (auto simp: block_family_def)
  have ne: "a \<noteq> a XOR 2 ^ k" using xor_two_pow_neq [of k a] k by auto
  have fam2: "block_family (insert (a XOR 2 ^ k, k) B)"
    using fam by (rule block_family_subset) auto
  have d1: "blk a k \<inter> covers B = {}"
    using block_family_notin_covers [OF fam] new ne by auto
  have d2: "blk (a XOR 2 ^ k) k \<inter> covers B = {}"
    using block_family_notin_covers [OF fam2 new(2)] .
  have bl: "blk (buddy_lower a k) (Suc k) \<inter> covers B = {}"
    using d1 d2 buddy_lower_blk [of k a] k by auto
  show "block_family (insert (buddy_lower a k, Suc k) B)"
    using ak k bl fam buddy_lower_aligned [of k a]
    by (intro block_family_insert) (auto intro: block_family_subset)
  show "(buddy_lower a k, Suc k) \<notin> B"
    using bl by (auto simp: covers_def)
qed

section \<open>The shadow table as a function\<close>

definition shadow_wf :: "kbuddy \<Rightarrow> bool" where
  "shadow_wf s \<longleftrightarrow> kshadow_base_pfn s \<noteq> 0 \<and>
     unat (kshadow_base_pfn s) + unat (kshadow_pfn_count s) \<le> 2 ^ 52 \<and>
     (\<exists>t. kshadow s = Some t \<and> length t = unat (kshadow_pfn_count s))"

lemma in_range_iff:
  assumes "shadow_wf s"
  shows "kshadow_in_range s a \<longleftrightarrow> unat (kshadow_base_pfn s) \<le> unat (pfn a) \<and>
    unat (pfn a) < unat (kshadow_base_pfn s) + unat (kshadow_pfn_count s)"
proof -
  have "unat (kshadow_base_pfn s + kshadow_pfn_count s) =
      unat (kshadow_base_pfn s) + unat (kshadow_pfn_count s)"
    using assms by (subst unat_add_lem [THEN iffD1]) (auto simp: shadow_wf_def)
  then show ?thesis using assms
    by (auto simp: kshadow_in_range_def shadow_wf_def word_le_nat_alt word_less_nat_alt)
qed

lemma in_range_not_null: "shadow_wf s \<Longrightarrow> kshadow_in_range s a \<Longrightarrow> a \<noteq> 0"
  using in_range_iff [of s a] by (auto simp: shadow_wf_def pfn_def unat_0_iff)

lemma shadow_idx_less:
  assumes "shadow_wf s" and "kshadow_in_range s a"
  shows "shadow_idx s a < unat (kshadow_pfn_count s)"
    and "shadow_idx s a = unat (pfn a) - unat (kshadow_base_pfn s)"
proof -
  have *: "unat (pfn a - kshadow_base_pfn s) = unat (pfn a) - unat (kshadow_base_pfn s)"
    using assms in_range_iff [OF assms(1), of a] by (simp add: unat_sub word_le_nat_alt)
  then show "shadow_idx s a < unat (kshadow_pfn_count s)"
    "shadow_idx s a = unat (pfn a) - unat (kshadow_base_pfn s)"
    using assms in_range_iff [OF assms(1), of a] by (auto simp: shadow_idx_def)
qed

lemma pfn_eq_iff_blk: "pfn a = pfn b \<longleftrightarrow> a \<in> blk b 12"
  by (auto simp: pfn_def PAGE_SIZE_LOG2_def blk_def)

lemma pfn_inj: "aligned a 12 \<Longrightarrow> aligned b 12 \<Longrightarrow> pfn a = pfn b \<longleftrightarrow> a = b"
  by (metis aligned_blk_unique pfn_eq_iff_blk)

lemma load_store:
  assumes "shadow_wf s" and "kshadow_in_range s a" and "kshadow_in_range s b"
    and "aligned a 12" and "aligned b 12"
  shows "kshadow_load (kshadow_store a v s) b = (if b = a then v else kshadow_load s b)"
proof -
  have "shadow_idx s a = shadow_idx s b \<longleftrightarrow> pfn a = pfn b"
    using shadow_idx_less(2) [OF assms(1,2)] shadow_idx_less(2) [OF assms(1,3)]
      in_range_iff [OF assms(1), of a] in_range_iff [OF assms(1), of b] assms(2,3)
    by (auto simp: word_unat_eq_iff)
  then have "shadow_idx s a = shadow_idx s b \<longleftrightarrow> a = b" using assms pfn_inj by simp
  then show ?thesis
    using assms(1) shadow_idx_less(1) [OF assms(1,2)]
    by (auto simp: kshadow_load_def kshadow_store_def shadow_idx_def shadow_wf_def)
qed

lemma store_frame [simp]:
  "shadow_wf (kshadow_store a v s) = shadow_wf s"
  "kshadow_in_range (kshadow_store a v s) b = kshadow_in_range s b"
  "heads (kshadow_store a v s) = heads s" "slot (kshadow_store a v s) = slot s"
  "nonempty_mask (kshadow_store a v s) = nonempty_mask s"
  "kshadow_base_pfn (kshadow_store a v s) = kshadow_base_pfn s"
  "kshadow_pfn_count (kshadow_store a v s) = kshadow_pfn_count s"
  by (auto simp: kshadow_store_def shadow_wf_def kshadow_in_range_def)

lemma inline_lists_store [simp]: "inline_lists (kshadow_store a v s) G = inline_lists s G"
  by (simp add: inline_lists_def)

lemma same_shadow_frame:
  assumes "same_shadow s s'"
  shows "shadow_wf s' = shadow_wf s" and "kshadow_in_range s' = kshadow_in_range s"
    and "kshadow_load s' = kshadow_load s"
  using assms by (auto simp: same_shadow_def shadow_wf_def kshadow_in_range_def kshadow_load_def
    shadow_idx_def fun_eq_iff split: option.splits)

lemma same_shadow_push [simp]: "same_shadow s (inline_push k a s)"
  by (simp add: same_shadow_def inline_push_def)

section \<open>The shadow bytes\<close>

text \<open>All 64 orders, by evaluation.\<close>

lemma order_bytes_eval:
  "list_all (\<lambda>k. used_byte k AND KSHADOW_FREE_FLAG = 0 \<and> free_byte k AND KSHADOW_FREE_FLAG \<noteq> 0 \<and>
     unat (used_byte k AND KSHADOW_ORDER_MASK) = k \<and> unat (free_byte k AND KSHADOW_ORDER_MASK) = k)
   [0..<64]"
  by code_simp

lemma order_bytes:
  assumes "k < 64"
  shows "used_byte k AND KSHADOW_FREE_FLAG = 0" and "free_byte k AND KSHADOW_FREE_FLAG \<noteq> 0"
    and "unat (used_byte k AND KSHADOW_ORDER_MASK) = k"
    and "unat (free_byte k AND KSHADOW_ORDER_MASK) = k"
    and "free_byte k \<noteq> 0"
proof -
  have "k \<in> set [0..<64]" using assms by simp
  then show *: "used_byte k AND KSHADOW_FREE_FLAG = 0" "free_byte k AND KSHADOW_FREE_FLAG \<noteq> 0"
    "unat (used_byte k AND KSHADOW_ORDER_MASK) = k" "unat (free_byte k AND KSHADOW_ORDER_MASK) = k"
    using order_bytes_eval unfolding list_all_iff by blast+
  show "free_byte k \<noteq> 0" using *(2) by (metis bit.conj_zero_left)
qed

lemma free_byte_inj: "j < 64 \<Longrightarrow> k < 64 \<Longrightarrow> free_byte j = free_byte k \<longleftrightarrow> j = k"
  by (metis order_bytes(4))

lemma used_byte_inj: "j < 64 \<Longrightarrow> k < 64 \<Longrightarrow> used_byte j = used_byte k \<longleftrightarrow> j = k"
  by (metis order_bytes(3))

lemma used_byte_neq: "j < 64 \<Longrightarrow> k < 64 \<Longrightarrow> used_byte j \<noteq> free_byte k"
  by (metis order_bytes(1,2))

lemma used_byte_nonzero: "12 \<le> k \<Longrightarrow> k < 64 \<Longrightarrow> used_byte k \<noteq> 0"
  by (metis order_bytes(3) bit.conj_zero_left unat_0 not_numeral_le_zero)

section \<open>The pool relation\<close>

definition shadow_rel :: "kbuddy \<Rightarrow> (u64 \<times> nat) set \<Rightarrow> (u64 \<times> nat) set \<Rightarrow> (u64 \<times> nat) set \<Rightarrow> bool" where
  "shadow_rel s F U H \<longleftrightarrow>
     (\<forall>a k. (a, k) \<in> F \<longrightarrow> kshadow_load s a = free_byte k) \<and>
     (\<forall>a k. (a, k) \<in> U \<longrightarrow> kshadow_load s a = used_byte k) \<and>
     (\<forall>a. aligned a 12 \<longrightarrow> kshadow_in_range s a \<longrightarrow> a \<notin> fst ` (F \<union> U \<union> H) \<longrightarrow> kshadow_load s a = 0)"

definition lists_rel :: "kbuddy \<Rightarrow> (u64 \<times> nat) set \<Rightarrow> bool" where
  "lists_rel s F \<longleftrightarrow> (\<exists>G. inline_lists s G \<and> (\<forall>k<64. set (G k) = {a. (a, k) \<in> F}))"

definition pool :: "kbuddy \<Rightarrow> (u64 \<times> nat) set \<Rightarrow> (u64 \<times> nat) set \<Rightarrow> (u64 \<times> nat) set \<Rightarrow> bool" where
  "pool s F U H \<longleftrightarrow> shadow_wf s \<and> lists_rel s F \<and> shadow_rel s F U H \<and>
     block_family (F \<union> U \<union> H) \<and> F \<inter> U = {} \<and> (F \<union> U) \<inter> H = {} \<and>
     (\<forall>x\<in>covers (F \<union> U \<union> H). kshadow_in_range s x)"

text \<open>The invariant between operations: no block in hand.\<close>

definition pool_inv :: "kbuddy \<Rightarrow> (u64 \<times> nat) set \<Rightarrow> (u64 \<times> nat) set \<Rightarrow> bool" where
  "pool_inv s F U \<longleftrightarrow> pool s F U {}"

lemma poolD:
  assumes "pool s F U H"
  shows "shadow_wf s" and "lists_rel s F" and "shadow_rel s F U H" and "block_family (F \<union> U \<union> H)"
    and "F \<inter> U = {}" and "(F \<union> U) \<inter> H = {}" and "x \<in> covers (F \<union> U \<union> H) \<Longrightarrow> kshadow_in_range s x"
  using assms by (auto simp: pool_def)

lemma pool_block:
  assumes "pool s F U H" and "(a, k) \<in> F \<union> U \<union> H"
  shows "12 \<le> k" and "k < 64" and "aligned a k" and "aligned a 12" and "kshadow_in_range s a" and "a \<noteq> 0"
proof -
  note B = block_familyD [OF poolD(4) [OF assms(1)] assms(2)]
  show "12 \<le> k" "k < 64" "aligned a k" "aligned a 12" by (fact B)+
  have "a \<in> covers (F \<union> U \<union> H)" unfolding covers_def using assms(2) by blast
  then show r: "kshadow_in_range s a" by (rule poolD(7) [OF assms(1)])
  show "a \<noteq> 0" using in_range_not_null [OF poolD(1) [OF assms(1)] r] .
qed

lemma pool_unique:
  assumes "pool s F U H" and "(a, j) \<in> F \<union> U \<union> H" and "(a, k) \<in> F \<union> U \<union> H"
  shows "j = k"
  using block_family_unique [OF poolD(4) [OF assms(1)] assms(2,3)] .

lemma lists_rel_frame:
  assumes "heads s' = heads s" "slot s' = slot s" "nonempty_mask s' = nonempty_mask s"
  shows "lists_rel s' F = lists_rel s F"
  using assms by (simp add: lists_rel_def inline_lists_def)

text \<open>Writing one shadow byte for the block in hand.\<close>

lemma shadow_rel_store:
  assumes p: "pool s F U (insert (a, k) H)" and new: "(a, k) \<notin> H"
  shows "v = free_byte k \<Longrightarrow> shadow_rel (kshadow_store a v s) (insert (a, k) F) U H"
    and "v = used_byte k \<Longrightarrow> shadow_rel (kshadow_store a v s) F (insert (a, k) U) H"
proof -
  note rel = poolD(3) [OF p]
  have blk: "(a, k) \<in> F \<union> U \<union> insert (a, k) H" by simp
  note a = pool_block [OF p blk]
  have ne: "b \<noteq> a" if "(b, j) \<in> F \<union> U" for b j
    using that pool_unique [OF p, of b j k] poolD(6) [OF p] by auto
  have ld: "kshadow_load (kshadow_store a v s) b = (if b = a then v else kshadow_load s b)"
    if "aligned b 12" "kshadow_in_range s b" for b v
    using load_store [OF poolD(1) [OF p] a(5) that(2) a(4) that(1)] .
  have ldF: "kshadow_load (kshadow_store a v s) b = kshadow_load s b" if "(b, j) \<in> F \<union> U" for b j v
    using ld pool_block [OF p, of b j] that ne [OF that] by auto
  have ldU: "(b, j) \<in> F \<Longrightarrow> kshadow_load (kshadow_store a v s) b = free_byte j"
    "(b, j) \<in> U \<Longrightarrow> kshadow_load (kshadow_store a v s) b = used_byte j" for b j v
    using ldF [of b j] rel by (auto simp: shadow_rel_def)
  have lda: "kshadow_load (kshadow_store a v s) a = v" for v using ld a by simp
  show "v = free_byte k \<Longrightarrow> shadow_rel (kshadow_store a v s) (insert (a, k) F) U H"
    using rel ldU lda ld unfolding shadow_rel_def by (auto simp: image_Un)
  show "v = used_byte k \<Longrightarrow> shadow_rel (kshadow_store a v s) F (insert (a, k) U) H"
    using rel ldU lda ld unfolding shadow_rel_def by (auto simp: image_Un)
qed

section \<open>Moves on the lists\<close>

lemma lists_rel_mask:
  assumes "lists_rel s F" and "k < 64"
  shows "bit (nonempty_mask s) k \<longleftrightarrow> (\<exists>a. (a, k) \<in> F)"
proof -
  from assms obtain G where G: "inline_lists s G" and set: "set (G k) = {a. (a, k) \<in> F}"
    by (auto simp: lists_rel_def)
  show ?thesis using inline_listsD(3) [OF G assms(2)] set by (cases "G k") auto
qed

lemma lists_rel_pop:
  assumes "lists_rel s F" and k: "k < 64" and "bit (nonempty_mask s) k"
  obtains a s' where "inline_pop k s = (a, s')" and "(a, k) \<in> F" and "lists_rel s' (F - {(a, k)})"
    and "same_shadow s s'" and "slot s' = slot s"
proof -
  from assms(1) obtain G where G: "inline_lists s G" and set: "\<forall>k<64. set (G k) = {a. (a, k) \<in> F}"
    by (auto simp: lists_rel_def)
  from inline_listsD(3) [OF G k] assms(3) obtain a L where L: "G k = a # L"
    by (cases "G k") auto
  from inline_pop_lists [OF G k L] obtain s' where
    s': "inline_pop k s = (a, s')" "inline_lists s' (G(k := L))" "same_shadow s s'" "slot s' = slot s" .
  have "a \<notin> set L" using inline_listsD(2) [OF G k] L by simp
  moreover have Sk: "insert a (set L) = {a. (a, k) \<in> F}" using set [rule_format, OF k] L by simp
  ultimately have "set L = {b. (b, k) \<in> F - {(a, k)}}" by auto
  then have "\<forall>j<64. set ((G(k := L)) j) = {b. (b, j) \<in> F - {(a, k)}}" using set by auto
  moreover have "(a, k) \<in> F" using Sk by auto
  ultimately show ?thesis using that s' unfolding lists_rel_def by blast
qed

lemma lists_rel_push:
  assumes "lists_rel s F" and k: "k < 64" and a: "a \<noteq> 0" "\<And>j. (a, j) \<notin> F"
  shows "lists_rel (inline_push k a s) (insert (a, k) F)"
proof -
  from assms(1) obtain G where G: "inline_lists s G" and set: "\<forall>k<64. set (G k) = {a. (a, k) \<in> F}"
    by (auto simp: lists_rel_def)
  have "inline_lists (inline_push k a s) (G(k := a # G k))"
    using set a by (intro inline_push_lists [OF G k]) auto
  moreover have "\<forall>j<64. set ((G(k := a # G k)) j) = {b. (b, j) \<in> insert (a, k) F}" using set by auto
  ultimately show ?thesis unfolding lists_rel_def by blast
qed

lemma lists_rel_remove:
  assumes "lists_rel s F" and k: "k < 64" and a: "(a, k) \<in> F"
  obtains s' where "inline_remove k a s = Some (True, s')" and "lists_rel s' (F - {(a, k)})"
    and "same_shadow s s'" and "\<And>x. (x, k) \<notin> F \<Longrightarrow> slot s' x = slot s x"
proof -
  from assms(1) obtain G where G: "inline_lists s G" and set: "\<forall>k<64. set (G k) = {a. (a, k) \<in> F}"
    by (auto simp: lists_rel_def)
  have mem: "a \<in> set (G k)" using set k a by auto
  from inline_remove_lists [OF G k mem] obtain s' where
    s': "inline_remove k a s = Some (True, s')" "inline_lists s' (G(k := remove1 a (G k)))"
      "same_shadow s s'" "\<forall>x. x \<notin> set (G k) \<longrightarrow> slot s' x = slot s x" by metis
  have "set (remove1 a (G k)) = {b. (b, k) \<in> F - {(a, k)}}"
    using inline_listsD(2) [OF G k] set k by auto
  then have "\<forall>j<64. set ((G(k := remove1 a (G k))) j) = {b. (b, j) \<in> F - {(a, k)}}" using set by auto
  then have "lists_rel s' (F - {(a, k)})" using s'(2) unfolding lists_rel_def by blast
  then show ?thesis using that s' set k by auto
qed

section \<open>Moves on the pool\<close>

lemma pool_same_shadow:
  assumes "same_shadow s s'"
  shows "shadow_rel s' F U H = shadow_rel s F U H"
  using same_shadow_frame [OF assms] by (simp add: shadow_rel_def)

lemma pool_take:
  assumes p: "pool s F U {}" and k: "k < 64" and ne: "bit (nonempty_mask s) k"
  obtains a s' where "inline_pop k s = (a, s')" and "(a, k) \<in> F" and "pool s' (F - {(a, k)}) U {(a, k)}"
    and "slot s' = slot s"
proof -
  from lists_rel_pop [OF poolD(2) [OF p] k ne] obtain a s' where
    s': "inline_pop k s = (a, s')" "(a, k) \<in> F" "lists_rel s' (F - {(a, k)})" "same_shadow s s'"
      "slot s' = slot s" .
  have eq: "F - {(a, k)} \<union> U \<union> {(a, k)} = F \<union> U \<union> {}" using s'(2) by auto
  have "shadow_rel s (F - {(a, k)}) U {(a, k)}"
    using poolD(3) [OF p] unfolding shadow_rel_def eq by auto
  then have "shadow_rel s' (F - {(a, k)}) U {(a, k)}" by (simp add: pool_same_shadow [OF s'(4)])
  then have "pool s' (F - {(a, k)}) U {(a, k)}"
    using p s' same_shadow_frame [OF s'(4)] unfolding pool_def eq by auto
  then show ?thesis using that s' by blast
qed

lemma pool_hand_notin:
  assumes "pool s F U (insert (a, k) H)"
  shows "(a, j) \<notin> F" and "(a, j) \<notin> U"
proof -
  have "j = k" if "(a, j) \<in> F \<union> U" using pool_unique [OF assms, of a j k] that by auto
  then show "(a, j) \<notin> F" "(a, j) \<notin> U" using poolD(6) [OF assms] by auto
qed

lemma pool_give:
  assumes p: "pool s F U (insert (a, k) H)" and new: "(a, k) \<notin> H"
  shows "pool (kshadow_set_free a k (inline_push k a s)) (insert (a, k) F) U H"
proof -
  let ?s1 = "inline_push k a s"
  have a: "k < 64" "kshadow_in_range s a" "a \<noteq> 0" using pool_block [OF p, of a k] by auto
  note fr = same_shadow_frame [OF same_shadow_push [of s k a]]
  have lr: "lists_rel ?s1 (insert (a, k) F)"
    using lists_rel_push [OF poolD(2) [OF p] a(1,3)] pool_hand_notin [OF p] by blast
  have "shadow_rel (kshadow_store a (free_byte k) s) (insert (a, k) F) U H"
    using shadow_rel_store [OF p new] by simp
  moreover have "kshadow_load (kshadow_store a (free_byte k) ?s1) =
      kshadow_load (kshadow_store a (free_byte k) s)"
    by (auto simp: fun_eq_iff kshadow_load_def kshadow_store_def shadow_idx_def inline_push_def
      split: option.splits)
  ultimately have sr: "shadow_rel (kshadow_store a (free_byte k) ?s1) (insert (a, k) F) U H"
    using fr(2) by (simp add: shadow_rel_def)
  have "lists_rel (kshadow_store a (free_byte k) ?s1) (insert (a, k) F)"
    using lr by (subst lists_rel_frame [of _ ?s1]) auto
  moreover have eq: "insert (a, k) F \<union> U \<union> H = F \<union> U \<union> insert (a, k) H" by auto
  ultimately have "pool (kshadow_store a (free_byte k) ?s1) (insert (a, k) F) U H"
    using p sr fr new pool_hand_notin [OF p] unfolding pool_def eq by auto
  then show ?thesis using a(2) fr(2) by (simp add: kshadow_set_free_def)
qed

lemma pool_use:
  assumes p: "pool s F U (insert (a, k) H)" and new: "(a, k) \<notin> H"
  shows "pool (kshadow_set_used a k s) F (insert (a, k) U) H"
proof -
  have a: "kshadow_in_range s a" using pool_block [OF p, of a k] by auto
  have sr: "shadow_rel (kshadow_store a (used_byte k) s) F (insert (a, k) U) H"
    using shadow_rel_store [OF p new] by simp
  have lr: "lists_rel (kshadow_store a (used_byte k) s) F"
    using poolD(2) [OF p] by (subst lists_rel_frame [of _ s]) auto
  have eq: "F \<union> insert (a, k) U \<union> H = F \<union> U \<union> insert (a, k) H" by auto
  have "pool (kshadow_store a (used_byte k) s) F (insert (a, k) U) H"
    using p sr lr new pool_hand_notin [OF p] unfolding pool_def eq by auto
  then show ?thesis using a by (simp add: kshadow_set_used_def)
qed

lemma pool_unuse:
  assumes p: "pool s F U {}" and a: "(a, k) \<in> U"
  shows "pool s F (U - {(a, k)}) {(a, k)}"
proof -
  have eq: "F \<union> (U - {(a, k)}) \<union> {(a, k)} = F \<union> U \<union> {}" using a by auto
  have "shadow_rel s F (U - {(a, k)}) {(a, k)}"
    using poolD(3) [OF p] unfolding shadow_rel_def eq by auto
  then show ?thesis using p a unfolding pool_def eq by auto
qed

text \<open>Splitting the block in hand: the upper half goes on the free list.\<close>

lemma pool_split_hand:
  assumes p: "pool s F U {(a, Suc k)}" and k: "12 \<le> k"
  shows "pool s F U {(a, k), (a XOR 2 ^ k, k)}"
proof -
  have B: "block_family (insert (a, Suc k) (F \<union> U))" "(a, Suc k) \<notin> F \<union> U"
    using poolD(4,6) [OF p] by auto
  note sp = block_family_split [OF B k]
  have k64: "k < 64" using pool_block [OF p, of a "Suc k"] by simp
  have cov: "covers (F \<union> U \<union> {(a, k), (a XOR 2 ^ k, k)}) = covers (F \<union> U \<union> {(a, Suc k)})"
    using blk_split [OF k64, of a] by auto
  have fam: "block_family (F \<union> U \<union> {(a, k), (a XOR 2 ^ k, k)})" using sp(1) by (simp add: insert_commute)
  have "shadow_rel s F U {(a, k), (a XOR 2 ^ k, k)}"
    using poolD(3) [OF p] unfolding shadow_rel_def by auto
  then show ?thesis using p fam cov sp(2,3) unfolding pool_def by auto
qed

end
