(* ===== verification/Buddy_Kernel_Correct.thy ===== *)
theory Buddy_Kernel_Correct
  imports Buddy_Kernel_Inv
begin

text \<open>
  Correctness of the kernel page allocator: allocation, release and their effect on the sets
  of free and allocated blocks, maximal coalescing, and pool initialisation.
\<close>

section \<open>Allocation\<close>

lemma pool_split:
  assumes p: "pool s F U {(a, Suc k)}" and k: "12 \<le> k"
  defines "b \<equiv> a XOR 2 ^ k"
  shows "pool (kshadow_set_free b k (inline_push k b s)) (insert (b, k) F) U {(a, k)}"
proof -
  have "k < 64" using pool_block [OF p, of a "Suc k"] by simp
  then have "b \<noteq> a" unfolding b_def by (rule xor_two_pow_neq)
  moreover have "pool s F U (insert (b, k) {(a, k)})"
    using pool_split_hand [OF p k] unfolding b_def by (simp add: insert_commute)
  ultimately show ?thesis by (intro pool_give) auto
qed

lemma split_loop_pool:
  assumes "pool s F U {(a, c)}" and "order \<le> c" and "12 \<le> order"
  shows "pool (split_loop c order a s) (F \<union> (\<lambda>j. (a XOR 2 ^ j, j)) ` {order..<c}) U {(a, order)}"
  using assms
proof (induction c arbitrary: s F)
  case (Suc c)
  show ?case
  proof (cases "order = Suc c")
    case True
    then show ?thesis using Suc.prems(1) by simp
  next
    case False
    with Suc.prems have o: "order \<le> c" "12 \<le> c" by auto
    let ?b = "a XOR 2 ^ c" and ?s = "kshadow_set_free (a XOR 2 ^ c) c (inline_push c (a XOR 2 ^ c) s)"
    have "pool ?s (insert (?b, c) F) U {(a, c)}" using pool_split [OF Suc.prems(1) o(2)] .
    from Suc.IH [OF this o(1) Suc.prems(3)]
    have "pool (split_loop c order a ?s)
        (insert (?b, c) F \<union> (\<lambda>j. (a XOR 2 ^ j, j)) ` {order..<c}) U {(a, order)}" .
    moreover have "{order..<Suc c} = insert c {order..<c}" using o by auto
    ultimately show ?thesis using o by (simp add: Let_def)
  qed
qed simp

lemma covers_split_family:
  "order \<le> c \<Longrightarrow> c \<le> 64 \<Longrightarrow>
   blk a order \<union> covers ((\<lambda>j. (a XOR 2 ^ j, j)) ` {order..<c}) = blk a c"
proof (induction c)
  case (Suc c)
  show ?case
  proof (cases "order = Suc c")
    case False
    with Suc.prems have o: "order \<le> c" "c < 64" by auto
    have "{order..<Suc c} = insert c {order..<c}" using o by auto
    then have "blk a order \<union> covers ((\<lambda>j. (a XOR 2 ^ j, j)) ` {order..<Suc c}) =
        blk (a XOR 2 ^ c) c \<union> (blk a order \<union> covers ((\<lambda>j. (a XOR 2 ^ j, j)) ` {order..<c}))"
      by auto
    also have "\<dots> = blk (a XOR 2 ^ c) c \<union> blk a c" using Suc.IH o by simp
    also have "\<dots> = blk a (Suc c)" using blk_split [OF o(2), of a] by auto
    finally show ?thesis .
  qed simp
qed simp

lemma hi_mask_bits: "bit (m AND NOT (2 ^ order - 1) :: u64) i \<longleftrightarrow> bit m i \<and> order \<le> i"
proof -
  have "(2 ^ order - 1 :: u64) = mask order" by (simp add: mask_eq_exp_minus_1)
  then show ?thesis by (auto simp: bit_and_iff bit_not_iff bit_mask_iff dest: bit64)
qed

text \<open>The order the request is rounded to is the least block order that fits.\<close>

lemma request_order_bounds:
  assumes "BiggestBit sz = Some b"
  defines "k \<equiv> request_order sz b"
  shows "12 \<le> k" and "unat sz \<le> 2 ^ k" and "k = 12 \<or> 2 ^ (k - 1) < unat sz"
proof -
  note B = BiggestBit_bounds [OF assms(1)]
  show "12 \<le> k" by (simp add: k_def request_order_def PAGE_SIZE_LOG2_def Let_def)
  have mono: "(2::nat) ^ i \<le> 2 ^ j" if "i \<le> j" for i j using that by (intro power_increasing) auto
  show "unat sz \<le> 2 ^ k" and "k = 12 \<or> 2 ^ (k - 1) < unat sz"
  proof -
    let ?o = "if \<not> IsPowerOfTwo sz then b + 1 else b"
    have k: "k = max 12 ?o"
      by (auto simp: k_def request_order_def PAGE_SIZE_LOG2_def Let_def)
    have o: "unat sz \<le> 2 ^ ?o" and o2: "?o = 0 \<or> 2 ^ (?o - 1) < unat sz"
    proof -
      show "unat sz \<le> 2 ^ ?o"
      proof (cases "IsPowerOfTwo sz")
        case True
        then obtain j where j: "unat sz = 2 ^ j" using IsPowerOfTwo_iff by blast
        then have "j = b" using B(2,3)
          by (metis le_antisym less_Suc_eq_le nat_power_less_imp_less one_less_numeral_iff
            power_increasing_iff power_strict_increasing_iff semiring_norm(76))
        then show ?thesis using j True by simp
      next
        case False then show ?thesis using B(3) by simp
      qed
      show "?o = 0 \<or> 2 ^ (?o - 1) < unat sz"
      proof (cases "IsPowerOfTwo sz")
        case True
        show ?thesis
        proof (cases b)
          case (Suc c)
          then have "(2::nat) ^ c < 2 ^ b" by simp
          also have "\<dots> \<le> unat sz" by (rule B(2))
          finally show ?thesis using True Suc by simp
        qed (use True in simp)
      next
        case False
        then have "unat sz \<noteq> 2 ^ b" using IsPowerOfTwo_iff by blast
        then show ?thesis using False B(2) by simp
      qed
    qed
    show "unat sz \<le> 2 ^ k" using o mono [of ?o k] k by (meson le_trans max.cobounded2)
    show "k = 12 \<or> 2 ^ (k - 1) < unat sz" using o2 k by (cases "?o \<le> 12") auto
  qed
qed

definition fits :: "u64 \<Rightarrow> nat \<Rightarrow> bool" where
  "fits sz k \<longleftrightarrow> 12 \<le> k \<and> unat sz \<le> 2 ^ k \<and> (k = 12 \<or> 2 ^ (k - 1) < unat sz)"

text \<open>The allocation path in terms of the abstract blocks.\<close>

lemma kernel_request_cases:
  assumes p: "pool s F U {}" and sz: "sz \<noteq> 0"
  obtains k where "fits sz k" and "kernel_request_buddy sz s = Some (0, s)"
    and "\<And>a j. (a, j) \<in> F \<Longrightarrow> j < k"
  | k a c s1 where "fits sz k" and "k \<le> c" and "c < 64" and "(a, c) \<in> F"
    and "inline_pop c s = (a, s1)" and "pool s1 (F - {(a, c)}) U {(a, c)}" and "slot s1 = slot s"
    and "kernel_request_buddy sz s = Some (a, kshadow_set_used a k (split_loop c k a s1))"
proof -
  obtain b where b: "BiggestBit sz = Some b" using sz by (auto simp: BiggestBit_def)
  define k where "k = request_order sz b"
  have fit: "fits sz k" using request_order_bounds [OF b] by (simp add: fits_def k_def)
  let ?hi = "nonempty_mask s AND NOT (2 ^ k - 1)"
  have F64: "j < 64" if "(a, j) \<in> F" for a j using pool_block [OF p, of a j] that by auto
  show ?thesis
  proof (cases "64 \<le> k")
    case True
    then have "kernel_request_buddy sz s = Some (0, s)"
      using b by (simp add: kernel_request_buddy_def MAX_ORDER_def k_def)
    then show ?thesis using that(1) fit F64 True by (meson le_trans not_le)
  next
    case k64: False
    show ?thesis
    proof (cases "?hi = 0")
      case True
      then have req: "kernel_request_buddy sz s = Some (0, s)"
        using b k64 by (simp add: kernel_request_buddy_def MAX_ORDER_def k_def Let_def)
      have "j < k" if aj: "(a, j) \<in> F" for a j
      proof (rule ccontr)
        assume "\<not> j < k"
        moreover have "bit (nonempty_mask s) j"
          using lists_rel_mask [OF poolD(2) [OF p] F64 [OF aj]] aj by blast
        ultimately have "bit ?hi j" by (simp add: hi_mask_bits)
        then show False using True by simp
      qed
      then show ?thesis using that(1) fit req by blast
    next
      case False
      define c where "c = ctzll ?hi"
      have c: "bit ?hi c" using ctzll_bit(1) [OF False] by (simp add: c_def)
      then have c2: "bit (nonempty_mask s) c" "k \<le> c" "c < 64" by (auto simp: hi_mask_bits dest: bit64)
      from pool_take [OF p c2(3,1)] obtain a s1 where
        s1: "inline_pop c s = (a, s1)" "(a, c) \<in> F" "pool s1 (F - {(a, c)}) U {(a, c)}" "slot s1 = slot s" .
      have "kernel_request_buddy sz s = Some (a, kshadow_set_used a k (split_loop c k a s1))"
        using b k64 False s1(1) by (simp add: kernel_request_buddy_def MAX_ORDER_def k_def c_def Let_def)
      then show ?thesis using that(2) fit c2 s1 by blast
    qed
  qed
qed

lemma pool_hand_covers:
  assumes "pool s F U {(a, k)}"
  shows "blk a k \<inter> (covers F \<union> covers U) = {}"
proof -
  have "block_family (insert (a, k) (F \<union> U))" "(a, k) \<notin> F \<union> U"
    using poolD(4,6) [OF assms] by auto
  from block_family_notin_covers [OF this] show ?thesis by simp
qed

text \<open>
  What an allocation does to the pool: either nothing fits and nothing changes, or a fresh
  block of the least fitting order is carved out of the free space.
\<close>

lemma kernel_request_pool:
  assumes p: "pool s F U {}" and sz: "sz \<noteq> 0"
  shows "(\<exists>k. fits sz k \<and> kernel_request_buddy sz s = Some (0, s) \<and> (\<forall>a j. (a, j) \<in> F \<longrightarrow> j < k)) \<or>
    (\<exists>k a c s' F'. fits sz k \<and> k \<le> c \<and> (a, c) \<in> F \<and> a \<noteq> 0 \<and>
       kernel_request_buddy sz s = Some (a, s') \<and>
       F' = F - {(a, c)} \<union> (\<lambda>j. (a XOR 2 ^ j, j)) ` {k..<c} \<and>
       pool s' F' (insert (a, k) U) {} \<and>
       covers F' \<union> blk a k = covers F \<and> blk a k \<inter> (covers F' \<union> covers U) = {})"
proof (rule kernel_request_cases [OF p sz])
  fix k a c s1
  assume k: "fits sz k" "k \<le> c" "c < 64" and a: "(a, c) \<in> F" "inline_pop c s = (a, s1)"
    and s1: "pool s1 (F - {(a, c)}) U {(a, c)}"
    and req: "kernel_request_buddy sz s = Some (a, kshadow_set_used a k (split_loop c k a s1))"
  let ?F' = "F - {(a, c)} \<union> (\<lambda>j. (a XOR 2 ^ j, j)) ` {k..<c}"
  have k12: "12 \<le> k" using k(1) by (simp add: fits_def)
  have p2: "pool (split_loop c k a s1) ?F' U {(a, k)}" by (rule split_loop_pool [OF s1 k(2) k12])
  have "pool (kshadow_set_used a k (split_loop c k a s1)) ?F' (insert (a, k) U) {}"
    using pool_use [OF p2] by simp
  moreover have "a \<noteq> 0" using pool_block(6) [OF p, of a c] a by auto
  moreover have "covers ?F' \<union> blk a k = covers F"
  proof -
    have "covers ?F' \<union> blk a k = covers (F - {(a, c)}) \<union> blk a c"
      using covers_split_family [OF k(2), of a] k(3) by auto
    also have "\<dots> = covers F" using a(1) by (auto simp: covers_def)
    finally show ?thesis .
  qed
  ultimately show ?thesis using k a req pool_hand_covers [OF p2] by blast
qed blast

section \<open>Release\<close>

lemma shadow_relD:
  assumes "shadow_rel s F U H"
  shows "(a, k) \<in> F \<Longrightarrow> kshadow_load s a = free_byte k"
    and "(a, k) \<in> U \<Longrightarrow> kshadow_load s a = used_byte k"
    and "aligned a 12 \<Longrightarrow> kshadow_in_range s a \<Longrightarrow> (\<And>j. (a, j) \<notin> F \<union> U \<union> H) \<Longrightarrow> kshadow_load s a = 0"
  using assms unfolding shadow_rel_def by (blast, blast, fastforce)

lemma shadow_free_block:
  assumes p: "pool s F U {(a, k)}" and b: "aligned b 12" "kshadow_in_range s b" "b \<noteq> a"
    and ld: "kshadow_load s b = free_byte k"
  shows "(b, k) \<in> F"
proof -
  have k: "k < 64" using pool_block(2) [OF p, of a k] by simp
  note rel = shadow_relD [OF poolD(3) [OF p]]
  obtain j where j: "(b, j) \<in> F \<union> U"
    using rel(3) [OF b(1,2)] b(3) ld order_bytes(5) [OF k] by force
  have j64: "j < 64" using pool_block(2) [OF p, of b j] j by auto
  have "(b, j) \<notin> U" using rel(2) [of b j] ld used_byte_neq [OF j64 k] by auto
  then have bF: "(b, j) \<in> F" using j by simp
  then have "free_byte j = free_byte k" using rel(1) [OF bF] ld by simp
  then show ?thesis using free_byte_inj [OF j64 k] bF by simp
qed

lemma pool_merge:
  assumes p: "pool s F U {(a, k)}" and k: "Suc k < 64" and b: "(a XOR 2 ^ k, k) \<in> F"
  obtains s1 where "inline_remove k (a XOR 2 ^ k) s = Some (True, s1)"
    and "pool (kshadow_clear (if a < a XOR 2 ^ k then a XOR 2 ^ k else a) s1)
           (F - {(a XOR 2 ^ k, k)}) U {(buddy_lower a k, Suc k)}"
    and "\<And>x. (x, k) \<notin> F \<Longrightarrow> slot s1 x = slot s x"
proof -
  let ?b = "a XOR 2 ^ k" and ?lo = "buddy_lower a k" and ?F = "F - {(a XOR 2 ^ k, k)}"
  define hi where "hi = (if a < a XOR 2 ^ k then a XOR 2 ^ k else a)"
  have k64: "k < 64" using k by simp
  from lists_rel_remove [OF poolD(2) [OF p] k64 b] obtain s1 where
    s1: "inline_remove k ?b s = Some (True, s1)" "lists_rel s1 ?F" "same_shadow s s1"
      "\<And>x. (x, k) \<notin> F \<Longrightarrow> slot s1 x = slot s x" by blast
  note fr = same_shadow_frame [OF s1(3)]
  have a: "aligned a 12" "kshadow_in_range s a" using pool_block [OF p, of a k] by auto
  have bb: "aligned ?b 12" "kshadow_in_range s ?b" using pool_block [OF p, of ?b k] b by auto
  have hi: "aligned hi 12" "kshadow_in_range s hi" using a bb by (auto simp: hi_def)
  have nb: "?b \<noteq> a" using k64 by (rule xor_two_pow_neq)
  have pair: "{?lo, hi} = {a, ?b}" by (auto simp: buddy_lower_def hi_def)
    have keep: "c \<noteq> a \<and> c \<noteq> ?b" if cj: "(c, j) \<in> ?F \<union> U" for c j
  proof
    show "c \<noteq> a" using cj pool_hand_notin [OF p] by auto
    show "c \<noteq> ?b"
    proof
      assume c: "c = ?b"
      then have "j = k" using pool_unique [OF p, of ?b j k] cj b by auto
      then show False using c cj b poolD(5) [OF p] by auto
    qed
  qed
  have ld: "kshadow_load (kshadow_store hi 0 s1) c = (if c = hi then 0 else kshadow_load s c)"
    if "aligned c 12" "kshadow_in_range s c" for c
    using load_store [of s1 hi c 0] fr poolD(1) [OF p] hi that by simp
  have blkd: "aligned c 12 \<and> kshadow_in_range s c" if "(c, j) \<in> ?F \<union> U" for c j
    using pool_block [OF p, of c j] that by auto
  have sr: "shadow_rel (kshadow_store hi 0 s1) ?F U {(?lo, Suc k)}"
  proof -
    note rel = poolD(3) [OF p, unfolded shadow_rel_def]
    have same: "kshadow_load (kshadow_store hi 0 s1) c = kshadow_load s c" if "(c, j) \<in> ?F \<union> U" for c j
      using ld blkd [OF that] keep [OF that] pair by auto
    have zero: "kshadow_load (kshadow_store hi 0 s1) c = 0"
      if c: "aligned c 12" "kshadow_in_range s c" "c \<notin> fst ` (?F \<union> U \<union> {(?lo, Suc k)})" for c
    proof (cases "c = hi")
      case False
      then have "c \<noteq> a" "c \<noteq> ?b" using c(3) pair by auto
      then have "c \<notin> fst ` (F \<union> U \<union> {(a, k)})" using c(3) by force
      then show ?thesis using ld [OF c(1,2)] False rel c by auto
    qed (use ld c in auto)
    have "kshadow_load (kshadow_store hi 0 s1) c = free_byte j" if "(c, j) \<in> ?F" for c j
      using same [of c j] shadow_relD(1) [OF poolD(3) [OF p], of c j] that by auto
    moreover have "kshadow_load (kshadow_store hi 0 s1) c = used_byte j" if "(c, j) \<in> U" for c j
      using same [of c j] shadow_relD(2) [OF poolD(3) [OF p], of c j] that by auto
    ultimately show ?thesis using zero fr(2) unfolding shadow_rel_def
      by (metis store_frame(2))
  qed
  have eq: "F \<union> U \<union> {(a, k)} = insert (a, k) (insert (?b, k) (?F \<union> U))" using b by auto
  have fresh: "(a, k) \<notin> ?F \<union> U" "(?b, k) \<notin> ?F \<union> U" using keep by blast+
  have fam: "block_family (insert (a, k) (insert (?b, k) (?F \<union> U)))"
    using poolD(4) [OF p] unfolding eq .
  note mg = block_family_merge [OF fam fresh k]
  have cov: "covers (?F \<union> U \<union> {(?lo, Suc k)}) = covers (F \<union> U \<union> {(a, k)})"
    unfolding eq using buddy_lower_blk [OF k64, of a] by auto
  have "pool (kshadow_store hi 0 s1) ?F U {(?lo, Suc k)}"
    unfolding pool_def
  proof (intro conjI)
    show "lists_rel (kshadow_store hi 0 s1) ?F" using s1(2) by (subst lists_rel_frame [of _ s1]) auto
    show "block_family (?F \<union> U \<union> {(?lo, Suc k)})" using mg(1) by simp
    show "\<forall>x\<in>covers (?F \<union> U \<union> {(?lo, Suc k)}). kshadow_in_range (kshadow_store hi 0 s1) x"
      unfolding cov using poolD(7) [OF p] fr by auto
    show "shadow_rel (kshadow_store hi 0 s1) ?F U {(?lo, Suc k)}" by (fact sr)
    show "?F \<inter> U = {}" using poolD(5) [OF p] by auto
    show "(?F \<union> U) \<inter> {(?lo, Suc k)} = {}" using mg(2) by auto
    show "shadow_wf (kshadow_store hi 0 s1)" using poolD(1) [OF p] fr(1) by simp
  qed
  then show ?thesis using that s1 hi fr by (simp add: kshadow_clear_def hi_def)
qed

text \<open>The coalescing loop absorbs free buddies until none is left.\<close>

lemma coalesce_loop_pool:
  assumes "pool s F U {(a, k)}"
  shows "\<exists>a' k' s' F'. coalesce_loop a k s = Some (a', k', s') \<and> pool s' F' U {(a', k')} \<and> F' \<subseteq> F \<and>
    covers F' \<union> blk a' k' = covers F \<union> blk a k \<and>
    (k' + 1 < 64 \<longrightarrow> (a' XOR 2 ^ k', k') \<notin> F') \<and>
    (\<forall>x. (\<forall>j. (x, j) \<notin> F) \<longrightarrow> slot s' x = slot s x)"
  using assms
proof (induction "64 - k" arbitrary: a k s F rule: less_induct)
  case less
  note p = less.prems
  let ?b = "a XOR 2 ^ k"
  have k64: "k < 64" and al: "aligned a 12" "12 \<le> k" using pool_block [OF p, of a k] by auto
  have bal: "aligned ?b 12" using al by (auto intro: aligned_xor)
  have nb: "?b \<noteq> a" using k64 by (rule xor_two_pow_neq)
  show ?case
  proof (cases "k + 1 < MAX_ORDER \<and> kshadow_in_range s ?b \<and> kshadow_load s ?b = free_byte k")
    case False
    then have "coalesce_loop a k s = Some (a, k, s)"
      by (subst coalesce_loop.simps) (auto simp: Let_def)
    moreover have "(?b, k) \<notin> F" if "k + 1 < 64"
    proof
      assume "(?b, k) \<in> F"
      then have "kshadow_in_range s ?b" "kshadow_load s ?b = free_byte k"
        using pool_block(5) [OF p, of ?b k] shadow_relD(1) [OF poolD(3) [OF p]] by auto
      then show False using False that by (simp add: MAX_ORDER_def)
    qed
    ultimately show ?thesis using p by (intro exI [of _ a] exI [of _ k] exI [of _ s] exI [of _ F]) simp
  next
    case True
    have bF: "(?b, k) \<in> F" using shadow_free_block [OF p bal _ nb] True by blast
    have k1: "Suc k < 64" using True by (simp add: MAX_ORDER_def)
    obtain s1 where
      s1: "inline_remove k ?b s = Some (True, s1)"
        "pool (kshadow_clear (if a < ?b then ?b else a) s1) (F - {(?b, k)}) U {(buddy_lower a k, Suc k)}"
        "\<And>x. (x, k) \<notin> F \<Longrightarrow> slot s1 x = slot s x" by (rule pool_merge [OF p k1 bF]) blast
    let ?s2 = "kshadow_clear (if a < ?b then ?b else a) s1"
    have step: "coalesce_loop a k s = coalesce_loop (buddy_lower a k) (k + 1) ?s2"
      using True s1(1) by (subst coalesce_loop.simps) (simp add: Let_def buddy_lower_def)
    have p2: "pool ?s2 (F - {(?b, k)}) U {(buddy_lower a k, k + 1)}" using s1(2) by simp
    have "64 - (k + 1) < 64 - k" using k1 by simp
    note IH = less.hyps [OF this p2]
    from IH obtain a' k' s' F' where IH: "coalesce_loop (buddy_lower a k) (k + 1) ?s2 = Some (a', k', s')"
      "pool s' F' U {(a', k')}" "F' \<subseteq> F - {(?b, k)}"
      "covers F' \<union> blk a' k' = covers (F - {(?b, k)}) \<union> blk (buddy_lower a k) (k + 1)"
      "k' + 1 < 64 \<longrightarrow> (a' XOR 2 ^ k', k') \<notin> F'"
      "\<forall>x. (\<forall>j. (x, j) \<notin> F - {(?b, k)}) \<longrightarrow> slot s' x = slot ?s2 x"
      by (elim exE conjE) (rule that)
    have "covers F = covers (F - {(?b, k)}) \<union> blk ?b k" using bF by (auto simp: covers_def)
    then have "covers F' \<union> blk a' k' = covers F \<union> blk a k"
      using IH(4) buddy_lower_blk [OF k64, of a] by auto
    moreover have "slot s' x = slot s x" if "\<forall>j. (x, j) \<notin> F" for x
      using IH(6) s1(3) [of x] that by (auto simp: kshadow_clear_def)
    ultimately show ?thesis using IH(1-3,5) step
      by (intro exI [of _ a'] exI [of _ k'] exI [of _ s'] exI [of _ F']) auto
  qed
qed

lemma kernel_free_pool:
  assumes p: "pool s F U {}" and a: "(a, k) \<in> U"
  shows "\<exists>a' k' s' F'. kernel_free_buddy a s = Some s' \<and> pool s' (insert (a', k') F') (U - {(a, k)}) {} \<and>
    F' \<subseteq> F \<and> covers F' \<union> blk a' k' = covers F \<union> blk a k \<and>
    (k' + 1 < 64 \<longrightarrow> (a' XOR 2 ^ k', k') \<notin> F') \<and>
    (\<forall>x. x \<notin> covers F \<union> blk a k \<longrightarrow> slot s' x = slot s x)"
proof -
  have ka: "12 \<le> k" "k < 64" "kshadow_in_range s a" using pool_block [OF p, of a k] a by auto
  have ld: "kshadow_load s a = used_byte k" using shadow_relD(2) [OF poolD(3) [OF p] a] .
  have fields: "used_byte k \<noteq> 0" "used_byte k AND KSHADOW_FREE_FLAG = 0"
    "unat (used_byte k AND KSHADOW_ORDER_MASK) = k"
    using used_byte_nonzero [OF ka(1,2)] order_bytes [OF ka(2)] by auto
  from coalesce_loop_pool [OF pool_unuse [OF p a]] obtain a' k' s1 F' where
    c: "coalesce_loop a k s = Some (a', k', s1)" "pool s1 F' (U - {(a, k)}) {(a', k')}" "F' \<subseteq> F"
      "covers F' \<union> blk a' k' = covers F \<union> blk a k" "k' + 1 < 64 \<longrightarrow> (a' XOR 2 ^ k', k') \<notin> F'"
      "\<forall>x. (\<forall>j. (x, j) \<notin> F) \<longrightarrow> slot s1 x = slot s x"
    by (elim exE conjE) (rule that)
  let ?s' = "kshadow_set_free a' k' (inline_push k' a' s1)"
  have "kernel_free_buddy a s = Some ?s'"
    using ka(3) ld fields c(1) by (simp add: kernel_free_buddy_def Let_def)
  moreover have "pool ?s' (insert (a', k') F') (U - {(a, k)}) {}"
    using pool_give [OF c(2)] by simp
  moreover have "slot ?s' x = slot s x" if x: "x \<notin> covers F \<union> blk a k" for x
  proof -
    have "x \<noteq> a'" using x c(4) by auto
    then have "slot ?s' x = slot s1 x" by (simp add: kshadow_set_free_def inline_push_def)
    moreover have "(x, j) \<notin> F" for j using x by (auto simp: covers_def)
    ultimately show ?thesis using c(6) by simp
  qed
  ultimately show ?thesis using c(3-5)
    by (intro exI [of _ a'] exI [of _ k'] exI [of _ ?s'] exI [of _ F']) auto
qed

text \<open>Freeing an address that is not the head of an allocated block does nothing.\<close>

lemma kernel_free_other:
  assumes p: "pool s F U {}" and a: "aligned a 12" "\<And>k. (a, k) \<notin> U"
  shows "kernel_free_buddy a s = Some s"
proof (cases "kshadow_in_range s a")
  case True
  have "kshadow_load s a = 0 \<or> kshadow_load s a AND KSHADOW_FREE_FLAG \<noteq> 0"
  proof (cases "\<exists>j. (a, j) \<in> F")
    case True
    then obtain j where j: "(a, j) \<in> F" by blast
    have "j < 64" using pool_block(2) [OF p, of a j] j by auto
    then show ?thesis using shadow_relD(1) [OF poolD(3) [OF p] j] order_bytes(2) by simp
  next
    case False
    then have "kshadow_load s a = 0"
      using shadow_relD(3) [OF poolD(3) [OF p] a(1) True] a(2) by auto
    then show ?thesis ..
  qed
  then show ?thesis by (auto simp: kernel_free_buddy_def Let_def)
qed (simp add: kernel_free_buddy_def)

section \<open>Maximal coalescing\<close>

definition coalesced :: "(u64 \<times> nat) set \<Rightarrow> bool" where
  "coalesced F \<longleftrightarrow> (\<forall>a k. (a, k) \<in> F \<longrightarrow> k + 1 < 64 \<longrightarrow> (a XOR 2 ^ k, k) \<notin> F)"

lemma coalescedD: "coalesced F \<Longrightarrow> (a, k) \<in> F \<Longrightarrow> k + 1 < 64 \<Longrightarrow> (a XOR 2 ^ k, k) \<in> F \<Longrightarrow> False"
  unfolding coalesced_def by blast

lemma coalesced_insert:
  assumes co: "coalesced F" and sub: "F' \<subseteq> F" and new: "k + 1 < 64 \<longrightarrow> (a XOR 2 ^ k, k) \<notin> F'"
  shows "coalesced (insert (a, k) F')"
  unfolding coalesced_def
proof (intro allI impI notI)
  fix b j assume j: "j + 1 < 64" and b: "(b, j) \<in> insert (a, k) F'" "(b XOR 2 ^ j, j) \<in> insert (a, k) F'"
  have ne: "b XOR 2 ^ j \<noteq> b" using j by (intro xor_two_pow_neq) simp
  show False
  proof (cases "(b, j) = (a, k)")
    case True
    then have "(a XOR 2 ^ k, k) \<in> F'" using b(2) ne by simp
    with new j True show False by simp
  next
    case False
    then have bF: "(b, j) \<in> F'" using b(1) by blast
    show False
    proof (cases "(b XOR 2 ^ j, j) = (a, k)")
      case True
      then have "b = a XOR 2 ^ k" by (metis prod.inject xor_xor_cancel)
      with bF True j new show False by simp
    next
      case False
      then have "(b XOR 2 ^ j, j) \<in> F" using b(2) sub by auto
      with bF sub j show False using coalescedD [OF co, of b j] by auto
    qed
  qed
qed

lemma coalesced_split:
  assumes co: "coalesced F" and fam: "block_family F" and a: "(a, c) \<in> F"
  shows "coalesced (F - {(a, c)} \<union> (\<lambda>j. (a XOR 2 ^ j, j)) ` {k..<c})"
proof -
  define N where "N = (\<lambda>j. (a XOR 2 ^ j, j)) ` {k..<c}"
  have N: "x = a XOR 2 ^ j" if "(x, j) \<in> N" for x j using that by (auto simp: N_def)
  have aF: "(a, j) \<notin> F - {(a, c)}" for j using block_family_unique [OF fam a, of j] by auto
  have aN: "(a, j) \<notin> N" if "j < 64" for j using N [of a j] xor_two_pow_neq [OF that, of a] by metis
  have "coalesced (F - {(a, c)} \<union> N)"
    unfolding coalesced_def
  proof (intro allI impI notI)
    fix b j assume j: "j + 1 < 64" and b: "(b, j) \<in> F - {(a, c)} \<union> N"
      and b': "(b XOR 2 ^ j, j) \<in> F - {(a, c)} \<union> N"
    have j64: "j < 64" using j by simp
    show False
    proof (cases "(b, j) \<in> N")
      case True
      then have "b XOR 2 ^ j = a" using N by (metis xor_xor_cancel)
      with b' aF [of j] aN [OF j64] show False by simp
    next
      case False
      then have bF: "(b, j) \<in> F - {(a, c)}" using b by simp
      show False
      proof (cases "(b XOR 2 ^ j, j) \<in> N")
        case True
        then have "b = a" using N by (metis xor_xor_cancel)
        with bF aF [of j] show False by simp
      next
        case False
        then have "(b XOR 2 ^ j, j) \<in> F" using b' by blast
        with bF j show False using coalescedD [OF co, of b j] by simp
      qed
    qed
  qed
  then show ?thesis by (simp add: N_def)
qed

end
