(* ===== verification/Buddy_Kernel_Boot.thy ===== *)
theory Buddy_Kernel_Boot
  imports Buddy_Kernel_Correct
begin

text \<open>
  The kernel pool from boot on: the pool set up by \<^verbatim>\<open>InitKernelBuddyShadow\<close> and
  \<^verbatim>\<open>InitKernelBuddyAlloc\<close> satisfies the invariant, and so does every state reached from it
  by requests, releases and arbitrary writes of the owners into their own blocks.
\<close>

section \<open>Adding a range of pages\<close>

lemma pool_grow:
  assumes p: "pool s F U {}" and a: "12 \<le> k" "k < 64" "aligned a k"
    and dis: "blk a k \<inter> covers (F \<union> U) = {}" and rng: "\<forall>x\<in>blk a k. kshadow_in_range s x"
  shows "pool s F U {(a, k)}"
proof -
  have "block_family (F \<union> U)" using poolD(4) [OF p] by simp
  then have fam: "block_family (F \<union> U \<union> {(a, k)})"
    using block_family_insert [OF a, of "F \<union> U"] dis by simp
  have new: "(a, k) \<notin> F \<union> U" using dis by (auto simp: covers_def)
  have "shadow_rel s F U {(a, k)}" using poolD(3) [OF p] by (auto simp: shadow_rel_def)
  then show ?thesis using p fam new rng unfolding pool_def by auto
qed

text \<open>The addresses of the whole pages in \<open>[start, start + sz)\<close>.\<close>

definition pages_in :: "nat \<Rightarrow> nat \<Rightarrow> u64 set" where
  "pages_in start sz = {x. start \<le> unat x \<and> unat x < start + 4096 * (sz div 4096)}"

definition maximal_upto :: "nat \<Rightarrow> (u64 \<times> nat) set \<Rightarrow> bool" where
  "maximal_upto e B \<longleftrightarrow> (\<forall>a j. (a, j) \<in> B \<longrightarrow> \<not> (aligned a (Suc j) \<and> unat a + 2 ^ Suc j \<le> e))"

lemma greedy_block:
  assumes so: "SmallestBit start = Some so" and zo: "BiggestBit sz = Some zo"
    and al: "aligned start 12" and ps: "PAGE_SIZE \<le> sz"
    and bound: "unat start + unat sz < 2 ^ 64"
  defines "b \<equiv> if so < zo then so else zo"
  shows "12 \<le> b" and "b < 64" and "aligned start b" and "b \<le> zo"
    and "\<not> (aligned start (Suc b) \<and> unat start + 2 ^ Suc b \<le> unat start + unat sz)"
    and "unat (start + 2 ^ b) = unat start + 2 ^ b" and "2 ^ b \<le> unat sz"
    and "unat (sz - 2 ^ b) = unat sz - 2 ^ b"
proof -
  note S = SmallestBit_aligned [OF so] and Z = BiggestBit_bounds [OF zo]
  have "12 \<le> so" using S(3) al by (auto simp: aligned_bits not_less [symmetric])
  moreover have "12 \<le> zo"
  proof (rule ccontr)
    assume "\<not> 12 \<le> zo"
    then have "(2::nat) ^ Suc zo \<le> 2 ^ 12" by (intro power_increasing) auto
    moreover have "4096 \<le> unat sz" using ps by (simp add: PAGE_SIZE_def word_le_nat_alt)
    ultimately show False using Z(3) by simp
  qed
  ultimately show "12 \<le> b" by (simp add: b_def)
  show b64: "b < 64" and ab: "aligned start b" and bz: "b \<le> zo"
    using S Z(1) by (auto simp: b_def intro: aligned_mono)
  show "\<not> (aligned start (Suc b) \<and> unat start + 2 ^ Suc b \<le> unat start + unat sz)"
  proof (cases "so < zo")
    case True
    then show ?thesis using S(3) by (auto simp: b_def aligned_bits)
  next
    case False
    then show ?thesis using Z(3) by (auto simp: b_def)
  qed
  show le: "2 ^ b \<le> unat sz" "unat (sz - 2 ^ b) = unat sz - 2 ^ b"
    using size_minus_block [OF zo bz] by auto
  show "unat (start + 2 ^ b) = unat start + 2 ^ b"
    using le bound unat_two_pow [OF b64] by (subst unat_add_lem [THEN iffD1]) auto
qed

lemma pages_in_split:
  assumes "12 \<le> b" and "2 ^ b \<le> sz"
  shows "pages_in start sz = {x. start \<le> unat x \<and> unat x < start + 2 ^ b} \<union> pages_in (start + 2 ^ b) (sz - 2 ^ b)"
    and "{x. start \<le> unat x \<and> unat x < start + 2 ^ b} \<inter> pages_in (start + 2 ^ b) (sz - 2 ^ b) = {}"
proof -
  obtain c where c: "b = c + 12" using assms(1) by (metis le_add_diff_inverse2)
  have p: "(2::nat) ^ b = 2 ^ c * 4096" unfolding c power_add by simp
  have "sz = (sz - 2 ^ b) + 2 ^ c * 4096" using assms(2) p by simp
  then have "sz div 4096 = (sz - 2 ^ b) div 4096 + 2 ^ c"
    by (metis div_mult_self3 add.commute zero_neq_numeral)
  then have "4096 * (sz div 4096) = 2 ^ b + 4096 * ((sz - 2 ^ b) div 4096)" using p by simp
  then show "pages_in start sz = {x. start \<le> unat x \<and> unat x < start + 2 ^ b} \<union> pages_in (start + 2 ^ b) (sz - 2 ^ b)"
    by (auto simp: pages_in_def)
qed (auto simp: pages_in_def)

lemma maximal_upto_Un: "maximal_upto e (A \<union> B) \<longleftrightarrow> maximal_upto e A \<and> maximal_upto e B"
  by (auto simp: maximal_upto_def)

lemma AddToBuddyAlloc_kernel_pool:
  assumes "pool s F U {}" and "aligned start 12" and "start \<noteq> 0"
    and "unat start + unat sz < 2 ^ 64"
    and "\<forall>x\<in>pages_in (unat start) (unat sz). kshadow_in_range s x \<and> x \<notin> covers (F \<union> U)"
  shows "\<exists>s' N. AddToBuddyAlloc_kernel start sz s = Some s' \<and> pool s' (F \<union> N) U {} \<and>
    covers N = pages_in (unat start) (unat sz) \<and> maximal_upto (unat start + unat sz) N"
  using assms
proof (induction "unat sz" arbitrary: start sz s F rule: less_induct)
  case less
  show ?case
  proof (cases "PAGE_SIZE \<le> sz")
    case False
    then have "unat sz < 4096" by (simp add: PAGE_SIZE_def word_le_nat_alt not_le)
    then show ?thesis using less.prems(1) False
      by (intro exI [of _ s] exI [of _ "{}"])
        (auto simp: AddToBuddyAlloc_kernel.simps pages_in_def maximal_upto_def)
  next
    case True
    then have "sz \<noteq> 0" by (auto simp: PAGE_SIZE_def)
    then obtain so zo where so: "SmallestBit start = Some so" and zo: "BiggestBit sz = Some zo"
      using less.prems(3) by (auto simp: SmallestBit_def BiggestBit_def)
    define b where "b = (if so < zo then so else zo)"
    note g = greedy_block [OF so zo less.prems(2) True less.prems(4), folded b_def]
    define s1 where "s1 = kshadow_set_free start b (inline_push b start s)"
    have bl: "blk start b = {x. unat start \<le> unat x \<and> unat x < unat start + 2 ^ b}"
      using blk_interval [OF g(2,3)] by auto
    note sp = pages_in_split [OF g(1,7), of "unat start", folded bl]
    have step: "AddToBuddyAlloc_kernel start sz s = AddToBuddyAlloc_kernel (start + 2 ^ b) (sz - 2 ^ b) s1"
      using True so zo g(1)
      by (subst AddToBuddyAlloc_kernel.simps) (simp add: b_def [symmetric] s1_def PAGE_SIZE_LOG2_def Let_def)
    have hand: "pool s F U {(start, b)}"
      using sp less.prems(5) by (intro pool_grow [OF less.prems(1) g(1-3)]) auto
    have p1: "pool s1 (insert (start, b) F) U {}" unfolding s1_def using pool_give [OF hand] by simp
    have rng: "kshadow_in_range s1 x = kshadow_in_range s x" for x
      by (simp add: s1_def kshadow_set_free_def same_shadow_frame [OF same_shadow_push])
    have al: "aligned (start + 2 ^ b) 12"
    proof -
      have "(2::nat) ^ 12 dvd 2 ^ b" using g(1) by (rule le_imp_power_dvd)
      then show ?thesis using less.prems(2) g(6) by (simp add: aligned_dvd del: power_numeral) 
    qed
    have nz: "start + 2 ^ b \<noteq> 0" using g(6) by (metis add_is_0 unat_0 power_not_zero zero_neq_numeral)
    have "\<exists>s' N. AddToBuddyAlloc_kernel (start + 2 ^ b) (sz - 2 ^ b) s1 = Some s' \<and>
        pool s' (insert (start, b) F \<union> N) U {} \<and>
        covers N = pages_in (unat (start + 2 ^ b)) (unat (sz - 2 ^ b)) \<and>
        maximal_upto (unat (start + 2 ^ b) + unat (sz - 2 ^ b)) N"
    proof (rule less.hyps [OF _ p1 al nz])
      show "unat (sz - 2 ^ b) < unat sz" using size_decreases [OF zo g(4)] .
      show "unat (start + 2 ^ b) + unat (sz - 2 ^ b) < 2 ^ 64" using g(6-8) less.prems(4) by simp
      show "\<forall>x\<in>pages_in (unat (start + 2 ^ b)) (unat (sz - 2 ^ b)).
          kshadow_in_range s1 x \<and> x \<notin> covers (insert (start, b) F \<union> U)"
        using sp less.prems(5) rng unfolding g(6,8) by auto
    qed
    then obtain s' N where N: "AddToBuddyAlloc_kernel (start + 2 ^ b) (sz - 2 ^ b) s1 = Some s'"
      "pool s' (insert (start, b) F \<union> N) U {}"
      "covers N = pages_in (unat start + 2 ^ b) (unat sz - 2 ^ b)"
      "maximal_upto (unat start + unat sz) N"
      using g(6-8) by (auto simp del: covers_simps)
    have "maximal_upto (unat start + unat sz) (insert (start, b) N)"
      using N(4) g(5) by (auto simp: maximal_upto_def)
    moreover have "covers (insert (start, b) N) = pages_in (unat start) (unat sz)"
      using N(3) sp(1) by simp
    ultimately show ?thesis using N(1,2) step
      by (intro exI [of _ s'] exI [of _ "insert (start, b) N"]) simp
  qed
qed

section \<open>Boot\<close>

text \<open>The statically zeroed allocator state, over arbitrary memory contents.\<close>

definition kbuddy_bss :: "(u64 \<Rightarrow> u64) \<Rightarrow> kbuddy" where
  "kbuddy_bss mem = \<lparr>kshadow = None, kshadow_base_pfn = 0, kshadow_pfn_count = 0,
     heads = (\<lambda>_. 0), nonempty_mask = 0, slot = mem\<rparr>"

lemma unat_pfn: "unat (pfn x) = unat x div 4096"
  by (simp only: pfn_def PAGE_SIZE_LOG2_def unat_drop_bit_eq drop_bit_eq_div [of 12 "unat x"]) simp

lemma maximal_coalesced:
  assumes fam: "block_family F" and mx: "maximal_upto e F" and cov: "\<forall>x\<in>covers F. unat x < e"
  shows "coalesced F"
  unfolding coalesced_def
proof (intro allI impI notI)
  fix a k assume a: "(a, k) \<in> F" and k: "k + 1 < 64" and b: "(a XOR 2 ^ k, k) \<in> F"
  let ?lo = "buddy_lower a k"
  have k1: "k < 64" "Suc k < 64" using k by auto
  have al: "aligned ?lo (Suc k)" using buddy_lower_aligned [OF k1(1)] block_familyD(3) [OF fam a] .
  have lo: "(?lo, k) \<in> F" using a b buddy_lower_cases [of a k] by auto
  obtain m where m: "unat ?lo = 2 ^ Suc k * m" using al aligned_dvd [OF k1(2)] by (auto elim: dvdE)
  have lt: "unat ?lo + (2 ^ Suc k - 1) < 2 ^ 64"
  proof -
    have e: "(2::nat) ^ 64 = 2 ^ Suc k * 2 ^ (63 - k)" unfolding power_add [symmetric] using k1 by simp
    have "m < 2 ^ (63 - k)"
    proof (rule ccontr)
      assume "\<not> m < 2 ^ (63 - k)"
      then have "2 ^ Suc k * 2 ^ (63 - k) \<le> 2 ^ Suc k * m" by (intro mult_le_mono) auto
      then show False using m e unat64_less [of ?lo] by linarith
    qed
    then have "2 ^ Suc k * Suc m \<le> 2 ^ Suc k * (2::nat) ^ (63 - k)" by (intro mult_le_mono) auto
    then have "2 ^ Suc k * m + 2 ^ Suc k \<le> (2::nat) ^ 64" unfolding e by (simp only: mult_Suc_right add.commute)
    moreover have "(0::nat) < 2 ^ Suc k" by simp
    ultimately show ?thesis unfolding m by linarith
  qed
  define y :: u64 where "y = of_nat (unat ?lo + (2 ^ Suc k - 1))"
  have uy: "unat y = unat ?lo + (2 ^ Suc k - 1)" using lt by (simp add: y_def unat_of_nat)
  have "(0::nat) < 2 ^ Suc k" by simp
  then have "y \<in> blk ?lo (Suc k)" unfolding blk_interval [OF k1(2) al] uy by linarith
  then have "y \<in> covers F" using buddy_lower_blk [OF k1(1), of a] a b by (auto simp: covers_def)
  then have "unat ?lo + 2 ^ Suc k \<le> e" using cov uy by fastforce
  then show False using mx lo al unfolding maximal_upto_def by blast
qed

lemma pages_in_mono:
  fixes b st en :: u64
  assumes "aligned b 12" and "aligned st 12" and "b \<le> st" and "st < en"
  shows "pages_in (unat st) (unat (en - st)) \<subseteq> pages_in (unat b) (unat (en - b))"
proof -
  have lt: "unat b \<le> unat st" "unat st < unat en"
    using assms(3,4) by (simp_all add: word_le_nat_alt word_less_nat_alt)
  have sub: "unat (en - st) = unat en - unat st" "unat (en - b) = unat en - unat b"
    using assms(3,4) by (auto simp: unat_sub)
  have "4096 dvd unat b" "4096 dvd unat st"
    using aligned_dvd [of 12 b] aligned_dvd [of 12 st] assms(1,2) by simp_all
  then obtain i j where ij: "unat b = 4096 * i" "unat st = 4096 * j" by (auto elim!: dvdE)
  have div: "4096 * m + 4096 * ((unat en - 4096 * m) div 4096) = 4096 * (unat en div 4096)"
    if le: "4096 * m \<le> unat en" for m
  proof -
    obtain d where d: "unat en = 4096 * m + d" using le unfolding le_iff_add by blast
    show ?thesis unfolding d by simp
  qed
  have "4096 * i \<le> unat en" "4096 * j \<le> unat en" "i \<le> j" using lt ij by linarith+
  then show ?thesis unfolding pages_in_def sub ij by (auto simp: div)
qed

lemma boot_empty_pool:
  fixes mem :: "u64 \<Rightarrow> u64" and cur :: u64
  assumes st: "aligned st 12" "st \<noteq> 0" and lt: "st < en"
  defines "s0 \<equiv> fst (InitKernelBuddyShadow st en (kbuddy_bss mem, cur))"
  shows "pool s0 {} {} {}" and "\<forall>x\<in>pages_in (unat st) (unat (en - st)). kshadow_in_range s0 x"
proof -
  let ?c = "pfn (en - st)"
  have s0: "s0 = (kbuddy_bss mem)\<lparr>kshadow_base_pfn := pfn st, kshadow_pfn_count := ?c,
      kshadow := Some (replicate (unat ?c) 0)\<rparr>"
    using lt by (simp add: s0_def InitKernelBuddyShadow_def pfn_def Let_def not_le split_beta)
  have sub: "unat (en - st) = unat en - unat st" "unat st < unat en"
    using lt by (simp_all add: unat_sub word_less_nat_alt order_less_imp_le)
  have dv: "4096 dvd unat st" using st(1) aligned_dvd [of 12 st] by simp
  then obtain q where q: "unat st = 4096 * q" by (auto elim: dvdE)
  have q0: "q \<noteq> 0" using q st(2) unat_0_iff [of st] by auto
  have base: "unat (pfn st) = q" using q by (simp add: unat_pfn)
  have c: "unat ?c = (unat en - unat st) div 4096" using sub by (simp add: unat_pfn)
  have "4096 * unat ?c \<le> unat en - unat st" unfolding c by simp
  then have c2: "4096 * unat ?c + unat st \<le> unat en" using sub(2) by simp
  have bound: "q + unat ?c \<le> 2 ^ 52"
  proof -
    have "4096 * (q + unat ?c) \<le> unat en" using c2 q by (simp add: distrib_left)
    then have "4096 * (q + unat ?c) < 2 ^ 64" using unat64_less [of en] by (rule order.strict_trans1)
    then show ?thesis by simp
  qed
  have fields: "kshadow_base_pfn s0 = pfn st" "kshadow_pfn_count s0 = ?c"
    "kshadow s0 = Some (replicate (unat ?c) 0)" by (simp_all add: s0)
  have "pfn st \<noteq> 0" using base q0 by auto
  then have wf: "shadow_wf s0" unfolding shadow_wf_def fields base using bound by simp
  show "\<forall>x\<in>pages_in (unat st) (unat (en - st)). kshadow_in_range s0 x"
  proof
    fix x assume "x \<in> pages_in (unat st) (unat (en - st))"
    then have x: "4096 * q \<le> unat x" "unat x < 4096 * (q + unat ?c)"
      using c sub q by (auto simp: pages_in_def algebra_simps)
    then have "q \<le> unat x div 4096" "unat x div 4096 < q + unat ?c"
      by (auto simp: less_eq_div_iff_mult_less_eq div_less_iff_less_mult mult.commute)
    then show "kshadow_in_range s0 x" unfolding in_range_iff [OF wf] fields base
      by (simp add: unat_pfn)
  qed
  have "kshadow_load s0 a = 0" if "kshadow_in_range s0 a" for a
    using shadow_idx_less(1) [OF wf that] by (simp add: s0 kshadow_load_def)
  then have "shadow_rel s0 {} {} {}" by (simp add: shadow_rel_def)
  moreover have "lists_rel s0 {}"
    by (auto simp: lists_rel_def inline_lists_def s0 kbuddy_bss_def intro!: exI [of _ "\<lambda>_. []"])
  ultimately show "pool s0 {} {} {}" using wf by (simp add: pool_def block_family_def)
qed

lemma boot_pool:
  assumes "aligned st 12" and "st < en" and b: "aligned b 12" "b \<noteq> 0" "b \<le> st"
  shows "\<exists>s F. InitKernelBuddyAlloc st en (fst (InitKernelBuddyShadow b en (kbuddy_bss mem, cur))) = Some s \<and>
    pool s F {} {} \<and> covers F = pages_in (unat st) (unat en - unat st) \<and> coalesced F"
proof -
  let ?s0 = "fst (InitKernelBuddyShadow b en (kbuddy_bss mem, cur))"
  have st0: "st \<noteq> 0" using b(2,3) by (auto simp: word_le_nat_alt unat_eq_0)
  have "b < en" using b(3) assms(2) by (rule order.strict_trans1)
  note e0 = boot_empty_pool [OF b(1,2) this, of mem cur]
  then have e: "pool ?s0 {} {} {}" "\<forall>x\<in>pages_in (unat st) (unat (en - st)). kshadow_in_range ?s0 x"
    using pages_in_mono [OF b(1) assms(1) b(3) assms(2)] by blast+
  have sub: "unat (en - st) = unat en - unat st" "unat st < unat en"
    using assms(2) by (simp_all add: unat_sub word_less_nat_alt order_less_imp_le)
  have "unat st + unat (en - st) < 2 ^ 64" using sub unat64_less [of en] by simp
  from AddToBuddyAlloc_kernel_pool [OF e(1) assms(1) st0 this] e(2) obtain s N where
    N: "AddToBuddyAlloc_kernel st (en - st) ?s0 = Some s" "pool s N {} {}"
      "covers N = pages_in (unat st) (unat (en - st))" "maximal_upto (unat st + unat (en - st)) N" by auto
  have cov: "\<forall>x\<in>covers N. unat x < unat st + unat (en - st)"
  proof -
    have "4096 * (unat (en - st) div 4096) \<le> unat (en - st)" by simp
    then show ?thesis unfolding N(3) pages_in_def by auto
  qed
  have "coalesced N" using maximal_coalesced [OF _ N(4) cov] poolD(4) [OF N(2)] by simp
  then show ?thesis using N sub assms(2) by (auto simp: InitKernelBuddyAlloc_def)
qed

section \<open>Every reachable state\<close>

text \<open>
  The life of the pool: boot, with the shadow table starting at or below the pool, requests, releases of allocated blocks, and writes by the owners
  of allocated blocks into their memory (which may change the words the allocator would use
  as links, if those pages were free).
\<close>

inductive kpool_reachable :: "u64 \<Rightarrow> u64 \<Rightarrow> kbuddy \<Rightarrow> (u64 \<times> nat) set \<Rightarrow> bool"
  for st en :: u64 where
  boot: "aligned b 12 \<Longrightarrow> b \<noteq> 0 \<Longrightarrow> b \<le> st \<Longrightarrow>
    InitKernelBuddyAlloc st en (fst (InitKernelBuddyShadow b en (kbuddy_bss mem, cur))) = Some s \<Longrightarrow>
    kpool_reachable st en s {}"
| request: "kpool_reachable st en s U \<Longrightarrow> sz \<noteq> 0 \<Longrightarrow> kernel_request_buddy sz s = Some (a, s') \<Longrightarrow>
    a \<noteq> 0 \<Longrightarrow> fits sz k \<Longrightarrow> kpool_reachable st en s' (insert (a, k) U)"
| request_fails: "kpool_reachable st en s U \<Longrightarrow> sz \<noteq> 0 \<Longrightarrow> kernel_request_buddy sz s = Some (0, s') \<Longrightarrow>
    kpool_reachable st en s' U"
| release: "kpool_reachable st en s U \<Longrightarrow> (a, k) \<in> U \<Longrightarrow> kernel_free_buddy a s = Some s' \<Longrightarrow>
    kpool_reachable st en s' (U - {(a, k)})"
| owner_writes: "kpool_reachable st en s U \<Longrightarrow> \<forall>x. x \<notin> covers U \<longrightarrow> mem x = slot s x \<Longrightarrow>
    kpool_reachable st en (s\<lparr>slot := mem\<rparr>) U"

text \<open>The kernel's own boot is such a start: the table ends at or below the end of the pool.\<close>

lemma start_kernel_pool_reachable:
  assumes boot: "start_kernel_pool cur en (kbuddy_bss mem) = Some (s, st)" and "aligned cur 12" and "cur \<noteq> 0"
    and lt: "cur < en"
  shows "kpool_reachable st en s {}" and "cur \<le> st" and "st \<le> en"
proof -
  define count where "count = pfn (en - cur)"
  define pages where "pages = (count + PAGE_SIZE - 1) div PAGE_SIZE"
  have "\<not> en \<le> cur" using lt by simp
  then have st: "st = cur + pages * PAGE_SIZE"
    "InitKernelBuddyAlloc st en (fst (InitKernelBuddyShadow cur en (kbuddy_bss mem, cur))) = Some s"
    using boot by (auto simp: start_kernel_pool_def InitKernelBuddyShadow_def Let_def
        count_def pages_def pfn_def)
  have le: "unat cur < unat en" "unat (en - cur) = unat en - unat cur"
    using lt by (simp_all add: unat_sub word_less_nat_alt order_less_imp_le)
  have c: "unat count = (unat en - unat cur) div 4096" by (simp add: count_def unat_pfn le)
  have small: "unat count < 2 ^ 52" unfolding c using unat64_less [of en] by (simp add: div_less_iff_less_mult)
  have up: "unat pages = (unat count + 4095) div 4096"
  proof -
    have "count + PAGE_SIZE - 1 = count + 4095" by (simp add: PAGE_SIZE_def)
    moreover have "unat (count + 4095) = unat count + 4095" using small by (simp add: unat_word_ariths)
    ultimately show ?thesis unfolding pages_def by (simp only: unat_div) (simp add: PAGE_SIZE_def)
  qed
  have "unat pages \<le> unat count" unfolding up by linarith
  then have fit: "4096 * unat pages \<le> unat en - unat cur" unfolding c by linarith
  then have ust: "unat st = unat cur + 4096 * unat pages"
    using unat64_less [of en] le by (simp add: st(1) unat_word_ariths PAGE_SIZE_def mult.commute)
  show "cur \<le> st" "st \<le> en" using ust fit le by (simp_all add: word_le_nat_alt)
  then show "kpool_reachable st en s {}" using st(2) assms(2,3) by (blast intro: kpool_reachable.boot)
qed

lemma fits_unique: "fits sz j \<Longrightarrow> fits sz k \<Longrightarrow> j = k"
proof (induction j k rule: linorder_wlog)
  case (le j k)
  show ?case
  proof (rule ccontr)
    assume "j \<noteq> k"
    then have "j \<le> k - 1" "12 < k" using le by (auto simp: fits_def)
    then have "(2::nat) ^ j \<le> 2 ^ (k - 1)" by (intro power_increasing) auto
    moreover have "unat sz \<le> 2 ^ j" "2 ^ (k - 1) < unat sz" using le \<open>12 < k\<close> by (auto simp: fits_def)
    ultimately show False by linarith
  qed
qed auto

lemma chain_cong: "(\<And>x. x \<in> set L \<Longrightarrow> f x = g x) \<Longrightarrow> chain f p L = chain g p L"
  by (induction L arbitrary: p) auto

lemma pool_owner_writes:
  assumes p: "pool s F U {}" and eq: "\<forall>x. x \<notin> covers U \<longrightarrow> mem x = slot s x"
  shows "pool (s\<lparr>slot := mem\<rparr>) F U {}"
proof -
  from poolD(2) [OF p] obtain G where G: "inline_lists s G" "\<forall>k<64. set (G k) = {a. (a, k) \<in> F}"
    by (auto simp: lists_rel_def)
  have same: "mem x = slot s x" if "x \<in> set (G k)" "k < 64" for x k
  proof -
    have xF: "(x, k) \<in> F" using G(2) that by auto
    have "x \<notin> blk b j" if "(b, j) \<in> U" for b j
      using block_familyD(5) [OF poolD(4) [OF p], of x k b j] that xF poolD(5) [OF p] by auto
    then have "x \<notin> covers U" by (auto simp: covers_def)
    then show ?thesis using eq by blast
  qed
  have "inline_lists (s\<lparr>slot := mem\<rparr>) G"
    using G(1) chain_cong [of _ mem "slot s"] same unfolding inline_lists_def by simp
  then have "lists_rel (s\<lparr>slot := mem\<rparr>) F" using G(2) by (auto simp: lists_rel_def)
  moreover have "same_shadow s (s\<lparr>slot := mem\<rparr>)" by (simp add: same_shadow_def)
  ultimately show ?thesis
    using p same_shadow_frame [of s "s\<lparr>slot := mem\<rparr>"] pool_same_shadow [of s "s\<lparr>slot := mem\<rparr>"]
    unfolding pool_def by simp
qed

lemma kpool_reachable_pool:
  assumes "kpool_reachable st en s U" and "aligned st 12" and "st \<noteq> 0" and "st < en"
  shows "\<exists>F. pool s F U {} \<and> coalesced F \<and> covers F \<union> covers U = pages_in (unat st) (unat en - unat st)"
  using assms(1)
proof (induction rule: kpool_reachable.induct)
  case (boot b mem cur s)
  then show ?case using boot_pool [OF assms(2,4) boot(1-3), of mem cur] by auto
next
  case (request s U sz a s' k)
  then obtain F where F: "pool s F U {}" "coalesced F"
    "covers F \<union> covers U = pages_in (unat st) (unat en - unat st)" by blast
  from kernel_request_pool [OF F(1) request.hyps(2)] request.hyps(3,4,5)
  obtain c F' where F': "k \<le> c" "(a, c) \<in> F" "F' = F - {(a, c)} \<union> (\<lambda>j. (a XOR 2 ^ j, j)) ` {k..<c}"
    "pool s' F' (insert (a, k) U) {}" "covers F' \<union> blk a k = covers F"
    by (auto dest: fits_unique)
  have "block_family F" using poolD(4) [OF F(1)] by (rule block_family_subset) auto
  then have "coalesced F'" using coalesced_split [OF F(2) _ F'(2)] F'(3) by simp
  then show ?case using F'(4,5) F(3) by (intro exI [of _ F']) auto
next
  case (request_fails s U sz s')
  then obtain F where F: "pool s F U {}" "coalesced F"
    "covers F \<union> covers U = pages_in (unat st) (unat en - unat st)" by blast
  from kernel_request_pool [OF F(1) request_fails.hyps(2)] request_fails.hyps(3) have "s' = s" by auto
  then show ?case using F by blast
next
  case (release s U a k s')
  then obtain F where F: "pool s F U {}" "coalesced F"
    "covers F \<union> covers U = pages_in (unat st) (unat en - unat st)" by blast
  from kernel_free_pool [OF F(1) release.hyps(2)] release.hyps(3) obtain a' k' F' where
    F': "pool s' (insert (a', k') F') (U - {(a, k)}) {}" "F' \<subseteq> F"
      "covers F' \<union> blk a' k' = covers F \<union> blk a k" "k' + 1 < 64 \<longrightarrow> (a' XOR 2 ^ k', k') \<notin> F'"
    by (auto simp del: covers_simps)
  have "covers U = covers (U - {(a, k)}) \<union> blk a k" using release.hyps(2) by (auto simp: covers_def)
  then show ?case using F' F coalesced_insert [OF F(2) F'(2,4)]
    by (intro exI [of _ "insert (a', k') F'"]) auto
next
  case (owner_writes s U mem)
  then show ?case using pool_owner_writes by blast
qed

end
