(* ===== verification/Buddy_Kernel_Verify.thy ===== *)
theory Buddy_Kernel_Verify
  imports Buddy_Kernel_Boot
begin

text \<open>
  The consistency check \<^verbatim>\<open>VerifyKernelBuddyShadow\<close> and the page statistics, on pools
  that satisfy the invariant, and the properties of the kernel pool.
\<close>

section \<open>Counting shadow entries\<close>

definition page_addr :: "kbuddy \<Rightarrow> nat \<Rightarrow> u64" where
  "page_addr s i = of_nat (4096 * (unat (kshadow_base_pfn s) + i))"

lemma page_addr:
  assumes wf: "shadow_wf s" and i: "i < unat (kshadow_pfn_count s)"
  shows "aligned (page_addr s i) 12" and "kshadow_in_range s (page_addr s i)"
    and "shadow_idx s (page_addr s i) = i"
proof -
  let ?b = "unat (kshadow_base_pfn s)"
  have "?b + i < 2 ^ 52" using wf i by (auto simp: shadow_wf_def)
  then have lt: "4096 * (?b + i) < 2 ^ 64" by simp
  then have u: "unat (page_addr s i) = 4096 * (?b + i)"
    unfolding page_addr_def unat_of_nat by simp
  then show "aligned (page_addr s i) 12" by (simp add: aligned_dvd)
  have p: "unat (pfn (page_addr s i)) = ?b + i" unfolding unat_pfn u by simp
  then show r: "kshadow_in_range s (page_addr s i)" using i by (simp add: in_range_iff [OF wf])
  show "shadow_idx s (page_addr s i) = i" using shadow_idx_less(2) [OF wf r] p by simp
qed

lemma shadow_idx_inj:
  assumes wf: "shadow_wf s" and "kshadow_in_range s a" "kshadow_in_range s b" "aligned a 12" "aligned b 12"
    and "shadow_idx s a = shadow_idx s b"
  shows "a = b"
proof -
  have "unat (pfn a) = unat (pfn b)"
    using shadow_idx_less(2) [OF wf assms(2)] shadow_idx_less(2) [OF wf assms(3)] assms(6)
      in_range_iff [OF wf, of a] in_range_iff [OF wf, of b] assms(2,3) by arith
  then show ?thesis using pfn_inj [OF assms(4,5)] by (simp add: word_unat_eq_iff)
qed

lemma pool_table:
  assumes p: "pool s F U {}"
  obtains t where "kshadow s = Some t" "length t = unat (kshadow_pfn_count s)"
    "\<And>a. kshadow_load s a = t ! shadow_idx s a"
  using poolD(1) [OF p] that unfolding shadow_wf_def by (auto simp: kshadow_load_def)

lemma pool_entries:
  assumes p: "pool s F U {}" and t: "kshadow s = Some t"
  shows "{i. i < length t \<and> t ! i AND KSHADOW_FREE_FLAG \<noteq> 0} = (\<lambda>(a, k). shadow_idx s a) ` F"
    and "{i. i < length t \<and> t ! i \<noteq> 0 \<and> t ! i AND KSHADOW_FREE_FLAG = 0} = (\<lambda>(a, k). shadow_idx s a) ` U"
    and "inj_on (\<lambda>(a, k). shadow_idx s a) (F \<union> U)"
proof -
  note wf = poolD(1) [OF p] and rel = shadow_relD [OF poolD(3) [OF p]]
  have len: "length t = unat (kshadow_pfn_count s)" using wf t by (simp add: shadow_wf_def)
  have ld: "kshadow_load s a = t ! shadow_idx s a" for a using t by (simp add: kshadow_load_def)
  have mem: "shadow_idx s a < length t" "k < 64" "12 \<le> k" if "(a, k) \<in> F \<union> U" for a k
    using pool_block [OF p, of a k] that shadow_idx_less(1) [OF wf] len by auto
  have head: "\<exists>a k. (a, k) \<in> F \<union> U \<and> i = shadow_idx s a" if "i < length t" "t ! i \<noteq> 0" for i
  proof -
    note pa = page_addr [OF wf, of i, folded len, OF that(1)]
    have "kshadow_load s (page_addr s i) \<noteq> 0" using that ld pa(3) by simp
    then obtain k where "(page_addr s i, k) \<in> F \<union> U" using rel(3) [OF pa(1,2)] by auto
    then show ?thesis using pa(3) by metis
  qed
  have Fb: "t ! shadow_idx s a AND KSHADOW_FREE_FLAG \<noteq> 0" if "(a, k) \<in> F" for a k
    using rel(1) [OF that] ld mem(2) [of a k] that order_bytes(2) [of k] by auto
  have Ub: "t ! shadow_idx s a \<noteq> 0" "t ! shadow_idx s a AND KSHADOW_FREE_FLAG = 0" if "(a, k) \<in> U" for a k
    using rel(2) [OF that] ld mem(2,3) [of a k] that order_bytes(1) [of k] used_byte_nonzero [of k] by auto
  have nz: "t ! i \<noteq> 0" if "t ! i AND KSHADOW_FREE_FLAG \<noteq> 0" for i
    using that by (metis bit.conj_zero_left)
  show "{i. i < length t \<and> t ! i AND KSHADOW_FREE_FLAG \<noteq> 0} = (\<lambda>(a, k). shadow_idx s a) ` F"
  proof (intro equalityI subsetI)
    fix i assume "i \<in> {i. i < length t \<and> t ! i AND KSHADOW_FREE_FLAG \<noteq> 0}"
    then have i: "i < length t" "t ! i AND KSHADOW_FREE_FLAG \<noteq> 0" by simp_all
    obtain a k where ak: "(a, k) \<in> F \<union> U" "i = shadow_idx s a" using head [OF i(1) nz [OF i(2)]] by blast
    then have "(a, k) \<in> F" using Ub(2) [of a k] i(2) by blast
    then show "i \<in> (\<lambda>(a, k). shadow_idx s a) ` F" using ak(2) by force
  next
    fix i assume "i \<in> (\<lambda>(a, k). shadow_idx s a) ` F"
    then obtain a k where "(a, k) \<in> F" "i = shadow_idx s a" by auto
    then show "i \<in> {i. i < length t \<and> t ! i AND KSHADOW_FREE_FLAG \<noteq> 0}"
      using Fb [of a k] mem(1) [of a k] by blast
  qed
  show "{i. i < length t \<and> t ! i \<noteq> 0 \<and> t ! i AND KSHADOW_FREE_FLAG = 0} = (\<lambda>(a, k). shadow_idx s a) ` U"
  proof (intro equalityI subsetI)
    fix i assume "i \<in> {i. i < length t \<and> t ! i \<noteq> 0 \<and> t ! i AND KSHADOW_FREE_FLAG = 0}"
    then have i: "i < length t" "t ! i \<noteq> 0" "t ! i AND KSHADOW_FREE_FLAG = 0" by simp_all
    obtain a k where ak: "(a, k) \<in> F \<union> U" "i = shadow_idx s a" using head [OF i(1,2)] by blast
    then have "(a, k) \<in> U" using Fb [of a k] i(3) by blast
    then show "i \<in> (\<lambda>(a, k). shadow_idx s a) ` U" using ak(2) by force
  next
    fix i assume "i \<in> (\<lambda>(a, k). shadow_idx s a) ` U"
    then obtain a k where "(a, k) \<in> U" "i = shadow_idx s a" by auto
    then show "i \<in> {i. i < length t \<and> t ! i \<noteq> 0 \<and> t ! i AND KSHADOW_FREE_FLAG = 0}"
      using Ub [of a k] mem(1) [of a k] by blast
  qed
  show "inj_on (\<lambda>(a, k). shadow_idx s a) (F \<union> U)"
  proof (rule inj_onI, clarify)
    fix a j b k assume *: "(a, j) \<in> F \<union> U" "(b, k) \<in> F \<union> U" "shadow_idx s a = shadow_idx s b"
    then have "a = b" using shadow_idx_inj [OF wf] pool_block [OF p, of a j] pool_block [OF p, of b k] by auto
    moreover have "j = k" using pool_unique [OF p, of a j k] * \<open>a = b\<close> by auto
    ultimately show "a = b \<and> j = k" ..
  qed
qed

lemma pool_finite:
  assumes p: "pool s F U {}"
  shows "finite F" and "finite U"
proof -
  obtain t where t: "kshadow s = Some t" using pool_table [OF p] .
  note e = pool_entries [OF p t]
  have "finite ((\<lambda>(a, k). shadow_idx s a) ` F)" "finite ((\<lambda>(a, k). shadow_idx s a) ` U)"
    unfolding e(1,2) [symmetric] by auto
  then show "finite F" "finite U"
    using finite_imageD inj_on_subset [OF e(3)] by (metis Un_upper1 Un_upper2)+
qed

lemma card_by_order:
  fixes n :: nat
  assumes "finite B" and "\<forall>a k. (a, k) \<in> B \<longrightarrow> k < n"
  shows "card B = (\<Sum>k<n. card {a. (a, k) \<in> B})"
proof -
  have eq: "B = (\<Union>k\<in>{..<n}. {a. (a, k) \<in> B} \<times> {k})" using assms(2) by auto
  have "finite {a. (a, k) \<in> B}" for k
    using finite_imageI [OF assms(1), of fst] by (rule rev_finite_subset) force
  then have "card (\<Union>k\<in>{..<n}. {a. (a, k) \<in> B} \<times> {k}) = (\<Sum>k<n. card ({a. (a, k) \<in> B} \<times> {k}))"
    by (subst card_UN_disjoint) auto
  then show ?thesis using eq by (simp add: card_cartesian_product)
qed

section \<open>The check succeeds\<close>

text \<open>The walk over one free list yields the free blocks of that order, each once.\<close>

lemma pool_list:
  assumes p: "pool s F U {}" and n: "n < 64"
  shows "\<exists>L. inline_walk (slot s) (heads s n) = Some L \<and> set L = {a. (a, n) \<in> F} \<and>
    length L = card {a. (a, n) \<in> F}"
proof -
  from poolD(2) [OF p] obtain G where G: "inline_lists s G" "\<forall>k<64. set (G k) = {a. (a, k) \<in> F}"
    by (auto simp: lists_rel_def)
  have w: "inline_walk (slot s) (heads s n) = Some (G n)"
    using inline_walk_chain inline_listsD(1) [OF G(1) n] .
  have S: "set (G n) = {a. (a, n) \<in> F}" using G(2) n by blast
  then have "length (G n) = card {a. (a, n) \<in> F}"
    using distinct_card [OF inline_listsD(2) [OF G(1) n]] by simp
  then show ?thesis using w S by blast
qed

lemma verify_lists_pool:
  assumes p: "pool s F U {}" and n: "n \<le> 64"
  shows "verify_lists n s = Some ((\<Sum>k<n. card {a. (a, k) \<in> F}), 0)"
  using n
proof (induction n)
  case (Suc n)
  then have n: "n < 64" by simp
  from pool_list [OF p n] obtain L where L: "inline_walk (slot s) (heads s n) = Some L"
    "set L = {a. (a, n) \<in> F}" "length L = card {a. (a, n) \<in> F}" by blast
  have "kshadow_in_range s x \<and> kshadow_load s x = free_byte n" if "x \<in> set L" for x
    using that L(2) pool_block(5) [OF p, of x n] shadow_relD(1) [OF poolD(3) [OF p], of x n] by auto
  then have "list_mismatches s n L = 0" by (auto simp: list_mismatches_def)
  then show ?case using Suc L by simp
qed simp

lemma verify_pool:
  assumes p: "pool s F U {}"
  shows "VerifyKernelBuddyShadow s = Some True"
proof -
  obtain t where t: "kshadow s = Some t" "length t = unat (kshadow_pfn_count s)"
    by (rule pool_table [OF p]) blast
  note e = pool_entries [OF p t(1)] and fin = pool_finite [OF p]
  have cF: "card ((\<lambda>(a, k). shadow_idx s a) ` F) = card F"
    using e(3) by (intro card_image) (rule inj_on_subset, auto)
  have cU: "card ((\<lambda>(a, k). shadow_idx s a) ` U) = card U"
    using e(3) by (intro card_image) (rule inj_on_subset, auto)
  have free: "verify_lists MAX_ORDER s = Some (card F, 0)"
  proof -
    have "\<forall>a k. (a, k) \<in> F \<longrightarrow> k < 64" using pool_block(2) [OF p] by blast
    from card_by_order [OF fin(1) this] show ?thesis
      using verify_lists_pool [OF p, of 64] by (simp add: MAX_ORDER_def)
  qed
  have used: "length (filter (\<lambda>b. b \<noteq> 0 \<and> b AND KSHADOW_FREE_FLAG = 0) t) = card U"
    unfolding length_filter_conv_card using e(2) cU by simp
  have nz: "{i. i < length t \<and> t ! i \<noteq> 0} =
      {i. i < length t \<and> t ! i AND KSHADOW_FREE_FLAG \<noteq> 0} \<union>
      {i. i < length t \<and> t ! i \<noteq> 0 \<and> t ! i AND KSHADOW_FREE_FLAG = 0}" (is "_ = ?A \<union> ?B")
    by (auto simp: bit.conj_zero_left) 
  have "card (?A \<union> ?B) = card ?A + card ?B" by (rule card_Un_disjoint) auto
  then have shadow: "length (filter (\<lambda>b. b \<noteq> 0) t) = card F + card U"
    unfolding length_filter_conv_card nz using e(1,2) cF cU by simp
  show ?thesis using t free used shadow by (simp add: VerifyKernelBuddyShadow_def)
qed

end
