(* ===== verification/Buddy_Kernel_Props.thy ===== *)
theory Buddy_Kernel_Props
  imports Buddy_Kernel_Verify
begin

text \<open>
  The properties of the kernel page pool over every state the kernel can bring it into
  (\<open>kpool_reachable\<close>): the invariant, what requests and releases do, that coalescing keeps
  the free space canonical, and the consistency check.
\<close>

section \<open>Maximal coalescing makes the free blocks canonical\<close>

lemma coversE:
  assumes "x \<in> covers F"
  obtains a k where "(a, k) \<in> F" "x \<in> blk a k"
  using assms by (auto simp: covers_def)

lemma coversI: "(a, k) \<in> F \<Longrightarrow> x \<in> blk a k \<Longrightarrow> x \<in> covers F"
  by (auto simp: covers_def)

lemma xor_in_blk: "j < k \<Longrightarrow> a XOR 2 ^ j \<in> blk a k"
  using blk_xor_base [of j k a] blk_refl [of "a XOR 2 ^ j" k] by simp

lemma blk_sym: "x \<in> blk a k \<Longrightarrow> a \<in> blk x k"
  by (simp add: blk_def)

text \<open>
  In a coalesced family every aligned block that is entirely free lies inside a single
  member: among the members that meet it, one of least order would have its buddy beside it.
\<close>

lemma coalesced_block_inside:
  assumes co: "coalesced F" and fam: "block_family F" and sub: "blk a k \<subseteq> covers F"
    and k: "k < 64" "aligned a k"
  shows "\<exists>b j. (b, j) \<in> F \<and> k \<le> j \<and> blk a k \<subseteq> blk b j"
proof (rule ccontr)
  assume no: "\<not> ?thesis"
  have small: "j < k" if "(b, j) \<in> F" "x \<in> blk b j" "x \<in> blk a k" for b j x
  proof (rule ccontr)
    assume "\<not> j < k"
    then show False using no blk_nested [OF that(3,2)] that(1) by simp
  qed
  define P where "P j \<longleftrightarrow> (\<exists>b x. (b, j) \<in> F \<and> x \<in> blk b j \<and> x \<in> blk a k)" for j
  have "a \<in> covers F" using sub by (rule subsetD) simp
  then obtain b0 j0 where "(b0, j0) \<in> F" "a \<in> blk b0 j0" by (rule coversE)
  then have "P j0" using blk_refl [of a k] unfolding P_def by blast
  define j where "j = (LEAST j. P j)"
  have "P j" using LeastI [of P, OF \<open>P j0\<close>] by (simp add: j_def)
  then obtain b x where b: "(b, j) \<in> F" "x \<in> blk b j" "x \<in> blk a k" by (auto simp: P_def)
  have jk: "j < k" by (rule small [OF b])
  have bs: "blk b j \<subseteq> blk a k" using blk_nested [OF b(2,3)] jk by simp
  let ?c = "b XOR 2 ^ j"
  have "blk b k \<subseteq> blk a k" by (rule blk_nested [of b]) (use bs in auto)
  then have c: "?c \<in> blk a k" using xor_in_blk [OF jk, of b] by (rule subsetD)
  then have "?c \<in> covers F" using sub by (rule rev_subsetD)
  then obtain d i where d: "(d, i) \<in> F" "?c \<in> blk d i" by (rule coversE)
  have "P i" unfolding P_def by (intro exI conjI) (rule d c)+
  then have ji: "j \<le> i" unfolding j_def by (rule Least_le)
  have al: "aligned b j" "aligned d i" using block_familyD(3) [OF fam] b(1) d(1) by blast+
  show False
  proof (cases "i = j")
    case True
    have "?c = d" using aligned_blk_unique [of ?c j d] d(2) True al by (simp add: aligned_xor)
    then show False using coalescedD [OF co b(1)] d(1) True jk k(1) by simp
  next
    case False
    then have "blk ?c i = blk b i" using ji by (intro blk_xor_base) simp
    then have "b \<in> blk ?c i" by simp
    then have "b \<in> blk d i" using d(2) by (simp add: blk_def)
    moreover have "(b, j) \<noteq> (d, i)" using False by simp
    ultimately show False using block_familyD(5) [OF fam b(1) d(1)] by auto
  qed
qed

lemma coalesced_canonical:
  assumes "coalesced F" "block_family F" "coalesced F'" "block_family F'" and "covers F = covers F'"
  shows "F = F'"
proof -
  have *: "A \<subseteq> B" if co: "coalesced A" "coalesced B" and fam: "block_family A" "block_family B"
    and eq: "covers A = covers B" for A B
  proof (rule subrelI)
    fix a k assume ak: "(a, k) \<in> A"
    note k = block_familyD(2,3) [OF fam(1) ak]
    have "blk a k \<subseteq> covers B" using coversI [OF ak] eq by blast
    from coalesced_block_inside [OF co(2) fam(2) this k] obtain b j where
      b: "(b, j) \<in> B" "k \<le> j" "blk a k \<subseteq> blk b j" by blast
    note j = block_familyD(2,3) [OF fam(2) b(1)]
    have "blk b j \<subseteq> covers A" using coversI [OF b(1)] eq by blast
    from coalesced_block_inside [OF co(1) fam(1) this j] obtain c i where
      c: "(c, i) \<in> A" "j \<le> i" "blk b j \<subseteq> blk c i" by blast
    have "a \<in> blk c i" using b(3) c(3) by blast
    then have "(a, k) = (c, i)" using block_familyD(5) [OF fam(1) ak c(1)] by blast
    then have "k = j" using b(2) c(2) by simp
    moreover have "a = b" using aligned_blk_unique [of a k b] k j b(3) \<open>k = j\<close> by blast
    ultimately show "(a, k) \<in> B" using b(1) by simp
  qed
  show ?thesis using * [of F F'] * [of F' F] assms by auto
qed

section \<open>The memory the allocator touches\<close>

lemma split_loop_slot:
  "x \<notin> (\<lambda>j. a XOR 2 ^ j) ` {order..<c} \<Longrightarrow> slot (split_loop c order a s) x = slot s x"
proof (induction c arbitrary: s)
  case (Suc c)
  show ?case
  proof (cases "order < Suc c")
    case True
    then have "x \<noteq> a XOR 2 ^ c" "x \<notin> (\<lambda>j. a XOR 2 ^ j) ` {order..<c}" using Suc.prems by auto
    then show ?thesis using True Suc.IH by (simp add: Let_def kshadow_set_free_def inline_push_def)
  qed simp
qed simp

lemma kernel_request_slot:
  assumes p: "pool s F U {}" and sz: "sz \<noteq> 0" and r: "kernel_request_buddy sz s = Some (a, s')"
    and x: "x \<notin> covers F"
  shows "slot s' x = slot s x"
proof (rule kernel_request_cases [OF p sz])
  fix k b c s1
  assume *: "k \<le> c" "c < 64" "(b, c) \<in> F" "slot s1 = slot s"
    "kernel_request_buddy sz s = Some (b, kshadow_set_used b k (split_loop c k b s1))"
  have "b XOR 2 ^ j \<in> covers F" if "j < c" for j
    by (rule coversI [OF *(3) xor_in_blk [OF that]])
  then have "x \<notin> (\<lambda>j. b XOR 2 ^ j) ` {k..<c}" using x by auto
  then have "slot (split_loop c k b s1) x = slot s x" using split_loop_slot [of x b k c s1] *(4) by simp
  then show ?thesis using r *(5) by (auto simp: kshadow_set_used_def)
qed (use r in auto)

section \<open>Counting free pages\<close>

lemma card_blk:
  assumes "k < 64" and "aligned a k"
  shows "card (blk a k) = 2 ^ k"
proof -
  have lt: "unat a + 2 ^ k \<le> 2 ^ 64"
  proof -
    obtain m where m: "unat a = 2 ^ k * m" using assms aligned_dvd by (auto elim: dvdE)
    have p: "(2::nat) ^ 64 = 2 ^ k * 2 ^ (64 - k)" using assms(1) by (simp flip: power_add)
    have "2 ^ k * m < 2 ^ k * 2 ^ (64 - k)" using unat64_less [of a] m p by linarith
    then have "m + 1 \<le> 2 ^ (64 - k)" by simp
    then have "2 ^ k * (m + 1) \<le> 2 ^ k * 2 ^ (64 - k)" by (rule mult_le_mono2)
    then show ?thesis using m p by simp
  qed
  have "blk a k = (of_nat :: nat \<Rightarrow> u64) ` {unat a..<unat a + 2 ^ k}" (is "_ = _ ` ?I")
  proof (intro equalityI subsetI)
    fix x assume "x \<in> blk a k"
    then have "unat x \<in> ?I" using blk_interval [OF assms] by simp
    then show "x \<in> of_nat ` ?I" using image_eqI [of x of_nat "unat x" ?I] by simp
  next
    fix x :: u64 assume "x \<in> of_nat ` ?I"
    then obtain i where i: "x = of_nat i" "i \<in> ?I" by blast
    then have "unat x = i" using lt by (simp add: unat_of_nat)
    then show "x \<in> blk a k" using blk_interval [OF assms] i by simp
  qed
  moreover have "inj_on (of_nat :: nat \<Rightarrow> u64) ?I"
    using lt by (intro inj_onI) (simp add: word_of_nat_eq_iff take_bit_eq_mod)
  ultimately show ?thesis by (simp add: card_image)
qed

lemma card_covers:
  assumes "finite B" and "block_family B"
  shows "card (covers B) = (\<Sum>k<64. card {a. (a, k) \<in> B} * 2 ^ k)"
  using assms
proof (induction B rule: finite_induct)
  case (insert x B)
  obtain a k where x: "x = (a, k)" by (cases x)
  note k = block_familyD(2,3) [OF insert.prems, of a k]
  have fam: "block_family B" by (rule block_family_subset [OF insert.prems]) auto
  have dis: "blk a k \<inter> covers B = {}"
    using block_family_notin_covers insert.prems insert.hyps(2) x by blast
  have fin: "finite {c. (c, j) \<in> B}" for j
    using finite_imageI [OF insert.hyps(1), of fst] by (rule rev_finite_subset) force
  have "{c. (c, j) \<in> insert (a, k) B} = (if j = k then insert a {c. (c, k) \<in> B} else {c. (c, j) \<in> B})" for j
    by auto
  then have "card {c. (c, j) \<in> insert (a, k) B} = (if j = k then 1 else 0) + card {c. (c, j) \<in> B}" for j
    using fin insert.hyps(2) x by simp
  then have "(\<Sum>j<64. card {c. (c, j) \<in> insert (a, k) B} * 2 ^ j) =
      (\<Sum>j<64. (if j = k then 2 ^ j else 0) + card {c. (c, j) \<in> B} * 2 ^ j)"
    by (intro sum.cong) (auto simp: algebra_simps)
  also have "\<dots> = 2 ^ k + card (covers B)"
    using k insert.IH [OF fam] x by (simp add: sum.distrib)
  also have "\<dots> = card (blk a k \<union> covers B)"
    using dis card_blk k x by (subst card_Un_disjoint) auto
  finally show ?case using x by simp
qed simp

lemma free_pages_upto_pool:
  assumes p: "pool s F U {}" and n: "n \<le> 64"
  shows "free_pages_upto n s = Some (of_nat (\<Sum>k<n. card {a. (a, k) \<in> F} * (2 ^ k div 4096)))"
  using n
proof (induction n)
  case (Suc n)
  then have n: "n < 64" by simp
  have "2 ^ n div 4096 < (2::nat) ^ 64" using power_strict_increasing [OF n, of "2::nat"]
    by (rule order.strict_trans1 [OF div_le_dividend, rotated]) simp
  moreover have "unat (drop_bit 12 (2 ^ n :: u64)) = 2 ^ n div 4096"
    using n by (simp only: unat_drop_bit_eq unat_two_pow drop_bit_eq_div [of 12 "2 ^ n :: nat"]) simp
  ultimately have d: "drop_bit 12 (2 ^ n :: u64) = of_nat (2 ^ n div 4096)"
    by (simp add: word_unat_eq_iff unat_of_nat)
  from pool_list [OF p n] show ?case using Suc d by (auto simp: PAGE_SIZE_LOG2_def)
qed simp

section \<open>The state behind every reachable pool\<close>

definition pool_range :: "u64 \<Rightarrow> u64 \<Rightarrow> bool" where
  "pool_range st en \<longleftrightarrow> aligned st 12 \<and> st \<noteq> 0 \<and> st < en"

abbreviation pool_pages :: "u64 \<Rightarrow> u64 \<Rightarrow> u64 set" where
  "pool_pages st en \<equiv> pages_in (unat st) (unat en - unat st)"

lemma reachableE:
  assumes "kpool_reachable st en s U" and "pool_range st en"
  obtains F where "pool s F U {}" "coalesced F" "block_family F" "covers F = pool_pages st en - covers U"
    "covers U \<subseteq> pool_pages st en"
proof -
  obtain F where F: "pool s F U {}" "coalesced F" "covers F \<union> covers U = pool_pages st en"
    using kpool_reachable_pool [OF assms(1)] assms(2) by (auto simp: pool_range_def)
  have fam: "block_family F" using poolD(4) [OF F(1)] by (rule block_family_subset) auto
  have "x \<notin> covers U" if "x \<in> covers F" for x
  proof
    assume "x \<in> covers U"
    then obtain b j where b: "(b, j) \<in> U" "x \<in> blk b j" by (rule coversE)
    obtain a k where a: "(a, k) \<in> F" "x \<in> blk a k" using \<open>x \<in> covers F\<close> by (rule coversE)
    have "(a, k) \<noteq> (b, j)" using a(1) b(1) poolD(5) [OF F(1)] by blast
    then show False using block_familyD(5) [OF poolD(4) [OF F(1)], of a k b j] a b by blast
  qed
  then have "covers F = pool_pages st en - covers U" "covers U \<subseteq> pool_pages st en"
    unfolding F(3) [symmetric] by blast+
  then show ?thesis by (rule that [OF F(1,2) fam])
qed

section \<open>Requests and releases in a reachable pool\<close>

lemma request_spec:
  assumes "kpool_reachable st en s U" and "pool_range st en" and "sz \<noteq> 0"
  shows "\<exists>k. fits sz k \<and>
    (kernel_request_buddy sz s = Some (0, s) \<and>
       (\<forall>a. k < 64 \<longrightarrow> aligned a k \<longrightarrow> blk a k \<subseteq> pool_pages st en \<longrightarrow> blk a k \<inter> covers U \<noteq> {}) \<or>
     (\<exists>a s'. kernel_request_buddy sz s = Some (a, s') \<and> a \<noteq> 0 \<and> aligned a k \<and>
        blk a k \<subseteq> pool_pages st en \<and> blk a k \<inter> covers U = {} \<and>
        kpool_reachable st en s' (insert (a, k) U) \<and> (\<forall>x\<in>covers U. slot s' x = slot s x)))"
proof -
  obtain F where F: "pool s F U {}" "coalesced F" "block_family F"
    "covers F = pool_pages st en - covers U" "covers U \<subseteq> pool_pages st en"
    using reachableE [OF assms(1,2)] .
  from kernel_request_pool [OF F(1) assms(3)] show ?thesis
  proof (elim disjE exE conjE)
    fix k assume k: "fits sz k" "kernel_request_buddy sz s = Some (0, s)" "\<forall>a j. (a, j) \<in> F \<longrightarrow> j < k"
    have "blk a k \<inter> covers U \<noteq> {}" if a: "k < 64" "aligned a k" "blk a k \<subseteq> pool_pages st en" for a
    proof
      assume "blk a k \<inter> covers U = {}"
      then have "blk a k \<subseteq> covers F" using a(3) F(4) by blast
      from coalesced_block_inside [OF F(2,3) this a(1,2)] show False using k(3) by (meson not_le)
    qed
    then show ?thesis using k(1,2) by blast
  next
    fix k a c s' F'
    assume *: "fits sz k" "a \<noteq> 0" "kernel_request_buddy sz s = Some (a, s')"
      "pool s' F' (insert (a, k) U) {}" "covers F' \<union> blk a k = covers F"
      "blk a k \<inter> (covers F' \<union> covers U) = {}"
    have "aligned a k" using pool_block(3) [OF *(4), of a k] by simp
    moreover have "blk a k \<subseteq> pool_pages st en" "blk a k \<inter> covers U = {}" using *(5,6) F(4) by blast+
    moreover have "slot s' x = slot s x" if "x \<in> covers U" for x
      using kernel_request_slot [OF F(1) assms(3) *(3)] F(4) that by blast
    ultimately show ?thesis
      using *(1,2,3) request [OF assms(1,3) *(3,2,1)] by blast
  qed
qed

lemma release_spec:
  assumes "kpool_reachable st en s U" and "pool_range st en" and "(a, k) \<in> U"
  shows "\<exists>s'. kernel_free_buddy a s = Some s' \<and> kpool_reachable st en s' (U - {(a, k)}) \<and>
    (\<forall>x\<in>covers (U - {(a, k)}). slot s' x = slot s x) \<and> kernel_free_buddy a s' = Some s'"
proof -
  obtain F where F: "pool s F U {}" "covers F = pool_pages st en - covers U"
    by (rule reachableE [OF assms(1,2)]) (rule that)
  obtain s' F' where s': "kernel_free_buddy a s = Some s'" "pool s' F' (U - {(a, k)}) {}"
    "\<forall>x. x \<notin> covers F \<union> blk a k \<longrightarrow> slot s' x = slot s x"
    using kernel_free_pool [OF F(1) assms(3)] by (elim exE conjE) (rule that)
  have un: "j = k" if "(a, j) \<in> U" for j using pool_unique [OF F(1), of a j k] that assms(3) by simp
  have al: "aligned a 12" using pool_block(4) [OF F(1), of a k] assms(3) by simp
  have "kernel_free_buddy a s' = Some s'"
    by (rule kernel_free_other [OF s'(2) al]) (use un in blast)
  moreover have "slot s' x = slot s x" if x: "x \<in> covers (U - {(a, k)})" for x
  proof -
    obtain b j where b: "(b, j) \<in> U - {(a, k)}" "x \<in> blk b j" using x by (rule coversE)
    have "blk a k \<inter> blk b j = {}"
      using block_familyD(5) [OF poolD(4) [OF F(1)], of a k b j] b(1) assms(3) by blast
    moreover have "x \<in> covers U" using b by (blast intro: coversI)
    ultimately show ?thesis using s'(3) F(2) b(2) by blast
  qed
  ultimately show ?thesis using s'(1) release [OF assms(1,3) s'(1)] by blast
qed

text \<open>
  A small pool for the examples, booted as the kernel does: the shadow table takes the page
  at \<open>0xF000\<close>, the pool is the four pages from \<open>0x10000\<close>; one page is allocated.
\<close>

definition demo_boot :: "kbuddy option" where
  "demo_boot = map_option fst (start_kernel_pool 0xF000 0x14000 (kbuddy_bss (\<lambda>_. 0)))"

definition demo_pool :: kbuddy where
  "demo_pool = snd (the (kernel_request_buddy 0x1000 (the demo_boot)))"

lemma demo_range: "pool_range 0x10000 0x14000"
  by (simp add: pool_range_def aligned_def)

lemma demo_steps:
  "map_option snd (start_kernel_pool 0xF000 0x14000 (kbuddy_bss (\<lambda>_. 0))) = Some 0x10000"
  "map_option fst (kernel_request_buddy 0x1000 (the demo_boot)) = Some 0x10000"
  by code_simp+

lemma demo_reachable: "kpool_reachable 0x10000 0x14000 demo_pool {(0x10000, 12)}"
proof -
  obtain s0 where s: "start_kernel_pool 0xF000 0x14000 (kbuddy_bss (\<lambda>_. 0)) = Some (s0, 0x10000)"
    using demo_steps(1) by auto
  then have s0: "demo_boot = Some s0" by (simp add: demo_boot_def)
  have r: "kpool_reachable 0x10000 0x14000 s0 {}"
    by (rule start_kernel_pool_reachable(1) [OF s]) (simp_all add: aligned_def)
  obtain s1 where s1: "kernel_request_buddy 0x1000 s0 = Some (0x10000, s1)"
    using demo_steps(2) unfolding s0 by auto
  have "fits 0x1000 12" by (simp add: fits_def)
  from request [OF r _ s1 _ this] show ?thesis unfolding demo_pool_def s0 option.sel s1 by simp
qed

section \<open>Properties of the kernel pool\<close>

text \<open>
  C1. In every state the kernel brings its page pool into, from boot through any sequence of
  requests, releases and writes by block owners, the free lists, the non-empty mask and the
  shadow table describe one and the same family of naturally aligned blocks; free and
  allocated blocks are pairwise disjoint and together are exactly the pages of the pool; no
  two free buddies are left unmerged; and this description is unique.
\<close>

theorem kernel_pool_invariant:
  assumes "kpool_reachable st en s U" and "pool_range st en"
  shows "\<exists>!F. pool_inv s F U \<and> coalesced F \<and> covers F \<inter> covers U = {} \<and>
    covers F \<union> covers U = pool_pages st en"
proof -
  obtain F where F: "pool s F U {}" "coalesced F" "block_family F"
    "covers F = pool_pages st en - covers U" "covers U \<subseteq> pool_pages st en"
    using reachableE [OF assms] .
  have "F' = F" if F': "pool s F' U {}" "coalesced F'" "covers F' \<inter> covers U = {}"
    "covers F' \<union> covers U = pool_pages st en" for F'
  proof (rule coalesced_canonical [OF F'(2) _ F(2,3)])
    show "block_family F'" using poolD(4) [OF F'(1)] by (rule block_family_subset) auto
    show "covers F' = covers F" unfolding F(4) F'(4) [symmetric] using F'(3) by blast
  qed
  moreover have "covers F \<inter> covers U = {}" "covers F \<union> covers U = pool_pages st en"
    using F(4,5) by blast+
  ultimately show ?thesis unfolding pool_inv_def
    by (intro ex1I [of _ F] conjI F) simp_all
qed

theorem kernel_pool_invariant_witness:
  "kpool_reachable 0x10000 0x14000 demo_pool {(0x10000, 12)} \<and>
   (\<exists>!F. pool_inv demo_pool F {(0x10000, 12)} \<and> coalesced F \<and>
      covers F \<inter> covers {(0x10000, 12)} = {} \<and>
      covers F \<union> covers {(0x10000, 12)} = pool_pages 0x10000 0x14000)"
  using kernel_pool_invariant [OF demo_reachable demo_range] demo_reachable by (rule conjI [rotated])

text \<open>
  C2. A request for \<open>sz > 0\<close> bytes always returns.  With \<open>2^k\<close> the least power of two that
  holds \<open>sz\<close> and a page, it either hands out an aligned block of \<open>2^k\<close> bytes inside the pool
  and disjoint from every allocated block, writing no byte of allocated memory, or it returns
  NULL and changes nothing; and NULL only when every aligned \<open>2^k\<close>-byte region of the pool
  overlaps an allocated block.
\<close>

theorem kernel_request_correct:
  assumes "kpool_reachable st en s U" and "pool_range st en" and "sz \<noteq> 0"
  shows "\<exists>k. fits sz k \<and>
    (kernel_request_buddy sz s = Some (0, s) \<and>
       (\<forall>a. k < 64 \<longrightarrow> aligned a k \<longrightarrow> blk a k \<subseteq> pool_pages st en \<longrightarrow> blk a k \<inter> covers U \<noteq> {}) \<or>
     (\<exists>a s'. kernel_request_buddy sz s = Some (a, s') \<and> a \<noteq> 0 \<and> aligned a k \<and>
        blk a k \<subseteq> pool_pages st en \<and> blk a k \<inter> covers U = {} \<and>
        kpool_reachable st en s' (insert (a, k) U) \<and> (\<forall>x\<in>covers U. slot s' x = slot s x)))"
  by (rule request_spec [OF assms])

theorem kernel_request_correct_witness:
  "\<exists>k. fits 0x2000 k \<and>
    (kernel_request_buddy 0x2000 demo_pool = Some (0, demo_pool) \<and>
       (\<forall>a. k < 64 \<longrightarrow> aligned a k \<longrightarrow> blk a k \<subseteq> pool_pages 0x10000 0x14000 \<longrightarrow>
          blk a k \<inter> covers {(0x10000, 12)} \<noteq> {}) \<or>
     (\<exists>a s'. kernel_request_buddy 0x2000 demo_pool = Some (a, s') \<and> a \<noteq> 0 \<and> aligned a k \<and>
        blk a k \<subseteq> pool_pages 0x10000 0x14000 \<and> blk a k \<inter> covers {(0x10000, 12)} = {} \<and>
        kpool_reachable 0x10000 0x14000 s' (insert (a, k) {(0x10000, 12)}) \<and>
        (\<forall>x\<in>covers {(0x10000, 12)}. slot s' x = slot demo_pool x)))"
  by (rule kernel_request_correct [OF demo_reachable demo_range]) simp



text \<open>
  C4. A request followed by the release of the block it returned leaves the pool with the very
  same free blocks: splitting is undone completely by coalescing.
\<close>

theorem kernel_request_free_roundtrip:
  assumes "kpool_reachable st en s U" and "pool_range st en" and "sz \<noteq> 0"
    and "kernel_request_buddy sz s = Some (a, s1)" and "a \<noteq> 0"
  shows "\<exists>s2 F. kernel_free_buddy a s1 = Some s2 \<and> pool_inv s F U \<and> pool_inv s2 F U"
proof -
  obtain F where F: "pool s F U {}" "coalesced F" "block_family F" "covers F = pool_pages st en - covers U"
    by (rule reachableE [OF assms(1,2)])
  obtain k F' where k: "fits sz k" "pool s1 F' (insert (a, k) U) {}" "blk a k \<inter> (covers F' \<union> covers U) = {}"
    using kernel_request_pool [OF F(1) assms(3)]
  proof (elim disjE exE conjE)
    fix k b c s' F'
    assume *: "fits sz k" "kernel_request_buddy sz s = Some (b, s')" "pool s' F' (insert (b, k) U) {}"
      "blk b k \<inter> (covers F' \<union> covers U) = {}"
    have "b = a" "s' = s1" using *(2) assms(4) by simp_all
    then show ?thesis using that [of k F'] *(1,3,4) by simp
  qed (use assms(4,5) in simp)
  have r1: "kpool_reachable st en s1 (insert (a, k) U)" by (rule request [OF assms(1,3,4,5) k(1)])
  have new: "(a, k) \<notin> U"
  proof
    assume "(a, k) \<in> U"
    then have "a \<in> covers U" using blk_refl by (rule coversI)
    then show False using k(3) blk_refl [of a k] by blast
  qed
  obtain s2 where s2: "kernel_free_buddy a s1 = Some s2"
    using kernel_free_pool [OF k(2) insertI1] by (elim exE conjE)
  have "kpool_reachable st en s2 (insert (a, k) U - {(a, k)})" by (rule release [OF r1 _ s2]) simp
  moreover have "insert (a, k) U - {(a, k)} = U" using new by simp
  ultimately have "kpool_reachable st en s2 U" by (simp only:)
  then obtain G where G: "pool s2 G U {}" "coalesced G" "block_family G" "covers G = pool_pages st en - covers U"
    by (rule reachableE [OF _ assms(2)])
  have "G = F" using coalesced_canonical [OF G(2,3) F(2,3)] G(4) F(4) by simp
  then show ?thesis using s2 F(1) G(1) unfolding pool_inv_def
    by (intro exI [of _ s2] exI [of _ F]) simp
qed

theorem kernel_request_free_roundtrip_witness:
  "\<exists>s1 s2 F. kernel_request_buddy 0x1000 demo_pool = Some (0x11000, s1) \<and>
     kernel_free_buddy 0x11000 s1 = Some s2 \<and>
     pool_inv demo_pool F {(0x10000, 12)} \<and> pool_inv s2 F {(0x10000, 12)}"
proof -
  have "map_option fst (kernel_request_buddy 0x1000 demo_pool) = Some 0x11000" by code_simp
  then obtain s1 where s1: "kernel_request_buddy 0x1000 demo_pool = Some (0x11000, s1)" by auto
  show ?thesis using kernel_request_free_roundtrip [OF demo_reachable demo_range _ s1] s1 by auto
qed

text \<open>
  C5. Releasing a page-aligned address that is not the head of an allocated block (a free
  block, the inside of a block, an address outside the pool) changes nothing.
\<close>

theorem kernel_free_ignores_others:
  assumes "kpool_reachable st en s U" and "pool_range st en" and "aligned a 12" and "a \<notin> fst ` U"
  shows "kernel_free_buddy a s = Some s"
proof -
  obtain F where F: "pool s F U {}" by (rule reachableE [OF assms(1,2)]) (rule that)
  show ?thesis by (rule kernel_free_other [OF F assms(3)]) (use assms(4) in force)
qed

theorem kernel_free_ignores_others_witness: "kernel_free_buddy 0x12000 demo_pool = Some demo_pool"
  by (rule kernel_free_ignores_others [OF demo_reachable demo_range]) (simp_all add: aligned_def)

text \<open>
  C6. \<^verbatim>\<open>VerifyKernelBuddyShadow\<close> reports a consistent table in every reachable state: it never
  raises a false alarm, and its walks over the free lists end.
\<close>

theorem kernel_verify_succeeds:
  assumes "kpool_reachable st en s U" and "pool_range st en"
  shows "VerifyKernelBuddyShadow s = Some True"
  by (rule reachableE [OF assms]) (rule verify_pool)

theorem kernel_verify_succeeds_witness: "VerifyKernelBuddyShadow demo_pool = Some True"
  by (rule kernel_verify_succeeds [OF demo_reachable demo_range])

text \<open>
  C7. \<^verbatim>\<open>buddy_kernel_free_pages\<close> returns the number of pages of the pool outside every
  allocated block; the 64-bit sum does not wrap.
\<close>

theorem kernel_free_pages_exact:
  assumes "kpool_reachable st en s U" and "pool_range st en"
  shows "\<exists>n. buddy_kernel_free_pages s = Some n \<and> 4096 * unat n = card (pool_pages st en - covers U)"
proof -
  obtain F where F: "pool s F U {}" "block_family F" "covers F = pool_pages st en - covers U"
    by (rule reachableE [OF assms]) (rule that)
  let ?f = "\<lambda>k. card {a. (a, k) \<in> F}"
  define n where "n = (\<Sum>k<64. ?f k * (2 ^ k div 4096))"
  have "4096 * (?f k * (2 ^ k div 4096)) = ?f k * 2 ^ k" for k
  proof (cases "k < 12")
    case True
    then have "{a. (a, k) \<in> F} = {}" using block_familyD(1) [OF F(2)] by force
    then show ?thesis by simp
  next
    case False
    then have "(2::nat) ^ k = 2 ^ (k - 12) * 4096" using power_add [of "2::nat" "k - 12" 12] by simp
    then show ?thesis by simp
  qed
  then have eq: "4096 * n = card (covers F)"
    unfolding n_def card_covers [OF pool_finite(1) [OF F(1)] F(2)] sum_distrib_left by (intro sum.cong) auto
  have "card (covers F) \<le> card (UNIV :: u64 set)" by (intro card_mono) auto
  then have "4096 * n \<le> 2 ^ 64" using eq by (simp add: card_word)
  then have "n < 2 ^ 64" by simp
  then have u: "unat (of_nat n :: u64) = n" by (simp add: unat_of_nat)
  have "kshadow s \<noteq> None" using poolD(1) [OF F(1)] by (auto simp: shadow_wf_def)
  then have "buddy_kernel_free_pages s = Some (of_nat n)"
    using free_pages_upto_pool [OF F(1), of 64, folded n_def]
    by (auto simp: buddy_kernel_free_pages_def MAX_ORDER_def)
  then show ?thesis using u eq F(3) by (intro exI [of _ "of_nat n"]) simp
qed

theorem kernel_free_pages_exact_witness:
  "\<exists>n. buddy_kernel_free_pages demo_pool = Some n \<and>
     4096 * unat n = card (pool_pages 0x10000 0x14000 - covers {(0x10000, 12)})"
  by (rule kernel_free_pages_exact [OF demo_reachable demo_range])

end
