(* ===== verification/Util_String.thy ===== *)
theory Util_String
  imports Prelude "HOL-Library.Char_ord"
begin

text \<open>
  \<^verbatim>\<open>util/string.c\<close>: number conversion, comparison, copying and the bounded formatter
  \<^verbatim>\<open>kvsnprintf\<close>.  A C string is the list of its bytes before the terminating NUL; \<open>char\<close> is
  signed on this target, so comparisons read bytes through \<open>sint\<close>.  Loops that would not end
  or leave their buffer give \<open>None\<close>.
\<close>

section \<open>Characters and digits\<close>

definition chr :: "char \<Rightarrow> u8" where
  "chr c = of_nat (of_char c)"

abbreviation cstr :: "string \<Rightarrow> u8 list" where
  "cstr s \<equiv> map chr s"

definition isdigit :: "u8 \<Rightarrow> bool" where
  "isdigit c = (if sint c < sint (chr CHR ''0'') \<or> sint c > sint (chr CHR ''9'') then False else True)"

definition isuppercasealpha :: "u8 \<Rightarrow> bool" where
  "isuppercasealpha c = (if sint c < sint (chr CHR ''A'') \<or> sint c > sint (chr CHR ''F'') then False else True)"

definition islowercasealpha :: "u8 \<Rightarrow> bool" where
  "islowercasealpha c = (if sint c < sint (chr CHR ''a'') \<or> sint c > sint (chr CHR ''f'') then False else True)"

definition char_to_digit :: "u8 \<Rightarrow> u64" where
  "char_to_digit c =
     (if isdigit c then word_of_int (sint c - sint (chr CHR ''0''))
      else if islowercasealpha c then word_of_int (sint c - sint (chr CHR ''a'') + 10)
      else if isuppercasealpha c then word_of_int (sint c - sint (chr CHR ''A'') + 10)
      else 0xFF)"

section \<open>Number conversion\<close>

text \<open>The literal \<^verbatim>\<open>"0123456789ABCDEF"\<close> indexed: 16 digits, its terminator, and nothing beyond.\<close>

definition itoa_digit :: "u64 \<Rightarrow> u8 option" where
  "itoa_digit i =
     (if unat i < 16 then Some (cstr ''0123456789ABCDEF'' ! unat i)
      else if i = 16 then Some 0 else None)"

partial_function (option) itoa_loop :: "u64 \<Rightarrow> u64 \<Rightarrow> u8 list \<Rightarrow> u8 list option" where
  "itoa_loop value base out =
     (if base = 0 then None
      else
        let tmp_value = value; value' = value div base in
        Option.bind (itoa_digit (tmp_value - value' * base)) (\<lambda>c.
          let out' = out @ [c] in
          if value' \<noteq> 0 then itoa_loop value' base out' else Some out'))"

text \<open>
  \<^verbatim>\<open>flip_str\<close> finds the terminator and swaps from both ends; here the buffer is a list and
  the terminator its first 0 byte or its end.
\<close>

function flip_loop :: "int \<Rightarrow> int \<Rightarrow> u8 list \<Rightarrow> u8 list" where
  "flip_loop s e xs =
     (if s < e then
        let temp = xs ! nat s
        in flip_loop (s + 1) (e - 1) (xs[nat s := xs ! nat e, nat e := temp])
      else xs)"
  by pat_completeness auto
termination by (relation "measure (\<lambda>(s, e, xs). nat (e - s))") auto

declare flip_loop.simps [simp del]

definition flip_str :: "u8 list \<Rightarrow> u8 list" where
  "flip_str str = flip_loop 0 (int (length (takeWhile (\<lambda>c. c \<noteq> 0) str)) - 1) str"

definition itoa :: "u64 \<Rightarrow> u64 \<Rightarrow> u64 \<Rightarrow> u8 list option" where
  "itoa value base min_width =
     Option.bind (if value = 0 then Some [chr CHR ''0''] else itoa_loop value base []) (\<lambda>out.
       Some (flip_str (out @ replicate (unat min_width - length out) (chr CHR ''0''))))"

fun atoi_loop :: "u8 list \<Rightarrow> u64 \<Rightarrow> u64 \<Rightarrow> u64" where
  "atoi_loop [] base result = result"
| "atoi_loop (c # cs) base result =
     (let result = result * base; digit = char_to_digit c
      in if digit = 0xFF then result else atoi_loop cs base (result + digit))"

definition atoi :: "u8 list \<Rightarrow> u64 \<Rightarrow> u64" where
  "atoi str base = atoi_loop str base 0"

section \<open>Copying and comparison\<close>

fun strcmp :: "u8 list \<Rightarrow> u8 list \<Rightarrow> int" where
  "strcmp (a # as) (b # bs) =
     (if sint a > sint b then 1 else if sint a < sint b then -1 else strcmp as bs)"
| "strcmp (a # as) [] = 1"
| "strcmp [] (b # bs) = -1"
| "strcmp [] [] = 0"

text \<open>\<open>n\<close> counts down here; the source compares its index with \<open>n\<close>.\<close>

fun strncmp :: "u8 list \<Rightarrow> u8 list \<Rightarrow> nat \<Rightarrow> int" where
  "strncmp (a # as) (b # bs) (Suc n) =
     (if sint a > sint b then 1 else if sint a < sint b then -1 else strncmp as bs n)"
| "strncmp as bs 0 = 0"
| "strncmp (a # as) [] (Suc n) = 1"
| "strncmp [] (b # bs) (Suc n) = -1"
| "strncmp [] [] (Suc n) = 0"

definition strlen :: "u8 list option \<Rightarrow> nat" where
  "strlen str = (case str of None \<Rightarrow> 0 | Some s \<Rightarrow> length s)"

text \<open>\<^verbatim>\<open>cpystr\<close> into a buffer: the bytes and the terminator, or a write past its end.\<close>

definition put_byte :: "u8 list \<Rightarrow> nat \<Rightarrow> u8 \<Rightarrow> u8 list option" where
  "put_byte buf i c = (if i < length buf then Some (buf[i := c]) else None)"

fun cpystr_from :: "nat \<Rightarrow> u8 list \<Rightarrow> u8 list \<Rightarrow> u8 list option" where
  "cpystr_from idx [] dst = put_byte dst idx 0"
| "cpystr_from idx (c # cs) dst = Option.bind (put_byte dst idx c) (cpystr_from (Suc idx) cs)"

definition cpystr :: "u8 list \<Rightarrow> u8 list \<Rightarrow> u8 list option" where
  "cpystr source dst = cpystr_from 0 source dst"

section \<open>The bounded formatter\<close>

text \<open>The buffer, and the number of bytes a large enough buffer would have received.\<close>

type_synonym ksink = "u8 list \<times> u64"

definition ks_putc :: "u64 \<Rightarrow> u8 \<Rightarrow> ksink \<Rightarrow> ksink option" where
  "ks_putc sz c k =
     (let (buf, total) = k in
      Option.bind (if total + 1 < sz then put_byte buf (unat total) c else Some buf)
        (\<lambda>buf'. Some (buf', total + 1)))"

fun ks_put_list :: "u64 \<Rightarrow> u8 list \<Rightarrow> ksink \<Rightarrow> ksink option" where
  "ks_put_list sz [] k = Some k"
| "ks_put_list sz (c # cs) k = Option.bind (ks_putc sz c k) (ks_put_list sz cs)"

definition ks_puts :: "u64 \<Rightarrow> u8 list option \<Rightarrow> ksink \<Rightarrow> ksink option" where
  "ks_puts sz s k = ks_put_list sz (case s of None \<Rightarrow> cstr ''(null)'' | Some s \<Rightarrow> s) k"

text \<open>The digits go into \<^verbatim>\<open>char tmp[32]\<close>, lowest first; a 33rd would be written past it.\<close>

function ks_digits :: "u64 \<Rightarrow> u64 \<Rightarrow> u8 list \<Rightarrow> u8 list option" where
  "ks_digits value base tmp =
     (if value = 0 then Some tmp
      else if base = 0 \<or> \<not> length tmp < 32 then None
      else
        let d = value mod base;
            c = ucast (if d < 10 then ucast (chr CHR ''0'') + d else ucast (chr CHR ''a'') + d - 10)
        in ks_digits (value div base) base (tmp @ [c]))"
  by pat_completeness auto
termination by (relation "measure (\<lambda>(value, base, tmp). 32 - length tmp)") auto

declare ks_digits.simps [simp del]

definition ks_putu :: "u64 \<Rightarrow> u64 \<Rightarrow> u64 \<Rightarrow> ksink \<Rightarrow> ksink option" where
  "ks_putu sz value base k =
     Option.bind (if value = 0 then Some [chr CHR ''0''] else ks_digits value base [])
       (\<lambda>tmp. ks_put_list sz (rev tmp) k)"

definition ks_putd :: "u64 \<Rightarrow> u64 \<Rightarrow> ksink \<Rightarrow> ksink option" where
  "ks_putd sz value k =
     (if sint value < 0 then
        Option.bind (ks_putc sz (chr CHR ''-'') k)
          (ks_putu sz (word_of_int (- (sint value + 1)) + 1) 10)
      else ks_putu sz value 10 k)"

text \<open>
  The variable arguments, in order: an integer argument occupies one 64-bit slot, a string
  argument is a pointer (\<open>None\<close> for NULL).  Fetching past the end or as the wrong kind is
  undefined behaviour.
\<close>

datatype vararg = VInt u64 | VStr "u8 list option"

fun va_int :: "vararg list \<Rightarrow> (u64 \<times> vararg list) option" where
  "va_int (VInt v # args) = Some (v, args)"
| "va_int _ = None"

fun va_str :: "vararg list \<Rightarrow> (u8 list option \<times> vararg list) option" where
  "va_str (VStr s # args) = Some (s, args)"
| "va_str _ = None"

text \<open>
  One conversion: the specifier byte after \<open>%\<close> (and an ignored \<open>l\<close>), the arguments, the sink.
\<close>

definition kv_spec :: "u64 \<Rightarrow> u8 \<Rightarrow> vararg list \<Rightarrow> ksink \<Rightarrow> (vararg list \<times> ksink) option" where
  "kv_spec sz c args k =
     (if c = chr CHR ''d'' \<or> c = chr CHR ''i'' then
        Option.bind (va_int args) (\<lambda>(v, args). Option.bind (ks_putd sz v k) (\<lambda>k. Some (args, k)))
      else if c = chr CHR ''u'' then
        Option.bind (va_int args) (\<lambda>(v, args). Option.bind (ks_putu sz v 10 k) (\<lambda>k. Some (args, k)))
      else if c = chr CHR ''x'' then
        Option.bind (va_int args) (\<lambda>(v, args). Option.bind (ks_putu sz v 16 k) (\<lambda>k. Some (args, k)))
      else if c = chr CHR ''s'' then
        Option.bind (va_str args) (\<lambda>(s, args). Option.bind (ks_puts sz s k) (\<lambda>k. Some (args, k)))
      else if c = chr CHR ''c'' then
        Option.bind (va_int args) (\<lambda>(v, args). Option.bind (ks_putc sz (ucast v) k) (\<lambda>k. Some (args, k)))
      else if c = chr CHR ''%'' then
        Option.bind (ks_putc sz (chr CHR ''%'') k) (\<lambda>k. Some (args, k))
      else
        Option.bind (ks_putc sz (chr CHR ''%'') k) (\<lambda>k.
          Option.bind (ks_putc sz c k) (\<lambda>k. Some (args, k))))"

definition skip_l :: "u8 list \<Rightarrow> u8 list" where
  "skip_l fmt = (case fmt of c # cs \<Rightarrow> if c = chr CHR ''l'' then cs else fmt | [] \<Rightarrow> [])"

lemma length_skip_l: "length (skip_l fmt) \<le> length fmt"
  by (auto simp: skip_l_def split: list.splits)

function kv_loop :: "u64 \<Rightarrow> u8 list \<Rightarrow> vararg list \<Rightarrow> ksink \<Rightarrow> ksink option" where
  "kv_loop sz [] args k = Some k"
| "kv_loop sz (c # fmt) args k =
     (if c \<noteq> chr CHR ''%'' then Option.bind (ks_putc sz c k) (kv_loop sz fmt args)
      else case skip_l fmt of
        [] \<Rightarrow> Some k
      | d # fmt' \<Rightarrow> Option.bind (kv_spec sz d args k) (\<lambda>(args, k). kv_loop sz fmt' args k))"
  by pat_completeness auto
termination
proof (relation "measure (\<lambda>(sz, fmt, args, k). length fmt)")
  fix sz c fmt args k x d fmt' y args' k'
  assume "skip_l fmt = d # (fmt' :: u8 list)"
  then have "length fmt' < length fmt" using length_skip_l [of fmt] by simp
  then show "((sz, fmt', args', k'), (sz, c # fmt, args, k)) \<in> measure (\<lambda>(sz, fmt, args, k). length fmt)"
    by simp
qed auto

declare kv_loop.simps(2) [simp del]

definition kvsnprintf :: "u8 list \<Rightarrow> u64 \<Rightarrow> u8 list option \<Rightarrow> vararg list \<Rightarrow> (u8 list \<times> u64) option" where
  "kvsnprintf buf sz fmt args =
     (case fmt of
        None \<Rightarrow> Some (buf, 0)
      | Some f \<Rightarrow>
          Option.bind (kv_loop sz f args (buf, 0)) (\<lambda>(buf, total).
            Option.bind (if sz > 0 then put_byte buf (unat (if total < sz then total else sz - 1)) 0
                         else Some buf)
              (\<lambda>buf. Some (buf, total))))"

section \<open>Positional notation\<close>

text \<open>The digits of a number, lowest first.\<close>

function nat_digits :: "nat \<Rightarrow> nat \<Rightarrow> nat list" where
  "nat_digits b n = (if n = 0 \<or> b < 2 then [] else n mod b # nat_digits b (n div b))"
  by pat_completeness auto
termination by (relation "measure (\<lambda>(b, n). n)") auto

declare nat_digits.simps [simp del]

lemma nat_digits_simps:
  "nat_digits b 0 = []" "2 \<le> b \<Longrightarrow> 0 < n \<Longrightarrow> nat_digits b n = n mod b # nat_digits b (n div b)"
  by (subst nat_digits.simps, simp)+

lemma nat_digits_less: "2 \<le> b \<Longrightarrow> d \<in> set (nat_digits b n) \<Longrightarrow> d < b"
proof (induction b n rule: nat_digits.induct)
  case (1 b n)
  then show ?case by (cases "n = 0") (auto simp: nat_digits_simps)
qed

lemma nat_digits_value: "2 \<le> b \<Longrightarrow> foldr (\<lambda>d v. d + b * v) (nat_digits b n) 0 = n"
proof (induction b n rule: nat_digits.induct)
  case (1 b n)
  then show ?case by (cases "n = 0") (auto simp: nat_digits_simps)
qed

lemma length_nat_digits: "2 \<le> b \<Longrightarrow> n < b ^ k \<Longrightarrow> length (nat_digits b n) \<le> k"
proof (induction k arbitrary: n)
  case (Suc k)
  have "n div b < b ^ k" using Suc.prems by (simp add: div_less_iff_less_mult mult.commute)
  then show ?case using Suc.IH Suc.prems(1) by (cases "n = 0") (auto simp: nat_digits_simps)
qed (simp add: nat_digits_simps)

definition upper_digit :: "nat \<Rightarrow> u8" where
  "upper_digit d = cstr ''0123456789ABCDEF'' ! d"

definition lower_digit :: "nat \<Rightarrow> u8" where
  "lower_digit d = cstr ''0123456789abcdef'' ! d"

lemma digit_tables:
  "list_all (\<lambda>d. char_to_digit (upper_digit d) = of_nat d \<and> upper_digit d \<noteq> 0 \<and>
     ucast (if of_nat d < (10::u64) then ucast (chr CHR ''0'') + of_nat d
            else ucast (chr CHR ''a'') + of_nat d - 10 :: u64) = lower_digit d) [0..<16]"
  by code_simp

lemma digit_table:
  assumes "d < 16"
  shows "char_to_digit (upper_digit d) = of_nat d" and "upper_digit d \<noteq> 0"
    and "ucast (if of_nat d < (10::u64) then ucast (chr CHR ''0'') + of_nat d
            else ucast (chr CHR ''a'') + of_nat d - 10 :: u64) = lower_digit d"
proof -
  have "d \<in> set [0..<16]" using assms by simp
  then show "char_to_digit (upper_digit d) = of_nat d" "upper_digit d \<noteq> 0"
    "ucast (if of_nat d < (10::u64) then ucast (chr CHR ''0'') + of_nat d
            else ucast (chr CHR ''a'') + of_nat d - 10 :: u64) = lower_digit d"
    using digit_tables unfolding list_all_iff by blast+
qed

section \<open>Number conversion is a round trip\<close>

lemma itoa_loop_eq:
  assumes "2 \<le> unat base" "unat base \<le> 16" and "v \<noteq> 0"
  shows "itoa_loop v base out = Some (out @ map upper_digit (nat_digits (unat base) (unat v)))"
  using assms(3)
proof (induction "unat v" arbitrary: v out rule: less_induct)
  case less
  let ?b = "unat base"
  have pos: "0 < unat v" using less.prems by (simp add: unat_gt_0)
  have q: "unat (v div base) = unat v div ?b" by (rule unat_div_distrib)
  have r: "v - v div base * base = v mod base" by (simp add: minus_div_mult_eq_mod)
  have m: "unat (v mod base) = unat v mod ?b" by (rule unat_mod_distrib)
  have "unat v mod ?b < ?b" using assms by simp
  then have dig: "itoa_digit (v mod base) = Some (upper_digit (unat v mod ?b))"
    using assms(2) m by (simp add: itoa_digit_def upper_digit_def)
  have nd: "nat_digits ?b (unat v) = unat v mod ?b # nat_digits ?b (unat v div ?b)"
    using assms pos by (simp add: nat_digits_simps)
  have b0: "base \<noteq> 0" using assms by auto
  show ?case
  proof (cases "v div base = 0")
    case True
    then have "unat v div ?b = 0" using q by (simp add: unat_0_iff)
    then show ?thesis using True b0 dig nd r by (simp add: itoa_loop.simps nat_digits_simps Let_def)
  next
    case False
    have "unat (v div base) < unat v" using q pos assms by simp
    from less.hyps [OF this False] show ?thesis
      using False b0 dig nd r q by (subst itoa_loop.simps) (simp add: Let_def)
  qed
qed

lemma flip_loop_eq:
  assumes "0 \<le> s" and "e < int (length xs)" and "s \<le> e + 1"
  shows "flip_loop s e xs = take (nat s) xs @ rev (take (nat (e + 1 - s)) (drop (nat s) xs)) @ drop (nat (e + 1)) xs"
  using assms
proof (induction s e xs rule: flip_loop.induct)
  case (1 s e xs)
  show ?case
  proof (cases "s < e")
    case False
    then consider "e = s" | "e + 1 = s" using 1(4) by linarith
    then show ?thesis
    proof cases
      case 1
      then have n: "nat s < length xs" "nat (e + 1) = Suc (nat s)" "nat (e + 1 - s) = Suc 0" using \<open>0 \<le> s\<close> \<open>e < _\<close> by linarith+
      then have "take (Suc 0) (drop (nat s) xs) = [xs ! nat s]" by (simp add: take_Suc_conv_app_nth)
      then show ?thesis using False n by (simp add: flip_loop.simps id_take_nth_drop [symmetric])
    next
      case 2
      then show ?thesis using False by (simp add: flip_loop.simps)
    qed
  next
    case True
    define i j where "i = nat s" and "j = nat e"
    have ij: "s = int i" "e = int j" "i < j" "j < length xs" using True 1 by (auto simp: i_def j_def)
    let ?ys = "xs[i := xs ! j, j := xs ! i]"
    have "flip_loop s e xs = flip_loop (s + 1) (e - 1) ?ys"
      using True by (subst flip_loop.simps) (simp add: i_def j_def Let_def)
    also have "\<dots> = take (Suc i) ?ys @ rev (take (j - Suc i) (drop (Suc i) ?ys)) @ drop j ?ys"
      using 1(1) [OF True refl] ij 1(2-4) by (simp add: nat_diff_distrib nat_add_distrib flip: i_def j_def)
    also have "take (Suc i) ?ys = take i xs @ [xs ! j]" using ij by (simp add: take_Suc_conv_app_nth)
    also have "drop j ?ys = xs ! i # drop (Suc j) xs" using ij by (simp add: Cons_nth_drop_Suc [symmetric])
    also have "take (j - Suc i) (drop (Suc i) ?ys) = take (j - Suc i) (drop (Suc i) xs)"
      using ij by (intro nth_equalityI) auto
    also have "(take i xs @ [xs ! j]) @ rev (take (j - Suc i) (drop (Suc i) xs)) @ xs ! i # drop (Suc j) xs
        = take i xs @ rev (xs ! i # take (j - Suc i) (drop (Suc i) xs) @ [xs ! j]) @ drop (Suc j) xs" by simp
    also have "xs ! i # take (j - Suc i) (drop (Suc i) xs) @ [xs ! j] = take (Suc j - i) (drop i xs)"
      using ij by (intro nth_equalityI)
        (auto simp: nth_Cons nth_append split: nat.splits intro!: arg_cong [of _ _ "nth xs"])
    finally show ?thesis using ij by (simp add: nat_diff_distrib nat_add_distrib)
  qed
qed

lemma flip_str_rev: "0 \<notin> set str \<Longrightarrow> flip_str str = rev str"
proof -
  assume "0 \<notin> set str"
  then have "takeWhile (\<lambda>c. c \<noteq> 0) str = str" by (auto simp: takeWhile_eq_all_conv)
  then show ?thesis unfolding flip_str_def by (simp only:) (simp add: flip_loop_eq)
qed

lemma atoi_loop_digits:
  assumes "\<forall>d\<in>set ds. d < 16"
  shows "atoi_loop (map upper_digit ds) base (of_nat r) =
    of_nat (foldl (\<lambda>v d. v * unat base + d) r ds)"
  using assms
proof (induction ds arbitrary: r)
  case (Cons d ds)
  then have d: "d < 16" "char_to_digit (upper_digit d) = of_nat d" by (simp_all add: digit_table)
  have "unat (of_nat d :: u64) = d" using d(1) by (simp add: unat_of_nat)
  then have "of_nat d \<noteq> (0xFF :: u64)" using d(1) by (auto dest: arg_cong [of _ _ unat])
  moreover have "of_nat r * base + of_nat d = (of_nat (r * unat base + d) :: u64)" by simp
  ultimately show ?case using Cons d(2) by (simp add: Let_def del: of_nat_add of_nat_mult)
qed simp

lemma foldl_rev_digits: "foldl (\<lambda>v d. v * b + d) 0 (rev ds) = foldr (\<lambda>d v. d + b * v) ds (0::nat)"
  by (induction ds) (simp_all add: algebra_simps)

lemma funpow_zero_digits: "(((*) b) ^^ k) (0::nat) = 0"
  by (induction k) auto

lemma itoa_eq:
  assumes "2 \<le> unat base" "unat base \<le> 16"
  obtains ds where "itoa v base w = Some (map upper_digit (rev ds))"
    and "\<forall>d\<in>set ds. d < 16" and "foldr (\<lambda>d v. d + unat base * v) ds 0 = unat v" and "unat w \<le> length ds"
proof -
  define ds where "ds = (if v = 0 then [0] else nat_digits (unat base) (unat v))"
  have zero: "chr CHR ''0'' = upper_digit 0" by code_simp
  have ds: "\<forall>d\<in>set ds. d < 16" "foldr (\<lambda>d v. d + unat base * v) ds 0 = unat v"
    using assms nat_digits_less [OF assms(1)] nat_digits_value [OF assms(1)]
    by (auto simp: ds_def dest: less_le_trans)
  let ?es = "ds @ replicate (unat w - length ds) 0"
  have out: "(if v = 0 then Some [chr CHR ''0''] else itoa_loop v base []) = Some (map upper_digit ds)"
    using itoa_loop_eq [OF assms] by (simp add: ds_def zero)
  have nz: "0 \<notin> set (map upper_digit ?es)" using ds(1) digit_table(2) by (fastforce simp: image_iff)
  have "itoa v base w = Some (flip_str (map upper_digit ?es))"
    unfolding itoa_def out by (simp add: zero map_replicate_const)
  then have "itoa v base w = Some (map upper_digit (rev ?es))"
    using flip_str_rev [OF nz] by (simp only: rev_map)
  then show thesis using ds by (intro that [of ?es]) (auto simp: funpow_zero_digits)
qed

section \<open>The string order\<close>

lemma sint_eq: "sint a = sint b \<longleftrightarrow> a = (b :: u8)"
  by (simp add: word_eq_iff_signed [where ?'a = int])

lemma strcmp_zero: "strcmp as bs = 0 \<longleftrightarrow> as = bs"
  by (induction as bs rule: strcmp.induct) (auto simp: sint_eq [symmetric])

lemma strcmp_range: "strcmp as bs \<in> {-1, 0, 1}"
  by (induction as bs rule: strcmp.induct) auto

lemma strcmp_swap: "strcmp bs as = - strcmp as bs"
  by (induction as bs rule: strcmp.induct) auto

lemma strcmp_trans: "strcmp as bs \<le> 0 \<Longrightarrow> strcmp bs cs \<le> 0 \<Longrightarrow> strcmp as cs \<le> 0"
proof (induction as bs arbitrary: cs rule: strcmp.induct)
  case (1 a as b bs)
  then obtain c cs' where cs: "cs = c # cs'" by (cases cs) simp_all
  have le: "sint a \<le> sint b" "sint b \<le> sint c" using "1.prems" cs by (auto split: if_splits)
  show ?case
  proof (cases "sint a = sint b \<and> sint b = sint c")
    case True
    then show ?thesis using 1 cs by simp
  next
    case False
    then have "sint a < sint c" using le by linarith
    then show ?thesis using cs by simp
  qed
next
  case (3 b bs)
  then show ?case by (cases cs) auto
next
  case 4
  then show ?case by (cases cs) auto
qed auto

lemma strncmp_take: "strncmp as bs n = strcmp (take n as) (take n bs)"
  by (induction as bs n rule: strncmp.induct) auto

section \<open>What the formatter means\<close>

text \<open>The text a format produces, with no buffer: the specification of \<^verbatim>\<open>kvsnprintf\<close>.\<close>

definition fmt_unsigned :: "nat \<Rightarrow> u64 \<Rightarrow> u8 list" where
  "fmt_unsigned b v = (if v = 0 then [chr CHR ''0''] else rev (map lower_digit (nat_digits b (unat v))))"

definition fmt_signed :: "u64 \<Rightarrow> u8 list" where
  "fmt_signed v = (if sint v < 0 then chr CHR ''-'' # fmt_unsigned 10 (- v) else fmt_unsigned 10 v)"

definition fmt_spec :: "u8 \<Rightarrow> vararg list \<Rightarrow> (u8 list \<times> vararg list) option" where
  "fmt_spec c args =
     (if c \<in> {chr CHR ''d'', chr CHR ''i''} then map_option (apfst fmt_signed) (va_int args)
      else if c = chr CHR ''u'' then map_option (apfst (fmt_unsigned 10)) (va_int args)
      else if c = chr CHR ''x'' then map_option (apfst (fmt_unsigned 16)) (va_int args)
      else if c = chr CHR ''s'' then map_option (apfst (\<lambda>s. case s of None \<Rightarrow> cstr ''(null)'' | Some s \<Rightarrow> s)) (va_str args)
      else if c = chr CHR ''c'' then map_option (apfst (\<lambda>v. [ucast v])) (va_int args)
      else if c = chr CHR ''%'' then Some ([c], args)
      else Some ([chr CHR ''%'', c], args))"

function fmt_text :: "u8 list \<Rightarrow> vararg list \<Rightarrow> u8 list option" where
  "fmt_text [] args = Some []"
| "fmt_text (c # fmt) args =
     (if c \<noteq> chr CHR ''%'' then map_option (Cons c) (fmt_text fmt args)
      else case skip_l fmt of
        [] \<Rightarrow> Some []
      | d # fmt' \<Rightarrow>
          (case fmt_spec d args of
             None \<Rightarrow> None
           | Some (s, args') \<Rightarrow> map_option (append s) (fmt_text fmt' args')))"
  by pat_completeness auto
termination
proof (relation "measure (\<lambda>(fmt, args). length fmt)")
  fix c fmt args d fmt' x s args'
  assume "skip_l fmt = d # (fmt' :: u8 list)"
  then have "length fmt' < length fmt" using length_skip_l [of fmt] by simp
  then show "((fmt', args'), (c # fmt, args)) \<in> measure (\<lambda>(fmt, args). length fmt)" by simp
qed auto

declare fmt_text.simps(2) [simp del]

section \<open>The formatter writes a prefix of that text\<close>

text \<open>The sink after \<open>out\<close> went into it: the first \<open>sz - 1\<close> bytes stored, the rest of the buffer untouched.\<close>

definition sink_rel :: "u64 \<Rightarrow> u8 list \<Rightarrow> u8 list \<Rightarrow> ksink \<Rightarrow> bool" where
  "sink_rel sz buf0 out k \<longleftrightarrow> unat sz \<le> length buf0 \<and> length out < 2 ^ 64 - 1 \<and>
     k = (take (unat sz - 1) out @ drop (min (length out) (unat sz - 1)) buf0, of_nat (length out))"

lemma sink_putc:
  assumes "sink_rel sz buf0 out k" and "length out + 1 < 2 ^ 64 - 1"
  shows "\<exists>k'. ks_putc sz c k = Some k' \<and> sink_rel sz buf0 (out @ [c]) k'"
proof -
  let ?n = "length out" and ?m = "unat sz - 1"
  have u: "unat (of_nat ?n :: u64) = ?n" using assms(2) by (simp add: unat_of_nat)
  have "unat (of_nat (?n + 1) :: u64) = ?n + 1" unfolding unat_of_nat using assms(2) by simp
  then have u1: "unat (of_nat ?n + 1 :: u64) = ?n + 1" by (simp add: add.commute)
  have less: "of_nat ?n + 1 < sz \<longleftrightarrow> ?n < ?m" unfolding word_less_nat_alt u1 by linarith
  have k: "k = (take ?m out @ drop (min ?n ?m) buf0, of_nat ?n)" and len: "unat sz \<le> length buf0"
    using assms(1) by (simp_all add: sink_rel_def)
  show ?thesis
  proof (cases "?n < ?m")
    case True
    then have d: "drop ?n buf0 = buf0 ! ?n # drop (Suc ?n) buf0" using len by (simp add: Cons_nth_drop_Suc)
    have "ks_putc sz c k = Some (out @ c # drop (Suc ?n) buf0, of_nat ?n + 1)"
      using True len less u d by (simp add: ks_putc_def k put_byte_def list_update_append)
    then show ?thesis using True len assms(2) by (simp add: sink_rel_def)
  next
    case False
    then show ?thesis using less len assms(2) by (simp add: ks_putc_def k sink_rel_def)
  qed
qed

lemma sink_put_list:
  assumes "sink_rel sz buf0 out k" and "length out + length s < 2 ^ 64 - 1"
  shows "\<exists>k'. ks_put_list sz s k = Some k' \<and> sink_rel sz buf0 (out @ s) k'"
  using assms
proof (induction s arbitrary: out k)
  case (Cons c s)
  from sink_putc [OF Cons.prems(1), of c] Cons.prems(2) obtain k1 where
    k1: "ks_putc sz c k = Some k1" "sink_rel sz buf0 (out @ [c]) k1" by auto
  from Cons.IH [OF k1(2)] Cons.prems(2) show ?case using k1(1) by auto
qed simp

text \<open>Both bases the formatter uses need at most 20 of the 32 digit slots.\<close>

lemma ks_digits_eq:
  assumes b: "2 \<le> unat base" "unat base \<le> 16" and "length tmp + length (nat_digits (unat base) (unat v)) \<le> 32"
  shows "ks_digits v base tmp = Some (tmp @ map lower_digit (nat_digits (unat base) (unat v)))"
  using assms(3)
proof (induction "unat v" arbitrary: v tmp rule: less_induct)
  case less
  show ?case
  proof (cases "v = 0")
    case True
    then show ?thesis by (simp add: ks_digits.simps nat_digits_simps)
  next
    case False
    then have pos: "0 < unat v" by (simp add: unat_gt_0)
    let ?d = "unat v mod unat base"
    have nd: "nat_digits (unat base) (unat v) = ?d # nat_digits (unat base) (unat (v div base))"
      using b pos by (simp add: nat_digits_simps unat_div_distrib)
    have d16: "?d < 16" using b by (meson less_le_trans mod_less_divisor order.strict_trans1 zero_less_numeral)
    have m: "v mod base = of_nat ?d"
      using d16 by (simp add: word_unat_eq_iff unat_of_nat unat_mod_distrib)
    have lt: "unat (v div base) < unat v" using pos b by (simp add: unat_div_distrib)
    have b0: "base \<noteq> 0" using b by auto
    let ?c = "lower_digit ?d"
    have "ks_digits v base tmp = ks_digits (v div base) base (tmp @ [?c])"
      using False b0 less.prems nd digit_table(3) [OF d16] by (subst ks_digits.simps) (simp add: m Let_def)
    also have "\<dots> = Some ((tmp @ [?c]) @ map lower_digit (nat_digits (unat base) (unat (v div base))))"
      by (rule less.hyps [OF lt]) (use less.prems nd in simp)
    finally show ?thesis using nd by simp
  qed
qed

lemma ks_digits_fits:
  assumes "base = 10 \<or> base = 16"
  shows "ks_digits v base [] = Some (map lower_digit (nat_digits (unat base) (unat v)))"
proof -
  have "length (nat_digits 10 (unat v)) \<le> 20"
    by (rule length_nat_digits) (use unat64_less [of v] in simp_all)
  moreover have "length (nat_digits 16 (unat v)) \<le> 16"
    by (rule length_nat_digits) (use unat64_less [of v] in simp_all)
  ultimately show ?thesis using assms by (auto simp: ks_digits_eq)
qed

lemma ks_putu_eq:
  assumes "base = 10 \<or> base = 16"
  shows "ks_putu sz v base k = ks_put_list sz (fmt_unsigned (unat base) v) k"
  using ks_digits_fits [OF assms] by (simp add: ks_putu_def fmt_unsigned_def rev_map)

lemma ks_putd_eq: "ks_putd sz v k = ks_put_list sz (fmt_signed v) k"
proof -
  have "word_of_int (- (sint v + 1)) + 1 = - v" by simp
  then show ?thesis by (simp add: ks_putd_def fmt_signed_def ks_putu_eq fun_eq_iff cong: bind_option_cong)
qed

lemma kv_spec_eq:
  "kv_spec sz c args k =
     (case fmt_spec c args of
        None \<Rightarrow> None
      | Some (s, args') \<Rightarrow> Option.bind (ks_put_list sz s k) (\<lambda>k. Some (args', k)))"
  unfolding kv_spec_def fmt_spec_def
  by (cases "va_int args"; cases "va_str args")
    (auto simp: ks_putd_eq ks_putu_eq ks_puts_def apfst_def split: option.splits)

lemma sink_kv_loop:
  assumes "sink_rel sz buf0 out k" and "fmt_text fmt args = Some s" and "length out + length s < 2 ^ 64 - 1"
  shows "\<exists>k'. kv_loop sz fmt args k = Some k' \<and> sink_rel sz buf0 (out @ s) k'"
  using assms
proof (induction sz fmt args k arbitrary: out s rule: kv_loop.induct)
  case (2 sz c fmt args k)
  show ?case
  proof (cases "c = chr CHR ''%''")
    case False
    then obtain s' where s': "fmt_text fmt args = Some s'" "s = c # s'"
      using "2.prems"(2) by (auto simp: fmt_text.simps(2))
    from sink_putc [OF "2.prems"(1), of c] "2.prems"(3) s'(2) obtain k1 where
      k1: "ks_putc sz c k = Some k1" "sink_rel sz buf0 (out @ [c]) k1" by auto
    have "\<exists>k'. kv_loop sz fmt args k1 = Some k' \<and> sink_rel sz buf0 ((out @ [c]) @ s') k'"
      by (rule "2.IH"(1) [OF False k1 s'(1)]) (use "2.prems"(3) s'(2) in simp)
    then show ?thesis using False k1(1) s'(2) by (simp add: kv_loop.simps(2))
  next
    case True
    show ?thesis
    proof (cases "skip_l fmt")
      case Nil
      then show ?thesis using True "2.prems" by (simp add: kv_loop.simps(2) fmt_text.simps(2))
    next
      case (Cons d fmt')
      obtain s1 args' s2 where sp: "fmt_spec d args = Some (s1, args')" "fmt_text fmt' args' = Some s2" "s = s1 @ s2"
        using "2.prems"(2) True Cons by (auto simp: fmt_text.simps(2) split: option.splits)
      from sink_put_list [OF "2.prems"(1), of s1] "2.prems"(3) sp(3) obtain k1 where
        k1: "ks_put_list sz s1 k = Some k1" "sink_rel sz buf0 (out @ s1) k1" by auto
      have kv: "kv_spec sz d args k = Some (args', k1)" using sp(1) k1(1) by (simp add: kv_spec_eq)
      have "\<exists>k'. kv_loop sz fmt' args' k1 = Some k' \<and> sink_rel sz buf0 ((out @ s1) @ s2) k'"
        by (rule "2.IH"(2) [OF _ Cons kv refl k1(2) sp(2)]) (use True "2.prems"(3) sp(3) in simp_all)
      then show ?thesis using True Cons kv sp(3) by (simp add: kv_loop.simps(2))
    qed
  qed
qed simp

text \<open>
  \<^verbatim>\<open>atoi\<close> multiplies before it looks at the next byte: a trailing non-digit still scales the
  result.
\<close>

lemma atoi_scales_before_stopping: "atoi (cstr ''12x'') 10 = 120"
  by code_simp

section \<open>Properties of the string library\<close>

text \<open>
  C8. \<^verbatim>\<open>itoa\<close> and \<^verbatim>\<open>atoi\<close> are inverse for every 64-bit value and every base from 2 to 16:
  the conversion ends, is at least as wide as asked for, contains no NUL, and reads back as
  the same value.
\<close>

theorem itoa_atoi_roundtrip:
  assumes "2 \<le> unat base" and "unat base \<le> 16"
  shows "\<exists>str. itoa v base w = Some str \<and> atoi str base = v \<and> unat w \<le> length str \<and> 0 \<notin> set str"
proof -
  obtain ds where ds: "itoa v base w = Some (map upper_digit (rev ds))" "\<forall>d\<in>set ds. d < 16"
    "foldr (\<lambda>d v. d + unat base * v) ds 0 = unat v" "unat w \<le> length ds" by (rule itoa_eq [OF assms])
  have "atoi (map upper_digit (rev ds)) base = of_nat (unat v)"
    using atoi_loop_digits [of "rev ds" base 0] ds(2,3) by (simp add: atoi_def foldl_rev_digits)
  moreover have "0 \<notin> set (map upper_digit (rev ds))" using ds(2) digit_table(2) by (fastforce simp: image_iff)
  ultimately show ?thesis using ds(1,4) by simp
qed

theorem itoa_atoi_roundtrip_witness:
  "\<exists>str. itoa 48879 16 6 = Some str \<and> atoi str 16 = 48879 \<and> unat (6::u64) \<le> length str \<and> 0 \<notin> set str"
  by (rule itoa_atoi_roundtrip) simp_all

text \<open>
  C9. \<^verbatim>\<open>strcmp\<close> is a total order on strings: it returns 0 exactly on equal strings, swapping
  the arguments negates it, and it is transitive; \<^verbatim>\<open>strncmp\<close> is that order on the first
  \<open>n\<close> bytes.
\<close>

theorem strcmp_total_order:
  "(strcmp as bs = 0 \<longleftrightarrow> as = bs) \<and> strcmp bs as = - strcmp as bs \<and>
   (strcmp as bs \<le> 0 \<longrightarrow> strcmp bs cs \<le> 0 \<longrightarrow> strcmp as cs \<le> 0) \<and>
   strncmp as bs n = strcmp (take n as) (take n bs)"
  by (intro conjI impI strcmp_zero strcmp_swap strncmp_take) (rule strcmp_trans)

theorem strcmp_total_order_witness:
  "strcmp (cstr ''bin'') (cstr ''dev'') \<le> 0 \<and> strcmp (cstr ''dev'') (cstr ''proc'') \<le> 0 \<and>
   strcmp (cstr ''bin'') (cstr ''proc'') \<le> 0"
proof -
  have "strcmp (cstr ''bin'') (cstr ''dev'') \<le> 0" "strcmp (cstr ''dev'') (cstr ''proc'') \<le> 0" by code_simp+
  then show ?thesis
    using strcmp_total_order [of "cstr ''bin''" "cstr ''dev''" "cstr ''proc''"] by blast
qed

text \<open>
  C10. \<^verbatim>\<open>kvsnprintf\<close> is memory safe and exact: given a buffer of at least \<open>sz\<close> bytes and
  arguments that match the format, it never writes outside the first \<open>sz\<close> bytes; it stores
  the longest prefix of the formatted text that leaves room for the terminating NUL, keeps the
  bytes behind it, and returns the length of the whole text.
\<close>

theorem kvsnprintf_correct:
  assumes "unat sz \<le> length buf" and "fmt_text fmt args = Some s" and "length s < 2 ^ 64 - 1"
  shows "kvsnprintf buf sz (Some fmt) args =
    Some (if sz = 0 then buf
          else take (unat sz - 1) s @ 0 # drop (Suc (min (length s) (unat sz - 1))) buf, of_nat (length s))"
proof -
  let ?m = "min (length s) (unat sz - 1)"
  have "sink_rel sz buf [] (buf, 0)" using assms(1) by (simp add: sink_rel_def)
  from sink_kv_loop [OF this assms(2)] assms(3) have
    loop: "kv_loop sz fmt args (buf, 0) = Some (take (unat sz - 1) s @ drop ?m buf, of_nat (length s))"
    by (auto simp: sink_rel_def)
  show ?thesis
  proof (cases "sz = 0")
    case True
    then show ?thesis using loop by (simp add: kvsnprintf_def)
  next
    case False
    then have pos: "0 < unat sz" by (simp add: unat_gt_0)
    have u: "unat (of_nat (length s) :: u64) = length s" using assms(3) by (simp add: unat_of_nat)
    have u1: "unat (sz - 1) = unat sz - 1" using False by (rule unat_minus_one)
    have i: "unat (if of_nat (length s) < sz then of_nat (length s) else sz - 1) = ?m"
      using u u1 pos by (auto simp: word_less_nat_alt)
    have "drop ?m buf = buf ! ?m # drop (Suc ?m) buf" using assms(1) pos by (simp add: Cons_nth_drop_Suc)
    then have "put_byte (take (unat sz - 1) s @ drop ?m buf) ?m 0 = Some (take (unat sz - 1) s @ 0 # drop (Suc ?m) buf)"
      using assms(1) pos by (simp add: put_byte_def list_update_append)
    then show ?thesis using loop False i by (simp add: kvsnprintf_def word_gt_0)
  qed
qed

theorem kvsnprintf_correct_witness:
  "kvsnprintf (replicate 16 0xAA) 8 (Some (cstr ''pid %d: %s'')) [VInt 42, VStr None] =
    Some (cstr ''pid 42:'' @ 0 # replicate 8 0xAA, 14)"
proof -
  have "fmt_text (cstr ''pid %d: %s'') [VInt 42, VStr None] = Some (cstr ''pid 42: (null)'')" by code_simp
  from kvsnprintf_correct [of 8 "replicate 16 0xAA", OF _ this] show ?thesis by simp
qed

end
