(* ===== verification/Util_Memory.thy ===== *)
theory Util_Memory
  imports Prelude
begin

text \<open>
  \<^verbatim>\<open>util/memory.c\<close>: \<^verbatim>\<open>memset\<close>, \<^verbatim>\<open>memcmp\<close> and \<^verbatim>\<open>memcpy\<close> with their aligned wide paths,
  over a byte-addressed memory, and their equivalence with the byte-at-a-time specifications.
\<close>

section \<open>Memory and wide accesses\<close>

type_synonym mem = "u64 \<Rightarrow> u8"

text \<open>Little-endian 64-bit and 32-bit accesses.\<close>

fun load_bytes :: "nat \<Rightarrow> u64 \<Rightarrow> mem \<Rightarrow> u64" where
  "load_bytes 0 a m = 0"
| "load_bytes (Suc n) a m = load_bytes n a m OR push_bit (8 * n) (ucast (m (a + of_nat n)))"

definition load64 :: "u64 \<Rightarrow> mem \<Rightarrow> u64" where
  "load64 a m = load_bytes 8 a m"

definition load32 :: "u64 \<Rightarrow> mem \<Rightarrow> u64" where
  "load32 a m = load_bytes 4 a m"

fun store_bytes :: "nat \<Rightarrow> u64 \<Rightarrow> u64 \<Rightarrow> mem \<Rightarrow> mem" where
  "store_bytes 0 a v m = m"
| "store_bytes (Suc n) a v m = (store_bytes n a v m)(a + of_nat n := ucast (drop_bit (8 * n) v))"

definition store64 :: "u64 \<Rightarrow> u64 \<Rightarrow> mem \<Rightarrow> mem" where
  "store64 a v m = store_bytes 8 a v m"

section \<open>memset\<close>

fun memset_prefix :: "u64 \<Rightarrow> u8 \<Rightarrow> nat \<Rightarrow> mem \<Rightarrow> u64 \<times> nat \<times> mem" where
  "memset_prefix d v 0 m = (d, 0, m)"
| "memset_prefix d v (Suc n) m =
     (if d AND 7 \<noteq> 0 then memset_prefix (d + 1) v n (m(d := v)) else (d, Suc n, m))"

fun memset_qwords :: "u64 \<Rightarrow> u64 \<Rightarrow> nat \<Rightarrow> mem \<Rightarrow> mem" where
  "memset_qwords d64 v64 0 m = m"
| "memset_qwords d64 v64 (Suc n) m = memset_qwords (d64 + 8) v64 n (store64 d64 v64 m)"

fun memset_tail :: "u64 \<Rightarrow> u8 \<Rightarrow> nat \<Rightarrow> mem \<Rightarrow> mem" where
  "memset_tail d v 0 m = m"
| "memset_tail d v (Suc n) m = memset_tail (d + 1) v n (m(d := v))"

definition replicate_byte :: "u8 \<Rightarrow> u64" where
  "replicate_byte v =
     (let v64 = ucast v;
          v64 = v64 OR push_bit 8 v64;
          v64 = v64 OR push_bit 16 v64
      in v64 OR push_bit 32 v64)"

definition memset :: "u64 \<Rightarrow> u8 \<Rightarrow> u64 \<Rightarrow> mem \<Rightarrow> mem" where
  "memset address v sz m =
     (let (d, n, m1) = memset_prefix address v (unat sz) m;
          qwords = n div 8;
          m2 = memset_qwords d (replicate_byte v) qwords m1
      in memset_tail (d + of_nat (qwords * 8)) v (n mod 8) m2)"

section \<open>memcmp\<close>

fun memcmp_bytes :: "u64 \<Rightarrow> u64 \<Rightarrow> nat \<Rightarrow> mem \<Rightarrow> int" where
  "memcmp_bytes p1 p2 0 m = 0"
| "memcmp_bytes p1 p2 (Suc n) m =
     (if m p1 \<noteq> m p2 then uint (m p1) - uint (m p2) else memcmp_bytes (p1 + 1) (p2 + 1) n m)"

text \<open>A differing word is resolved byte by byte; if no byte differs the loop over words goes on.\<close>

fun memcmp_words :: "u64 \<Rightarrow> u64 \<Rightarrow> nat \<Rightarrow> mem \<Rightarrow> int" where
  "memcmp_words p1 p2 0 m = 0"
| "memcmp_words p1 p2 (Suc n) m =
     (if load32 p1 m \<noteq> load32 p2 m then
        (let r = memcmp_bytes p1 p2 4 m in
         if r \<noteq> 0 then r else memcmp_words (p1 + 4) (p2 + 4) n m)
      else memcmp_words (p1 + 4) (p2 + 4) n m)"

text \<open>The word count is a \<^verbatim>\<open>uint32_t\<close>: it is truncated.\<close>

definition memcmp :: "u64 \<Rightarrow> u64 \<Rightarrow> u64 \<Rightarrow> mem \<Rightarrow> int" where
  "memcmp p1 p2 num m =
     (if (p1 OR p2 OR num) mod 4 = 0 then
        memcmp_words p1 p2 (unat (ucast (num div 4) :: u32)) m
      else memcmp_bytes p1 p2 (unat num) m)"

section \<open>memcpy\<close>

fun memcpy_prefix :: "u64 \<Rightarrow> u64 \<Rightarrow> nat \<Rightarrow> mem \<Rightarrow> u64 \<times> u64 \<times> nat \<times> mem" where
  "memcpy_prefix d s 0 m = (d, s, 0, m)"
| "memcpy_prefix d s (Suc n) m =
     (if (d OR s) AND 7 \<noteq> 0 then
        if d AND 7 \<noteq> s AND 7 then (d, s, Suc n, m)
        else memcpy_prefix (d + 1) (s + 1) n (m(d := m s))
      else (d, s, Suc n, m))"

fun memcpy_qwords :: "u64 \<Rightarrow> u64 \<Rightarrow> nat \<Rightarrow> mem \<Rightarrow> mem" where
  "memcpy_qwords d s 0 m = m"
| "memcpy_qwords d s (Suc n) m = memcpy_qwords (d + 8) (s + 8) n (store64 d (load64 s m) m)"

fun memcpy_bytes :: "u64 \<Rightarrow> u64 \<Rightarrow> nat \<Rightarrow> mem \<Rightarrow> mem" where
  "memcpy_bytes d s 0 m = m"
| "memcpy_bytes d s (Suc n) m = memcpy_bytes (d + 1) (s + 1) n (m(d := m s))"

definition memcpy :: "u64 \<Rightarrow> u64 \<Rightarrow> u64 \<Rightarrow> mem \<Rightarrow> mem" where
  "memcpy dest src n m =
     (let (d, s, k, m1) = memcpy_prefix dest src (unat n) m in
      if k \<ge> 8 \<and> (d OR s) AND 7 = 0 then
        let qwords = k div 8;
            m2 = memcpy_qwords d s qwords m1
        in memcpy_bytes (d + of_nat (qwords * 8)) (s + of_nat (qwords * 8)) (k mod 8) m2
      else memcpy_bytes d s k m1)"

section \<open>Intervals of addresses\<close>

text \<open>Offset of an address from a base; address arithmetic wraps as the machine's does.\<close>

lemma offset_add:
  fixes x d :: u64
  assumes "k \<le> unat (x - d)"
  shows "unat (x - (d + of_nat k)) = unat (x - d) - k"
proof -
  have "k < 2 ^ 64" using assms unat64_less [of "x - d"] by linarith
  then have k: "unat (of_nat k :: u64) = k" by (simp add: unat_of_nat)
  have "unat ((x - d) - of_nat k) = unat (x - d) - k" using assms k by (simp add: unat_sub word_le_nat_alt)
  then show ?thesis by (simp only: diff_diff_eq)
qed

lemma offset_below:
  fixes x d :: u64
  assumes "k + n \<le> 2 ^ 64" and "unat (x - d) < k"
  shows "\<not> unat (x - (d + of_nat k)) < n"
proof
  define y where "y = x - (d + of_nat k)"
  assume "unat (x - (d + of_nat k)) < n"
  then have "k + unat y < 2 ^ 64" using assms(1) by (simp add: y_def)
  then have "unat (of_nat k + y) = k + unat y" by (simp add: unat_word_ariths unat_of_nat)
  moreover have "x - d = of_nat k + y" by (simp add: y_def)
  ultimately show False using assms(2) by simp
qed

lemma offset_split:
  fixes x d :: u64
  assumes "k + n \<le> 2 ^ 64"
  shows "unat (x - d) < k + n \<longleftrightarrow> unat (x - d) < k \<or> unat (x - (d + of_nat k)) < n"
  using offset_add [of k x d] offset_below [OF assms, of x d] by linarith

lemma offset_zero: "unat (x - d) < Suc 0 \<longleftrightarrow> x = (d :: u64)"
  by (simp add: unat_0_iff)

section \<open>Filling\<close>

definition fill :: "u64 \<Rightarrow> u8 \<Rightarrow> nat \<Rightarrow> mem \<Rightarrow> mem" where
  "fill d v n m = (\<lambda>x. if unat (x - d) < n then v else m x)"

lemma fill_0 [simp]: "fill d v 0 m = m"
  by (simp add: fill_def)

lemma fill_1: "fill d v (Suc 0) m = m(d := v)"
  by (auto simp: fill_def offset_zero simp del: less_Suc0)

lemma fill_fill: "k + n \<le> 2 ^ 64 \<Longrightarrow> fill (d + of_nat k) v n (fill d v k m) = fill d v (k + n) m"
  using offset_split [of k n _ d] by (auto simp: fill_def)

lemma fill_Suc: "Suc n \<le> 2 ^ 64 \<Longrightarrow> fill (d + 1) v n (m(d := v)) = fill d v (Suc n) m"
  using fill_fill [of "Suc 0" n d v m] by (simp add: fill_1)

lemma memset_tail_fill: "n \<le> 2 ^ 64 \<Longrightarrow> memset_tail d v n m = fill d v n m"
  by (induction n arbitrary: d m) (simp_all add: fill_Suc)

lemma memset_prefix_fill:
  assumes "memset_prefix d v n m = (d', k, m')" and "n \<le> 2 ^ 64"
  shows "k \<le> n" and "d' = d + of_nat (n - k)" and "m' = fill d v (n - k) m"
proof -
  have "k \<le> n \<and> d' = d + of_nat (n - k) \<and> m' = fill d v (n - k) m" using assms
  proof (induction n arbitrary: d m)
    case (Suc n)
    show ?case
    proof (cases "d AND 7 \<noteq> 0")
      case True
      then have "memset_prefix (d + 1) v n (m(d := v)) = (d', k, m')" using Suc.prems by simp
      moreover have "n \<le> 2 ^ 64" using Suc.prems(2) by simp
      ultimately have "k \<le> n \<and> d' = d + 1 + of_nat (n - k) \<and> m' = fill (d + 1) v (n - k) (m(d := v))"
        by (rule Suc.IH)
      then have *: "k \<le> n" "d' = d + 1 + of_nat (n - k)" "m' = fill (d + 1) v (n - k) (m(d := v))"
        by blast+
      have "fill (d + 1) v (n - k) (m(d := v)) = fill d v (Suc (n - k)) m"
        using Suc.prems(2) by (intro fill_Suc) simp
      moreover have "Suc n - k = Suc (n - k)" using *(1) by simp
      ultimately show ?thesis using *
        by (intro conjI le_SucI) (simp_all only: of_nat_Suc add.assoc)
    qed (use Suc.prems in simp)
  qed simp
  then show "k \<le> n" "d' = d + of_nat (n - k)" "m' = fill d v (n - k) m" by auto
qed

lemma store_bytes_fill:
  assumes "\<forall>i<n. ucast (drop_bit (8 * i) w) = v" and "n \<le> 8"
  shows "store_bytes n a w m = fill a v n m"
  using assms
proof (induction n)
  case (Suc n)
  then have "store_bytes (Suc n) a w m = fill (a + of_nat n) v (Suc 0) (fill a v n m)" by (simp add: fill_1)
  also have "\<dots> = fill a v (n + Suc 0) m" using Suc.prems(2) by (intro fill_fill) simp
  finally show ?case by simp
qed simp

lemma bit8: "bit (v :: u8) n \<Longrightarrow> n < 8"
  using bit_imp_le_length [of v n] by simp

lemma bits_double:
  fixes w :: u64 and v :: u8
  assumes "\<And>j. bit w j \<longleftrightarrow> j < 8 * n \<and> bit v (j mod 8)" and "16 * n \<le> 64"
  shows "bit (w OR push_bit (8 * n) w) j \<longleftrightarrow> j < 16 * n \<and> bit v (j mod 8)"
proof -
  have e: "bit (w OR push_bit (8 * n) w) j \<longleftrightarrow> bit w j \<or> 8 * n \<le> j \<and> j < 64 \<and> bit w (j - 8 * n)"
    unfolding bit_or_iff bit_push_bit_iff possible_bit_def by (simp add: not_le)
  show ?thesis
  proof (cases "8 * n \<le> j")
    case True
    then obtain i where j: "j = 8 * n + i" using le_Suc_ex by blast
    have m: "(8 * n + i) mod 8 = i mod 8" by (rule mod_mult_self4)
    have l: "8 * n + i < 16 * n \<longleftrightarrow> i < 8 * n" "\<not> 8 * n + i < 8 * n" "8 * n + i - 8 * n = i" by linarith+
    have "i < 8 * n \<Longrightarrow> 8 * n + i < 64" using assms(2) by linarith
    then show ?thesis unfolding e assms(1) unfolding j m l using l(2) le_add1 [of "8 * n" i] by blast
  next
    case False
    then have "j < 8 * n" "j < 16 * n" by linarith+
    then show ?thesis unfolding e assms(1) using False by simp
  qed
qed

lemma replicate_byte_bits: "bit (replicate_byte v) j \<longleftrightarrow> j < 64 \<and> bit v (j mod 8)"
proof -
  have "bit (ucast v :: u64) j \<longleftrightarrow> j < 8 * 1 \<and> bit v (j mod 8)" for j
    by (cases "j < 8") (auto simp: bit_unsigned_iff dest: bit8)
  from bits_double [OF this] have
    "bit (ucast v OR push_bit 8 (ucast v) :: u64) j \<longleftrightarrow> j < 8 * 2 \<and> bit v (j mod 8)" for j by simp
  from bits_double [OF this] have
    "bit ((ucast v OR push_bit 8 (ucast v)) OR push_bit 16 (ucast v OR push_bit 8 (ucast v)) :: u64) j
      \<longleftrightarrow> j < 8 * 4 \<and> bit v (j mod 8)" for j by simp
  from bits_double [OF this, of j] show ?thesis unfolding replicate_byte_def Let_def by simp
qed

lemma replicate_byte_bytes:
  assumes "i < 8"
  shows "ucast (drop_bit (8 * i) (replicate_byte v)) = v"
proof -
  have "(8 * i + j) mod 8 = j" if "j < 8" for j :: nat using that by simp
  then show ?thesis using assms
    by (auto simp: bit_eq_iff bit_unsigned_iff bit_drop_bit_eq replicate_byte_bits dest: bit8)
qed

lemma memset_qwords_fill:
  "8 * n \<le> 2 ^ 64 \<Longrightarrow> memset_qwords d (replicate_byte v) n m = fill d v (8 * n) m"
proof (induction n arbitrary: d m)
  case (Suc n)
  have "store64 d (replicate_byte v) m = fill d v 8 m"
    unfolding store64_def by (rule store_bytes_fill) (simp_all add: replicate_byte_bytes)
  then have "memset_qwords d (replicate_byte v) (Suc n) m = fill (d + of_nat 8) v (8 * n) (fill d v 8 m)"
    using Suc by simp
  also have "\<dots> = fill d v (8 + 8 * n) m" using Suc.prems by (intro fill_fill) simp
  finally show ?case by simp
qed simp

lemma memset_fill: "memset a v sz m = fill a v (unat sz) m"
proof -
  obtain d k m1 where p: "memset_prefix a v (unat sz) m = (d, k, m1)" by (metis prod_cases3)
  have sz: "unat sz \<le> 2 ^ 64" using unat64_less [of sz] by simp
  note pre = memset_prefix_fill [OF p sz]
  let ?j = "unat sz - k" and ?q = "k div 8 * 8"
  have k: "?q + k mod 8 = k" by simp
  have "memset a v sz m = fill (d + of_nat ?q) v (k mod 8) (fill d v (8 * (k div 8)) m1)"
    using p sz pre(1) unfolding memset_def Let_def by (simp add: memset_qwords_fill memset_tail_fill)
  also have "\<dots> = fill d v (?q + k mod 8) m1"
    using sz pre(1) k by (subst mult.commute [of 8]) (intro fill_fill, linarith)
  also have "\<dots> = fill (a + of_nat ?j) v k (fill a v ?j m)" unfolding k pre(3) using pre(2) by simp
  also have "\<dots> = fill a v (?j + k) m" using sz pre(1) by (intro fill_fill) linarith
  finally show ?thesis using pre(1) by simp
qed

section \<open>Copying\<close>

definition disjoint :: "u64 \<Rightarrow> u64 \<Rightarrow> nat \<Rightarrow> bool" where
  "disjoint d s n \<longleftrightarrow> (\<forall>x. \<not> (unat (x - d) < n \<and> unat (x - s) < n))"

definition copy :: "u64 \<Rightarrow> u64 \<Rightarrow> nat \<Rightarrow> mem \<Rightarrow> mem" where
  "copy d s n m = (\<lambda>x. if unat (x - d) < n then m (s + (x - d)) else m x)"

lemma copy_0 [simp]: "copy d s 0 m = m"
  by (simp add: copy_def)

lemma copy_1: "copy d s (Suc 0) m = m(d := m s)"
  by (auto simp: copy_def offset_zero simp del: less_Suc0)

lemma disjoint_mono: "disjoint d s n \<Longrightarrow> k \<le> n \<Longrightarrow> disjoint d s k"
  unfolding disjoint_def by (meson less_le_trans)

lemma disjoint_shift:
  assumes "disjoint d s (k + n)" and "k + n \<le> 2 ^ 64"
  shows "disjoint (d + of_nat k) (s + of_nat k) n"
  using assms(1) offset_split [OF assms(2)] unfolding disjoint_def by blast

text \<open>Copying a first part and then the rest is copying the whole, if source and target are apart.\<close>

lemma copy_copy:
  assumes dis: "disjoint d s (k + n)" and kn: "k + n \<le> 2 ^ 64"
  shows "copy (d + of_nat k) (s + of_nat k) n (copy d s k m) = copy d s (k + n) m"
proof
  fix x
  show "copy (d + of_nat k) (s + of_nat k) n (copy d s k m) x = copy d s (k + n) m x"
  proof (cases "unat (x - (d + of_nat k)) < n")
    case True
    let ?y = "s + (x - d)"
    have nk: "\<not> unat (x - d) < k" using offset_below [OF kn] True by blast
    have x: "unat (x - d) < k + n" using offset_split [OF kn] True by blast
    have "unat (?y - s) < k + n" using x by simp
    then have "\<not> unat (?y - d) < k" using dis unfolding disjoint_def by (meson less_le_trans le_add1)
    then have "copy d s k m ?y = m ?y" by (simp only: copy_def if_False)
    moreover have "s + of_nat k + (x - (d + of_nat k)) = ?y" by simp
    moreover have "copy d s (k + n) m x = m ?y" using x by (simp only: copy_def if_True)
    ultimately show ?thesis using True unfolding copy_def [of "d + of_nat k"] by (simp only: if_True)
  next
    case False
    then show ?thesis using offset_split [OF kn, of x d] by (simp add: copy_def)
  qed
qed

lemma copy_Suc:
  assumes "disjoint d s (Suc n)" and "Suc n \<le> 2 ^ 64"
  shows "copy (d + 1) (s + 1) n (m(d := m s)) = copy d s (Suc n) m" and "disjoint (d + 1) (s + 1) n"
  using copy_copy [of d s "Suc 0" n m] disjoint_shift [of d s "Suc 0" n] assms by (simp_all add: copy_1)

lemma memcpy_bytes_copy: "disjoint d s n \<Longrightarrow> n \<le> 2 ^ 64 \<Longrightarrow> memcpy_bytes d s n m = copy d s n m"
proof (induction n arbitrary: d s m)
  case (Suc n)
  have "memcpy_bytes (d + 1) (s + 1) n (m(d := m s)) = copy (d + 1) (s + 1) n (m(d := m s))"
    using Suc.prems by (intro Suc.IH copy_Suc(2)) simp_all
  then show ?case using copy_Suc(1) [OF Suc.prems] by (simp only: memcpy_bytes.simps)
qed simp

lemma load_bytes_bits: "n \<le> 8 \<Longrightarrow> bit (load_bytes n a m) j \<longleftrightarrow> j < 8 * n \<and> bit (m (a + of_nat (j div 8))) (j mod 8)"
proof (induction n)
  case (Suc n)
  have e: "bit (load_bytes (Suc n) a m) j \<longleftrightarrow>
      bit (load_bytes n a m) j \<or> 8 * n \<le> j \<and> bit (m (a + of_nat n)) (j - 8 * n) \<and> j < 64 \<and> j - 8 * n < 64"
    by (auto simp: bit_or_iff bit_push_bit_iff bit_unsigned_iff)
  show ?case
  proof (cases "8 * n \<le> j \<and> j < 8 * Suc n")
    case True
    then have "j div 8 = n" by (auto intro: div_nat_eqI)
    moreover from this have "j mod 8 = j - 8 * n" using minus_mult_div_eq_mod [of j 8] by simp
    ultimately have "j div 8 = n" "j mod 8 = j - 8 * n" by simp_all
    then show ?thesis unfolding e using Suc True by auto
  next
    case False
    have "bit (m (a + of_nat n)) (j - 8 * n) \<Longrightarrow> j - 8 * n < 8" by (rule bit8)
    then show ?thesis unfolding e using Suc False by auto
  qed
qed simp

lemma load_bytes_byte:
  assumes "i < n" and "n \<le> 8"
  shows "ucast (drop_bit (8 * i) (load_bytes n a m)) = m (a + of_nat i)"
proof -
  have "(8 * i + j) mod 8 = j \<and> (8 * i + j) div 8 = i \<and> 8 * i + j < 8 * n" if "j < 8" for j :: nat
    using that assms(1) by auto
  then have "bit (ucast (drop_bit (8 * i) (load_bytes n a m)) :: u8) j = bit (m (a + of_nat i)) j" for j
    using assms(2) by (cases "j < 8") (auto simp: bit_unsigned_iff bit_drop_bit_eq load_bytes_bits dest: bit8)
  then show ?thesis by (rule bit_eqI)
qed

lemma store_bytes_copy:
  assumes "\<forall>i<n. ucast (drop_bit (8 * i) w) = m (s + of_nat i)" and "n \<le> 8"
  shows "store_bytes n d w m = copy d s n m"
  using assms
proof (induction n)
  case (Suc n)
  have n: "n + Suc 0 \<le> 2 ^ 64" using Suc.prems(2) by simp
  have u: "unat (of_nat n :: u64) = n" using Suc.prems(2) by (simp add: unat_of_nat)
  have "store_bytes (Suc n) d w m = (copy d s n m)(d + of_nat n := m (s + of_nat n))" using Suc by simp
  also have "\<dots> = copy d s (Suc n) m"
    using offset_split [OF n, of _ d] u by (auto simp: copy_def offset_zero simp del: less_Suc0)
  finally show ?case .
qed simp

lemma memcpy_qwords_copy:
  "disjoint d s (8 * n) \<Longrightarrow> 8 * n \<le> 2 ^ 64 \<Longrightarrow> memcpy_qwords d s n m = copy d s (8 * n) m"
proof (induction n arbitrary: d s m)
  case (Suc n)
  have st: "store64 d (load64 s m) m = copy d s 8 m"
    unfolding store64_def load64_def by (rule store_bytes_copy) (simp_all add: load_bytes_byte)
  have dis: "disjoint d s (8 + 8 * n)" and le: "8 + 8 * n \<le> 2 ^ 64" using Suc.prems by simp_all
  have "memcpy_qwords (d + 8) (s + 8) n (copy d s 8 m) = copy (d + of_nat 8) (s + of_nat 8) (8 * n) (copy d s 8 m)"
    using Suc.IH disjoint_shift [OF dis le] le by simp
  then show ?case using copy_copy [OF dis le] st by simp
qed simp

lemma memcpy_prefix_copy:
  assumes "memcpy_prefix d s n m = (d', s', k, m')" and "disjoint d s n" and "n \<le> 2 ^ 64"
  shows "k \<le> n \<and> d' = d + of_nat (n - k) \<and> s' = s + of_nat (n - k) \<and> m' = copy d s (n - k) m"
  using assms
proof (induction n arbitrary: d s m)
  case (Suc n)
  show ?case
  proof (cases "(d OR s) AND 7 \<noteq> 0 \<and> d AND 7 = s AND 7")
    case True
    then have "memcpy_prefix (d + 1) (s + 1) n (m(d := m s)) = (d', s', k, m')" using Suc.prems by simp
    moreover have "n \<le> 2 ^ 64" using Suc.prems by simp
    ultimately have "k \<le> n \<and> d' = d + 1 + of_nat (n - k) \<and> s' = s + 1 + of_nat (n - k) \<and>
        m' = copy (d + 1) (s + 1) (n - k) (m(d := m s))"
      by (intro Suc.IH copy_Suc(2) [OF Suc.prems(2,3)])
    then have *: "k \<le> n" "d' = d + 1 + of_nat (n - k)" "s' = s + 1 + of_nat (n - k)"
      "m' = copy (d + 1) (s + 1) (n - k) (m(d := m s))" by blast+
    have "copy (d + 1) (s + 1) (n - k) (m(d := m s)) = copy d s (Suc (n - k)) m"
      using Suc.prems(2,3) by (intro copy_Suc(1)) (auto intro: disjoint_mono)
    moreover have "Suc n - k = Suc (n - k)" using *(1) by simp
    ultimately show ?thesis using *
      by (intro conjI le_SucI) (simp_all only: of_nat_Suc add.assoc)
  qed (use Suc.prems in \<open>auto split: if_splits\<close>)
qed simp

lemma memcpy_copy:
  assumes dis: "disjoint dest src (unat n)"
  shows "memcpy dest src n m = copy dest src (unat n) m"
proof -
  obtain d s k m1 where p: "memcpy_prefix dest src (unat n) m = (d, s, k, m1)" by (metis prod_cases4)
  have n: "unat n \<le> 2 ^ 64" using unat64_less [of n] by simp
  from memcpy_prefix_copy [OF p dis n] have k: "k \<le> unat n" and
    d: "d = dest + of_nat (unat n - k)" "s = src + of_nat (unat n - k)" and m1: "m1 = copy dest src (unat n - k) m"
    by blast+
  have jk: "unat n - k + k = unat n" using k by simp
  have dk: "disjoint d s k" unfolding d by (rule disjoint_shift) (simp_all only: jk dis n)
  have "memcpy dest src n m = copy d s k m1"
  proof (cases "k \<ge> 8 \<and> (d OR s) AND 7 = 0")
    case True
    let ?q = "k div 8 * 8"
    have qk: "?q + k mod 8 = k" by simp
    have "?q \<le> k" by simp
    then have "memcpy_qwords d s (k div 8) m1 = copy d s ?q m1"
      using memcpy_qwords_copy [of d s "k div 8" m1] disjoint_mono [OF dk] k n by (simp add: mult.commute)
    moreover have "disjoint (d + of_nat ?q) (s + of_nat ?q) (k mod 8)"
      using disjoint_shift [of d s ?q "k mod 8", unfolded qk, OF dk] k n by simp
    ultimately have "memcpy dest src n m = copy (d + of_nat ?q) (s + of_nat ?q) (k mod 8) (copy d s ?q m1)"
      using p True memcpy_bytes_copy by (simp add: memcpy_def Let_def)
    also have "\<dots> = copy d s k m1" using copy_copy [of d s ?q "k mod 8" m1, unfolded qk, OF dk] k n by simp
    finally show ?thesis .
  next
    case False
    then show ?thesis using p memcpy_bytes_copy [OF dk] k n by (auto simp: memcpy_def Let_def)
  qed
  then show ?thesis using copy_copy [of dest src "unat n - k" k m, unfolded jk, OF dis n] d m1 by simp
qed

section \<open>Comparing\<close>

lemma load32_eq_iff: "load32 p m = load32 q m \<longleftrightarrow> (\<forall>i<4. m (p + of_nat i) = m (q + of_nat i))"
proof
  assume *: "load32 p m = load32 q m"
  show "\<forall>i<4. m (p + of_nat i) = m (q + of_nat i)"
  proof (intro allI impI)
    fix i :: nat assume i: "i < 4"
    have "ucast (drop_bit (8 * i) (load32 p m)) = m (p + of_nat i)"
      "ucast (drop_bit (8 * i) (load32 q m)) = m (q + of_nat i)"
      unfolding load32_def using i by (simp_all add: load_bytes_byte)
    then show "m (p + of_nat i) = m (q + of_nat i)" using * by simp
  qed
next
  assume *: "\<forall>i<4. m (p + of_nat i) = m (q + of_nat i)"
  have "load_bytes n p m = load_bytes n q m" if "n \<le> 4" for n using that * by (induction n) auto
  then show "load32 p m = load32 q m" by (simp add: load32_def)
qed

lemma memcmp_bytes_append:
  "memcmp_bytes p q (k + n) m =
     (if memcmp_bytes p q k m \<noteq> 0 then memcmp_bytes p q k m
      else memcmp_bytes (p + of_nat k) (q + of_nat k) n m)"
  by (induction k arbitrary: p q) (auto simp: ac_simps word_uint_eq_iff)

lemma memcmp_bytes_zero:
  "memcmp_bytes p q n m = 0 \<longleftrightarrow> (\<forall>i<n. m (p + of_nat i) = m (q + of_nat i))"
proof (induction n arbitrary: p q)
  case (Suc n)
  have "(\<forall>i<Suc n. m (p + of_nat i) = m (q + of_nat i)) \<longleftrightarrow>
      m p = m q \<and> (\<forall>i<n. m (p + 1 + of_nat i) = m (q + 1 + of_nat i))"
    by (simp add: All_less_Suc2 add.assoc)
  then show ?case using Suc by (simp add: word_uint_eq_iff)
qed simp

lemma memcmp_words_bytes: "memcmp_words p q n m = memcmp_bytes p q (4 * n) m"
proof (induction n arbitrary: p q)
  case (Suc n)
  have "memcmp_bytes p q (4 * Suc n) m =
     (if memcmp_bytes p q 4 m \<noteq> 0 then memcmp_bytes p q 4 m else memcmp_bytes (p + 4) (q + 4) (4 * n) m)"
    using memcmp_bytes_append [of p q 4 "4 * n" m] by simp
  moreover have "load32 p m = load32 q m \<longleftrightarrow> memcmp_bytes p q 4 m = 0"
    unfolding load32_eq_iff memcmp_bytes_zero ..
  ultimately show ?case using Suc by (simp del: memcmp_bytes.simps add: Let_def)
qed simp

lemma memcmp_byte_loop:
  assumes "unat num < 2 ^ 34"
  shows "memcmp p q num m = memcmp_bytes p q (unat num) m"
proof (cases "(p OR q OR num) mod 4 = 0")
  case True
  have "take_bit 2 (p OR q OR num) = 0" using True by (simp add: take_bit_eq_mod)
  then have "take_bit 2 num = 0" by (auto simp: take_bit_or or_eq_0_iff)
  then have "unat (take_bit 2 num) = 0" by simp
  then have "take_bit 2 (unat num) = 0" unfolding unsigned_take_bit_eq .
  then have "unat num mod 4 = 0" by (simp add: take_bit_eq_mod)
  then have "4 * (unat num div 4) = unat num" by presburger
  moreover have "unat (ucast (num div 4) :: u32) = unat num div 4"
    using assms by (simp add: unsigned_ucast_eq take_bit_eq_mod [where ?'a = nat] unat_div_distrib)
  ultimately show ?thesis using True by (simp add: memcmp_def memcmp_words_bytes)
qed (simp add: memcmp_def)

section \<open>Properties of the memory routines\<close>

text \<open>
  C11. \<^verbatim>\<open>memset\<close> stores the byte at exactly the \<open>sz\<close> addresses from \<open>a\<close> on and changes no
  other, for every alignment and size: the byte prefix, the 64-bit body and the byte tail
  together are the byte loop.
\<close>

theorem memset_exact:
  "memset a v sz m x = (if unat (x - a) < unat sz then v else m x)"
  by (simp add: memset_fill fill_def)

text \<open>
  C12. \<^verbatim>\<open>memcpy\<close> copies byte for byte between regions that do not overlap, whatever their
  alignment, and changes nothing outside the destination.
\<close>

theorem memcpy_exact:
  assumes "disjoint dest src (unat n)"
  shows "memcpy dest src n m x = (if unat (x - dest) < unat n then m (src + (x - dest)) else m x)"
  using memcpy_copy [OF assms] by (simp add: copy_def)

theorem memcpy_exact_witness:
  "memcpy 0x1003 0x200B 40 (\<lambda>a. ucast a) 0x1010 = 0x18"
proof -
  have "disjoint 0x1003 0x200B (unat (40::u64))"
    unfolding disjoint_def
  proof (intro allI notI, elim conjE)
    fix x :: u64
    assume *: "unat (x - 0x1003) < unat (40::u64)" "unat (x - 0x200B) < unat (40::u64)"
    define y where "y = x - 0x200B"
    have "unat (y + 0x1008) = unat y + 0x1008" using *(2) by (simp add: unat_word_ariths y_def [symmetric])
    moreover have "x - 0x1003 = y + 0x1008" by (simp add: y_def)
    ultimately have "unat y + 0x1008 < unat (40::u64)" using *(1) by (simp only:)
    then show False by simp
  qed
  from memcpy_exact [OF this] show ?thesis by simp
qed

text \<open>
  C13. Below 16 GiB the word-wise path of \<^verbatim>\<open>memcmp\<close> is the byte-wise comparison: the result
  is the difference of the first bytes that differ, and 0 exactly when the regions agree.
\<close>

theorem memcmp_exact:
  assumes "unat num < 2 ^ 34"
  shows "memcmp p q num m = memcmp_bytes p q (unat num) m \<and>
    (memcmp p q num m = 0 \<longleftrightarrow> (\<forall>i<unat num. m (p + of_nat i) = m (q + of_nat i)))"
  using memcmp_byte_loop [OF assms] by (simp add: memcmp_bytes_zero)

theorem memcmp_exact_witness:
  "memcmp 0x1000 0x2000 8 (\<lambda>a. if a = 0x1005 then 7 else 0) = 7"
proof -
  have "memcmp_bytes 0x1000 0x2000 8 (\<lambda>a. if a = 0x1005 then 7 else 0) = 7" by code_simp
  then show ?thesis using memcmp_exact [of 8 "0x1000" "0x2000"] by simp
qed

text \<open>At 16 GiB the truncated word count is 0 and unequal regions compare as equal.\<close>

lemma memcmp_truncates: "memcmp 0x1000 0x2000 0x400000000 (\<lambda>a. if a = 0x1000 then 7 else 0) = 0"
  by (simp add: memcmp_def)

end
