(* ===== verification/Tasks.thy ===== *)
theory Tasks
  imports Prelude
begin

text \<open>
  Tasks (\<^verbatim>\<open>multi/task_types.h\<close>) and the intrusive task queues of the kernel.  Run queues,
  mutex, pipe and terminal waiter queues all thread the same \<^verbatim>\<open>next\<close>/\<^verbatim>\<open>prev\<close> fields of
  \<^verbatim>\<open>task_t\<close>, so the heap of tasks is explicit here and the fields are shared; a task that is
  put on one queue while it is on another corrupts the first.  Links with a field of their
  own (\<^verbatim>\<open>zombie_next\<close>, \<^verbatim>\<open>sleep_next\<close>, \<^verbatim>\<open>all_next\<close>) are modelled as lists by the components that
  use them.

  The locales \<open>task_fifo\<close> and \<open>task_fifo_remove\<close> state what a client may rely on of such a
  queue; each component that implements one interprets them on its own operations.
\<close>

section \<open>Tasks\<close>

type_synonym tptr = nat

abbreviation (input) NULL :: tptr where "NULL \<equiv> 0"

datatype task_state = TASK_STATE_NEW | TASK_STATE_READY | TASK_STATE_RUNNING | TASK_STATE_BLOCKED | TASK_STATE_ZOMBIE

record sigaction =
  sa_handler :: u64
  sa_restorer :: u64

record task =
  saved_rsp :: u64
  kframe :: "u64 list"
  tpid :: u64
  tstate :: task_state
  time_slice :: u64
  tnext :: tptr
  tprev :: tptr
  tname :: "u8 list"
  home_cpu :: nat
  cr3 :: u64
  kstack_top :: u64
  kstack_base :: u64
  kstack_pages :: u64
  fds :: "nat list"
  pending_signals :: u64
  signal_actions :: "nat \<Rightarrow> sigaction"
  tparent :: tptr
  wait_target :: u64
  exit_code :: u64
  sleep_deadline :: u64
  mmap_next :: u64
  pgid :: u64
  sid :: u64
  tcwd :: nat
  ctty :: nat

text \<open>
  \<open>kframe\<close> holds the words a task's initial kernel stack frame consists of, from \<open>saved_rsp\<close>
  upward; \<open>fds\<close> the file pointers of its descriptor table (0 for a free slot).
\<close>

type_synonym theap = "tptr \<Rightarrow> task"

text \<open>A queue is the pair of its end pointers.\<close>

record tqueue =
  qhead :: tptr
  qtail :: tptr

definition empty_queue :: tqueue where
  "empty_queue = \<lparr>qhead = NULL, qtail = NULL\<rparr>"

section \<open>What the pointers represent\<close>

text \<open>
  \<open>dlseg h p xs n\<close>: the cells \<open>xs\<close> are linked both ways, the first one back to \<open>p\<close> and the
  last one on to \<open>n\<close>.
\<close>

fun dlseg :: "theap \<Rightarrow> tptr \<Rightarrow> tptr list \<Rightarrow> tptr \<Rightarrow> bool" where
  "dlseg h p [] n \<longleftrightarrow> True"
| "dlseg h p (x # xs) n \<longleftrightarrow>
     x \<noteq> NULL \<and> tprev (h x) = p \<and> tnext (h x) = hd (xs @ [n]) \<and> dlseg h x xs n"

definition queue_rep :: "theap \<Rightarrow> tqueue \<Rightarrow> tptr list \<Rightarrow> bool" where
  "queue_rep h q xs \<longleftrightarrow>
     qhead q = hd (xs @ [NULL]) \<and> qtail q = last (NULL # xs) \<and> dlseg h NULL xs NULL \<and> distinct xs"

text \<open>Two task records that differ at most in their links.\<close>

definition same_but_links :: "task \<Rightarrow> task \<Rightarrow> bool" where
  "same_but_links s t \<longleftrightarrow> s\<lparr>tnext := NULL, tprev := NULL\<rparr> = t\<lparr>tnext := NULL, tprev := NULL\<rparr>"

lemma same_but_links_refl [simp]: "same_but_links t t"
  by (simp add: same_but_links_def)

lemma same_but_links_upd [simp]:
  "same_but_links t (t\<lparr>tnext := a\<rparr>)" "same_but_links t (t\<lparr>tprev := a\<rparr>)"
  "same_but_links t (t\<lparr>tnext := a, tprev := b\<rparr>)"
  by (simp_all add: same_but_links_def)

lemma same_but_links_trans: "same_but_links r s \<Longrightarrow> same_but_links s t \<Longrightarrow> same_but_links r t"
  by (simp add: same_but_links_def)

lemma same_but_linksD:
  assumes "same_but_links s t"
  shows "tpid t = tpid s" "tstate t = tstate s" "home_cpu t = home_cpu s" "tparent t = tparent s"
    "pending_signals t = pending_signals s" "wait_target t = wait_target s" "pgid t = pgid s"
    "time_slice t = time_slice s" "exit_code t = exit_code s" "sleep_deadline t = sleep_deadline s"
  using assms by (cases s; cases t; simp add: same_but_links_def)+

lemma dlseg_not_null: "dlseg h p xs n \<Longrightarrow> NULL \<notin> set xs"
  by (induction xs arbitrary: p) auto

lemma dlseg_cong:
  "(\<And>x. x \<in> set xs \<Longrightarrow> tnext (h x) = tnext (g x) \<and> tprev (h x) = tprev (g x)) \<Longrightarrow> dlseg h p xs n = dlseg g p xs n"
  by (induction xs arbitrary: p) auto

lemma queue_rep_cong:
  "(\<And>x. x \<in> set xs \<Longrightarrow> tnext (h x) = tnext (g x) \<and> tprev (h x) = tprev (g x)) \<Longrightarrow> queue_rep h q xs = queue_rep g q xs"
  using dlseg_cong [of xs h g NULL NULL] by (simp add: queue_rep_def)

lemma dlseg_append:
  "dlseg h p (xs @ ys) n \<longleftrightarrow> dlseg h p xs (hd (ys @ [n])) \<and> dlseg h (last (p # xs)) ys n"
  by (induction xs arbitrary: p) (auto simp: hd_append)

lemma dlseg_fresh: "x \<notin> set xs \<Longrightarrow> dlseg (h(x := v)) p xs n = dlseg h p xs n"
  by (rule dlseg_cong) auto

lemma dlseg_renext:
  assumes "dlseg h p (xs @ [z]) n" and "z \<notin> set xs"
  shows "dlseg (h(z := (h z)\<lparr>tnext := m\<rparr>)) p (xs @ [z]) m"
  using assms by (simp add: dlseg_append dlseg_fresh)

lemma dlseg_reprev:
  assumes "dlseg h p (x # xs) n" and "x \<notin> set xs"
  shows "dlseg (h(x := (h x)\<lparr>tprev := q\<rparr>)) q (x # xs) n"
  using assms by (simp add: dlseg_fresh)

lemma queue_rep_empty [simp]: "queue_rep h q [] \<longleftrightarrow> q = empty_queue"
  by (cases q) (auto simp: queue_rep_def empty_queue_def)

lemma queue_repD:
  assumes "queue_rep h q xs"
  shows "NULL \<notin> set xs" "distinct xs" "qhead q = hd (xs @ [NULL])" "qtail q = last (NULL # xs)"
    "dlseg h NULL xs NULL"
  using assms dlseg_not_null by (auto simp: queue_rep_def)

section \<open>Linking at the tail, unlinking the head, splicing out\<close>

text \<open>
  The three pointer manipulations that all queues of the kernel perform.  The components
  state their own operations as their sources do; these are the common shapes the lemmas are
  proved for.
\<close>

definition link_tail :: "tptr \<Rightarrow> theap \<times> tqueue \<Rightarrow> theap \<times> tqueue" where
  "link_tail t hq =
     (let (h, q) = hq;
          h1 = h(t := (h t)\<lparr>tnext := NULL, tprev := qtail q\<rparr>)
      in if qtail q \<noteq> NULL
         then (h1(qtail q := (h1 (qtail q))\<lparr>tnext := t\<rparr>), q\<lparr>qtail := t\<rparr>)
         else (h1, q\<lparr>qhead := t, qtail := t\<rparr>))"

definition unlink_head :: "theap \<times> tqueue \<Rightarrow> tptr \<times> theap \<times> tqueue" where
  "unlink_head hq =
     (let (h, q) = hq; t = qhead q in
      if t = NULL then (NULL, h, q)
      else
        let q1 = q\<lparr>qhead := tnext (h t)\<rparr>;
            (h1, q2) = (if qhead q1 \<noteq> NULL
                        then (h(qhead q1 := (h (qhead q1))\<lparr>tprev := NULL\<rparr>), q1)
                        else (h, q1\<lparr>qtail := NULL\<rparr>))
        in (t, h1(t := (h1 t)\<lparr>tnext := NULL, tprev := NULL\<rparr>), q2))"

definition splice_out :: "tptr \<Rightarrow> theap \<times> tqueue \<Rightarrow> theap \<times> tqueue" where
  "splice_out me hq =
     (let (h, q) = hq in
      if tnext (h me) = NULL \<and> tprev (h me) = NULL \<and> qhead q \<noteq> me then (h, q)
      else
        let (h1, q1) = (if tprev (h me) \<noteq> NULL
                        then (h(tprev (h me) := (h (tprev (h me)))\<lparr>tnext := tnext (h me)\<rparr>), q)
                        else if qhead q = me then (h, q\<lparr>qhead := tnext (h me)\<rparr>) else (h, q));
            (h2, q2) = (if tnext (h1 me) \<noteq> NULL
                        then (h1(tnext (h1 me) := (h1 (tnext (h1 me)))\<lparr>tprev := tprev (h1 me)\<rparr>), q1)
                        else if qtail q1 = me then (h1, q1\<lparr>qtail := tprev (h1 me)\<rparr>) else (h1, q1))
        in (h2(me := (h2 me)\<lparr>tnext := NULL, tprev := NULL\<rparr>), q2))"

lemma link_tail_rep:
  assumes q: "queue_rep h q xs" and t: "t \<noteq> NULL" "t \<notin> set xs" and e: "link_tail t (h, q) = (h', q')"
  shows "queue_rep h' q' (xs @ [t])" and "x \<notin> insert t (set xs) \<Longrightarrow> h' x = h x" and "same_but_links (h x) (h' x)"
proof -
  note q = queue_repD [OF q]
  let ?h1 = "h(t := (h t)\<lparr>tnext := NULL, tprev := qtail q\<rparr>)"
  have "queue_rep h' q' (xs @ [t]) \<and> (x \<notin> insert t (set xs) \<longrightarrow> h' x = h x) \<and> same_but_links (h x) (h' x)" for x
  proof (cases xs rule: rev_cases)
    case Nil
    then show ?thesis using q t e by (auto simp: link_tail_def queue_rep_def split: if_splits)
  next
    case (snoc ys z)
    have z: "qtail q = z" "z \<noteq> NULL" "z \<noteq> t" "z \<notin> set ys" using q t snoc by auto
    let ?h2 = "?h1(z := (?h1 z)\<lparr>tnext := t\<rparr>)"
    have r: "h' = ?h2" "q' = q\<lparr>qtail := t\<rparr>" using e z by (auto simp: link_tail_def)
    have "dlseg ?h1 NULL (ys @ [z]) NULL" using q(5) t(2) snoc by (simp add: dlseg_fresh)
    then have "dlseg h' NULL (ys @ [z]) t" unfolding r(1) by (rule dlseg_renext) (rule z)
    moreover have "dlseg h' z [t] NULL" using r z t by simp
    ultimately have "dlseg h' NULL (xs @ [t]) NULL" unfolding snoc by (subst dlseg_append) simp
    then show ?thesis using r q t z snoc by (auto simp: queue_rep_def hd_append)
  qed
  then show "queue_rep h' q' (xs @ [t])" "x \<notin> insert t (set xs) \<Longrightarrow> h' x = h x" "same_but_links (h x) (h' x)" by auto
qed

lemma unlink_head_empty: "unlink_head (h, empty_queue) = (NULL, h, empty_queue)"
  by (simp add: unlink_head_def empty_queue_def)

lemma unlink_head_rep:
  assumes q: "queue_rep h q (t # xs)" and e: "unlink_head (h, q) = (t', h', q')"
  shows "t' = t" and "queue_rep h' q' xs" and "tnext (h' t) = NULL \<and> tprev (h' t) = NULL"
    and "x \<notin> set (t # xs) \<Longrightarrow> h' x = h x" and "same_but_links (h x) (h' x)"
proof -
  note q = queue_repD [OF q]
  have t: "qhead q = t" "t \<noteq> NULL" "t \<notin> set xs" "tnext (h t) = hd (xs @ [NULL])" "dlseg h t xs NULL" "distinct xs"
    using q by auto
  have "t' = t \<and> queue_rep h' q' xs \<and> tnext (h' t) = NULL \<and> tprev (h' t) = NULL \<and>
      (x \<notin> set (t # xs) \<longrightarrow> h' x = h x) \<and> same_but_links (h x) (h' x)" for x
  proof (cases xs)
    case Nil
    then show ?thesis using q t e by (auto simp: unlink_head_def empty_queue_def split: if_splits)
  next
    case (Cons y ys)
    have y: "y \<noteq> NULL" "y \<noteq> t" "y \<notin> set ys" using q t Cons by auto
    let ?h1 = "h(y := (h y)\<lparr>tprev := NULL\<rparr>)"
    have r: "t' = t" "h' = ?h1(t := (?h1 t)\<lparr>tnext := NULL, tprev := NULL\<rparr>)" "q' = q\<lparr>qhead := y\<rparr>"
      using e t y Cons by (auto simp: unlink_head_def)
    have "dlseg ?h1 NULL (y # ys) NULL" using t(5) unfolding Cons by (rule dlseg_reprev) (rule y)
    then have "dlseg h' NULL xs NULL" unfolding r Cons using t(3) Cons by (subst dlseg_fresh) auto
    then show ?thesis using r q t y Cons by (auto simp: queue_rep_def)
  qed
  then show "t' = t" "queue_rep h' q' xs" "tnext (h' t) = NULL \<and> tprev (h' t) = NULL"
    "x \<notin> set (t # xs) \<Longrightarrow> h' x = h x" "same_but_links (h x) (h' x)" by auto
qed

lemma splice_out_absent:
  assumes "queue_rep h q xs" and "me \<notin> set xs" "me \<noteq> NULL" and "tnext (h me) = NULL" "tprev (h me) = NULL"
  shows "splice_out me (h, q) = (h, q)"
proof -
  have "qhead q \<noteq> me" using queue_repD(3) [OF assms(1)] assms(2,3) by (cases xs) auto
  then show ?thesis using assms(4,5) by (simp add: splice_out_def)
qed

text \<open>The links around the spliced cell, and how the segments on either side are re-tied.\<close>

lemma dlseg_middle:
  assumes "dlseg h NULL (as @ me # bs) NULL"
  shows "tprev (h me) = last (NULL # as)" "tnext (h me) = hd (bs @ [NULL])" "dlseg h NULL as me" "dlseg h me bs NULL"
  using assms by (auto simp: dlseg_append)

lemma dlseg_retie:
  assumes d: "dlseg h NULL as me" "dlseg h me bs NULL" and dis: "distinct (as @ bs)"
    and p: "p = last (NULL # as)" and n: "n = hd (bs @ [NULL])"
    and h1: "h1 = (if p \<noteq> NULL then h(p := (h p)\<lparr>tnext := n\<rparr>) else h)"
    and h2: "h2 = (if n \<noteq> NULL then h1(n := (h1 n)\<lparr>tprev := p\<rparr>) else h1)"
  shows "dlseg h2 NULL (as @ bs) NULL"
proof -
  have an: "NULL \<notin> set as" and bn: "NULL \<notin> set bs" using d dlseg_not_null by blast+
  have a1: "dlseg h1 NULL as n"
  proof (cases as rule: rev_cases)
    case (snoc as' z)
    then have "h1 = h(z := (h z)\<lparr>tnext := n\<rparr>)" using an p h1 by auto
    then show ?thesis using d(1) dis snoc dlseg_renext [of h NULL as' z me n] by simp
  qed simp
  have b1: "dlseg h1 me bs NULL"
  proof (cases "p = NULL")
    case False
    then have "p \<notin> set bs" using p dis by (cases as rule: rev_cases) auto
    then show ?thesis using d(2) h1 False by (simp add: dlseg_fresh)
  qed (use d(2) h1 in simp)
  have a2: "dlseg h2 NULL as n"
  proof (cases "n = NULL")
    case False
    then have "n \<notin> set as" using n dis by (cases bs) auto
    then show ?thesis using a1 h2 False by (simp add: dlseg_fresh)
  qed (use a1 h2 in simp)
  have b2: "dlseg h2 p bs NULL"
  proof (cases bs)
    case (Cons y bs')
    then have "h2 = h1(y := (h1 y)\<lparr>tprev := p\<rparr>)" using bn n h2 by auto
    then show ?thesis using b1 dis Cons dlseg_reprev [of h1 me y bs' NULL p] by simp
  qed simp
  show ?thesis unfolding dlseg_append using a2 b2 p n by simp
qed

lemma splice_out_rep:
  assumes q: "queue_rep h q (as @ me # bs)" and e: "splice_out me (h, q) = (h', q')"
  shows "queue_rep h' q' (as @ bs)" and "tnext (h' me) = NULL \<and> tprev (h' me) = NULL"
    and "x \<notin> set (as @ me # bs) \<Longrightarrow> h' x = h x" and "same_but_links (h x) (h' x)"
proof -
  note q = queue_repD [OF q]
  note m = dlseg_middle [OF q(5)]
  define p n where "p = last (NULL # as)" and "n = hd (bs @ [NULL])"
  have me: "me \<noteq> NULL" "me \<notin> set as" "me \<notin> set bs" and dis: "distinct (as @ bs)" using q(1,2) by auto
  have pn: "p \<noteq> me" "n \<noteq> me" using me by (cases as rule: rev_cases; cases bs; auto simp: p_def n_def)+
  have nN: "n = NULL \<longleftrightarrow> bs = []" and pN: "p = NULL \<longleftrightarrow> as = []"
    using q(1) by (cases bs; cases as rule: rev_cases; auto simp: p_def n_def)+
  define h1 where "h1 = (if p \<noteq> NULL then h(p := (h p)\<lparr>tnext := n\<rparr>) else h)"
  define h2 where "h2 = (if n \<noteq> NULL then h1(n := (h1 n)\<lparr>tprev := p\<rparr>) else h1)"
  have l: "tprev (h me) = p" "tnext (h me) = n" "tprev (h1 me) = p" "tnext (h1 me) = n"
    using m(1,2) pn by (auto simp: p_def n_def h1_def)
  have hd: "qhead q = me \<longleftrightarrow> p = NULL" using q(3) me pN by (cases as) auto
  have tl: "qtail q = me \<longleftrightarrow> n = NULL" using q(4) me nN by (cases bs rule: rev_cases) auto
  have r: "h' = h2(me := (h2 me)\<lparr>tnext := NULL, tprev := NULL\<rparr>)"
    "q' = \<lparr>qhead = (if p = NULL then n else qhead q), qtail = (if n = NULL then p else qtail q)\<rparr>"
    using e l hd tl h1_def h2_def by (cases q; auto simp: splice_out_def split: if_splits)+
  have "dlseg h2 NULL (as @ bs) NULL"
    by (rule dlseg_retie [OF m(3,4) dis p_def n_def h1_def h2_def])
  then have "dlseg h' NULL (as @ bs) NULL" unfolding r(1) using me by (subst dlseg_fresh) auto
  moreover have "qhead q' = hd ((as @ bs) @ [NULL])" using r(2) q(3) pN n_def by (cases as) auto
  moreover have "qtail q' = last (NULL # as @ bs)" using r(2) q(4) nN p_def by (cases bs) auto
  ultimately show "queue_rep h' q' (as @ bs)" using dis by (simp add: queue_rep_def)
  show "tnext (h' me) = NULL \<and> tprev (h' me) = NULL" using r(1) by simp
  have "p \<in> insert NULL (set as)" "n \<in> insert NULL (set bs)"
    by (cases as rule: rev_cases; cases bs; simp add: p_def n_def)+
  then show "x \<notin> set (as @ me # bs) \<Longrightarrow> h' x = h x" by (auto simp: r(1) h2_def h1_def)
  show "same_but_links (h x) (h' x)" unfolding r(1) h2_def h1_def
    by (auto intro: same_but_links_trans simp: same_but_links_def)
qed

section \<open>The queue interface\<close>

text \<open>What a client of a task queue relies on.\<close>

locale task_fifo =
  fixes enq :: "tptr \<Rightarrow> theap \<times> tqueue \<Rightarrow> theap \<times> tqueue"
    and pop :: "theap \<times> tqueue \<Rightarrow> tptr \<times> theap \<times> tqueue"
  assumes enq_rep: "queue_rep h q xs \<Longrightarrow> t \<noteq> NULL \<Longrightarrow> t \<notin> set xs \<Longrightarrow> enq t (h, q) = (h', q') \<Longrightarrow>
      queue_rep h' q' (xs @ [t])"
    and enq_frame: "queue_rep h q xs \<Longrightarrow> t \<noteq> NULL \<Longrightarrow> t \<notin> set xs \<Longrightarrow> enq t (h, q) = (h', q') \<Longrightarrow>
      (x \<notin> insert t (set xs) \<longrightarrow> h' x = h x) \<and> same_but_links (h x) (h' x)"
    and pop_empty: "pop (h, empty_queue) = (NULL, h, empty_queue)"
    and pop_rep: "queue_rep h q (t # xs) \<Longrightarrow> pop (h, q) = (t', h', q') \<Longrightarrow>
      t' = t \<and> queue_rep h' q' xs \<and> tnext (h' t) = NULL \<and> tprev (h' t) = NULL"
    and pop_frame: "queue_rep h q (t # xs) \<Longrightarrow> pop (h, q) = (t', h', q') \<Longrightarrow>
      (x \<notin> set (t # xs) \<longrightarrow> h' x = h x) \<and> same_but_links (h x) (h' x)"
begin

fun pops :: "nat \<Rightarrow> theap \<times> tqueue \<Rightarrow> tptr list \<times> theap \<times> tqueue" where
  "pops 0 hq = ([], hq)"
| "pops (Suc n) hq = (let (t, hq') = pop hq; (ts, hq'') = pops n hq' in (t # ts, hq''))"

lemma enq_all_rep:
  assumes "queue_rep h q xs" and "distinct (xs @ ys)" and "NULL \<notin> set ys"
  shows "case fold enq ys (h, q) of (h', q') \<Rightarrow> queue_rep h' q' (xs @ ys)"
  using assms
proof (induction ys arbitrary: h q xs)
  case (Cons y ys)
  obtain h1 q1 where e: "enq y (h, q) = (h1, q1)" by fastforce
  have "queue_rep h1 q1 (xs @ [y])" using enq_rep [OF Cons.prems(1) _ _ e] Cons.prems(2,3) by auto
  from Cons.IH [OF this] Cons.prems show ?case using e by simp
qed simp

lemma pops_rep:
  assumes "queue_rep h q (xs @ ys)"
  shows "\<exists>h' q'. pops (length xs) (h, q) = (xs, h', q') \<and> queue_rep h' q' ys"
  using assms
proof (induction xs arbitrary: h q)
  case (Cons x xs)
  obtain t h1 q1 where e: "pop (h, q) = (t, h1, q1)" by (metis prod_cases3)
  have "t = x" "queue_rep h1 q1 (xs @ ys)" using pop_rep [OF _ e] Cons.prems by auto
  with Cons.IH [of h1 q1] e show ?case by auto
qed auto

text \<open>First in, first out: what was queued comes out in the order it was put in.\<close>

lemma fifo:
  assumes "distinct ys" and "NULL \<notin> set ys"
  shows "fst (pops (length ys) (fold enq ys (h, empty_queue))) = ys"
proof -
  obtain h1 q1 where f: "fold enq ys (h, empty_queue) = (h1, q1)" by fastforce
  have "queue_rep h1 q1 (ys @ [])" using enq_all_rep [of h empty_queue "[]" ys] assms f by simp
  from pops_rep [OF this] show ?thesis using f by auto
qed

end

text \<open>A queue from which a task that woke up by itself can withdraw.\<close>

locale task_fifo_remove = task_fifo +
  fixes remove :: "tptr \<Rightarrow> theap \<times> tqueue \<Rightarrow> theap \<times> tqueue"
  assumes remove_rep: "queue_rep h q (as @ me # bs) \<Longrightarrow> remove me (h, q) = (h', q') \<Longrightarrow>
      queue_rep h' q' (as @ bs) \<and> tnext (h' me) = NULL \<and> tprev (h' me) = NULL"
    and remove_frame: "queue_rep h q (as @ me # bs) \<Longrightarrow> remove me (h, q) = (h', q') \<Longrightarrow>
      (x \<notin> set (as @ me # bs) \<longrightarrow> h' x = h x) \<and> same_but_links (h x) (h' x)"
    and remove_absent: "queue_rep h q xs \<Longrightarrow> me \<notin> set xs \<Longrightarrow> me \<noteq> NULL \<Longrightarrow>
      tnext (h me) = NULL \<Longrightarrow> tprev (h me) = NULL \<Longrightarrow> remove me (h, q) = (h, q)"
begin

text \<open>
  A task that was queued and is then popped by a peer finds nothing to remove; one that is
  still queued leaves exactly the others behind, in order.
\<close>

lemma remove_after_wakeup:
  assumes "queue_rep h q xs" and "me \<noteq> NULL" and "me \<in> set xs \<or> tnext (h me) = NULL \<and> tprev (h me) = NULL"
  shows "case remove me (h, q) of (h', q') \<Rightarrow> queue_rep h' q' (remove1 me xs) \<and> tnext (h' me) = NULL \<and> tprev (h' me) = NULL"
proof (cases "me \<in> set xs")
  case True
  then obtain as bs where xs: "xs = as @ me # bs" "me \<notin> set as" by (meson split_list_first)
  obtain h' q' where e: "remove me (h, q) = (h', q')" by fastforce
  show ?thesis using remove_rep [OF _ e] assms(1) xs e by (auto simp: remove1_append)
next
  case False
  then show ?thesis using remove_absent [OF assms(1) False assms(2)] assms(1,3) by (simp add: remove1_idem)
qed

end

text \<open>The common shapes implement the interface.\<close>

interpretation links: task_fifo_remove link_tail unlink_head splice_out
proof unfold_locales
  fix h q xs t h' q' x
  assume "queue_rep h q xs" "t \<noteq> NULL" "t \<notin> set xs" "link_tail t (h, q) = (h', q')"
  from link_tail_rep [OF this] show "queue_rep h' q' (xs @ [t])"
    "(x \<notin> insert t (set xs) \<longrightarrow> h' x = h x) \<and> same_but_links (h x) (h' x)" by blast+
next
  fix h q t xs t' h' q' x
  assume "queue_rep h q (t # xs)" "unlink_head (h, q) = (t', h', q')"
  from unlink_head_rep [OF this] show
    "t' = t \<and> queue_rep h' q' xs \<and> tnext (h' t) = NULL \<and> tprev (h' t) = NULL"
    "(x \<notin> set (t # xs) \<longrightarrow> h' x = h x) \<and> same_but_links (h x) (h' x)" by blast+
next
  fix h q as me bs h' q' x
  assume "queue_rep h q (as @ me # bs)" "splice_out me (h, q) = (h', q')"
  from splice_out_rep [OF this] show
    "queue_rep h' q' (as @ bs) \<and> tnext (h' me) = NULL \<and> tprev (h' me) = NULL"
    "(x \<notin> set (as @ me # bs) \<longrightarrow> h' x = h x) \<and> same_but_links (h x) (h' x)" by blast+
qed (simp_all add: unlink_head_empty splice_out_absent)

end
