(* ===== verification/Scheduler.thy ===== *)
theory Scheduler
  imports Tasks
begin

text \<open>
  \<^verbatim>\<open>multi/scheduler.c\<close>: the global task and zombie lists, the per-CPU run and sleep queues,
  task creation, context switches, exit and the timer tick.  Each function is one atomic
  step: the sources run them with interrupts off and under the lock of the structure they
  change.  \<open>c\<close> is the CPU the code runs on.  Work that other components do on behalf of the
  scheduler when a task dies is recorded, in order, in the list \<open>calls\<close>.
\<close>

section \<open>State\<close>

record cpu_local =
  cpu_current :: tptr
  pending_reap :: tptr
  rq :: tqueue
  sleepq :: "tptr list"
  kernel_rsp :: u64
  tss_rsp0 :: "u64 option"
  cpu_kstack_top :: u64

datatype kcall =
  TtyDropTask tptr | VfsFilePut nat | FreeUserAddressSpace u64 | FreeClonedPml4 u64
| RemoveKernelPages u64 u64 | KfreeTask tptr | PtyDropFgOutput nat u64

record sched =
  tasks :: theap
  all_tasks :: "tptr list"
  zombies :: "tptr list"
  cpus :: "nat \<Rightarrow> cpu_local"
  next_pid :: u64
  next_assign_cpu :: u64
  cpus_active :: u64
  timer_ticks :: "nat \<Rightarrow> u64"
  global_cr3 :: u64
  vfs_root_dentry :: nat
  calls :: "kcall list"

definition MAX_CPUS :: nat where "MAX_CPUS = 64"

definition FD_MAX :: nat where "FD_MAX = 64"

definition DEFAULT_TIME_SLICE :: u64 where "DEFAULT_TIME_SLICE = 20"

definition STACK_PAGES :: u64 where "STACK_PAGES = 4"

definition upd_task :: "tptr \<Rightarrow> (task \<Rightarrow> task) \<Rightarrow> sched \<Rightarrow> sched" where
  "upd_task t f s = s\<lparr>tasks := (tasks s)(t := f (tasks s t))\<rparr>"

definition upd_cpu :: "nat \<Rightarrow> (cpu_local \<Rightarrow> cpu_local) \<Rightarrow> sched \<Rightarrow> sched" where
  "upd_cpu c f s = s\<lparr>cpus := (cpus s)(c := f (cpus s c))\<rparr>"

section \<open>The global lists\<close>

definition tasks_list_add :: "tptr \<Rightarrow> sched \<Rightarrow> sched" where
  "tasks_list_add t s = s\<lparr>all_tasks := t # all_tasks s\<rparr>"

definition tasks_list_remove :: "tptr \<Rightarrow> sched \<Rightarrow> sched" where
  "tasks_list_remove t s = s\<lparr>all_tasks := remove1 t (all_tasks s)\<rparr>"

definition zombie_list_add_locked :: "tptr \<Rightarrow> sched \<Rightarrow> sched" where
  "zombie_list_add_locked t s = s\<lparr>zombies := t # zombies s\<rparr>"

definition child_matches :: "sched \<Rightarrow> tptr \<Rightarrow> u64 \<Rightarrow> tptr \<Rightarrow> bool" where
  "child_matches s p target_pid t \<longleftrightarrow>
     tparent (tasks s t) = p \<and> (target_pid = 0 \<or> tpid (tasks s t) = target_pid)"

definition zombie_list_take_locked :: "tptr \<Rightarrow> u64 \<Rightarrow> sched \<Rightarrow> tptr \<times> sched" where
  "zombie_list_take_locked p target_pid s =
     (case List.find (child_matches s p target_pid) (zombies s) of
        None \<Rightarrow> (NULL, s)
      | Some t \<Rightarrow> (t, s\<lparr>zombies := remove1 t (zombies s)\<rparr>))"

definition task_for_pid :: "u64 \<Rightarrow> sched \<Rightarrow> tptr" where
  "task_for_pid pid s =
     (case List.find (\<lambda>t. tpid (tasks s t) = pid) (all_tasks s) of None \<Rightarrow> NULL | Some t \<Rightarrow> t)"

definition task_has_children :: "tptr \<Rightarrow> u64 \<Rightarrow> sched \<Rightarrow> bool" where
  "task_has_children p target_pid s = list_ex (child_matches s p target_pid) (all_tasks s)"

section \<open>Run queues\<close>

definition rq_init :: tqueue where
  "rq_init = \<lparr>qhead = NULL, qtail = NULL\<rparr>"

definition rq_enqueue_locked :: "tptr \<Rightarrow> theap \<times> tqueue \<Rightarrow> theap \<times> tqueue" where
  "rq_enqueue_locked t hq =
     (let (h, q) = hq;
          h = h(t := (h t)\<lparr>tnext := NULL\<rparr>);
          h = h(t := (h t)\<lparr>tprev := qtail q\<rparr>);
          (h, q) = (if qtail q \<noteq> NULL then (h(qtail q := (h (qtail q))\<lparr>tnext := t\<rparr>), q)
                    else (h, q\<lparr>qhead := t\<rparr>))
      in (h, q\<lparr>qtail := t\<rparr>))"

definition rq_dequeue_locked :: "theap \<times> tqueue \<Rightarrow> tptr \<times> theap \<times> tqueue" where
  "rq_dequeue_locked hq =
     (let (h, q) = hq; t = qhead q in
      if t = NULL then (NULL, h, q)
      else
        let q = q\<lparr>qhead := tnext (h t)\<rparr>;
            (h, q) = (if qhead q \<noteq> NULL then (h(qhead q := (h (qhead q))\<lparr>tprev := NULL\<rparr>), q)
                      else (h, q\<lparr>qtail := NULL\<rparr>));
            h = h(t := (h t)\<lparr>tnext := NULL, tprev := NULL\<rparr>)
        in (t, h, q))"

definition rq_enqueue :: "nat \<Rightarrow> tptr \<Rightarrow> sched \<Rightarrow> sched" where
  "rq_enqueue c t s =
     (let (h, q) = rq_enqueue_locked t (tasks s, rq (cpus s c))
      in upd_cpu c (\<lambda>l. l\<lparr>rq := q\<rparr>) (s\<lparr>tasks := h\<rparr>))"

definition rq_enqueue_external :: "tptr \<Rightarrow> sched \<Rightarrow> sched" where
  "rq_enqueue_external t s = rq_enqueue (home_cpu (tasks s t)) t s"

definition rq_dequeue :: "nat \<Rightarrow> sched \<Rightarrow> tptr \<times> sched" where
  "rq_dequeue c s =
     (let (t, h, q) = rq_dequeue_locked (tasks s, rq (cpus s c))
      in (t, upd_cpu c (\<lambda>l. l\<lparr>rq := q\<rparr>) (s\<lparr>tasks := h\<rparr>)))"

section \<open>Sleeping\<close>

fun sleep_insert :: "theap \<Rightarrow> tptr \<Rightarrow> tptr list \<Rightarrow> tptr list" where
  "sleep_insert h t [] = [t]"
| "sleep_insert h t (x # xs) =
     (if sleep_deadline (h x) \<le> sleep_deadline (h t) then x # sleep_insert h t xs else t # x # xs)"

definition sleep_queue_insert :: "nat \<Rightarrow> tptr \<Rightarrow> sched \<Rightarrow> sched" where
  "sleep_queue_insert c t s = upd_cpu c (\<lambda>l. l\<lparr>sleepq := sleep_insert (tasks s) t (sleepq l)\<rparr>) s"

fun wake_loop :: "nat \<Rightarrow> u64 \<Rightarrow> tptr list \<Rightarrow> sched \<Rightarrow> sched" where
  "wake_loop c now [] s = upd_cpu c (\<lambda>l. l\<lparr>sleepq := []\<rparr>) s"
| "wake_loop c now (t # ts) s =
     (if sleep_deadline (tasks s t) \<le> now then
        wake_loop c now ts
          (rq_enqueue_external t
            (upd_task t (\<lambda>k. k\<lparr>sleep_deadline := 0, tstate := TASK_STATE_READY\<rparr>) s))
      else upd_cpu c (\<lambda>l. l\<lparr>sleepq := t # ts\<rparr>) s)"

definition sleep_queue_wake_expired :: "nat \<Rightarrow> sched \<Rightarrow> sched" where
  "sleep_queue_wake_expired c s = wake_loop c (timer_ticks s c) (sleepq (cpus s c)) s"

section \<open>Creating tasks\<close>

text \<open>
  \<open>t\<close> is the memory \<^verbatim>\<open>kmalloc\<close> returned and \<open>stack_base\<close> the stack \<^verbatim>\<open>AddStack\<close> returned.
  \<^verbatim>\<open>name\<close> is cut to 31 bytes; NULL leaves it empty.
\<close>

definition zero_task :: task where
  "zero_task = \<lparr>saved_rsp = 0, kframe = [], tpid = 0, tstate = TASK_STATE_NEW, time_slice = 0,
     tnext = NULL, tprev = NULL, tname = [], home_cpu = 0, cr3 = 0, kstack_top = 0, kstack_base = 0,
     kstack_pages = 0, fds = replicate FD_MAX 0, pending_signals = 0,
     signal_actions = (\<lambda>_. \<lparr>sa_handler = 0, sa_restorer = 0\<rparr>), tparent = NULL, wait_target = 0,
     exit_code = 0, sleep_deadline = 0, mmap_next = 0, pgid = 0, sid = 0, tcwd = 0, ctty = 0\<rparr>"

definition copy_name :: "u8 list option \<Rightarrow> u8 list" where
  "copy_name name = (case name of None \<Rightarrow> [] | Some n \<Rightarrow> take 31 (takeWhile (\<lambda>c. c \<noteq> 0) n))"

definition alloc_blank_task :: "tptr \<Rightarrow> u64 \<Rightarrow> u8 list option \<Rightarrow> sched \<Rightarrow> sched" where
  "alloc_blank_task t stack_base name s =
     (let pid = next_pid s;
          online = (if cpus_active s \<noteq> 0 then cpus_active s else 1);
          k = zero_task\<lparr>tpid := pid, pgid := pid, sid := pid, tstate := TASK_STATE_READY,
                cr3 := global_cr3 s, kstack_base := stack_base,
                kstack_top := stack_base + STACK_PAGES * PAGE_SIZE, kstack_pages := STACK_PAGES,
                time_slice := DEFAULT_TIME_SLICE,
                home_cpu := unat (ucast (next_assign_cpu s mod online) :: u32),
                tname := copy_name name, tcwd := vfs_root_dentry s\<rparr>
      in tasks_list_add t
           (s\<lparr>next_pid := pid + 1, next_assign_cpu := next_assign_cpu s + 1, tasks := (tasks s)(t := k)\<rparr>))"

text \<open>The initial frame, lowest address first: six callee-saved registers and the return address.\<close>

definition create_kernel_task :: "u64 \<Rightarrow> u64 \<Rightarrow> tptr \<Rightarrow> u64 \<Rightarrow> u8 list option \<Rightarrow> sched \<Rightarrow> sched" where
  "create_kernel_task task_entry_trampoline entry t stack_base name s =
     (let s = alloc_blank_task t stack_base name s;
          frame = [0, 0, 0, entry, 0, 0, task_entry_trampoline];
          s = upd_task t (\<lambda>k. k\<lparr>kframe := frame, saved_rsp := kstack_top k - 8 * of_nat (length frame)\<rparr>) s
      in rq_enqueue (home_cpu (tasks s t)) t s)"

definition scheduler_attach_bootstrap :: "nat \<Rightarrow> tptr \<Rightarrow> u8 list option \<Rightarrow> sched \<Rightarrow> sched" where
  "scheduler_attach_bootstrap c t name s =
     (let pid = next_pid s;
          k = zero_task\<lparr>tpid := pid, tstate := TASK_STATE_RUNNING, cr3 := global_cr3 s,
                kstack_top := cpu_kstack_top (cpus s c), time_slice := DEFAULT_TIME_SLICE,
                home_cpu := c, tname := copy_name name\<rparr>
      in upd_cpu c (\<lambda>l. l\<lparr>cpu_current := t\<rparr>)
           (tasks_list_add t (s\<lparr>next_pid := pid + 1, tasks := (tasks s)(t := k)\<rparr>)))"

definition SchedulerInit :: "sched \<Rightarrow> sched" where
  "SchedulerInit s =
     s\<lparr>cpus := (\<lambda>i. if i < MAX_CPUS then (cpus s i)\<lparr>rq := rq_init, sleepq := []\<rparr> else cpus s i),
       next_pid := 1, next_assign_cpu := 0\<rparr>"

section \<open>Freeing tasks\<close>

definition free_dead_task :: "tptr \<Rightarrow> sched \<Rightarrow> sched" where
  "free_dead_task dead s =
     (if dead = NULL then s
      else
        let k = tasks s dead;
            open_files = filter (\<lambda>f. f \<noteq> 0) (fds k);
            cs = TtyDropTask dead # map VfsFilePut open_files @
                 (if cr3 k \<noteq> global_cr3 s then [FreeUserAddressSpace (cr3 k), FreeClonedPml4 (cr3 k)] else []) @
                 (if kstack_pages k \<noteq> 0 then [RemoveKernelPages (kstack_base k) (kstack_pages k)] else []) @
                 [KfreeTask dead]
        in tasks_list_remove dead
             (upd_task dead (\<lambda>k. k\<lparr>fds := map (\<lambda>_. 0) (fds k)\<rparr>) (s\<lparr>calls := calls s @ cs\<rparr>)))"

definition drain_pending_reap :: "nat \<Rightarrow> sched \<Rightarrow> sched" where
  "drain_pending_reap c s =
     (let dead = pending_reap (cpus s c) in
      if dead = NULL then s
      else
        let s = upd_cpu c (\<lambda>l. l\<lparr>pending_reap := NULL\<rparr>) s;
            p = tparent (tasks s dead)
        in if p \<noteq> NULL \<and> tstate (tasks s p) \<noteq> TASK_STATE_ZOMBIE then s else free_dead_task dead s)"

section \<open>The context switch\<close>

text \<open>
  \<open>Kept\<close>: the caller goes on running.  \<open>Switched\<close>: another task is current.  \<open>Halted\<close>: the
  CPU idles with interrupts on, inside \<^verbatim>\<open>schedule\<close>, until a wakeup; \<open>schedule_poll\<close> is one
  turn of that loop.
\<close>

datatype sched_outcome = Kept | Switched | Halted

text \<open>
  Both branches for a still running \<open>prev\<close> (its own queue, already locked, or another CPU's)
  put it at the tail of its home queue.
\<close>

definition switch_to :: "nat \<Rightarrow> tptr \<Rightarrow> tptr \<Rightarrow> sched \<Rightarrow> sched" where
  "switch_to c prev next s =
     (let s = (if prev \<noteq> NULL \<and> tstate (tasks s prev) = TASK_STATE_RUNNING
               then rq_enqueue (home_cpu (tasks s prev)) prev
                      (upd_task prev (\<lambda>k. k\<lparr>tstate := TASK_STATE_READY\<rparr>) s)
               else s);
          s = upd_task next (\<lambda>k. k\<lparr>tstate := TASK_STATE_RUNNING, time_slice := DEFAULT_TIME_SLICE\<rparr>) s;
          top = kstack_top (tasks s next);
          s = upd_cpu c (\<lambda>l. l\<lparr>cpu_current := next, kernel_rsp := top,
                               tss_rsp0 := map_option (\<lambda>_. top) (tss_rsp0 l)\<rparr>) s
      in if prev \<noteq> NULL \<and> tstate (tasks s prev) = TASK_STATE_ZOMBIE \<and> tparent (tasks s prev) = NULL
         then upd_cpu c (\<lambda>l. l\<lparr>pending_reap := prev\<rparr>) s else s)"

definition schedule :: "nat \<Rightarrow> sched \<Rightarrow> sched_outcome \<times> sched" where
  "schedule c s =
     (let s = drain_pending_reap c s;
          prev = cpu_current (cpus s c);
          (next, s) = rq_dequeue c s
      in if next = NULL then
           (if prev \<noteq> NULL \<and> tstate (tasks s prev) \<noteq> TASK_STATE_RUNNING then Halted else Kept, s)
         else (Switched, switch_to c prev next s))"

definition schedule_poll :: "nat \<Rightarrow> sched \<Rightarrow> sched_outcome \<times> sched" where
  "schedule_poll c s =
     (let prev = cpu_current (cpus s c);
          (next, s) = rq_dequeue c s
      in if next \<noteq> NULL then (Switched, switch_to c prev next s)
         else if tstate (tasks s prev) = TASK_STATE_RUNNING then (Kept, s)
         else (Halted, s))"

section \<open>Exit and the timer tick\<close>

text \<open>
  \<^verbatim>\<open>task_exit\<close> is taken as one step. In the source it has three parts: the children are
  detached under \<^verbatim>\<open>tasks_lock\<close>, the parent is looked at with no lock held, and the hand-over
  to it runs under \<^verbatim>\<open>zombie_list_lock\<close>. Another CPU can run the parent's own exit
  between the look and the hand-over; the hand-over then reads \<^verbatim>\<open>cur->parent\<close> as NULL and
  dereferences it. That interleaving is outside this definition.
\<close>

definition detach_children :: "tptr \<Rightarrow> sched \<Rightarrow> sched" where
  "detach_children p s =
     s\<lparr>tasks := (\<lambda>t. if t \<in> set (all_tasks s) \<and> tparent (tasks s t) = p
                      then (tasks s t)\<lparr>tparent := NULL\<rparr> else tasks s t)\<rparr>"

definition notify_parent :: "tptr \<Rightarrow> sched \<Rightarrow> sched" where
  "notify_parent cur s =
     (let p = tparent (tasks s cur) in
      if p \<noteq> NULL \<and> tstate (tasks s p) \<noteq> TASK_STATE_ZOMBIE then
        let s = zombie_list_add_locked cur s in
        if tstate (tasks s p) = TASK_STATE_BLOCKED \<and>
           (wait_target (tasks s p) = 0 \<or> wait_target (tasks s p) = tpid (tasks s cur))
        then rq_enqueue_external p (upd_task p (\<lambda>k. k\<lparr>tstate := TASK_STATE_READY\<rparr>) s)
        else s
      else s)"

definition task_exit :: "nat \<Rightarrow> u64 \<Rightarrow> sched \<Rightarrow> sched_outcome \<times> sched" where
  "task_exit c code s =
     (let cur = cpu_current (cpus s c);
          s = upd_task cur (\<lambda>k. k\<lparr>exit_code := code\<rparr>) s;
          s = detach_children cur s;
          s = upd_task cur (\<lambda>k. k\<lparr>tstate := TASK_STATE_ZOMBIE\<rparr>) s;
          s = notify_parent cur s
      in schedule c s)"

definition scheduler_tick :: "nat \<Rightarrow> sched \<Rightarrow> sched" where
  "scheduler_tick c s =
     (let s = sleep_queue_wake_expired c s;
          cur = cpu_current (cpus s c)
      in if cur = NULL then s
         else
           let s = (if time_slice (tasks s cur) > 0
                    then upd_task cur (\<lambda>k. k\<lparr>time_slice := time_slice k - 1\<rparr>) s else s)
           in if time_slice (tasks s cur) = 0 then snd (schedule c s) else s)"

text \<open>\<^verbatim>\<open>TimerHandler\<close>: the interrupt counts a tick of its CPU first.\<close>

definition TimerHandler :: "nat \<Rightarrow> sched \<Rightarrow> sched" where
  "TimerHandler c s = scheduler_tick c (s\<lparr>timer_ticks := (timer_ticks s)(c := timer_ticks s c + 1)\<rparr>)"

text \<open>
  \<^verbatim>\<open>sleep\<close> (\<^verbatim>\<open>wrappers/timer.c\<close>); before a CPU has a current task it polls the tick counter
  and changes nothing.
\<close>

definition sleep :: "nat \<Rightarrow> u64 \<Rightarrow> sched \<Rightarrow> sched_outcome \<times> sched" where
  "sleep c ms s =
     (let cur = cpu_current (cpus s c) in
      if cur = NULL then (Kept, s)
      else if ms = 0 then (Kept, s)
      else
        let s = upd_task cur (\<lambda>k. k\<lparr>sleep_deadline := timer_ticks s c + ms\<rparr>) s;
            s = sleep_queue_insert c cur s;
            s = upd_task cur (\<lambda>k. k\<lparr>tstate := TASK_STATE_BLOCKED\<rparr>) s
        in schedule c s)"

end
