(* ===== verification/Scheduler_Inv.thy ===== *)
theory Scheduler_Inv
  imports Scheduler
begin

text \<open>
  The invariant of the scheduler (what the run queues and sleep queues represent) and its
  preservation by each operation; the run queue as an implementation of the task queue
  interface.
\<close>

section \<open>The run queue implements the queue interface\<close>

lemma rq_enqueue_link: "rq_enqueue_locked = link_tail"
  by (auto simp: fun_eq_iff rq_enqueue_locked_def link_tail_def Let_def split: prod.splits)

lemma rq_dequeue_unlink: "rq_dequeue_locked = unlink_head"
  by (auto simp: fun_eq_iff rq_dequeue_locked_def unlink_head_def Let_def split: prod.splits)

interpretation runq: task_fifo rq_enqueue_locked rq_dequeue_locked
  unfolding rq_enqueue_link rq_dequeue_unlink by unfold_locales

section \<open>The invariant\<close>

definition runqs :: "sched \<Rightarrow> (nat \<Rightarrow> tptr list) \<Rightarrow> bool" where
  "runqs s Q \<longleftrightarrow>
     (\<forall>c. queue_rep (tasks s) (rq (cpus s c)) (Q c)) \<and>
     (\<forall>c t. t \<in> set (Q c) \<longrightarrow> tstate (tasks s t) = TASK_STATE_READY \<and> home_cpu (tasks s t) = c)"

definition sleepers :: "sched \<Rightarrow> bool" where
  "sleepers s \<longleftrightarrow>
     (\<forall>c. distinct (sleepq (cpus s c)) \<and> NULL \<notin> set (sleepq (cpus s c))) \<and>
     (\<forall>c t. t \<in> set (sleepq (cpus s c)) \<longrightarrow> tstate (tasks s t) = TASK_STATE_BLOCKED) \<and>
     (\<forall>c d. c \<noteq> d \<longrightarrow> set (sleepq (cpus s c)) \<inter> set (sleepq (cpus s d)) = {})"

definition sched_inv :: "sched \<Rightarrow> (nat \<Rightarrow> tptr list) \<Rightarrow> bool" where
  "sched_inv s Q \<longleftrightarrow> runqs s Q \<and> sleepers s"

lemma runqsD:
  assumes "runqs s Q"
  shows "queue_rep (tasks s) (rq (cpus s c)) (Q c)"
    and "t \<in> set (Q c) \<Longrightarrow> tstate (tasks s t) = TASK_STATE_READY" and "t \<in> set (Q c) \<Longrightarrow> home_cpu (tasks s t) = c"
    and "t \<in> set (Q c) \<Longrightarrow> t \<in> set (Q d) \<Longrightarrow> c = d" and "t \<in> set (Q c) \<Longrightarrow> t \<noteq> NULL" and "distinct (Q c)"
proof -
  show "queue_rep (tasks s) (rq (cpus s c)) (Q c)" using assms by (simp add: runqs_def)
  from queue_repD(1,2) [OF this] show "t \<in> set (Q c) \<Longrightarrow> t \<noteq> NULL" "distinct (Q c)" by metis+
  show "t \<in> set (Q c) \<Longrightarrow> tstate (tasks s t) = TASK_STATE_READY"
    "t \<in> set (Q c) \<Longrightarrow> home_cpu (tasks s t) = c" "t \<in> set (Q c) \<Longrightarrow> t \<in> set (Q d) \<Longrightarrow> c = d"
    using assms unfolding runqs_def by metis+
qed

text \<open>
  A step that leaves links and run queues alone, and the state and home of every queued task,
  keeps \<open>runqs\<close>; likewise for the sleepers.
\<close>

lemma runqs_frame:
  assumes "runqs s Q" and "\<And>c. rq (cpus s' c) = rq (cpus s c)"
    and "\<And>t c. t \<in> set (Q c) \<Longrightarrow> tnext (tasks s' t) = tnext (tasks s t) \<and> tprev (tasks s' t) = tprev (tasks s t) \<and>
      tstate (tasks s' t) = tstate (tasks s t) \<and> home_cpu (tasks s' t) = home_cpu (tasks s t)"
  shows "runqs s' Q"
proof -
  have "queue_rep (tasks s') (rq (cpus s c)) (Q c) = queue_rep (tasks s) (rq (cpus s c)) (Q c)" for c
    by (rule queue_rep_cong) (use assms(3) in auto)
  then show ?thesis using assms by (auto simp: runqs_def)
qed

lemma sleepers_frame:
  assumes "sleepers s" and "\<And>c. sleepq (cpus s' c) = sleepq (cpus s c)"
    and "\<And>t c. t \<in> set (sleepq (cpus s c)) \<Longrightarrow> tstate (tasks s' t) = tstate (tasks s t)"
  shows "sleepers s'"
  using assms by (auto simp: sleepers_def)

text \<open>Everything but links and run queues.\<close>

definition same_sched :: "sched \<Rightarrow> sched \<Rightarrow> bool" where
  "same_sched s s' \<longleftrightarrow>
     (\<forall>t. same_but_links (tasks s t) (tasks s' t)) \<and>
     (\<forall>c. (cpus s c)\<lparr>rq := rq_init\<rparr> = (cpus s' c)\<lparr>rq := rq_init\<rparr>) \<and>
     s\<lparr>tasks := tasks s', cpus := cpus s'\<rparr> = s'"

lemma cpu_same_but_rq:
  assumes "(l :: cpu_local)\<lparr>rq := r\<rparr> = l'\<lparr>rq := r\<rparr>"
  shows "cpu_current l' = cpu_current l" "sleepq l' = sleepq l" "pending_reap l' = pending_reap l"
  using assms by (cases l; cases l'; simp)+

lemma same_schedD:
  assumes "same_sched s s'"
  shows "same_but_links (tasks s t) (tasks s' t)" "tstate (tasks s' t) = tstate (tasks s t)"
    "home_cpu (tasks s' t) = home_cpu (tasks s t)" "sleep_deadline (tasks s' t) = sleep_deadline (tasks s t)"
    "time_slice (tasks s' t) = time_slice (tasks s t)" "tparent (tasks s' t) = tparent (tasks s t)"
    "tpid (tasks s' t) = tpid (tasks s t)" "wait_target (tasks s' t) = wait_target (tasks s t)"
    "pending_signals (tasks s' t) = pending_signals (tasks s t)"
    "cpu_current (cpus s' c) = cpu_current (cpus s c)" "sleepq (cpus s' c) = sleepq (cpus s c)"
    "pending_reap (cpus s' c) = pending_reap (cpus s c)"
    "timer_ticks s' = timer_ticks s" "zombies s' = zombies s" "all_tasks s' = all_tasks s"
proof -
  have l: "same_but_links (tasks s t) (tasks s' t)" using assms by (simp add: same_sched_def)
  show "same_but_links (tasks s t) (tasks s' t)" by (rule l)
  show "tstate (tasks s' t) = tstate (tasks s t)" "home_cpu (tasks s' t) = home_cpu (tasks s t)"
    "sleep_deadline (tasks s' t) = sleep_deadline (tasks s t)" "time_slice (tasks s' t) = time_slice (tasks s t)"
    "tparent (tasks s' t) = tparent (tasks s t)" "tpid (tasks s' t) = tpid (tasks s t)"
    "wait_target (tasks s' t) = wait_target (tasks s t)" "pending_signals (tasks s' t) = pending_signals (tasks s t)"
    using same_but_linksD [OF l] by simp_all
  have "(cpus s c)\<lparr>rq := rq_init\<rparr> = (cpus s' c)\<lparr>rq := rq_init\<rparr>" using assms by (simp add: same_sched_def)
  from cpu_same_but_rq [OF this] show "cpu_current (cpus s' c) = cpu_current (cpus s c)"
    "sleepq (cpus s' c) = sleepq (cpus s c)" "pending_reap (cpus s' c) = pending_reap (cpus s c)" by simp_all
  have "s\<lparr>tasks := tasks s', cpus := cpus s'\<rparr> = s'" using assms by (simp add: same_sched_def)
  then show "timer_ticks s' = timer_ticks s" "zombies s' = zombies s" "all_tasks s' = all_tasks s"
    by (cases s; cases s'; simp)+
qed

lemma sleepers_same_sched: "sleepers s \<Longrightarrow> same_sched s s' \<Longrightarrow> sleepers s'"
  by (erule sleepers_frame) (simp_all add: same_schedD)

section \<open>Enqueue and dequeue\<close>

lemma rq_enqueue_runqs:
  assumes r: "runqs s Q" and t: "t \<noteq> NULL" "\<And>d. t \<notin> set (Q d)"
    "tstate (tasks s t) = TASK_STATE_READY" "home_cpu (tasks s t) = c"
  shows "runqs (rq_enqueue c t s) (Q(c := Q c @ [t]))" and "same_sched s (rq_enqueue c t s)"
proof -
  obtain h q where e: "rq_enqueue_locked t (tasks s, rq (cpus s c)) = (h, q)" by fastforce
  let ?s = "rq_enqueue c t s"
  have s: "tasks ?s = h" "cpus ?s = (cpus s)(c := (cpus s c)\<lparr>rq := q\<rparr>)"
    using e by (simp_all add: rq_enqueue_def upd_cpu_def)
  note rep = runq.enq_rep [OF runqsD(1) [OF r] t(1,2) e] and fr = runq.enq_frame [OF runqsD(1) [OF r] t(1,2) e]
  show same: "same_sched s ?s" using fr e by (auto simp: same_sched_def rq_enqueue_def upd_cpu_def)
  show "runqs ?s (Q(c := Q c @ [t]))"
    unfolding runqs_def
  proof (intro conjI allI impI)
    fix d
    show "queue_rep (tasks ?s) (rq (cpus ?s d)) ((Q(c := Q c @ [t])) d)"
    proof (cases "d = c")
      case False
      have "h x = tasks s x" if "x \<in> set (Q d)" for x
        using fr [of x] that runqsD(4) [OF r, of x d c] t(2) False by auto
      then have "queue_rep h (rq (cpus s d)) (Q d) = queue_rep (tasks s) (rq (cpus s d)) (Q d)"
        by (intro queue_rep_cong) auto
      then show ?thesis using s False runqsD(1) [OF r, of d] by simp
    qed (use s rep in simp)
    fix x assume "x \<in> set ((Q(c := Q c @ [t])) d)"
    then have "x = t \<and> d = c \<or> x \<in> set (Q d)" by (auto split: if_splits)
    then show "tstate (tasks ?s x) = TASK_STATE_READY" "home_cpu (tasks ?s x) = d"
      using same_schedD(2,3) [OF same, of x] runqsD(2,3) [OF r, of x d] t(3,4) by auto
  qed
qed

lemma rq_dequeue_empty:
  assumes "runqs s Q" and "Q c = []"
  shows "rq_dequeue c s = (NULL, s)"
proof -
  have q: "rq (cpus s c) = empty_queue" using runqsD(1) [OF assms(1), of c] assms(2) by simp
  then have "rq_dequeue_locked (tasks s, rq (cpus s c)) = (NULL, tasks s, rq (cpus s c))"
    using runq.pop_empty by simp
  then show ?thesis by (simp add: rq_dequeue_def upd_cpu_def)
qed

lemma rq_dequeue_runqs:
  assumes r: "runqs s Q" and Q: "Q c = t # ts"
  obtains s' where "rq_dequeue c s = (t, s')" "runqs s' (Q(c := ts))" "same_sched s s'"
proof -
  obtain t' h q where e: "rq_dequeue_locked (tasks s, rq (cpus s c)) = (t', h, q)" by (metis prod_cases3)
  note rep = runqsD(1) [OF r, of c, unfolded Q]
  note pop = runq.pop_rep [OF rep e] and fr = runq.pop_frame [OF rep e]
  define s' where "s' = upd_cpu c (\<lambda>l. l\<lparr>rq := q\<rparr>) (s\<lparr>tasks := h\<rparr>)"
  have s: "tasks s' = h" "cpus s' = (cpus s)(c := (cpus s c)\<lparr>rq := q\<rparr>)" by (simp_all add: s'_def upd_cpu_def)
  have same: "same_sched s s'" using fr by (auto simp: same_sched_def s'_def upd_cpu_def)
  have "runqs s' (Q(c := ts))"
    unfolding runqs_def
  proof (intro conjI allI impI)
    fix d
    show "queue_rep (tasks s') (rq (cpus s' d)) ((Q(c := ts)) d)"
    proof (cases "d = c")
      case False
      have "h x = tasks s x" if "x \<in> set (Q d)" for x
        using fr [of x] that runqsD(4) [OF r, of x d c] Q False by auto
      then have "queue_rep h (rq (cpus s d)) (Q d) = queue_rep (tasks s) (rq (cpus s d)) (Q d)"
        by (intro queue_rep_cong) auto
      then show ?thesis using s False runqsD(1) [OF r, of d] by simp
    qed (use s pop in simp)
    fix x assume "x \<in> set ((Q(c := ts)) d)"
    then have "x \<in> set (Q d)" using Q by (auto split: if_splits)
    then show "tstate (tasks s' x) = TASK_STATE_READY" "home_cpu (tasks s' x) = d"
      using same_schedD(2,3) [OF same, of x] runqsD(2,3) [OF r, of x d] by auto
  qed
  moreover have "rq_dequeue c s = (t, s')" using e pop by (simp add: rq_dequeue_def s'_def)
  ultimately show ?thesis using that same by blast
qed

section \<open>Steps that do not move tasks\<close>

lemma upd_task_simps [simp]:
  "tasks (upd_task t f s) = (tasks s)(t := f (tasks s t))" "cpus (upd_task t f s) = cpus s"
  "all_tasks (upd_task t f s) = all_tasks s" "zombies (upd_task t f s) = zombies s"
  "timer_ticks (upd_task t f s) = timer_ticks s"
  by (simp_all add: upd_task_def)

lemma upd_cpu_simps [simp]:
  "tasks (upd_cpu c g s) = tasks s" "cpus (upd_cpu c g s) = (cpus s)(c := g (cpus s c))"
  "all_tasks (upd_cpu c g s) = all_tasks s" "zombies (upd_cpu c g s) = zombies s"
  "timer_ticks (upd_cpu c g s) = timer_ticks s"
  by (simp_all add: upd_cpu_def)

text \<open>What \<^verbatim>\<open>drain_pending_reap\<close> leaves alone: links, states, queues and the running tasks.\<close>

lemma drain_pending_reap_frame:
  defines "s' \<equiv> \<lambda>s c. drain_pending_reap c s"
  shows "tnext (tasks (s' s c) t) = tnext (tasks s t)" "tprev (tasks (s' s c) t) = tprev (tasks s t)"
    "tstate (tasks (s' s c) t) = tstate (tasks s t)" "home_cpu (tasks (s' s c) t) = home_cpu (tasks s t)"
    "time_slice (tasks (s' s c) t) = time_slice (tasks s t)" "tparent (tasks (s' s c) t) = tparent (tasks s t)"
    "rq (cpus (s' s c) d) = rq (cpus s d)" "sleepq (cpus (s' s c) d) = sleepq (cpus s d)"
    "cpu_current (cpus (s' s c) d) = cpu_current (cpus s d)" "timer_ticks (s' s c) = timer_ticks s"
    "zombies (s' s c) = zombies s"
  unfolding s'_def
  by (simp_all add: drain_pending_reap_def free_dead_task_def tasks_list_remove_def Let_def)

lemma drain_pending_reap_inv: "sched_inv s Q \<Longrightarrow> sched_inv (drain_pending_reap c s) Q"
  unfolding sched_inv_def
  by (auto intro!: runqs_frame [of s Q] sleepers_frame [of s] simp: drain_pending_reap_frame)

lemma upd_task_runqs:
  assumes "runqs s Q" and "\<And>d. t \<notin> set (Q d)"
  shows "runqs (upd_task t f s) Q"
  by (rule runqs_frame [OF assms(1)]) (use assms(2) in auto)

lemma upd_task_sleepers:
  assumes "sleepers s" and "\<And>d. t \<notin> set (sleepq (cpus s d))"
  shows "sleepers (upd_task t f s)"
  by (rule sleepers_frame [OF assms(1)]) (use assms(2) in auto)

lemma running_not_queued:
  assumes "sched_inv s Q" and "tstate (tasks s t) \<noteq> TASK_STATE_READY"
  shows "t \<notin> set (Q d)"
  using assms runqsD(2) [of s Q t d] by (auto simp: sched_inv_def)

lemma awake_not_sleeping:
  assumes "sched_inv s Q" and "tstate (tasks s t) \<noteq> TASK_STATE_BLOCKED"
  shows "t \<notin> set (sleepq (cpus s d))"
  using assms by (auto simp: sched_inv_def sleepers_def)

section \<open>The context switch\<close>

text \<open>Where a switched-out task goes: to the tail of its home queue, if it was still running.\<close>

definition requeue :: "sched \<Rightarrow> tptr \<Rightarrow> (nat \<Rightarrow> tptr list) \<Rightarrow> (nat \<Rightarrow> tptr list)" where
  "requeue s prev Q =
     (if prev \<noteq> NULL \<and> tstate (tasks s prev) = TASK_STATE_RUNNING
      then Q(home_cpu (tasks s prev) := Q (home_cpu (tasks s prev)) @ [prev]) else Q)"

lemma requeue_step:
  fixes prev :: tptr
  assumes inv: "sched_inv s Q" and nx: "\<And>d. next \<notin> set (Q d)" "tstate (tasks s next) = TASK_STATE_READY"
  defines "s1 \<equiv> (if prev \<noteq> NULL \<and> tstate (tasks s prev) = TASK_STATE_RUNNING
      then rq_enqueue (home_cpu (tasks s prev)) prev (upd_task prev (\<lambda>k. k\<lparr>tstate := TASK_STATE_READY\<rparr>) s) else s)"
  shows "sched_inv s1 (requeue s prev Q)" and "\<And>d. next \<notin> set (requeue s prev Q d)"
    and "tstate (tasks s1 next) = TASK_STATE_READY" and "home_cpu (tasks s1 next) = home_cpu (tasks s next)"
    and "cpu_current (cpus s1 c) = cpu_current (cpus s c)" and "timer_ticks s1 = timer_ticks s"
proof -
  have "sched_inv s1 (requeue s prev Q) \<and> (\<forall>d. next \<notin> set (requeue s prev Q d)) \<and>
      tstate (tasks s1 next) = TASK_STATE_READY \<and> home_cpu (tasks s1 next) = home_cpu (tasks s next) \<and>
      cpu_current (cpus s1 c) = cpu_current (cpus s c) \<and> timer_ticks s1 = timer_ticks s"
  proof (cases "prev \<noteq> NULL \<and> tstate (tasks s prev) = TASK_STATE_RUNNING")
    case True
    let ?s0 = "upd_task prev (\<lambda>k. k\<lparr>tstate := TASK_STATE_READY\<rparr>) s" and ?c = "home_cpu (tasks s prev)"
    have nq: "prev \<notin> set (Q d)" for d using running_not_queued [OF inv] True by simp
    have ns: "prev \<notin> set (sleepq (cpus s d))" for d using awake_not_sleeping [OF inv] True by simp
    have r0: "runqs ?s0 Q" using inv nq by (intro upd_task_runqs) (simp_all add: sched_inv_def)
    have l0: "sleepers ?s0" using inv ns by (intro upd_task_sleepers) (simp_all add: sched_inv_def)
    have e: "runqs s1 (Q(?c := Q ?c @ [prev]))" "same_sched ?s0 s1"
      using rq_enqueue_runqs [OF r0, of prev ?c] nq True by (simp_all add: s1_def)
    have "next \<noteq> prev" using nx(2) True by auto
    then show ?thesis
      using e nx True sleepers_same_sched [OF l0 e(2)] same_schedD(2,3,10,13) [OF e(2)]
      by (auto simp: sched_inv_def requeue_def)
  qed (use inv nx in \<open>auto simp: s1_def requeue_def\<close>)
  then show "sched_inv s1 (requeue s prev Q)" "\<And>d. next \<notin> set (requeue s prev Q d)"
    "tstate (tasks s1 next) = TASK_STATE_READY" "home_cpu (tasks s1 next) = home_cpu (tasks s next)"
    "cpu_current (cpus s1 c) = cpu_current (cpus s c)" "timer_ticks s1 = timer_ticks s" by auto
qed

lemma switch_to_inv:
  fixes c :: nat and prev :: tptr
  assumes inv: "sched_inv s Q" and nx: "\<And>d. next \<notin> set (Q d)" "tstate (tasks s next) = TASK_STATE_READY"
  defines "s' \<equiv> switch_to c prev next s"
  shows "sched_inv s' (requeue s prev Q)" and "cpu_current (cpus s' c) = next"
    and "d \<noteq> c \<Longrightarrow> cpu_current (cpus s' d) = cpu_current (cpus s d)"
    and "tstate (tasks s' next) = TASK_STATE_RUNNING" and "time_slice (tasks s' next) = DEFAULT_TIME_SLICE"
    and "home_cpu (tasks s' next) = home_cpu (tasks s next)"
proof -
  define s1 where "s1 = (if prev \<noteq> NULL \<and> tstate (tasks s prev) = TASK_STATE_RUNNING
      then rq_enqueue (home_cpu (tasks s prev)) prev (upd_task prev (\<lambda>k. k\<lparr>tstate := TASK_STATE_READY\<rparr>) s) else s)"
  note r = requeue_step [OF inv nx, of prev, folded s1_def]
  define s2 where "s2 = upd_task next (\<lambda>k. k\<lparr>tstate := TASK_STATE_RUNNING, time_slice := DEFAULT_TIME_SLICE\<rparr>) s1"
  have ns: "next \<notin> set (sleepq (cpus s1 d))" for d using awake_not_sleeping [OF r(1)] r(3) by simp
  have i2: "sched_inv s2 (requeue s prev Q)"
    using r(1,2) ns unfolding sched_inv_def s2_def by (auto intro: upd_task_runqs upd_task_sleepers)
  define s3 where "s3 = upd_cpu c (\<lambda>l. l\<lparr>cpu_current := next, kernel_rsp := kstack_top (tasks s2 next),
      tss_rsp0 := map_option (\<lambda>_. kstack_top (tasks s2 next)) (tss_rsp0 l)\<rparr>) s2"
  have "s' = (if prev \<noteq> NULL \<and> tstate (tasks s3 prev) = TASK_STATE_ZOMBIE \<and> tparent (tasks s3 prev) = NULL
      then upd_cpu c (\<lambda>l. l\<lparr>pending_reap := prev\<rparr>) s3 else s3)"
    unfolding s'_def switch_to_def Let_def s3_def s2_def s1_def by (rule refl)
  then have p: "s' = s3 \<or> s' = upd_cpu c (\<lambda>l. l\<lparr>pending_reap := prev\<rparr>) s3" by (auto split: if_splits)
  then have s': "tasks s' = tasks s2" "rq (cpus s' d) = rq (cpus s2 d)" "sleepq (cpus s' d) = sleepq (cpus s2 d)"
    "cpu_current (cpus s' d) = (if d = c then next else cpu_current (cpus s2 d))" for d
    by (auto simp: s3_def)
  show "sched_inv s' (requeue s prev Q)"
    using i2 unfolding sched_inv_def
    by (auto intro!: runqs_frame [of s2 "requeue s prev Q"] sleepers_frame [of s2] simp: s')
  show "cpu_current (cpus s' c) = next" "tstate (tasks s' next) = TASK_STATE_RUNNING"
    "time_slice (tasks s' next) = DEFAULT_TIME_SLICE" by (simp_all add: s' s2_def)
  show "home_cpu (tasks s' next) = home_cpu (tasks s next)" using r(4) by (simp add: s' s2_def)
  show "d \<noteq> c \<Longrightarrow> cpu_current (cpus s' d) = cpu_current (cpus s d)"
    using requeue_step(5) [OF inv nx, of prev d, folded s1_def] by (simp add: s' s2_def)
qed

text \<open>
  What \<^verbatim>\<open>schedule\<close> does: with an empty queue nothing moves; otherwise the head of this CPU's
  queue becomes current and the previous task, if still running, goes to the tail.
\<close>

lemma schedule_empty:
  assumes inv: "sched_inv s Q" and Q: "Q c = []"
  obtains s' where "schedule c s = (if cpu_current (cpus s c) \<noteq> NULL \<and>
      tstate (tasks s (cpu_current (cpus s c))) \<noteq> TASK_STATE_RUNNING then Halted else Kept, s')"
    "sched_inv s' Q" "\<And>d. cpu_current (cpus s' d) = cpu_current (cpus s d)"
    "\<And>t. tstate (tasks s' t) = tstate (tasks s t)" "\<And>t. time_slice (tasks s' t) = time_slice (tasks s t)"
proof -
  let ?s = "drain_pending_reap c s"
  have i: "sched_inv ?s Q" by (rule drain_pending_reap_inv [OF inv])
  have "rq_dequeue c ?s = (NULL, ?s)" using i Q by (intro rq_dequeue_empty [of _ Q]) (simp_all add: sched_inv_def)
  then have "schedule c s = (if cpu_current (cpus s c) \<noteq> NULL \<and>
      tstate (tasks s (cpu_current (cpus s c))) \<noteq> TASK_STATE_RUNNING then Halted else Kept, ?s)"
    by (simp add: schedule_def Let_def drain_pending_reap_frame)
  then show ?thesis by (rule that) (simp_all add: i drain_pending_reap_frame)
qed

lemma schedule_next:
  assumes inv: "sched_inv s Q" and Q: "Q c = t # ts"
  obtains s' where "schedule c s = (Switched, s')"
    "sched_inv s' (requeue s (cpu_current (cpus s c)) (Q(c := ts)))" "cpu_current (cpus s' c) = t"
    "tstate (tasks s' t) = TASK_STATE_RUNNING" "time_slice (tasks s' t) = DEFAULT_TIME_SLICE"
    "home_cpu (tasks s' t) = c" "\<And>d. d \<noteq> c \<Longrightarrow> cpu_current (cpus s' d) = cpu_current (cpus s d)"
proof -
  let ?s = "drain_pending_reap c s" and ?prev = "cpu_current (cpus s c)"
  have i: "sched_inv ?s Q" by (rule drain_pending_reap_inv [OF inv])
  then have r: "runqs ?s Q" by (simp add: sched_inv_def)
  obtain s1 where s1: "rq_dequeue c ?s = (t, s1)" "runqs s1 (Q(c := ts))" "same_sched ?s s1"
    by (rule rq_dequeue_runqs [OF r Q])
  have i1: "sched_inv s1 (Q(c := ts))"
    using s1(2) sleepers_same_sched [OF _ s1(3)] i by (simp add: sched_inv_def)
  have tQ: "t \<in> set (Q c)" using Q by simp
  have t0: "t \<noteq> NULL" by (rule runqsD(5) [OF r tQ])
  have tn: "t \<notin> set ((Q(c := ts)) d)" for d using runqsD(4) [OF r tQ, of d] runqsD(6) [OF r, of c] Q by auto
  have tst: "tstate (tasks s1 t) = TASK_STATE_READY" "home_cpu (tasks s1 t) = c"
    using runqsD(2,3) [OF r tQ] same_schedD(2,3) [OF s1(3)] by simp_all
  have "schedule c s = (Switched, switch_to c ?prev t s1)"
    using s1(1) t0 by (simp add: schedule_def Let_def drain_pending_reap_frame)
  moreover have rq: "requeue s1 ?prev (Q(c := ts)) = requeue s ?prev (Q(c := ts))"
    using same_schedD(2,3) [OF s1(3)] by (simp add: requeue_def drain_pending_reap_frame)
  moreover have cu: "cpu_current (cpus s1 d) = cpu_current (cpus s d)" for d
    using same_schedD(10) [OF s1(3)] by (simp add: drain_pending_reap_frame)
  ultimately show ?thesis
    using switch_to_inv [OF i1 tn tst(1), where c = c and prev = ?prev] tst(2)
    by (intro that [of "switch_to c ?prev t s1"]) (simp_all only: rq cu)
qed

text \<open>A caller that has parked itself is left alone, and so is every task off this CPU's queue.\<close>

lemma schedule_frame:
  assumes inv: "sched_inv s Q" and p: "tstate (tasks s (cpu_current (cpus s c))) \<noteq> TASK_STATE_RUNNING"
    and x: "x \<notin> set (Q c)" and e: "schedule c s = (r, s')"
  shows "tnext (tasks s' x) = tnext (tasks s x)" "tprev (tasks s' x) = tprev (tasks s x)"
    "tstate (tasks s' x) = tstate (tasks s x)" "home_cpu (tasks s' x) = home_cpu (tasks s x)"
    "sleepq (cpus s' d) = sleepq (cpus s d)"
proof -
  let ?s = "drain_pending_reap c s" and ?p = "cpu_current (cpus s c)"
  have r: "runqs ?s Q" using drain_pending_reap_inv [OF inv] by (simp add: sched_inv_def)
  obtain t h q where d: "rq_dequeue_locked (tasks ?s, rq (cpus ?s c)) = (t, h, q)" by (metis prod_cases3)
  let ?s1 = "upd_cpu c (\<lambda>l. l\<lparr>rq := q\<rparr>) (?s\<lparr>tasks := h\<rparr>)"
  have dq: "rq_dequeue c ?s = (t, ?s1)" using d by (simp add: rq_dequeue_def)
  have hx: "h x = tasks ?s x \<and> (t \<noteq> NULL \<longrightarrow> t \<noteq> x) \<and> tstate (h ?p) = tstate (tasks s ?p)"
  proof (cases "Q c")
    case Nil
    then have "(t, ?s1) = (NULL, ?s)" using rq_dequeue_empty [OF r Nil] dq by simp
    then have "t = NULL" "tasks ?s1 = tasks ?s" by simp_all
    then show ?thesis by (simp add: drain_pending_reap_frame)
  next
    case (Cons y ys)
    note rep = runqsD(1) [OF r, of c, unfolded Cons]
    have "t = y" using runq.pop_rep [OF rep d] by simp
    moreover have "h x = tasks ?s x" using runq.pop_frame [OF rep d, of x] x Cons by simp
    moreover have "tstate (h ?p) = tstate (tasks ?s ?p)" using runq.pop_frame [OF rep d, of ?p] same_but_linksD(2) by blast
    ultimately show ?thesis using x Cons by (auto simp: drain_pending_reap_frame)
  qed
  have s': "s' = (if t = NULL then ?s1 else switch_to c ?p t ?s1)"
    using e dq by (simp add: schedule_def Let_def drain_pending_reap_frame split: if_splits)
  show "tnext (tasks s' x) = tnext (tasks s x)" "tprev (tasks s' x) = tprev (tasks s x)"
    "tstate (tasks s' x) = tstate (tasks s x)" "home_cpu (tasks s' x) = home_cpu (tasks s x)"
    "sleepq (cpus s' d) = sleepq (cpus s d)"
    using hx p unfolding s' by (cases "t = NULL"; cases "x = t"; simp add: switch_to_def Let_def drain_pending_reap_frame)+
qed

section \<open>Waking sleepers\<close>

definition enqueue_home :: "sched \<Rightarrow> tptr \<Rightarrow> (nat \<Rightarrow> tptr list) \<Rightarrow> (nat \<Rightarrow> tptr list)" where
  "enqueue_home s t Q = Q(home_cpu (tasks s t) := Q (home_cpu (tasks s t)) @ [t])"

definition set_sleepq :: "nat \<Rightarrow> tptr list \<Rightarrow> sched \<Rightarrow> sched" where
  "set_sleepq c ts s = upd_cpu c (\<lambda>l. l\<lparr>sleepq := ts\<rparr>) s"

lemma set_sleepq_simps [simp]:
  "tasks (set_sleepq c ts s) = tasks s" "sleepq (cpus (set_sleepq c ts s) d) = (if d = c then ts else sleepq (cpus s d))"
  "rq (cpus (set_sleepq c ts s) d) = rq (cpus s d)" "cpu_current (cpus (set_sleepq c ts s) d) = cpu_current (cpus s d)"
  by (simp_all add: set_sleepq_def)

text \<open>One turn of the loop: the head of the sleep queue becomes ready on its home queue.\<close>

lemma wake_one:
  assumes r: "runqs s Q" and l: "sleepers (set_sleepq c (t # ts) s)"
  defines "s1 \<equiv> rq_enqueue_external t (upd_task t (\<lambda>k. k\<lparr>sleep_deadline := 0, tstate := TASK_STATE_READY\<rparr>) s)"
  shows "runqs s1 (enqueue_home s t Q)" and "sleepers (set_sleepq c ts s1)"
    and "x \<noteq> t \<Longrightarrow> same_but_links (tasks s x) (tasks s1 x)" and "tstate (tasks s1 t) = TASK_STATE_READY"
    and "home_cpu (tasks s1 x) = home_cpu (tasks s x)"
    and "cpu_current (cpus s1 d) = cpu_current (cpus s d)" and "timer_ticks s1 = timer_ticks s"
proof -
  let ?s0 = "upd_task t (\<lambda>k. k\<lparr>sleep_deadline := 0, tstate := TASK_STATE_READY\<rparr>) s"
  have t: "t \<noteq> NULL" "tstate (tasks s t) = TASK_STATE_BLOCKED" "t \<notin> set ts" "distinct ts"
    "\<And>d. d \<noteq> c \<Longrightarrow> t \<notin> set (sleepq (cpus s d))"
    using l by (auto simp: sleepers_def split: if_splits)
  have nq: "t \<notin> set (Q d)" for d using runqsD(2) [OF r] t(2) by fastforce
  have r0: "runqs ?s0 Q" by (rule upd_task_runqs [OF r nq])
  have e: "runqs s1 (enqueue_home s t Q)" "same_sched ?s0 s1"
    using rq_enqueue_runqs [OF r0 t(1) nq, of "home_cpu (tasks s t)"]
    by (simp_all add: s1_def rq_enqueue_external_def enqueue_home_def)
  note f = same_schedD [OF e(2)]
  show "runqs s1 (enqueue_home s t Q)" by (rule e)
  show "sleepers (set_sleepq c ts s1)"
    using l t f(2,11) by (auto simp: sleepers_def split: if_splits)
  show "x \<noteq> t \<Longrightarrow> same_but_links (tasks s x) (tasks s1 x)" using f(1) [of x] by simp
  show "tstate (tasks s1 t) = TASK_STATE_READY" "home_cpu (tasks s1 x) = home_cpu (tasks s x)"
    "cpu_current (cpus s1 d) = cpu_current (cpus s d)" "timer_ticks s1 = timer_ticks s"
    using f(2) [of t] f(3) [of x] f(10) [of d] f(13) by (auto split: if_splits)
qed

lemma wake_loop_inv:
  fixes now :: u64
  assumes "runqs s Q" and "sleepers (set_sleepq c ts s)"
  defines "ws \<equiv> takeWhile (\<lambda>t. sleep_deadline (tasks s t) \<le> now) ts" and "s' \<equiv> wake_loop c now ts s"
  shows "\<exists>Q'. sched_inv s' Q' \<and> (\<forall>d. \<exists>ys. Q' d = Q d @ ys) \<and>
    (\<forall>t\<in>set ws. t \<in> set (Q' (home_cpu (tasks s t)))) \<and>
    sleepq (cpus s' c) = drop (length ws) ts \<and> (\<forall>d. cpu_current (cpus s' d) = cpu_current (cpus s d)) \<and>
    (\<forall>x. x \<notin> set ws \<longrightarrow> same_but_links (tasks s x) (tasks s' x)) \<and>
    (\<forall>x\<in>set ws. tstate (tasks s' x) = TASK_STATE_READY)"
  unfolding ws_def s'_def using assms(1,2)
proof (induction ts arbitrary: s Q)
  case Nil
  then show ?case
    by (intro exI [of _ Q]) (auto simp: sched_inv_def set_sleepq_def [symmetric] intro: runqs_frame [of s Q])
next
  case (Cons t ts)
  show ?case
  proof (cases "sleep_deadline (tasks s t) \<le> now")
    case False
    then show ?thesis using Cons.prems
      by (intro exI [of _ Q]) (auto simp: sched_inv_def set_sleepq_def [symmetric] intro: runqs_frame [of s Q])
  next
    case True
    define s1 where "s1 = rq_enqueue_external t (upd_task t (\<lambda>k. k\<lparr>sleep_deadline := 0, tstate := TASK_STATE_READY\<rparr>) s)"
    note w = wake_one [OF Cons.prems, folded s1_def]
    have tn: "t \<notin> set ts" using Cons.prems(2) by (auto simp: sleepers_def split: if_splits)
    let ?ws = "takeWhile (\<lambda>x. sleep_deadline (tasks s x) \<le> now) ts"
    have eq: "takeWhile (\<lambda>x. sleep_deadline (tasks s1 x) \<le> now) ts = ?ws"
      using w(3) tn same_but_linksD(10) by (intro takeWhile_cong) (auto, metis+)
    have step: "wake_loop c now (t # ts) s = wake_loop c now ts s1" using True by (simp add: s1_def)
    from Cons.IH [OF w(1,2), unfolded eq] obtain Q' where Q': "sched_inv (wake_loop c now ts s1) Q'"
      "\<forall>d. \<exists>ys. Q' d = enqueue_home s t Q d @ ys" "\<forall>x\<in>set ?ws. x \<in> set (Q' (home_cpu (tasks s1 x)))"
      "sleepq (cpus (wake_loop c now ts s1) c) = drop (length ?ws) ts"
      "\<forall>d. cpu_current (cpus (wake_loop c now ts s1) d) = cpu_current (cpus s1 d)"
      "\<forall>x. x \<notin> set ?ws \<longrightarrow> same_but_links (tasks s1 x) (tasks (wake_loop c now ts s1) x)"
      "\<forall>x\<in>set ?ws. tstate (tasks (wake_loop c now ts s1) x) = TASK_STATE_READY" by blast
    have pre: "\<exists>ys. Q' d = Q d @ ys" for d
    proof -
      obtain ys where "Q' d = enqueue_home s t Q d @ ys" using Q'(2) by blast
      then show ?thesis by (cases "d = home_cpu (tasks s t)") (auto simp: enqueue_home_def)
    qed
    have tQ: "t \<in> set (Q' (home_cpu (tasks s t)))"
    proof -
      obtain ys where "Q' (home_cpu (tasks s t)) = enqueue_home s t Q (home_cpu (tasks s t)) @ ys" using Q'(2) by blast
      then show ?thesis by (simp add: enqueue_home_def)
    qed
    have "t \<notin> set ?ws" using tn by (meson set_takeWhileD)
    then have tR: "tstate (tasks (wake_loop c now ts s1) t) = TASK_STATE_READY"
      using same_but_linksD(2) [of "tasks s1 t"] Q'(6) w(4) by simp
    have fr: "same_but_links (tasks s x) (tasks (wake_loop c now ts s1) x)" if "x \<notin> set (t # ?ws)" for x
      using same_but_links_trans [OF w(3) [of x]] Q'(6) that by simp
    have ws: "takeWhile (\<lambda>x. sleep_deadline (tasks s x) \<le> now) (t # ts) = t # ?ws" using True by simp
    show ?thesis unfolding step ws
      using Q'(1,3,4,5,7) pre tQ tR fr w(5,6) by (intro exI [of _ Q'] conjI) simp_all
  qed
qed

lemma sleep_queue_wake_expired_inv:
  fixes c :: nat
  assumes inv: "sched_inv s Q"
  defines "ws \<equiv> takeWhile (\<lambda>t. sleep_deadline (tasks s t) \<le> timer_ticks s c) (sleepq (cpus s c))"
    and "s' \<equiv> sleep_queue_wake_expired c s"
  shows "\<exists>Q'. sched_inv s' Q' \<and> (\<forall>d. \<exists>ys. Q' d = Q d @ ys) \<and>
    (\<forall>t\<in>set ws. t \<in> set (Q' (home_cpu (tasks s t)))) \<and>
    sleepq (cpus s' c) = drop (length ws) (sleepq (cpus s c)) \<and>
    (\<forall>d. cpu_current (cpus s' d) = cpu_current (cpus s d)) \<and>
    (\<forall>x. x \<notin> set ws \<longrightarrow> same_but_links (tasks s x) (tasks s' x)) \<and>
    (\<forall>x\<in>set ws. tstate (tasks s' x) = TASK_STATE_READY)"
proof -
  have "sleepers (set_sleepq c (sleepq (cpus s c)) s)"
    using inv unfolding sched_inv_def by (auto intro: sleepers_frame [of s])
  then show ?thesis
    using wake_loop_inv [of s Q c "sleepq (cpus s c)" "timer_ticks s c"] inv
    unfolding ws_def s'_def sleep_queue_wake_expired_def sched_inv_def by blast
qed

end
