(* ===== verification/Scheduler_Props.thy ===== *)
theory Scheduler_Props
  imports Scheduler_Inv
begin

text \<open>
  Boot, task creation, round-robin scheduling, the bound on waiting for the CPU, and exact
  wake-up of sleepers.
\<close>

section \<open>Boot and task creation\<close>

lemma SchedulerInit_inv:
  assumes "\<And>c. c \<ge> MAX_CPUS \<Longrightarrow> rq (cpus s c) = rq_init \<and> sleepq (cpus s c) = []"
  shows "sched_inv (SchedulerInit s) (\<lambda>_. [])"
  using assms by (auto simp: sched_inv_def runqs_def sleepers_def SchedulerInit_def empty_queue_def rq_init_def not_less [symmetric])

lemma sched_inv_new_task:
  assumes "sched_inv s Q" and "\<And>d. t \<notin> set (Q d)" "\<And>d. t \<notin> set (sleepq (cpus s d))"
    and "tasks s' = (tasks s)(t := k)" and "\<And>d. rq (cpus s' d) = rq (cpus s d)" "\<And>d. sleepq (cpus s' d) = sleepq (cpus s d)"
  shows "sched_inv s' Q"
  using assms(1) unfolding sched_inv_def
  by (auto intro!: runqs_frame [of s Q s'] sleepers_frame [of s s'] simp: assms(2-6) split: if_splits)

lemma scheduler_attach_bootstrap_inv:
  fixes c :: nat and name :: "u8 list option"
  assumes "sched_inv s Q" and "\<And>d. t \<notin> set (Q d)" "\<And>d. t \<notin> set (sleepq (cpus s d))"
  defines "s' \<equiv> scheduler_attach_bootstrap c t name s"
  shows "sched_inv s' Q" and "cpu_current (cpus s' c) = t" and "tstate (tasks s' t) = TASK_STATE_RUNNING"
    and "home_cpu (tasks s' t) = c" and "time_slice (tasks s' t) = DEFAULT_TIME_SLICE"
proof -
  show "sched_inv s' Q"
    by (rule sched_inv_new_task [OF assms(1-3)])
      (simp_all add: s'_def scheduler_attach_bootstrap_def tasks_list_add_def Let_def)
qed (simp_all add: s'_def scheduler_attach_bootstrap_def tasks_list_add_def Let_def)

lemma alloc_blank_task_simps:
  "x \<noteq> t \<Longrightarrow> tasks (alloc_blank_task t b n s) x = tasks s x"
  "cpus (alloc_blank_task t b n s) = cpus s" "tstate (tasks (alloc_blank_task t b n s) t) = TASK_STATE_READY"
  "home_cpu (tasks (alloc_blank_task t b n s) t) =
     unat (ucast (next_assign_cpu s mod (if cpus_active s \<noteq> 0 then cpus_active s else 1)) :: u32)"
  "timer_ticks (alloc_blank_task t b n s) = timer_ticks s"
  by (simp_all add: alloc_blank_task_def tasks_list_add_def Let_def)

lemma alloc_blank_task_inv:
  assumes "sched_inv s Q" and "\<And>d. t \<notin> set (Q d)" "\<And>d. t \<notin> set (sleepq (cpus s d))"
  shows "sched_inv (alloc_blank_task t b n s) Q"
  by (rule sched_inv_new_task [OF assms, where k = "tasks (alloc_blank_task t b n s) t"])
    (simp_all add: alloc_blank_task_simps fun_eq_iff)

lemma create_kernel_task_inv:
  fixes tramp entry b :: u64 and n :: "u8 list option"
  assumes inv: "sched_inv s Q" and t: "t \<noteq> NULL" "\<And>d. t \<notin> set (Q d)" "\<And>d. t \<notin> set (sleepq (cpus s d))"
  defines "s' \<equiv> create_kernel_task tramp entry t b n s" and "c \<equiv> home_cpu (tasks (alloc_blank_task t b n s) t)"
  shows "sched_inv s' (Q(c := Q c @ [t]))" and "cpu_current (cpus s' d) = cpu_current (cpus s d)"
    and "x \<noteq> t \<Longrightarrow> same_but_links (tasks s x) (tasks s' x)" and "sleepq (cpus s' d) = sleepq (cpus s d)"
    and "timer_ticks s' = timer_ticks s"
proof -
  let ?s1 = "alloc_blank_task t b n s"
  define s2 where "s2 = upd_task t (\<lambda>k. k\<lparr>kframe := [0, 0, 0, entry, 0, 0, tramp],
      saved_rsp := kstack_top k - 8 * of_nat (length [0, 0, 0, entry, 0, 0, tramp])\<rparr>) ?s1"
  have i1: "sched_inv ?s1 Q" by (rule alloc_blank_task_inv [OF inv t(2,3)])
  have i2: "sched_inv s2 Q"
    using i1 t(2,3) unfolding sched_inv_def s2_def
    by (intro conjI upd_task_runqs upd_task_sleepers) (simp_all add: alloc_blank_task_simps)
  have s': "s' = rq_enqueue c t s2"
    by (simp add: s'_def create_kernel_task_def Let_def s2_def c_def)
  have st: "tstate (tasks s2 t) = TASK_STATE_READY" "home_cpu (tasks s2 t) = c"
    by (simp_all add: s2_def c_def alloc_blank_task_simps)
  have e: "runqs s' (Q(c := Q c @ [t]))" "same_sched s2 s'"
    using rq_enqueue_runqs [of s2 Q t c] i2 t st unfolding sched_inv_def s' by blast+
  show "sched_inv s' (Q(c := Q c @ [t]))"
    using e(1) i2 sleepers_same_sched [OF _ e(2)] by (simp add: sched_inv_def)
  note f = same_schedD [OF e(2)]
  show "cpu_current (cpus s' d) = cpu_current (cpus s d)" "sleepq (cpus s' d) = sleepq (cpus s d)"
    "timer_ticks s' = timer_ticks s"
    using f(10) [of d] f(11) [of d] f(13) by (simp_all add: s2_def alloc_blank_task_simps)
  show "x \<noteq> t \<Longrightarrow> same_but_links (tasks s x) (tasks s' x)"
    using f(1) [of x] by (simp add: s2_def alloc_blank_task_simps(1))
qed

section \<open>One timer tick\<close>

definition running_on :: "nat \<Rightarrow> sched \<Rightarrow> tptr \<Rightarrow> bool" where
  "running_on c s p \<longleftrightarrow> p \<noteq> NULL \<and> cpu_current (cpus s c) = p \<and> tstate (tasks s p) = TASK_STATE_RUNNING \<and>
     home_cpu (tasks s p) = c"

lemma tick_woken:
  assumes inv: "sched_inv s Q" and p: "running_on c s p"
  obtains s1 Q1 ys where "sleep_queue_wake_expired c (s\<lparr>timer_ticks := (timer_ticks s)(c := timer_ticks s c + 1)\<rparr>) = s1"
    "sched_inv s1 Q1" "Q1 c = Q c @ ys" "running_on c s1 p" "time_slice (tasks s1 p) = time_slice (tasks s p)"
proof -
  let ?s = "s\<lparr>timer_ticks := (timer_ticks s)(c := timer_ticks s c + 1)\<rparr>"
  have i: "sched_inv ?s Q" using inv by (simp add: sched_inv_def runqs_def sleepers_def)
  let ?s1 = "sleep_queue_wake_expired c ?s"
  define ws where "ws = takeWhile (\<lambda>t. sleep_deadline (tasks ?s t) \<le> timer_ticks ?s c) (sleepq (cpus ?s c))"
  have ws: "set ws \<subseteq> set (sleepq (cpus ?s c))" unfolding ws_def by (auto dest: set_takeWhileD)
  obtain Q1 where Q1: "sched_inv ?s1 Q1" "\<forall>d. \<exists>ys. Q1 d = Q d @ ys"
    "\<forall>d. cpu_current (cpus ?s1 d) = cpu_current (cpus ?s d)"
    "\<forall>x. x \<notin> set ws \<longrightarrow> same_but_links (tasks ?s x) (tasks ?s1 x)"
    using sleep_queue_wake_expired_inv [OF i, of c, folded ws_def] by (elim exE conjE) (rule that)
  have "p \<notin> set ws" using ws awake_not_sleeping [OF i, of p c] p by (auto simp: running_on_def)
  then have same: "same_but_links (tasks s p) (tasks ?s1 p)" using Q1(4) by simp
  obtain ys where ys: "Q1 c = Q c @ ys" using Q1(2) by blast
  have "running_on c ?s1 p" "time_slice (tasks ?s1 p) = time_slice (tasks s p)"
    using same_but_linksD [OF same] Q1(3) p by (simp_all add: running_on_def)
  then show ?thesis by (rule that [OF refl Q1(1) ys])
qed

lemma slice_step:
  fixes v :: u64
  assumes inv: "sched_inv s Q" and p: "running_on c s p"
  defines "s' \<equiv> upd_task p (\<lambda>k. k\<lparr>time_slice := v\<rparr>) s"
  shows "sched_inv s' Q" and "running_on c s' p" and "time_slice (tasks s' p) = v"
proof -
  have "\<And>d. p \<notin> set (Q d)" "\<And>d. p \<notin> set (sleepq (cpus s d))"
    using running_not_queued [OF inv] awake_not_sleeping [OF inv] p by (auto simp: running_on_def)
  then show "sched_inv s' Q"
    using inv unfolding sched_inv_def s'_def by (auto intro: upd_task_runqs upd_task_sleepers)
qed (use p in \<open>simp_all add: s'_def running_on_def\<close>)

lemma tick_keeps:
  assumes inv: "sched_inv s Q" and p: "running_on c s p" and k: "unat (time_slice (tasks s p)) = Suc (Suc k)"
  obtains Q' ys where "sched_inv (TimerHandler c s) Q'" "Q' c = Q c @ ys" "running_on c (TimerHandler c s) p"
    "unat (time_slice (tasks (TimerHandler c s) p)) = Suc k"
proof -
  obtain s1 Q1 ys where w: "sleep_queue_wake_expired c (s\<lparr>timer_ticks := (timer_ticks s)(c := timer_ticks s c + 1)\<rparr>) = s1"
    "sched_inv s1 Q1" "Q1 c = Q c @ ys" "running_on c s1 p" "time_slice (tasks s1 p) = time_slice (tasks s p)"
    by (rule tick_woken [OF inv p])
  let ?v = "time_slice (tasks s1 p)"
  note sl = slice_step [OF w(2,4), of "?v - 1"]
  have v0: "?v \<noteq> 0" using k w(5) by auto
  then have v: "?v \<noteq> 0" "unat (?v - 1) = Suc k" using k w(5) unat_minus_one [OF v0] by simp_all
  then have "?v - 1 \<noteq> 0" by auto
  then have "TimerHandler c s = upd_task p (\<lambda>k. k\<lparr>time_slice := ?v - 1\<rparr>) s1"
    using w(1,4) v by (auto simp: TimerHandler_def scheduler_tick_def Let_def running_on_def upd_task_def word_gt_0)
  then show ?thesis using that [of Q1 ys] sl w(3) v by simp
qed

lemma tick_switches:
  assumes inv: "sched_inv s Q" and p: "running_on c s p" and k: "unat (time_slice (tasks s p)) \<le> 1" and Q: "Q c = x # xs"
  obtains Q' ys where "sched_inv (TimerHandler c s) Q'" "Q' c = xs @ ys" "running_on c (TimerHandler c s) x"
    "unat (time_slice (tasks (TimerHandler c s) x)) = 20"
proof -
  obtain s1 Q1 ys where w: "sleep_queue_wake_expired c (s\<lparr>timer_ticks := (timer_ticks s)(c := timer_ticks s c + 1)\<rparr>) = s1"
    "sched_inv s1 Q1" "Q1 c = Q c @ ys" "running_on c s1 p" "time_slice (tasks s1 p) = time_slice (tasks s p)"
    by (rule tick_woken [OF inv p])
  let ?v = "time_slice (tasks s1 p)"
  define s2 where "s2 = (if ?v > 0 then upd_task p (\<lambda>k. k\<lparr>time_slice := ?v - 1\<rparr>) s1 else s1)"
  have i2: "sched_inv s2 Q1" "running_on c s2 p" using slice_step [OF w(2,4), of "?v - 1"] w(2,4) by (auto simp: s2_def)
  have z: "time_slice (tasks s2 p) = 0"
  proof (cases "?v = 0")
    case False
    then have "unat ?v = 1" using k w(5) by (metis One_nat_def le_SucE le_zero_eq unat_eq_zero)
    then have "?v = 1" by (metis unat_1 word_unat_eq_iff)
    then show ?thesis by (simp add: s2_def)
  qed (simp add: s2_def)
  have T: "TimerHandler c s = snd (schedule c s2)"
  proof -
    have "cpu_current (cpus s1 c) = p" "p \<noteq> NULL" using w(4) by (simp_all add: running_on_def)
    then have "scheduler_tick c (s\<lparr>timer_ticks := (timer_ticks s)(c := timer_ticks s c + 1)\<rparr>) =
        (if time_slice (tasks s2 p) = 0 then snd (schedule c s2) else s2)"
      using w(1) by (simp add: scheduler_tick_def Let_def s2_def upd_task_def)
    then show ?thesis using z by (simp add: TimerHandler_def)
  qed
  have Q1: "Q1 c = x # (xs @ ys)" using w(3) Q by simp
  obtain s' where s': "schedule c s2 = (Switched, s')"
    "sched_inv s' (requeue s2 (cpu_current (cpus s2 c)) (Q1(c := xs @ ys)))" "cpu_current (cpus s' c) = x"
    "tstate (tasks s' x) = TASK_STATE_RUNNING" "time_slice (tasks s' x) = DEFAULT_TIME_SLICE" "home_cpu (tasks s' x) = c"
    by (rule schedule_next [OF i2(1) Q1])
  have x0: "x \<noteq> NULL" using runqsD(5) [of s2 Q1 x c] i2(1) Q1 by (simp add: sched_inv_def)
  have "requeue s2 (cpu_current (cpus s2 c)) (Q1(c := xs @ ys)) c = xs @ ys @ [p]"
    using i2(2) by (simp add: requeue_def running_on_def)
  then show ?thesis
    using that [of "requeue s2 (cpu_current (cpus s2 c)) (Q1(c := xs @ ys))" "ys @ [p]"] s' x0
    by (simp add: T running_on_def DEFAULT_TIME_SLICE_def)
qed

lemma ticks_reach:
  assumes "sched_inv s Q" and "running_on c s p" and "unat (time_slice (tasks s p)) \<le> 20" and "i < length (Q c)"
  shows "\<exists>n \<le> 20 * i + max 1 (unat (time_slice (tasks s p))). cpu_current (cpus ((TimerHandler c ^^ n) s) c) = Q c ! i"
  using assms
proof (induction "21 * i + unat (time_slice (tasks s p))" arbitrary: i s Q p rule: less_induct)
  case less
  let ?k = "unat (time_slice (tasks s p))" and ?s = "TimerHandler c s"
  have step: "cpu_current (cpus ((TimerHandler c ^^ Suc n) s) c) = cpu_current (cpus ((TimerHandler c ^^ n) ?s) c)" for n
    by (simp only: funpow_Suc_right comp_apply)
  show ?case
  proof (cases "?k \<le> 1")
    case False
    then obtain k where k: "?k = Suc (Suc k)" by (metis One_nat_def Suc_le_mono le0 not_le old.nat.exhaust)
    obtain Q' ys where q: "sched_inv ?s Q'" "Q' c = Q c @ ys" "running_on c ?s p" "unat (time_slice (tasks ?s p)) = Suc k"
      by (rule tick_keeps [OF less.prems(1,2) k])
    have "21 * i + unat (time_slice (tasks ?s p)) < 21 * i + ?k" using q(4) k by simp
    from less.hyps [OF this q(1,3)] q(2,4) k less.prems(3,4) obtain n where
      "n \<le> 20 * i + max 1 (Suc k)" "cpu_current (cpus ((TimerHandler c ^^ n) ?s) c) = Q c ! i"
      by (auto simp: nth_append)
    then show ?thesis using step [of n] k by (intro exI [of _ "Suc n"]) auto
  next
    case True
    obtain x xs where Q: "Q c = x # xs" using less.prems(4) by (cases "Q c") auto
    obtain Q' ys where q: "sched_inv ?s Q'" "Q' c = xs @ ys" "running_on c ?s x" "unat (time_slice (tasks ?s x)) = 20"
      by (rule tick_switches [OF less.prems(1,2) True Q])
    show ?thesis
    proof (cases i)
      case 0
      then show ?thesis using step [of 0] q(3) Q by (intro exI [of _ "Suc 0"]) (auto simp: running_on_def)
    next
      case (Suc j)
      have "21 * j + unat (time_slice (tasks ?s x)) < 21 * i + ?k" using q(4) Suc by simp
      from less.hyps [OF this q(1,3)] q(2,4) Q Suc less.prems(4) obtain n where
        "n \<le> 20 * j + 20" "cpu_current (cpus ((TimerHandler c ^^ n) ?s) c) = Q c ! i"
        by (auto simp: nth_append)
      then show ?thesis using step [of n] Suc by (intro exI [of _ "Suc n"]) auto
    qed
  qed
qed

section \<open>Deadlines in order\<close>

definition sleep_sorted :: "nat \<Rightarrow> sched \<Rightarrow> bool" where
  "sleep_sorted c s \<longleftrightarrow> sorted (map (\<lambda>t. sleep_deadline (tasks s t)) (sleepq (cpus s c)))"

lemma set_sleep_insert: "set (sleep_insert h t xs) = insert t (set xs)"
  by (induction xs) auto

lemma sorted_sleep_insert:
  "sorted (map (\<lambda>x. sleep_deadline (h x)) xs) \<Longrightarrow> sorted (map (\<lambda>x. sleep_deadline (h x)) (sleep_insert h t xs))"
  by (induction xs) (auto simp: set_sleep_insert)

lemma sorted_takeWhile_filter:
  fixes f :: "'a \<Rightarrow> 'b::linorder"
  assumes "sorted (map f xs)"
  shows "takeWhile (\<lambda>x. f x \<le> k) xs = filter (\<lambda>x. f x \<le> k) xs"
    and "drop (length (takeWhile (\<lambda>x. f x \<le> k) xs)) xs = filter (\<lambda>x. k < f x) xs"
proof -
  have "takeWhile (\<lambda>x. f x \<le> k) xs = filter (\<lambda>x. f x \<le> k) xs \<and>
      drop (length (takeWhile (\<lambda>x. f x \<le> k) xs)) xs = filter (\<lambda>x. k < f x) xs"
    using assms
  proof (induction xs)
    case (Cons x xs)
    show ?case
    proof (cases "f x \<le> k")
      case False
      then have "k < f y" if "y \<in> set (x # xs)" for y using that Cons.prems by fastforce
      then show ?thesis using False by (auto simp: not_le [symmetric] filter_empty_conv intro!: filter_True [symmetric])
    qed (use Cons in auto)
  qed simp
  then show "takeWhile (\<lambda>x. f x \<le> k) xs = filter (\<lambda>x. f x \<le> k) xs"
    "drop (length (takeWhile (\<lambda>x. f x \<le> k) xs)) xs = filter (\<lambda>x. k < f x) xs" by auto
qed

text \<open>The part of \<^verbatim>\<open>sleep\<close> before it gives up the CPU keeps the invariant.\<close>

definition park_asleep :: "nat \<Rightarrow> tptr \<Rightarrow> u64 \<Rightarrow> sched \<Rightarrow> sched" where
  "park_asleep c p deadline s =
     upd_task p (\<lambda>k. k\<lparr>tstate := TASK_STATE_BLOCKED\<rparr>)
       (sleep_queue_insert c p (upd_task p (\<lambda>k. k\<lparr>sleep_deadline := deadline\<rparr>) s))"

lemma distinct_sleep_insert: "distinct xs \<Longrightarrow> t \<notin> set xs \<Longrightarrow> distinct (sleep_insert h t xs)"
  by (induction xs) (auto simp: set_sleep_insert)

lemma park_asleep_inv:
  assumes inv: "sched_inv s Q" and p: "running_on c s p"
  shows "sched_inv (park_asleep c p deadline s) Q"
proof -
  have nq: "p \<notin> set (Q d)" and ns: "p \<notin> set (sleepq (cpus s d))" for d
    using running_not_queued [OF inv] awake_not_sleeping [OF inv] p by (auto simp: running_on_def)
  have "runqs (park_asleep c p deadline s) Q"
    using inv nq unfolding sched_inv_def
    by (auto intro!: runqs_frame [of s Q] simp: park_asleep_def sleep_queue_insert_def split: if_splits)
  moreover have "sleepers (park_asleep c p deadline s)"
    using inv ns p unfolding sched_inv_def sleepers_def
    by (auto simp: park_asleep_def sleep_queue_insert_def set_sleep_insert distinct_sleep_insert running_on_def
      split: if_splits)
  ultimately show ?thesis by (simp add: sched_inv_def)
qed

lemma sleep_parks:
  "running_on c s p \<Longrightarrow> ms \<noteq> 0 \<Longrightarrow> sleep c ms s = schedule c (park_asleep c p (timer_ticks s c + ms) s)"
  by (simp add: sleep_def park_asleep_def running_on_def Let_def)

section \<open>A small system\<close>

text \<open>One CPU with its bootstrap task 1 and two kernel tasks, 2 and 3.\<close>

definition demo_cpu :: cpu_local where
  "demo_cpu = \<lparr>cpu_current = NULL, pending_reap = NULL, rq = rq_init, sleepq = [], kernel_rsp = 0,
     tss_rsp0 = Some 0, cpu_kstack_top = 0x8000\<rparr>"

definition demo_blank :: sched where
  "demo_blank = \<lparr>tasks = (\<lambda>_. zero_task), all_tasks = [], zombies = [], cpus = (\<lambda>_. demo_cpu), next_pid = 0,
     next_assign_cpu = 0, cpus_active = 1, timer_ticks = (\<lambda>_. 0), global_cr3 = 0x1000, vfs_root_dentry = 0, calls = []\<rparr>"

definition demo_boot1 :: sched where
  "demo_boot1 = scheduler_attach_bootstrap 0 1 None (SchedulerInit demo_blank)"

definition demo_sched :: sched where
  "demo_sched = create_kernel_task 0x40 0x60 3 0x20000 None (create_kernel_task 0x40 0x50 2 0x10000 None demo_boot1)"

definition demo_queues :: "nat \<Rightarrow> tptr list" where
  "demo_queues = (\<lambda>_. [])(0 := [2, 3])"

lemma demo_boot1_inv: "sched_inv demo_boot1 (\<lambda>_. [])" and demo_boot1_sleepq: "sleepq (cpus demo_boot1 d) = []"
proof -
  have "sched_inv (SchedulerInit demo_blank) (\<lambda>_. [])"
    by (rule SchedulerInit_inv) (simp_all add: demo_blank_def demo_cpu_def)
  then show "sched_inv demo_boot1 (\<lambda>_. [])"
    unfolding demo_boot1_def
    by (rule scheduler_attach_bootstrap_inv(1)) (simp_all add: SchedulerInit_def demo_blank_def demo_cpu_def)
qed (simp add: demo_boot1_def scheduler_attach_bootstrap_def SchedulerInit_def demo_blank_def demo_cpu_def
      tasks_list_add_def Let_def)

lemma demo_home: "home_cpu (tasks (alloc_blank_task t b n s) t) = 0" if "cpus_active s = 1"
  using that by (simp add: alloc_blank_task_simps)

lemma demo_inv: "sched_inv demo_sched demo_queues" and demo_sleepq: "sleepq (cpus demo_sched d) = []"
proof -
  let ?s2 = "create_kernel_task 0x40 0x50 2 0x10000 None demo_boot1"
  have a1: "cpus_active demo_boot1 = 1"
    by (simp add: demo_boot1_def scheduler_attach_bootstrap_def SchedulerInit_def demo_blank_def tasks_list_add_def
      Let_def upd_cpu_def)
  have a2: "cpus_active ?s2 = 1" using a1
    by (simp add: create_kernel_task_def rq_enqueue_def alloc_blank_task_def tasks_list_add_def Let_def upd_cpu_def upd_task_def
      split: prod.splits)
  note k2 = create_kernel_task_inv [OF demo_boot1_inv, where t = 2 and tramp = "0x40" and entry = "0x50" and b = "0x10000" and n = None,
    unfolded demo_home [OF a1]]
  have i2: "sched_inv ?s2 ((\<lambda>_. [])(0 := [2]))" using k2(1) by (simp add: demo_boot1_sleepq)
  have sl: "sleepq (cpus ?s2 d) = []" for d using k2(4) by (simp add: demo_boot1_sleepq)
  note k3 = create_kernel_task_inv [OF i2, where t = 3 and tramp = "0x40" and entry = "0x60" and b = "0x20000" and n = None,
    unfolded demo_home [OF a2]]
  show "sched_inv demo_sched demo_queues" using k3(1) by (simp add: demo_sched_def demo_queues_def sl)
  show "sleepq (cpus demo_sched d) = []" using k3(4) by (simp add: demo_sched_def sl)
qed

lemma demo_running: "running_on 0 demo_sched 1" and demo_slice: "unat (time_slice (tasks demo_sched 1)) = 20"
proof -
  have "cpu_current (cpus demo_sched 0) = 1 \<and> tstate (tasks demo_sched 1) = TASK_STATE_RUNNING \<and>
      home_cpu (tasks demo_sched 1) = 0 \<and> time_slice (tasks demo_sched 1) = 20" by code_simp
  then show "running_on 0 demo_sched 1" "unat (time_slice (tasks demo_sched 1)) = 20" by (simp_all add: running_on_def)
qed

section \<open>What schedule leaves alone\<close>

text \<open>What a switch changes besides the links and the queues.\<close>

definition switched :: "nat \<Rightarrow> tptr \<Rightarrow> tptr \<Rightarrow> sched \<Rightarrow> sched" where
  "switched c prev t s =
     s\<lparr>tasks := (if prev \<noteq> NULL \<and> tstate (tasks s prev) = TASK_STATE_RUNNING
                then (tasks s)(prev := (tasks s prev)\<lparr>tstate := TASK_STATE_READY\<rparr>) else tasks s)
               (t := (tasks s t)\<lparr>tstate := TASK_STATE_RUNNING, time_slice := DEFAULT_TIME_SLICE\<rparr>),
       cpus := (cpus s)(c := (cpus s c)\<lparr>cpu_current := t, kernel_rsp := kstack_top (tasks s t),
                 tss_rsp0 := map_option (\<lambda>_. kstack_top (tasks s t)) (tss_rsp0 (cpus s c)),
                 pending_reap := (if prev \<noteq> NULL \<and> tstate (tasks s prev) = TASK_STATE_ZOMBIE \<and> tparent (tasks s prev) = NULL
                                  then prev else pending_reap (cpus s c))\<rparr>)\<rparr>"

text \<open>What freeing the task that died last on this CPU changes: that task, and the list of all tasks.\<close>

definition reaps :: "nat \<Rightarrow> sched \<Rightarrow> sched \<Rightarrow> bool" where
  "reaps c s s' \<longleftrightarrow>
     (let dead = pending_reap (cpus s c) in
      (dead = NULL \<longrightarrow> s' = s) \<and> (\<forall>x. x \<noteq> dead \<longrightarrow> tasks s' x = tasks s x) \<and>
      cpus s' = (cpus s)(c := (cpus s c)\<lparr>pending_reap := NULL\<rparr>) \<and>
      (all_tasks s' = all_tasks s \<or> all_tasks s' = remove1 dead (all_tasks s)) \<and>
      s'\<lparr>tasks := tasks s, cpus := cpus s, all_tasks := all_tasks s, calls := calls s\<rparr> = s)"

lemma drain_pending_reap_reaps: "reaps c s (drain_pending_reap c s)"
  by (auto simp: reaps_def drain_pending_reap_def free_dead_task_def tasks_list_remove_def Let_def upd_task_def upd_cpu_def)

lemma same_but_links_fields:
  "same_but_links k k' \<Longrightarrow> same_but_links (k\<lparr>tstate := v\<rparr>) (k'\<lparr>tstate := v\<rparr>)"
  "same_but_links k k' \<Longrightarrow> same_but_links (k\<lparr>tstate := v, time_slice := w\<rparr>) (k'\<lparr>tstate := v, time_slice := w\<rparr>)"
  "same_but_links k k' \<Longrightarrow> kstack_top k' = kstack_top k"
  by (cases k; cases k'; simp add: same_but_links_def)+

lemma same_sched_trans: "same_sched s s' \<Longrightarrow> same_sched s' s'' \<Longrightarrow> same_sched s s''"
  unfolding same_sched_def by (cases s; cases s'; cases s'') (auto intro: same_but_links_trans)

lemma same_sched_upd:
  assumes "same_sched s s'" and "\<And>k k'. same_but_links k k' \<Longrightarrow> same_but_links (f k) (f k')"
  shows "same_sched (upd_task t f s) (upd_task t f s')"
  using assms unfolding same_sched_def upd_task_def by (cases s; cases s') auto

lemma same_sched_cpu:
  assumes "same_sched s s'" and "\<And>l q. (f l)\<lparr>rq := q\<rparr> = f (l\<lparr>rq := q\<rparr>)"
  shows "same_sched (upd_cpu c f s) (upd_cpu c f s')"
  using assms unfolding same_sched_def upd_cpu_def by (cases s; cases s') auto

lemma rq_enqueue_same: "same_sched s (rq_enqueue d x s)"
  by (auto simp: same_sched_def rq_enqueue_def rq_enqueue_locked_def Let_def upd_cpu_def same_but_links_def)

lemma switch_to_same:
  assumes e: "same_sched s s1" and z: "tstate (tasks s t) = TASK_STATE_READY"
  shows "same_sched (switched c prev t s) (switch_to c prev t s1)"
proof -
  note f = same_schedD [OF e]
  let ?ready = "\<lambda>k. k\<lparr>tstate := TASK_STATE_READY\<rparr>" and ?run = "\<lambda>k. k\<lparr>tstate := TASK_STATE_RUNNING, time_slice := DEFAULT_TIME_SLICE\<rparr>"
  define r where "r \<longleftrightarrow> prev \<noteq> NULL \<and> tstate (tasks s prev) = TASK_STATE_RUNNING"
  define a2 where "a2 = (if r then upd_task prev ?ready s else s)"
  define s2 where "s2 = (if r then rq_enqueue (home_cpu (tasks s1 prev)) prev (upd_task prev ?ready s1) else s1)"
  have e2: "same_sched a2 s2"
    unfolding a2_def s2_def using e same_sched_trans [OF same_sched_upd [OF e same_but_links_fields(1)] rq_enqueue_same] by simp
  define a3 where "a3 = upd_task t ?run a2"
  define s3 where "s3 = upd_task t ?run s2"
  have e3: "same_sched a3 s3" unfolding a3_def s3_def by (rule same_sched_upd [OF e2 same_but_links_fields(2)])
  define g where "g = (\<lambda>l :: cpu_local. l\<lparr>cpu_current := t, kernel_rsp := kstack_top (tasks s3 t),
      tss_rsp0 := map_option (\<lambda>_. kstack_top (tasks s3 t)) (tss_rsp0 l)\<rparr>)"
  have e4: "same_sched (upd_cpu c g a3) (upd_cpu c g s3)" by (rule same_sched_cpu [OF e3]) (simp add: g_def)
  have z3: "tstate (tasks s3 prev) = TASK_STATE_ZOMBIE \<and> tparent (tasks s3 prev) = NULL \<longleftrightarrow>
      tstate (tasks s prev) = TASK_STATE_ZOMBIE \<and> tparent (tasks s prev) = NULL"
    using same_schedD(2,6) [OF e3, of prev] z by (auto simp: a3_def a2_def r_def)
  have k3: "kstack_top (tasks s3 t) = kstack_top (tasks s t)"
    using same_but_links_fields(3) [OF same_schedD(1) [OF e3, of t]] by (simp add: a3_def a2_def)
  define h where "h = (\<lambda>l :: cpu_local. l\<lparr>pending_reap := prev\<rparr>)"
  define w where "w \<longleftrightarrow> prev \<noteq> NULL \<and> tstate (tasks s prev) = TASK_STATE_ZOMBIE \<and> tparent (tasks s prev) = NULL"
  have "switch_to c prev t s1 = (if w then upd_cpu c h (upd_cpu c g s3) else upd_cpu c g s3)"
    using z3 f(2) [of prev] by (simp add: switch_to_def Let_def w_def r_def s2_def s3_def g_def h_def)
  moreover have "switched c prev t s = (if w then upd_cpu c h (upd_cpu c g a3) else upd_cpu c g a3)"
    using k3 by (auto simp: switched_def w_def r_def a2_def a3_def g_def h_def upd_cpu_def upd_task_def)
  moreover have "same_sched (upd_cpu c h (upd_cpu c g a3)) (upd_cpu c h (upd_cpu c g s3))"
    by (rule same_sched_cpu [OF e4]) (simp add: h_def)
  ultimately show ?thesis using e4 by simp
qed

text \<open>A task that is on no run queue and does not run here is not even relinked.\<close>

lemma schedule_next_full:
  assumes inv: "sched_inv s Q" and Q: "Q c = t # ts"
  defines "prev \<equiv> cpu_current (cpus s c)" and "s0 \<equiv> drain_pending_reap c s"
  shows "same_sched (switched c prev t s0) (snd (schedule c s))"
    and "x \<noteq> prev \<Longrightarrow> (\<And>d. x \<notin> set (Q d)) \<Longrightarrow> tasks (snd (schedule c s)) x = tasks s0 x"
proof -
  have i: "sched_inv s0 Q" unfolding s0_def by (rule drain_pending_reap_inv [OF inv])
  then have r: "runqs s0 Q" by (simp add: sched_inv_def)
  have tQ: "t \<in> set (Q c)" using Q by simp
  have t0: "t \<noteq> NULL" by (rule runqsD(5) [OF r tQ])
  obtain s1 where s1: "rq_dequeue c s0 = (t, s1)" "runqs s1 (Q(c := ts))" "same_sched s0 s1"
    by (rule rq_dequeue_runqs [OF r Q])
  have sn: "snd (schedule c s) = switch_to c prev t s1"
    using s1(1) t0 by (simp add: schedule_def Let_def prev_def s0_def drain_pending_reap_frame)
  have z: "tstate (tasks s0 t) = TASK_STATE_READY" by (rule runqsD(2) [OF r tQ])
  show "same_sched (switched c prev t s0) (snd (schedule c s))"
    unfolding sn by (rule switch_to_same [OF s1(3) z])
  assume x: "x \<noteq> prev" "\<And>d. x \<notin> set (Q d)"
  obtain h q where dq: "rq_dequeue_locked (tasks s0, rq (cpus s0 c)) = (t, h, q)" "tasks s1 = h"
    using s1(1) by (auto simp: rq_dequeue_def upd_cpu_def split: prod.splits)
  have h: "tasks s1 x = tasks s0 x"
    using runq.pop_frame [OF runqsD(1) [OF r, of c, unfolded Q] dq(1), of x] x(2) [of c] Q dq(2) by simp
  have xt: "x \<noteq> t" using x(2) [of c] Q by auto
  let ?f = "upd_task prev (\<lambda>k. k\<lparr>tstate := TASK_STATE_READY\<rparr>) s1"
  have "tasks (rq_enqueue d prev ?f) x = tasks s1 x" if p: "prev \<noteq> NULL" "tstate (tasks s1 prev) = TASK_STATE_RUNNING" for d
  proof -
    have nq: "prev \<notin> set ((Q(c := ts)) e)" for e using runqsD(2) [OF s1(2), of prev e] p(2) by auto
    have rf: "runqs ?f (Q(c := ts))" by (rule upd_task_runqs [OF s1(2) nq])
    obtain h' q' where e: "rq_enqueue_locked prev (tasks ?f, rq (cpus ?f d)) = (h', q')" by fastforce
    have "x \<notin> insert prev (set ((Q(c := ts)) d))" using x(1) x(2) [of d] x(2) [of c] Q by auto
    then have "h' x = tasks ?f x" using runq.enq_frame [OF runqsD(1) [OF rf, of d] p(1) nq e, of x] by blast
    then show ?thesis using e x(1) by (simp add: rq_enqueue_def)
  qed
  then show "tasks (snd (schedule c s)) x = tasks s0 x"
    unfolding sn using h xt by (simp add: switch_to_def Let_def)
qed

lemma wake_loop_exact:
  fixes now :: u64
  assumes "runqs s Q" and "sleepers (set_sleepq c ts s)"
  shows "sched_inv (wake_loop c now ts s)
    (\<lambda>d. Q d @ filter (\<lambda>x. home_cpu (tasks s x) = d) (takeWhile (\<lambda>t. sleep_deadline (tasks s t) \<le> now) ts))"
  using assms
proof (induction ts arbitrary: s Q)
  case Nil
  then show ?case by (auto simp: sched_inv_def set_sleepq_def [symmetric] intro: runqs_frame [of s Q])
next
  case (Cons t ts)
  show ?case
  proof (cases "sleep_deadline (tasks s t) \<le> now")
    case False
    then show ?thesis using Cons.prems
      by (auto simp: sched_inv_def set_sleepq_def [symmetric] intro: runqs_frame [of s Q])
  next
    case True
    define s1 where "s1 = rq_enqueue_external t (upd_task t (\<lambda>k. k\<lparr>sleep_deadline := 0, tstate := TASK_STATE_READY\<rparr>) s)"
    note w = wake_one [OF Cons.prems, folded s1_def]
    have tn: "t \<notin> set ts" using Cons.prems(2) by (auto simp: sleepers_def split: if_splits)
    have eq: "takeWhile (\<lambda>x. sleep_deadline (tasks s1 x) \<le> now) ts = takeWhile (\<lambda>x. sleep_deadline (tasks s x) \<le> now) ts"
      using w(3) tn same_but_linksD(10) by (intro takeWhile_cong) (auto, metis+)
    have "wake_loop c now (t # ts) s = wake_loop c now ts s1" using True by (simp add: s1_def)
    moreover have "(\<lambda>d. enqueue_home s t Q d @ filter (\<lambda>x. home_cpu (tasks s x) = d) ws) =
        (\<lambda>d. Q d @ filter (\<lambda>x. home_cpu (tasks s x) = d) (t # ws))" for ws
      by (auto simp: enqueue_home_def fun_eq_iff)
    ultimately show ?thesis using Cons.IH [OF w(1,2)] True by (simp add: eq w(5))
  qed
qed

section \<open>Properties of the scheduler\<close>



text \<open>
  C15. No starvation: while the current task of a CPU only computes, the task at position
  \<open>i\<close> of that CPU's run queue gets the CPU within \<open>20 * (i + 1)\<close> timer interrupts, whatever
  sleepers wake up in between.
\<close>

theorem timer_bounded_wait:
  assumes "sched_inv s Q" and "running_on c s p" and "unat (time_slice (tasks s p)) \<le> 20" and "i < length (Q c)"
  shows "\<exists>n \<le> 20 * (i + 1). cpu_current (cpus ((TimerHandler c ^^ n) s) c) = Q c ! i"
proof -
  obtain n where "n \<le> 20 * i + max 1 (unat (time_slice (tasks s p)))"
    "cpu_current (cpus ((TimerHandler c ^^ n) s) c) = Q c ! i" using ticks_reach [OF assms] by blast
  then show ?thesis using assms(3) by (intro exI [of _ n]) auto
qed

theorem timer_bounded_wait_witness:
  "\<exists>n \<le> 40. cpu_current (cpus ((TimerHandler 0 ^^ n) demo_sched) 0) = 3"
  using timer_bounded_wait [OF demo_inv demo_running, of 1] demo_slice by (simp add: demo_queues_def)

text \<open>
  C16. Sleeping is exact: inserting a task keeps the sleep queue ordered by deadline, and a tick
  wakes precisely the sleepers whose deadline has passed: each run queue is extended by those
  of its CPU, in the order of their deadlines, they are ready with no deadline, the others stay
  asleep, and no other task changes but for its links.
\<close>

theorem sleep_wake_exact:
  assumes "sched_inv s Q" and "sleep_sorted c s"
  shows "let ws = filter (\<lambda>x. sleep_deadline (tasks s x) \<le> timer_ticks s c) (sleepq (cpus s c));
      s' = sleep_queue_wake_expired c s in
    sleep_sorted c (sleep_queue_insert c t s) \<and>
    set (sleepq (cpus (sleep_queue_insert c t s) c)) = insert t (set (sleepq (cpus s c))) \<and>
    sorted (map (\<lambda>x. sleep_deadline (tasks s x)) ws) \<and>
    sched_inv s' (\<lambda>d. Q d @ filter (\<lambda>x. home_cpu (tasks s x) = d) ws) \<and>
    sleepq (cpus s' c) = filter (\<lambda>x. timer_ticks s c < sleep_deadline (tasks s x)) (sleepq (cpus s c)) \<and>
    (\<forall>x\<in>set ws. tstate (tasks s' x) = TASK_STATE_READY) \<and>
    (\<forall>x. x \<notin> set ws \<longrightarrow> same_but_links (tasks s x) (tasks s' x))"
proof -
  let ?xs = "sleepq (cpus s c)" and ?f = "\<lambda>x. sleep_deadline (tasks s x)" and ?s = "sleep_queue_wake_expired c s"
  define ws where "ws = takeWhile (\<lambda>x. ?f x \<le> timer_ticks s c) ?xs"
  have so: "sorted (map ?f ?xs)" using assms(2) by (simp add: sleep_sorted_def)
  note f = sorted_takeWhile_filter [OF so, of "timer_ticks s c", folded ws_def]
  have r: "runqs s Q" "sleepers (set_sleepq c ?xs s)"
    using assms(1) unfolding sched_inv_def by (auto intro: sleepers_frame [of s])
  have "sched_inv ?s (\<lambda>d. Q d @ filter (\<lambda>x. home_cpu (tasks s x) = d) ws)"
    using wake_loop_exact [OF r, of "timer_ticks s c", folded ws_def] by (simp add: sleep_queue_wake_expired_def)
  moreover have "sleepq (cpus ?s c) = drop (length ws) ?xs" "\<forall>x\<in>set ws. tstate (tasks ?s x) = TASK_STATE_READY"
    "\<forall>x. x \<notin> set ws \<longrightarrow> same_but_links (tasks s x) (tasks ?s x)"
    using sleep_queue_wake_expired_inv [OF assms(1), of c, folded ws_def] by blast+
  moreover have "sleep_sorted c (sleep_queue_insert c t s)"
    using assms(2) by (simp add: sleep_sorted_def sleep_queue_insert_def sorted_sleep_insert)
  moreover have "set (sleepq (cpus (sleep_queue_insert c t s) c)) = insert t (set ?xs)"
    by (simp add: sleep_queue_insert_def set_sleep_insert)
  moreover have "sorted (map ?f (filter (\<lambda>x. ?f x \<le> timer_ticks s c) ?xs))"
    using so by (rule sorted_filter)
  ultimately show ?thesis using f by (simp add: Let_def)
qed

text \<open>Task 1 has gone to sleep for 5 ticks, and 6 have passed.\<close>

definition demo_asleep :: sched where
  "demo_asleep = (park_asleep 0 1 5 demo_sched)\<lparr>timer_ticks := (\<lambda>_. 6)\<rparr>"

lemma demo_asleep_inv: "sched_inv demo_asleep demo_queues" "sleepq (cpus demo_asleep 0) = [1]"
  "sleep_deadline (tasks demo_asleep 1) = 5" "home_cpu (tasks demo_asleep 1) = 0"
proof -
  have "sched_inv (park_asleep 0 1 5 demo_sched) demo_queues" by (rule park_asleep_inv [OF demo_inv demo_running])
  then show "sched_inv demo_asleep demo_queues" by (simp add: demo_asleep_def sched_inv_def runqs_def sleepers_def)
  show "sleepq (cpus demo_asleep 0) = [1]" "sleep_deadline (tasks demo_asleep 1) = 5" "home_cpu (tasks demo_asleep 1) = 0"
    using demo_running demo_sleepq
    by (simp_all add: demo_asleep_def park_asleep_def sleep_queue_insert_def running_on_def)
qed

theorem sleep_wake_exact_witness:
  "sched_inv (sleep_queue_wake_expired 0 demo_asleep) ((\<lambda>_. [])(0 := [2, 3, 1])) \<and>
   sleepq (cpus (sleep_queue_wake_expired 0 demo_asleep) 0) = [] \<and>
   tstate (tasks (sleep_queue_wake_expired 0 demo_asleep) 1) = TASK_STATE_READY"
proof -
  have so: "sleep_sorted 0 demo_asleep" by (simp add: sleep_sorted_def demo_asleep_inv)
  have "timer_ticks demo_asleep 0 = 6" by (simp add: demo_asleep_def)
  moreover have "(\<lambda>d. demo_queues d @ filter (\<lambda>x. home_cpu (tasks demo_asleep x) = d) [1]) = (\<lambda>_. [])(0 := [2, 3, 1])"
    by (simp add: demo_asleep_inv demo_queues_def fun_eq_iff del: One_nat_def)
  ultimately show ?thesis
    using sleep_wake_exact [OF demo_asleep_inv(1) so, of 0]
    by (simp add: Let_def demo_asleep_inv del: One_nat_def)
qed

end
