(* ===== verification/Signal.thy ===== *)
theory Signal
  imports Scheduler_Props Util_Memory Util_Math
begin

text \<open>
  \<^verbatim>\<open>multi/signal.c\<close>: sending signals to tasks and process groups, installing handlers,
  delivery on the way back to user mode, and the return from a handler.  User memory is byte
  addressed; the page-table walk \<^verbatim>\<open>lookup_user_in_pml4\<close> is the argument \<open>lookup\<close>, which says
  whether the page of an address is mapped in an address space.
\<close>

section \<open>Sending\<close>

definition NSIG :: int where "NSIG = 32"

abbreviation SIGINT :: int where "SIGINT \<equiv> 2"

abbreviation SIGKILL :: int where "SIGKILL \<equiv> 9"

abbreviation SIGPIPE :: int where "SIGPIPE \<equiv> 13"

abbreviation SIGCHLD :: int where "SIGCHLD \<equiv> 17"

abbreviation SIGCONT :: int where "SIGCONT \<equiv> 18"

abbreviation SIGSTOP :: int where "SIGSTOP \<equiv> 19"

abbreviation (input) SIG_DFL :: u64 where "SIG_DFL \<equiv> 0"

abbreviation (input) SIG_IGN :: u64 where "SIG_IGN \<equiv> 1"

definition signo_valid :: "int \<Rightarrow> bool" where
  "signo_valid s \<longleftrightarrow> s > 0 \<and> s < NSIG"

definition sig_bit :: "int \<Rightarrow> u64" where
  "sig_bit signo = 2 ^ nat (signo - 1)"

definition signal_send :: "tptr \<Rightarrow> int \<Rightarrow> sched \<Rightarrow> sched" where
  "signal_send t signo s =
     (if t = NULL \<or> \<not> signo_valid signo then s
      else
        let s = upd_task t (\<lambda>k. k\<lparr>pending_signals := pending_signals k OR sig_bit signo\<rparr>) s
        in if tstate (tasks s t) = TASK_STATE_BLOCKED
           then rq_enqueue_external t (upd_task t (\<lambda>k. k\<lparr>tstate := TASK_STATE_READY\<rparr>) s)
           else s)"

fun send_each :: "u64 \<Rightarrow> int \<Rightarrow> tptr list \<Rightarrow> sched \<Rightarrow> sched" where
  "send_each pgrp signo [] s = s"
| "send_each pgrp signo (t # ts) s =
     send_each pgrp signo ts
       (if pgid (tasks s t) = pgrp \<and> tstate (tasks s t) \<noteq> TASK_STATE_ZOMBIE then signal_send t signo s else s)"

definition signal_send_pgrp :: "u64 \<Rightarrow> int \<Rightarrow> sched \<Rightarrow> sched" where
  "signal_send_pgrp pgrp signo s =
     (if pgrp = 0 \<or> \<not> signo_valid signo then s else send_each pgrp signo (all_tasks s) s)"

definition signal_install :: "nat \<Rightarrow> int \<Rightarrow> u64 \<Rightarrow> u64 \<Rightarrow> sched \<Rightarrow> int \<times> sched" where
  "signal_install c signo handler restorer s =
     (if \<not> signo_valid signo then (- EINVAL, s)
      else if signo = SIGKILL \<or> signo = SIGSTOP then (- EINVAL, s)
      else (0, upd_task (cpu_current (cpus s c))
                 (\<lambda>k. k\<lparr>signal_actions := (signal_actions k)(nat signo := \<lparr>sa_handler = handler, sa_restorer = restorer\<rparr>)\<rparr>) s))"

definition default_terminates :: "int \<Rightarrow> bool" where
  "default_terminates signo = (if signo = SIGCHLD \<or> signo = SIGCONT then False else True)"

section \<open>The saved user context\<close>

text \<open>\<^verbatim>\<open>interrupt_frame_t\<close>: 25 packed 64-bit words, in this order.\<close>

record iframe =
  fr_gs :: u64
  fr_fs :: u64
  fr_r15 :: u64
  fr_r14 :: u64
  fr_r13 :: u64
  fr_r12 :: u64
  fr_r11 :: u64
  fr_r10 :: u64
  fr_r9 :: u64
  fr_r8 :: u64
  fr_rdi :: u64
  fr_rsi :: u64
  fr_rbp :: u64
  fr_rsp :: u64
  fr_rbx :: u64
  fr_rdx :: u64
  fr_rcx :: u64
  fr_rax :: u64
  fr_int_no :: u64
  fr_err_code :: u64
  fr_rip :: u64
  fr_cs :: u64
  fr_qflags :: u64
  fr_userrsp :: u64
  fr_ss :: u64

definition frame_words :: "iframe \<Rightarrow> u64 list" where
  "frame_words f =
     [fr_gs f, fr_fs f, fr_r15 f, fr_r14 f, fr_r13 f, fr_r12 f, fr_r11 f, fr_r10 f, fr_r9 f, fr_r8 f,
      fr_rdi f, fr_rsi f, fr_rbp f, fr_rsp f, fr_rbx f, fr_rdx f, fr_rcx f, fr_rax f,
      fr_int_no f, fr_err_code f, fr_rip f, fr_cs f, fr_qflags f, fr_userrsp f, fr_ss f]"

definition words_frame :: "u64 list \<Rightarrow> iframe" where
  "words_frame w =
     \<lparr>fr_gs = w ! 0, fr_fs = w ! 1, fr_r15 = w ! 2, fr_r14 = w ! 3, fr_r13 = w ! 4, fr_r12 = w ! 5,
      fr_r11 = w ! 6, fr_r10 = w ! 7, fr_r9 = w ! 8, fr_r8 = w ! 9, fr_rdi = w ! 10, fr_rsi = w ! 11,
      fr_rbp = w ! 12, fr_rsp = w ! 13, fr_rbx = w ! 14, fr_rdx = w ! 15, fr_rcx = w ! 16, fr_rax = w ! 17,
      fr_int_no = w ! 18, fr_err_code = w ! 19, fr_rip = w ! 20, fr_cs = w ! 21, fr_qflags = w ! 22,
      fr_userrsp = w ! 23, fr_ss = w ! 24\<rparr>"

definition FRAME_SIZE :: u64 where "FRAME_SIZE = 200"

fun store_words :: "u64 \<Rightarrow> u64 list \<Rightarrow> mem \<Rightarrow> mem" where
  "store_words a [] m = m"
| "store_words a (w # ws) m = store_words (a + 8) ws (store64 a w m)"

fun load_words :: "u64 \<Rightarrow> nat \<Rightarrow> mem \<Rightarrow> u64 list" where
  "load_words a 0 m = []"
| "load_words a (Suc n) m = load64 a m # load_words (a + 8) n m"

section \<open>Delivery\<close>

text \<open>The pages the probe looks at: from \<open>lo\<close> in steps of a page while below \<open>hi\<close>.\<close>

definition probe_pages :: "u64 \<Rightarrow> u64 \<Rightarrow> u64 list" where
  "probe_pages lo hi =
     (if lo < hi then map (\<lambda>i. lo + of_nat (0x1000 * i)) [0..<(unat hi - unat lo + 0xFFF) div 0x1000] else [])"

definition frame_addr :: "u64 \<Rightarrow> u64" where
  "frame_addr userrsp = (userrsp - FRAME_SIZE) AND NOT 0xF"

definition stack_probe :: "u64 \<Rightarrow> u64 list" where
  "stack_probe user_rsp =
     probe_pages (user_rsp AND NOT 0xFFF) ((user_rsp + FRAME_SIZE + 8 + 0xFFF) AND NOT 0xFFF)"

text \<open>\<open>Faulted\<close>: the slot below the frame is in a page that is not mapped, and the kernel faults on the write.\<close>

datatype sig_result = NotDelivered | Exited | Faulted | Entered

definition signal_deliver_on_return ::
  "(u64 \<Rightarrow> u64 \<Rightarrow> bool) \<Rightarrow> nat \<Rightarrow> iframe \<Rightarrow> mem \<Rightarrow> sched \<Rightarrow> sig_result \<times> iframe \<times> mem \<times> sched" where
  "signal_deliver_on_return lookup c frame m s =
     (if fr_cs frame \<noteq> 0x23 then (NotDelivered, frame, m, s)
      else
        let t = cpu_current (cpus s c); pending = pending_signals (tasks s t) in
        if pending = 0 then (NotDelivered, frame, m, s)
        else
          let signo = int (ctzll pending) + 1;
              s = upd_task t (\<lambda>k. k\<lparr>pending_signals := pending_signals k AND NOT (sig_bit signo)\<rparr>) s;
              sig_exit_code = word_of_int signo AND 0x7F
          in if signo = SIGKILL then (Exited, frame, m, snd (task_exit c sig_exit_code s))
          else
            let handler = sa_handler (signal_actions (tasks s t) (nat signo));
                restorer = sa_restorer (signal_actions (tasks s t) (nat signo))
            in if handler = SIG_IGN then (NotDelivered, frame, m, s)
            else if handler = SIG_DFL then
              (if default_terminates signo then
                 (Exited, frame, m, snd (task_exit c sig_exit_code
                    (s\<lparr>calls := calls s @ [PtyDropFgOutput (ctty (tasks s t)) (pgid (tasks s t))]\<rparr>)))
               else (NotDelivered, frame, m, s))
            else if restorer = 0 then (Exited, frame, m, snd (task_exit c sig_exit_code s))
            else
              let user_rsp = frame_addr (fr_userrsp frame) in
              if \<not> list_all (lookup (cr3 (tasks s t))) (stack_probe user_rsp)
              then (Exited, frame, m, snd (task_exit c sig_exit_code s))
              else if \<not> lookup (cr3 (tasks s t)) ((user_rsp - 8) AND NOT 0xFFF) then (Faulted, frame, m, s)
              else
                let m = store_words user_rsp (frame_words frame) m;
                    user_rsp = user_rsp - 8;
                    m = store64 user_rsp restorer m
                in (Entered, frame\<lparr>fr_rip := handler, fr_userrsp := user_rsp, fr_rdi := word_of_int signo\<rparr>, m, s))"

text \<open>\<^verbatim>\<open>signal_sigreturn\<close>: \<open>Inl\<close> the error, or the frame that IRETQ resumes from.\<close>

definition signal_sigreturn :: "iframe \<Rightarrow> mem \<Rightarrow> int + iframe" where
  "signal_sigreturn frame m =
     (let saved_va = fr_userrsp frame in
      if saved_va \<ge> 0xFFFF800000000000 then Inl (- EINVAL)
      else
        let saved = words_frame (load_words saved_va 25 m) in
        if fr_cs saved \<noteq> 0x23 \<or> fr_ss saved \<noteq> 0x1B then Inl (- EINVAL) else Inr saved)"

end
