(* ===== verification/Signal_Props.thy ===== *)
theory Signal_Props
  imports Signal
begin

text \<open>
  The signal round trip restores the interrupted context; sending a signal keeps the scheduler's
  queues intact when the target is parked nowhere else; and what goes wrong when it is.
\<close>

section \<open>Words in memory\<close>

lemma store_bytes_at:
  "n \<le> 8 \<Longrightarrow> store_bytes n a v m x = (if unat (x - a) < n then ucast (drop_bit (8 * unat (x - a)) v) else m x)"
proof (induction n)
  case (Suc n)
  have n: "n + Suc 0 \<le> 2 ^ 64" and u: "unat (of_nat n :: u64) = n" using Suc.prems by (simp_all add: unat_of_nat)
  show ?case
  proof (cases "x = a + of_nat n")
    case True
    then show ?thesis using u by simp
  next
    case False
    then have "unat (x - a) < Suc n \<longleftrightarrow> unat (x - a) < n"
      using offset_split [OF n, of x a] by (simp add: offset_zero del: less_Suc0)
    then show ?thesis using False Suc by simp
  qed
qed simp

lemma store64_at: "store64 a v m x = (if unat (x - a) < 8 then ucast (drop_bit (8 * unat (x - a)) v) else m x)"
  by (simp add: store64_def store_bytes_at)

lemma load64_cong: "(\<And>i. i < 8 \<Longrightarrow> m (a + of_nat i) = m' (a + of_nat i)) \<Longrightarrow> load64 a m = load64 a m'"
proof -
  assume *: "\<And>i. i < 8 \<Longrightarrow> m (a + of_nat i) = m' (a + of_nat i)"
  have "n \<le> 8 \<Longrightarrow> load_bytes n a m = load_bytes n a m'" for n using * by (induction n) auto
  then show ?thesis by (simp add: load64_def)
qed

lemma load64_store64: "load64 a (store64 a v m) = v"
proof (rule word64_bits_eqI)
  fix j :: nat assume j: "j < 64"
  have i: "unat (of_nat (j div 8) :: u64) = j div 8" using j by (simp add: unat_of_nat)
  have "j div 8 < 8" using j by (simp add: div_less_iff_less_mult)
  then have "bit (store64 a v m (a + of_nat (j div 8))) (j mod 8) = bit v (8 * (j div 8) + j mod 8)"
    using i j by (simp add: store64_at bit_unsigned_iff bit_drop_bit_eq)
  then show "bit (load64 a (store64 a v m)) j = bit v j"
    using j load_bytes_bits [of 8 a "store64 a v m" j] by (simp add: load64_def)
qed

lemma store_words_above: "\<not> unat (x - a) < 8 * length ws \<Longrightarrow> 8 * length ws \<le> 2 ^ 64 \<Longrightarrow> store_words a ws m x = m x"
proof (induction ws arbitrary: a m)
  case (Cons w ws)
  have "8 + 8 * length ws \<le> 2 ^ 64" using Cons.prems(2) by simp
  then have "\<not> unat (x - a) < 8" "\<not> unat (x - (a + of_nat 8)) < 8 * length ws"
    using offset_split [of 8 "8 * length ws" x a] Cons.prems(1) by auto
  then show ?case using Cons.IH [of "a + 8"] Cons.prems(2) by (simp add: store64_at)
qed simp

lemma load_store_words:
  "8 * length ws \<le> 2 ^ 64 \<Longrightarrow> load_words a (length ws) (store_words a ws m) = ws"
proof (induction ws arbitrary: a m)
  case (Cons w ws)
  have le: "8 + 8 * length ws \<le> 2 ^ 64" using Cons.prems by simp
  have "load64 a (store_words (a + 8) ws (store64 a w m)) = load64 a (store64 a w m)"
  proof (rule load64_cong)
    fix i :: nat assume i: "i < 8"
    have "unat (of_nat i :: u64) = i" using i by (simp add: unat_of_nat)
    then have "\<not> unat (a + of_nat i - (a + of_nat 8)) < 8 * length ws"
      using i by (intro offset_below [OF le]) simp
    then show "store_words (a + 8) ws (store64 a w m) (a + of_nat i) = store64 a w m (a + of_nat i)"
      using le by (intro store_words_above) simp_all
  qed
  then show ?case using Cons by (simp add: load64_store64)
qed simp

lemma load_words_cong:
  "(\<And>x. unat (x - a) < 8 * n \<Longrightarrow> m x = m' x) \<Longrightarrow> 8 * n \<le> 2 ^ 64 \<Longrightarrow> load_words a n m = load_words a n m'"
proof (induction n arbitrary: a)
  case (Suc n)
  have le: "8 + 8 * n \<le> 2 ^ 64" using Suc.prems by simp
  have "load64 a m = load64 a m'"
  proof (rule load64_cong)
    fix i :: nat assume "i < 8"
    then show "m (a + of_nat i) = m' (a + of_nat i)" by (intro Suc.prems(1)) (simp add: unat_of_nat)
  qed
  moreover have "load_words (a + 8) n m = load_words (a + 8) n m'"
  proof (rule Suc.IH)
    fix x assume "unat (x - (a + 8)) < 8 * n"
    then have "unat (x - a) < 8 + 8 * n" using offset_split [OF le, of x a] by simp
    then show "m x = m' x" by (intro Suc.prems(1)) simp
  qed (use le in simp)
  ultimately show ?case by simp
qed simp

lemma words_frame_words: "words_frame (frame_words f) = f"
  by (cases f) (simp add: words_frame_def frame_words_def)

section \<open>Properties of signals\<close>

text \<open>
  The conditions under which \<open>signo\<close> is delivered to a handler: the return is to user mode, it is
  the lowest pending signal, it can be caught and has a handler and a restorer, and the stack
  below the user's pointer is mapped.
\<close>

definition catches :: "(u64 \<Rightarrow> u64 \<Rightarrow> bool) \<Rightarrow> iframe \<Rightarrow> task \<Rightarrow> int \<Rightarrow> bool" where
  "catches lookup frame k signo \<longleftrightarrow>
     fr_cs frame = 0x23 \<and> signo_valid signo \<and> signo \<noteq> SIGKILL \<and>
     bit (pending_signals k) (nat (signo - 1)) \<and> (\<forall>j < nat (signo - 1). \<not> bit (pending_signals k) j) \<and>
     sa_handler (signal_actions k (nat signo)) \<notin> {SIG_IGN, SIG_DFL} \<and> sa_restorer (signal_actions k (nat signo)) \<noteq> 0 \<and>
     list_all (lookup (cr3 k)) (stack_probe (frame_addr (fr_userrsp frame))) \<and>
     lookup (cr3 k) ((frame_addr (fr_userrsp frame) - 8) AND NOT 0xFFF)"

lemma deliver_caught:
  fixes c :: nat and s :: sched
  defines "t \<equiv> cpu_current (cpus s c)"
  assumes k: "catches lookup frame (tasks s t) signo"
  defines "a \<equiv> frame_addr (fr_userrsp frame)" and "act \<equiv> signal_actions (tasks s t) (nat signo)"
  shows "signal_deliver_on_return lookup c frame m s =
    (Entered, frame\<lparr>fr_rip := sa_handler act, fr_userrsp := a - 8, fr_rdi := word_of_int signo\<rparr>,
     store64 (a - 8) (sa_restorer act) (store_words a (frame_words frame) m),
     upd_task t (\<lambda>k. k\<lparr>pending_signals := pending_signals k AND NOT (sig_bit signo)\<rparr>) s)"
proof -
  have b: "bit (pending_signals (tasks s t)) (nat (signo - 1))" "0 < signo" "\<And>j. j < nat (signo - 1) \<Longrightarrow> \<not> bit (pending_signals (tasks s t)) j"
    using k by (auto simp: catches_def signo_valid_def)
  then have "ctzll (pending_signals (tasks s t)) = nat (signo - 1)" by (intro takeWhile_not_upt_eq) auto
  then have "int (ctzll (pending_signals (tasks s t))) + 1 = signo" using b(2) by simp
  moreover have "pending_signals (tasks s t) \<noteq> 0" using b(1) by auto
  ultimately show ?thesis
    using k by (simp add: signal_deliver_on_return_def Let_def catches_def t_def a_def act_def upd_task_def)
qed

text \<open>
  C17. A caught signal enters its handler and is transparent.  When the lowest pending signal of
  the running task has a handler and a restorer and the user stack is mapped, delivery clears
  the pending bit and resumes in the handler with the signal number as argument; the stack
  pointer points to the restorer as return address, all 25 words of the interrupted frame are
  stored above it, and no other memory changes.  When the handler has returned through the
  restorer (which pops the 8-byte return address) and has left the saved frame alone,
  \<^verbatim>\<open>sigreturn\<close> resumes with exactly the interrupted registers; this needs a user stack below the
  kernel half and the user's stack selector.
\<close>

theorem signal_roundtrip:
  assumes "catches lookup frame (tasks s (cpu_current (cpus s c))) signo"
    and "fr_ss frame = 0x1B" and "frame_addr (fr_userrsp frame) < 0xFFFF800000000000"
  shows "let t = cpu_current (cpus s c); a = frame_addr (fr_userrsp frame); act = signal_actions (tasks s t) (nat signo) in
    \<exists>m'. signal_deliver_on_return lookup c frame m s =
        (Entered, frame\<lparr>fr_rip := sa_handler act, fr_userrsp := a - 8, fr_rdi := word_of_int signo\<rparr>, m',
         upd_task t (\<lambda>k. k\<lparr>pending_signals := pending_signals k AND NOT (sig_bit signo)\<rparr>) s) \<and>
      load64 (a - 8) m' = sa_restorer act \<and> load_words a 25 m' = frame_words frame \<and>
      (\<forall>x. 208 \<le> unat (x - (a - 8)) \<longrightarrow> m' x = m x) \<and>
      (\<forall>frame'' m''. fr_userrsp frame'' = a - 8 + 8 \<and> (\<forall>x. unat (x - a) < 200 \<longrightarrow> m'' x = m' x) \<longrightarrow>
         signal_sigreturn frame'' m'' = Inr frame)"
proof -
  define a where "a = frame_addr (fr_userrsp frame)"
  define r where "r = sa_restorer (signal_actions (tasks s (cpu_current (cpus s c))) (nat signo))"
  define m' where "m' = store64 (a - 8) r (store_words a (frame_words frame) m)"
  have len: "length (frame_words frame) = 25" by (simp add: frame_words_def)
  have in_frame: "m' x = store_words a (frame_words frame) m x" if x: "unat (x - a) < 8 * 25" for x
  proof -
    have "a = (a - 8) + of_nat 8" by simp
    then have "\<not> unat (x - (a - 8)) < 8" using offset_below [of 8 200 x "a - 8"] x by auto
    then show ?thesis by (simp add: m'_def store64_at)
  qed
  have outside: "m' x = m x" if x: "208 \<le> unat (x - (a - 8))" for x
  proof -
    have "\<not> unat (x - (a - 8)) < 8 + 200" using x by simp
    then have "\<not> unat (x - (a - 8)) < 8 \<and> \<not> unat (x - (a - 8 + of_nat 8)) < 200"
      using offset_split [of 8 200 x "a - 8"] by simp
    then show ?thesis using store_words_above [of x a "frame_words frame" m] len by (simp add: m'_def store64_at)
  qed
  have saved: "load_words a 25 m'' = frame_words frame" if "\<forall>x. unat (x - a) < 200 \<longrightarrow> m'' x = m' x" for m''
  proof -
    have "load_words a 25 m'' = load_words a 25 (store_words a (frame_words frame) m)"
      by (rule load_words_cong) (use that in_frame in simp_all)
    also have "\<dots> = frame_words frame" using load_store_words [of "frame_words frame" a m] len by simp
    finally show ?thesis .
  qed
  have "signal_sigreturn frame'' m'' = Inr frame"
    if "fr_userrsp frame'' = a - 8 + 8" "\<forall>x. unat (x - a) < 200 \<longrightarrow> m'' x = m' x" for frame'' m''
    using saved [OF that(2)] that(1) assms by (simp add: signal_sigreturn_def Let_def words_frame_words a_def not_le catches_def)
  moreover have "load64 (a - 8) m' = r" by (simp add: m'_def load64_store64)
  ultimately show ?thesis
    using deliver_caught [OF assms(1), of m] saved [of m'] outside
    unfolding Let_def a_def [symmetric] r_def [symmetric] m'_def [symmetric] by blast
qed

text \<open>A user task interrupted at \<open>0x401000\<close> with a handler for \<^verbatim>\<open>SIGINT\<close> and that signal pending.\<close>

definition demo_frame :: iframe where
  "demo_frame = (words_frame (replicate 25 7))\<lparr>fr_rip := 0x401000, fr_cs := 0x23, fr_userrsp := 0x7FFFF0, fr_ss := 0x1B\<rparr>"

definition demo_handled :: sched where
  "demo_handled = upd_task 1 (\<lambda>k. k\<lparr>pending_signals := sig_bit SIGINT,
     signal_actions := (\<lambda>_. \<lparr>sa_handler = 0x402000, sa_restorer = 0x403000\<rparr>)\<rparr>) demo_sched"

lemma demo_caught: "catches (\<lambda>_ _. True) demo_frame (tasks demo_handled (cpu_current (cpus demo_handled 0))) SIGINT"
proof -
  have "cpu_current (cpus demo_handled 0) = 1" using demo_running by (simp add: demo_handled_def running_on_def)
  then show ?thesis
    by (simp add: catches_def signo_valid_def NSIG_def demo_handled_def demo_frame_def sig_bit_def list_all_iff bit_simps)
qed

theorem signal_roundtrip_witness:
  "case signal_deliver_on_return (\<lambda>_ _. True) 0 demo_frame (\<lambda>_. 0) demo_handled of
     (r, frame', m', s') \<Rightarrow> r = Entered \<and> fr_rip frame' = 0x402000 \<and> fr_rdi frame' = 2 \<and>
       load64 (fr_userrsp frame') m' = 0x403000 \<and>
       signal_sigreturn (frame'\<lparr>fr_userrsp := fr_userrsp frame' + 8\<rparr>) m' = Inr demo_frame"
proof -
  have ss: "fr_ss demo_frame = 0x1B" by (simp add: demo_frame_def)
  have lt: "frame_addr (fr_userrsp demo_frame) < 0xFFFF800000000000"
    by (simp add: demo_frame_def frame_addr_def FRAME_SIZE_def)
  have "cpu_current (cpus demo_handled 0) = 1" using demo_running by (simp add: demo_handled_def running_on_def)
  then have "signal_actions (tasks demo_handled (cpu_current (cpus demo_handled 0))) (nat SIGINT) =
      \<lparr>sa_handler = 0x402000, sa_restorer = 0x403000\<rparr>" by (simp add: demo_handled_def)
  then show ?thesis using signal_roundtrip [OF demo_caught ss lt, of "\<lambda>_. 0"] by (auto simp: Let_def)
qed

text \<open>A signal to a blocked task: it is appended to its home queue, its other memberships stay.\<close>

lemma signal_send_blocked:
  assumes r: "runqs s Q" and t: "t \<noteq> NULL" "signo_valid signo" "tstate (tasks s t) = TASK_STATE_BLOCKED"
  obtains s2 where "runqs s2 Q" "signal_send t signo s = rq_enqueue (home_cpu (tasks s t)) t s2"
    "runqs (signal_send t signo s) (enqueue_home s t Q)" "same_sched s2 (signal_send t signo s)"
    "s2 = upd_task t (\<lambda>k. k\<lparr>pending_signals := pending_signals k OR sig_bit signo, tstate := TASK_STATE_READY\<rparr>) s"
proof -
  let ?s2 = "upd_task t (\<lambda>k. k\<lparr>pending_signals := pending_signals k OR sig_bit signo, tstate := TASK_STATE_READY\<rparr>) s"
  have nq: "t \<notin> set (Q d)" for d using runqsD(2) [OF r] t(3) by fastforce
  have r2: "runqs ?s2 Q" by (rule upd_task_runqs [OF r nq])
  have e: "signal_send t signo s = rq_enqueue (home_cpu (tasks s t)) t ?s2"
    using t by (simp add: signal_send_def Let_def rq_enqueue_external_def upd_task_def)
  have "runqs (signal_send t signo s) (enqueue_home s t Q)" "same_sched ?s2 (signal_send t signo s)"
    unfolding e enqueue_home_def using rq_enqueue_runqs [OF r2 t(1) nq, of "home_cpu (tasks s t)"] by simp_all
  then show ?thesis by (rule that [OF r2 e _ _ refl])
qed

text \<open>
  C18. Sending a signal records it as pending and keeps every run queue intact: a blocked target,
  sleeping or not, is made ready and appended to its home run queue, exactly once; in any
  other state it stays where it is; nothing else changes but links.  The scheduler's whole
  invariant is kept exactly if the target was not woken from a sleep queue: a sleeper stays on
  its sleep queue although it is ready.
\<close>

theorem signal_send_correct:
  assumes "sched_inv s Q" and "signo_valid signo" and "t \<noteq> NULL"
  shows "let woken = (tstate (tasks s t) = TASK_STATE_BLOCKED); s' = signal_send t signo s;
      Q' = (if woken then enqueue_home s t Q else Q) in
    runqs s' Q' \<and>
    same_sched (upd_task t (\<lambda>k. k\<lparr>pending_signals := pending_signals k OR sig_bit signo,
      tstate := (if woken then TASK_STATE_READY else tstate k)\<rparr>) s) s' \<and>
    (sched_inv s' Q' \<longleftrightarrow> \<not> (woken \<and> (\<exists>d. t \<in> set (sleepq (cpus s d)))))"
proof (cases "tstate (tasks s t) = TASK_STATE_BLOCKED")
  case False
  let ?s1 = "upd_task t (\<lambda>k. k\<lparr>pending_signals := pending_signals k OR sig_bit signo\<rparr>) s"
  have r: "runqs ?s1 Q" by (rule runqs_frame [of s]) (use assms(1) in \<open>auto simp: sched_inv_def\<close>)
  have l: "sleepers ?s1" by (rule sleepers_frame [of s]) (use assms(1) in \<open>auto simp: sched_inv_def\<close>)
  have e: "signal_send t signo s = ?s1" using False assms(2,3) by (simp add: signal_send_def Let_def)
  have "upd_task t (\<lambda>k. k\<lparr>pending_signals := pending_signals k OR sig_bit signo, tstate := tstate k\<rparr>) s = ?s1"
    by (simp add: upd_task_def)
  moreover have "same_sched ?s1 ?s1" by (simp add: same_sched_def)
  ultimately show ?thesis using False r l by (simp add: Let_def e sched_inv_def)
next
  case True
  have r: "runqs s Q" and l: "sleepers s" using assms(1) by (simp_all add: sched_inv_def)
  obtain s2 where s2: "runqs (signal_send t signo s) (enqueue_home s t Q)" "same_sched s2 (signal_send t signo s)"
    "s2 = upd_task t (\<lambda>k. k\<lparr>pending_signals := pending_signals k OR sig_bit signo, tstate := TASK_STATE_READY\<rparr>) s"
    by (rule signal_send_blocked [OF r assms(3,2) True]) (rule that)
  have "sleepers (signal_send t signo s)" if "\<forall>d. t \<notin> set (sleepq (cpus s d))"
    by (rule sleepers_same_sched [OF _ s2(2)]) (unfold s2(3), rule upd_task_sleepers [OF l], use that in simp)
  moreover have "\<not> sleepers (signal_send t signo s)" if "t \<in> set (sleepq (cpus s d))" for d
    using that same_schedD(2,11) [OF s2(2)] by (auto simp: sleepers_def s2(3))
  ultimately show ?thesis using True s2 by (auto simp: Let_def sched_inv_def)
qed

text \<open>A task 7 that is blocked and on no queue of the scheduler.\<close>

definition demo_blocked :: sched where
  "demo_blocked = upd_task 7 (\<lambda>k. k\<lparr>tstate := TASK_STATE_BLOCKED, home_cpu := 0, pending_signals := 0\<rparr>) demo_sched"

theorem signal_send_correct_witness:
  "sched_inv (signal_send 7 SIGINT demo_blocked) ((\<lambda>_. [])(0 := [2, 3, 7])) \<and>
   tstate (tasks (signal_send 7 SIGINT demo_blocked) 7) = TASK_STATE_READY \<and>
   pending_signals (tasks (signal_send 7 SIGINT demo_blocked) 7) = 2"
proof -
  have v: "signo_valid SIGINT" by (simp add: signo_valid_def NSIG_def)
  have i: "sched_inv demo_blocked demo_queues"
    using demo_inv demo_sleepq unfolding sched_inv_def demo_blocked_def
    by (auto intro!: upd_task_runqs upd_task_sleepers simp: demo_queues_def)
  have q: "enqueue_home demo_blocked 7 demo_queues = (\<lambda>_. [])(0 := [2, 3, 7])"
    by (auto simp: enqueue_home_def demo_blocked_def demo_queues_def)
  have b: "tstate (tasks demo_blocked 7) = TASK_STATE_BLOCKED" "pending_signals (tasks demo_blocked 7) = 0"
      "\<not> (\<exists>d. 7 \<in> set (sleepq (cpus demo_blocked d)))"
    using demo_sleepq by (simp_all add: demo_blocked_def)
  show ?thesis
    using signal_send_correct [OF i v, of 7] b same_schedD(2,9) [of _ "signal_send 7 SIGINT demo_blocked" 7]
    by (auto simp: Let_def q sig_bit_def)
qed

text \<open>
  A sleeper woken by a signal stays on the sleep queue.  When its deadline passes while it waits
  at the tail of the run queue it is queued a second time: the run queue then links the task
  to itself, both ways.
\<close>

lemma enqueue_tail_again:
  assumes "qtail (rq (cpus s c)) = t" and "t \<noteq> NULL"
  shows "tnext (tasks (rq_enqueue c t s) t) = t" and "tprev (tasks (rq_enqueue c t s) t) = t"
  using assms by (simp_all add: rq_enqueue_def rq_enqueue_locked_def Let_def)

lemma signal_to_sleeper_corrupts_runqueue:
  assumes inv: "sched_inv s Q" and t: "sleepq (cpus s c) = [t]" "home_cpu (tasks s t) = c"
    "sleep_deadline (tasks s t) \<le> timer_ticks s c" and v: "signo_valid signo"
  defines "s' \<equiv> sleep_queue_wake_expired c (signal_send t signo s)"
  shows "tnext (tasks s' t) = t" and "tprev (tasks s' t) = t"
proof -
  have r: "runqs s Q" and tb: "t \<noteq> NULL" "tstate (tasks s t) = TASK_STATE_BLOCKED"
    using inv t(1) unfolding sched_inv_def sleepers_def by (metis list.set_intros(1))+
  let ?s1 = "signal_send t signo s"
  obtain s2 where s2: "runqs ?s1 (enqueue_home s t Q)" "same_sched s2 ?s1"
    "s2 = upd_task t (\<lambda>k. k\<lparr>pending_signals := pending_signals k OR sig_bit signo, tstate := TASK_STATE_READY\<rparr>) s"
    by (rule signal_send_blocked [OF r tb(1) v tb(2)]) (rule that)
  note f = same_schedD [OF s2(2)]
  have tail: "qtail (rq (cpus ?s1 c)) = t"
    using queue_repD(4) [OF runqsD(1) [OF s2(1), of c]] t(2) by (simp add: enqueue_home_def)
  have sl: "sleepq (cpus ?s1 c) = [t]" "sleep_deadline (tasks ?s1 t) \<le> timer_ticks ?s1 c" "home_cpu (tasks ?s1 t) = c"
    using f(3,4,11,13) t by (simp_all add: s2(3))
  let ?s3 = "upd_task t (\<lambda>k. k\<lparr>sleep_deadline := 0, tstate := TASK_STATE_READY\<rparr>) ?s1"
  have "s' = upd_cpu c (\<lambda>l. l\<lparr>sleepq := []\<rparr>) (rq_enqueue c t ?s3)"
    using sl by (simp add: s'_def sleep_queue_wake_expired_def rq_enqueue_external_def)
  then show "tnext (tasks s' t) = t" "tprev (tasks s' t) = t"
    using enqueue_tail_again [of ?s3 c t] tail tb(1) by simp_all
qed

text \<open>
  The stack probe covers the pages of the saved frame but not the restorer slot below it: for a
  page-aligned frame address the slot lies in the page before, which is never checked.
\<close>

lemma restorer_slot_not_probed:
  "frame_addr 0x8000C8 = 0x800000" "stack_probe 0x800000 = [0x800000]" "(0x800000 - 8 :: u64) AND NOT 0xFFF = 0x7FF000"
  by (simp_all add: frame_addr_def stack_probe_def probe_pages_def FRAME_SIZE_def)

text \<open>Any flags a user writes into the saved frame are accepted, the I/O privilege level included.\<close>

lemma sigreturn_accepts_iopl:
  "signal_sigreturn (demo_frame\<lparr>fr_userrsp := 0x5000\<rparr>) (store_words 0x5000 (frame_words (demo_frame\<lparr>fr_qflags := 0x3202\<rparr>)) (\<lambda>_. 0))
    = Inr (demo_frame\<lparr>fr_qflags := 0x3202\<rparr>)"
proof -
  let ?f = "demo_frame\<lparr>fr_qflags := 0x3202\<rparr>"
  have "length (frame_words ?f) = 25" by (simp add: frame_words_def)
  then have "load_words 0x5000 25 (store_words 0x5000 (frame_words ?f) (\<lambda>_. 0)) = frame_words ?f"
    using load_store_words [of "frame_words ?f" "0x5000"] by simp
  then show ?thesis by (simp add: signal_sigreturn_def Let_def words_frame_words) (simp add: demo_frame_def)
qed

end
