(* ===== verification/Waiters.thy ===== *)
theory Waiters
  imports Scheduler_Props
begin

text \<open>
  Tasks parked on waiter queues.  Mutexes, pipes and terminals block a task by linking it into
  a queue of their own through the fields the run queues use, and wake it with the same two
  statements (\<^verbatim>\<open>w->state = TASK_STATE_READY; rq_enqueue_external(w);\<close>).  \<open>parked s Q ws\<close> says
  that the run queues are \<open>Q\<close> and that the queues \<open>ws\<close> hold disjoint blocked tasks; the lemmas
  carry it through parking, popping, waking and the context switch.
\<close>

section \<open>Parked tasks\<close>

type_synonym waiters = "(tqueue \<times> tptr list) list"

definition waiting :: "waiters \<Rightarrow> tptr set" where
  "waiting ws = set (concat (map snd ws))"

lemma waiting_simps [simp]: "waiting [] = {}" "waiting (w # ws) = set (snd w) \<union> waiting ws"
  by (auto simp: waiting_def)

lemma waitingI: "(q, xs) \<in> set ws \<Longrightarrow> x \<in> set xs \<Longrightarrow> x \<in> waiting ws"
  by (force simp: waiting_def)

fun apart :: "waiters \<Rightarrow> bool" where
  "apart [] \<longleftrightarrow> True"
| "apart (w # ws) \<longleftrightarrow> distinct (snd w) \<and> set (snd w) \<inter> waiting ws = {} \<and> apart ws"

definition parked :: "sched \<Rightarrow> (nat \<Rightarrow> tptr list) \<Rightarrow> waiters \<Rightarrow> bool" where
  "parked s Q ws \<longleftrightarrow> sched_inv s Q \<and> apart ws \<and>
     (\<forall>(q, xs)\<in>set ws. queue_rep (tasks s) q xs) \<and>
     (\<forall>t\<in>waiting ws. tstate (tasks s t) = TASK_STATE_BLOCKED \<and> (\<forall>d. t \<notin> set (sleepq (cpus s d))))"

lemma parkedD:
  assumes "parked s Q ws"
  shows "sched_inv s Q" "apart ws" "(q, xs) \<in> set ws \<Longrightarrow> queue_rep (tasks s) q xs"
    "t \<in> waiting ws \<Longrightarrow> tstate (tasks s t) = TASK_STATE_BLOCKED"
    "t \<in> waiting ws \<Longrightarrow> t \<notin> set (sleepq (cpus s d))"
    "t \<in> waiting ws \<Longrightarrow> t \<notin> set (Q d)"
  using assms running_not_queued [of s Q t d] unfolding parked_def by auto

lemma parked_swap: "parked s Q (a # b # ws) \<longleftrightarrow> parked s Q (b # a # ws)"
  unfolding parked_def by auto

lemma parked_rotate: "parked s Q (a # b # c # ws) \<longleftrightarrow> parked s Q (c # a # b # ws)"
  unfolding parked_def by auto

lemma parked_empty: "sched_inv s Q \<Longrightarrow> parked s Q ws \<Longrightarrow> parked s Q ((empty_queue, []) # ws)"
  unfolding parked_def by auto

lemma parked_tl: "parked s Q (w # ws) \<Longrightarrow> parked s Q ws"
  unfolding parked_def by auto

text \<open>A heap that differs only in the links of tasks outside the run and sleep queues keeps them.\<close>

lemma sched_inv_relink:
  assumes "sched_inv s Q" and "\<And>x. same_but_links (tasks s x) (h x)" and "\<And>x d. x \<in> set (Q d) \<Longrightarrow> h x = tasks s x"
  shows "sched_inv (s\<lparr>tasks := h\<rparr>) Q"
proof -
  have st: "tstate (h x) = tstate (tasks s x)" for x using same_but_linksD(2) [OF assms(2)] .
  have "runqs (s\<lparr>tasks := h\<rparr>) Q" by (rule runqs_frame [of s]) (use assms in \<open>auto simp: sched_inv_def\<close>)
  moreover have "sleepers (s\<lparr>tasks := h\<rparr>)" by (rule sleepers_frame [of s]) (use assms(1) st in \<open>auto simp: sched_inv_def\<close>)
  ultimately show ?thesis by (simp add: sched_inv_def)
qed

text \<open>So does one that differs only at tasks outside them.\<close>

lemma sched_inv_outside:
  assumes "sched_inv s Q" and "\<And>x d. x \<in> set (Q d) \<Longrightarrow> h x = tasks s x"
    and "\<And>x d. x \<in> set (sleepq (cpus s d)) \<Longrightarrow> h x = tasks s x"
  shows "sched_inv (s\<lparr>tasks := h\<rparr>) Q"
proof -
  have "runqs (s\<lparr>tasks := h\<rparr>) Q" by (rule runqs_frame [of s]) (use assms in \<open>auto simp: sched_inv_def\<close>)
  moreover have "sleepers (s\<lparr>tasks := h\<rparr>)" by (rule sleepers_frame [of s]) (use assms in \<open>auto simp: sched_inv_def\<close>)
  ultimately show ?thesis by (simp add: sched_inv_def)
qed

text \<open>The general frame rule: the queues of \<open>ws\<close> survive whatever leaves their links and states alone.\<close>

lemma parked_frame:
  assumes "parked s Q ws" and "sched_inv s' Q'"
    and "\<And>x. x \<in> waiting ws \<Longrightarrow> tnext (tasks s' x) = tnext (tasks s x) \<and>
      tprev (tasks s' x) = tprev (tasks s x) \<and> tstate (tasks s' x) = tstate (tasks s x)"
    and "\<And>d. set (sleepq (cpus s' d)) \<inter> waiting ws = {}"
  shows "parked s' Q' ws"
  unfolding parked_def
proof (intro conjI ballI)
  show "sched_inv s' Q'" by fact
  show "apart ws" by (rule parkedD(2) [OF assms(1)])
  fix w assume w: "w \<in> set ws"
  obtain q xs where qx: "w = (q, xs)" by fastforce
  have "queue_rep (tasks s) q xs" using parkedD(3) [OF assms(1)] w qx by simp
  moreover have "queue_rep (tasks s') q xs = queue_rep (tasks s) q xs"
    by (rule queue_rep_cong) (use assms(3) w qx waitingI in blast)
  ultimately show "case w of (q, xs) \<Rightarrow> queue_rep (tasks s') q xs" using qx by simp
next
  fix t assume t: "t \<in> waiting ws"
  show "tstate (tasks s' t) = TASK_STATE_BLOCKED" using assms(3) [OF t] parkedD(4) [OF assms(1) t] by simp
  show "\<forall>d. t \<notin> set (sleepq (cpus s' d))" using assms(4) t by blast
qed

section \<open>Waking\<close>

definition wake_task :: "tptr \<Rightarrow> sched \<Rightarrow> sched" where
  "wake_task t s = rq_enqueue_external t (upd_task t (\<lambda>k. k\<lparr>tstate := TASK_STATE_READY\<rparr>) s)"

definition wake_opt :: "tptr \<Rightarrow> sched \<Rightarrow> sched" where
  "wake_opt t s = (if t \<noteq> NULL then wake_task t s else s)"

text \<open>A task that is on no queue.\<close>

definition detached :: "sched \<Rightarrow> (nat \<Rightarrow> tptr list) \<Rightarrow> waiters \<Rightarrow> tptr \<Rightarrow> bool" where
  "detached s Q ws t \<longleftrightarrow> t \<noteq> NULL \<and> (\<forall>d. t \<notin> set (Q d)) \<and> (\<forall>d. t \<notin> set (sleepq (cpus s d))) \<and> t \<notin> waiting ws"

lemma wake_task_parked:
  assumes p: "parked s Q ws" and t: "detached s Q ws t"
  shows "parked (wake_task t s) (enqueue_home s t Q) ws" and "tstate (tasks (wake_task t s) t) = TASK_STATE_READY"
    and "x \<noteq> t \<Longrightarrow> tstate (tasks (wake_task t s) x) = tstate (tasks s x)"
    and "cpu_current (cpus (wake_task t s) c) = cpu_current (cpus s c)"
    and "pending_signals (tasks (wake_task t s) y) = pending_signals (tasks s y)"
    and "home_cpu (tasks (wake_task t s) y) = home_cpu (tasks s y)"
    and "sleepq (cpus (wake_task t s) c) = sleepq (cpus s c)"
    and "y \<noteq> t \<Longrightarrow> (\<And>d. y \<notin> set (Q d)) \<Longrightarrow> tasks (wake_task t s) y = tasks s y"
proof -
  note i = parkedD [OF p]
  let ?s2 = "upd_task t (\<lambda>k. k\<lparr>tstate := TASK_STATE_READY\<rparr>) s"
  let ?c = "home_cpu (tasks s t)"
  have t': "t \<noteq> NULL" "\<And>d. t \<notin> set (Q d)" "\<And>d. t \<notin> set (sleepq (cpus s d))" "t \<notin> waiting ws"
    using t by (auto simp: detached_def)
  have r2: "runqs ?s2 Q" using upd_task_runqs [of s Q t] i(1) t'(2) by (simp add: sched_inv_def)
  have l2: "sleepers ?s2" using upd_task_sleepers [of s t] i(1) t'(3) by (simp add: sched_inv_def)
  have w: "wake_task t s = rq_enqueue ?c t ?s2" by (simp add: wake_task_def rq_enqueue_external_def)
  have e: "runqs (wake_task t s) (enqueue_home s t Q)" "same_sched ?s2 (wake_task t s)"
    using rq_enqueue_runqs [OF r2 t'(1,2), of ?c] by (simp_all add: enqueue_home_def w)
  have inv: "sched_inv (wake_task t s) (enqueue_home s t Q)"
    using e(1) sleepers_same_sched [OF l2 e(2)] by (simp add: sched_inv_def)
  have frame: "tasks (wake_task t s) x = tasks s x" if "x \<noteq> t" "x \<notin> set (Q ?c)" for x
  proof -
    obtain h3 q3 where hq: "rq_enqueue_locked t (tasks ?s2, rq (cpus ?s2 ?c)) = (h3, q3)" by fastforce
    have "h3 x = tasks ?s2 x" using runq.enq_frame [OF runqsD(1) [OF r2] t'(1,2) hq] that by blast
    moreover have "tasks (wake_task t s) = h3" using hq by (simp add: w rq_enqueue_def)
    ultimately show ?thesis using that by simp
  qed
  then show "y \<noteq> t \<Longrightarrow> (\<And>d. y \<notin> set (Q d)) \<Longrightarrow> tasks (wake_task t s) y = tasks s y" by blast
  have keep: "tasks (wake_task t s) x = tasks s x" if x: "x \<in> waiting ws" for x
    using frame [of x] t'(4) i(6) [OF x] x by blast
  show sl: "sleepq (cpus (wake_task t s) c) = sleepq (cpus s c)" for c using same_schedD(11) [OF e(2)] by simp
  show "parked (wake_task t s) (enqueue_home s t Q) ws"
    by (rule parked_frame [OF p inv]) (use keep sl i(5) in auto)
  show "tstate (tasks (wake_task t s) t) = TASK_STATE_READY" using same_schedD(2) [OF e(2), of t] by simp
  show "x \<noteq> t \<Longrightarrow> tstate (tasks (wake_task t s) x) = tstate (tasks s x)" using same_schedD(2) [OF e(2), of x] by simp
  show "cpu_current (cpus (wake_task t s) c) = cpu_current (cpus s c)" using same_schedD(10) [OF e(2)] by simp
  show "pending_signals (tasks (wake_task t s) y) = pending_signals (tasks s y)" using same_schedD(9) [OF e(2), of y] by simp
  show "home_cpu (tasks (wake_task t s) y) = home_cpu (tasks s y)" using same_schedD(3) [OF e(2), of y] by simp
qed

section \<open>The queue operations\<close>

context task_fifo
begin

lemma pop_parked:
  assumes p: "parked s Q ((q, t # xs) # ws)" and e: "pop (tasks s, q) = (t', h, q')"
  shows "t' = t" and "parked (s\<lparr>tasks := h\<rparr>) Q ((q', xs) # ws)" and "detached (s\<lparr>tasks := h\<rparr>) Q ((q', xs) # ws) t"
    and "\<And>x. same_but_links (tasks s x) (h x)" and "tnext (h t) = NULL \<and> tprev (h t) = NULL"
proof -
  note i = parkedD [OF p]
  have q: "queue_rep (tasks s) q (t # xs)" using i(3) by simp
  note r = pop_rep [OF q e] and f = pop_frame [OF q e]
  show "t' = t" "tnext (h t) = NULL \<and> tprev (h t) = NULL" "\<And>x. same_but_links (tasks s x) (h x)" using r f by auto
  have nQ: "h x = tasks s x" if "x \<in> set (Q d)" for x d using f [of x] i(6) [of x d] that by auto
  have inv: "sched_inv (s\<lparr>tasks := h\<rparr>) Q" by (rule sched_inv_relink [OF i(1)]) (use f nQ in auto)
  have hw: "h x = tasks s x" if "x \<in> waiting ws" for x using f [of x] i(2) that by auto
  have "parked (s\<lparr>tasks := h\<rparr>) Q ws"
    by (rule parked_frame [OF parked_tl [OF p] inv]) (use hw i(5) in auto)
  moreover have "tstate (h x) = TASK_STATE_BLOCKED" if "x \<in> set xs" for x
    using same_but_linksD(2) [of "tasks s x" "h x"] f i(4) [of x] that by auto
  ultimately show "parked (s\<lparr>tasks := h\<rparr>) Q ((q', xs) # ws)"
    using r i(2,5) by (auto simp: parked_def)
  show "detached (s\<lparr>tasks := h\<rparr>) Q ((q', xs) # ws) t"
    using queue_repD(1) [OF q] i(2) i(5,6) [of t] by (auto simp: detached_def)
qed

lemma pop_parked_empty:
  assumes "parked s Q ((q, []) # ws)"
  shows "pop (tasks s, q) = (NULL, tasks s, q)" and "q = empty_queue"
proof -
  show "q = empty_queue" using parkedD(3) [OF assms, of q "[]"] by simp
  then show "pop (tasks s, q) = (NULL, tasks s, q)" using pop_empty by simp
qed

text \<open>Popping a waiter, if there is one, and waking it.\<close>

lemma pop_wake_parked:
  assumes p: "parked s Q ((q, xs) # ws)" and e: "pop (tasks s, q) = (t, h, q')"
  shows "t = hd (xs @ [NULL])"
    and "parked (wake_opt t (s\<lparr>tasks := h\<rparr>)) (if xs = [] then Q else enqueue_home s (hd xs) Q) ((q', tl xs) # ws)"
    and "xs \<noteq> [] \<Longrightarrow> tstate (tasks (wake_opt t (s\<lparr>tasks := h\<rparr>)) (hd xs)) = TASK_STATE_READY"
    and "xs = [] \<or> x \<noteq> hd xs \<Longrightarrow> tstate (tasks (wake_opt t (s\<lparr>tasks := h\<rparr>)) x) = tstate (tasks s x)"
    and "cpu_current (cpus (wake_opt t (s\<lparr>tasks := h\<rparr>)) c) = cpu_current (cpus s c)"
    and "sleepq (cpus (wake_opt t (s\<lparr>tasks := h\<rparr>)) c) = sleepq (cpus s c)"
    and "home_cpu (tasks (wake_opt t (s\<lparr>tasks := h\<rparr>)) y) = home_cpu (tasks s y)"
proof -
  have "t = hd (xs @ [NULL]) \<and>
    parked (wake_opt t (s\<lparr>tasks := h\<rparr>)) (if xs = [] then Q else enqueue_home s (hd xs) Q) ((q', tl xs) # ws) \<and>
    (xs \<noteq> [] \<longrightarrow> tstate (tasks (wake_opt t (s\<lparr>tasks := h\<rparr>)) (hd xs)) = TASK_STATE_READY) \<and>
    (xs = [] \<or> x \<noteq> hd xs \<longrightarrow> tstate (tasks (wake_opt t (s\<lparr>tasks := h\<rparr>)) x) = tstate (tasks s x)) \<and>
    cpu_current (cpus (wake_opt t (s\<lparr>tasks := h\<rparr>)) c) = cpu_current (cpus s c) \<and>
    sleepq (cpus (wake_opt t (s\<lparr>tasks := h\<rparr>)) c) = sleepq (cpus s c) \<and>
    home_cpu (tasks (wake_opt t (s\<lparr>tasks := h\<rparr>)) y) = home_cpu (tasks s y)" for x y c
  proof (cases xs)
    case Nil
    then show ?thesis using pop_parked_empty [of s Q q ws] p e by (simp add: wake_opt_def)
  next
    case (Cons u us)
    note pp = pop_parked [OF p [unfolded Cons] e]
    have u: "u \<noteq> NULL" using pp(3) by (simp add: detached_def)
    have hc: "home_cpu (h y) = home_cpu (tasks s y)" "tstate (h y) = tstate (tasks s y)" for y
      using same_but_linksD [OF pp(4), of y] by simp_all
    have eh: "enqueue_home (s\<lparr>tasks := h\<rparr>) u Q = enqueue_home s u Q" by (simp add: enqueue_home_def hc)
    show ?thesis using wake_task_parked [OF pp(2,3)] Cons pp(1) u hc eh by (auto simp: wake_opt_def)
  qed
  then show "t = hd (xs @ [NULL])"
    "parked (wake_opt t (s\<lparr>tasks := h\<rparr>)) (if xs = [] then Q else enqueue_home s (hd xs) Q) ((q', tl xs) # ws)"
    "xs \<noteq> [] \<Longrightarrow> tstate (tasks (wake_opt t (s\<lparr>tasks := h\<rparr>)) (hd xs)) = TASK_STATE_READY"
    "xs = [] \<or> x \<noteq> hd xs \<Longrightarrow> tstate (tasks (wake_opt t (s\<lparr>tasks := h\<rparr>)) x) = tstate (tasks s x)"
    "cpu_current (cpus (wake_opt t (s\<lparr>tasks := h\<rparr>)) c) = cpu_current (cpus s c)"
    "sleepq (cpus (wake_opt t (s\<lparr>tasks := h\<rparr>)) c) = sleepq (cpus s c)"
    "home_cpu (tasks (wake_opt t (s\<lparr>tasks := h\<rparr>)) y) = home_cpu (tasks s y)" by blast+
qed

text \<open>A running task that links itself in and blocks.\<close>

lemma enq_parked:
  assumes p: "parked s Q ((q, xs) # ws)" and me: "me \<noteq> NULL" "tstate (tasks s me) = TASK_STATE_RUNNING"
    and e: "enq me (tasks s, q) = (h, q')"
  defines "s' \<equiv> upd_task me (\<lambda>k. k\<lparr>tstate := TASK_STATE_BLOCKED\<rparr>) (s\<lparr>tasks := h\<rparr>)"
  shows "parked s' Q ((q', xs @ [me]) # ws)" and "\<And>x. same_but_links (tasks s x) (h x)"
proof -
  note i = parkedD [OF p]
  have q: "queue_rep (tasks s) q xs" using i(3) by simp
  have n: "me \<notin> waiting ((q, xs) # ws)" using i(4) [of me] me(2) by auto
  then have nx: "me \<notin> set xs" and nw: "me \<notin> waiting ws" by auto
  have nq: "me \<notin> set (Q d)" and ns: "me \<notin> set (sleepq (cpus s d))" for d
    using running_not_queued [OF i(1)] awake_not_sleeping [OF i(1)] me(2) by simp_all
  note r = enq_rep [OF q me(1) nx e] and f = enq_frame [OF q me(1) nx e]
  show "\<And>x. same_but_links (tasks s x) (h x)" using f by blast
  have nQ: "h x = tasks s x" if "x \<in> set (Q d)" for x d using f [of x] i(6) [of x d] nq [of d] that by auto
  have "sched_inv (s\<lparr>tasks := h\<rparr>) Q" by (rule sched_inv_relink [OF i(1)]) (use f nQ in auto)
  then have inv: "sched_inv s' Q"
    using upd_task_runqs [of "s\<lparr>tasks := h\<rparr>" Q me] upd_task_sleepers [of "s\<lparr>tasks := h\<rparr>" me] nq ns
    by (simp add: sched_inv_def s'_def)
  have hw: "h x = tasks s x" if "x \<in> waiting ws" for x using f [of x] i(2) nw that by auto
  have pw: "parked s' Q ws"
    by (rule parked_frame [OF parked_tl [OF p] inv]) (use hw nw i(5) in \<open>auto simp: s'_def\<close>)
  have st: "tstate (h x) = TASK_STATE_BLOCKED" if "x \<in> set xs" for x
    using same_but_linksD(2) [of "tasks s x" "h x"] f i(4) [of x] that by auto
  have "queue_rep (tasks s') q' (xs @ [me]) = queue_rep h q' (xs @ [me])"
    by (rule queue_rep_cong) (simp add: s'_def)
  then have "queue_rep (tasks s') q' (xs @ [me])" using r by simp
  then show "parked s' Q ((q', xs @ [me]) # ws)"
    using pw i(2,5) nx nw st ns by (auto simp: parked_def s'_def)
qed

end

context task_fifo_remove
begin

text \<open>A waiter that a peer has popped finds nothing to splice out when it runs again.\<close>

lemma remove_popped:
  assumes "parked s Q ((q, xs) # ws)" and "me \<notin> set xs" "me \<noteq> NULL" "tnext (tasks s me) = NULL" "tprev (tasks s me) = NULL"
  shows "remove me (tasks s, q) = (tasks s, q)"
  using remove_absent [of "tasks s" q xs me] assms(2-5) parkedD(3) [OF assms(1), of q xs] by simp

end

section \<open>Giving up the CPU\<close>

lemma schedule_parked:
  assumes p: "parked s Q ws" and b: "tstate (tasks s (cpu_current (cpus s c))) \<noteq> TASK_STATE_RUNNING"
    and e: "schedule c s = (r, s')"
  shows "\<exists>Q'. parked s' Q' ws"
    and "x \<in> waiting ws \<Longrightarrow> tstate (tasks s' x) = tstate (tasks s x)"
proof -
  note i = parkedD [OF p]
  have fr: "tnext (tasks s' x) = tnext (tasks s x) \<and> tprev (tasks s' x) = tprev (tasks s x) \<and>
      tstate (tasks s' x) = tstate (tasks s x)" if x: "x \<in> waiting ws" for x
    using schedule_frame [OF i(1) b i(6) [OF x] e] by simp
  then show "x \<in> waiting ws \<Longrightarrow> tstate (tasks s' x) = tstate (tasks s x)" by blast
  have sl: "sleepq (cpus s' d) \<noteq> sleepq (cpus s d) \<Longrightarrow> waiting ws = {}" for d
    using schedule_frame(5) [OF i(1) b i(6) e, of _ d] by blast
  have dis: "set (sleepq (cpus s' d)) \<inter> waiting ws = {}" for d
    using sl [of d] i(5) [of _ d] by (cases "sleepq (cpus s' d) = sleepq (cpus s d)") auto
  have "\<exists>Q'. sched_inv s' Q'"
  proof (cases "Q c")
    case Nil
    obtain s3 where "schedule c s = (if cpu_current (cpus s c) \<noteq> NULL \<and>
        tstate (tasks s (cpu_current (cpus s c))) \<noteq> TASK_STATE_RUNNING then Halted else Kept, s3)" "sched_inv s3 Q"
      by (rule schedule_empty [OF i(1) Nil]) (rule that)
    then show ?thesis using e by auto
  next
    case (Cons t ts)
    obtain s3 where "schedule c s = (Switched, s3)" "sched_inv s3 (requeue s (cpu_current (cpus s c)) (Q(c := ts)))"
      by (rule schedule_next [OF i(1) Cons]) (rule that)
    then show ?thesis using e by auto
  qed
  then obtain Q' where "sched_inv s' Q'" ..
  then show "\<exists>Q'. parked s' Q' ws" using parked_frame [OF p _ fr dis] by blast
qed

end
