(* ===== verification/Mutex.thy ===== *)
theory Mutex
  imports Signal_Props Waiters
begin

text \<open>
  \<^verbatim>\<open>multi/mutex.c\<close>: the blocking mutex; waiting tasks are linked through their run-queue fields.
  The section under the guard spinlock is one step.  What follows after the guard is released,
  \<^verbatim>\<open>schedule\<close> in \<^verbatim>\<open>mutex_lock\<close> and \<^verbatim>\<open>rq_enqueue_external\<close> in \<^verbatim>\<open>mutex_unlock\<close>, is a step of its own.
\<close>

section \<open>Operations\<close>

record mutex =
  mlocked :: bool
  mowner :: tptr
  mwait :: tqueue

definition mutex_init :: mutex where
  "mutex_init = \<lparr>mlocked = False, mowner = NULL, mwait = \<lparr>qhead = NULL, qtail = NULL\<rparr>\<rparr>"

definition mutex_enqueue :: "tptr \<Rightarrow> theap \<times> tqueue \<Rightarrow> theap \<times> tqueue" where
  "mutex_enqueue me hq =
     (let (h, q) = hq;
          h = h(me := (h me)\<lparr>tnext := NULL\<rparr>);
          h = h(me := (h me)\<lparr>tprev := qtail q\<rparr>);
          (h, q) = (if qtail q \<noteq> NULL then (h(qtail q := (h (qtail q))\<lparr>tnext := me\<rparr>), q)
                    else (h, q\<lparr>qhead := me\<rparr>))
      in (h, q\<lparr>qtail := me\<rparr>))"

definition mutex_dequeue :: "theap \<times> tqueue \<Rightarrow> tptr \<times> theap \<times> tqueue" where
  "mutex_dequeue hq =
     (let (h, q) = hq; waiter = qhead q in
      if waiter = NULL then (NULL, h, q)
      else
        let q = q\<lparr>qhead := tnext (h waiter)\<rparr>;
            (h, q) = (if qhead q \<noteq> NULL then (h(qhead q := (h (qhead q))\<lparr>tprev := NULL\<rparr>), q)
                      else (h, q\<lparr>qtail := NULL\<rparr>))
        in (waiter, h(waiter := (h waiter)\<lparr>tnext := NULL, tprev := NULL\<rparr>), q))"

text \<open>
  The guarded section of \<^verbatim>\<open>mutex_lock\<close> on CPU \<open>c\<close>: \<open>True\<close> if the caller got the mutex; otherwise it
  is parked and gives up the CPU in the step that follows, and its call returns when it runs
  again.
\<close>

definition mutex_lock_guarded :: "nat \<Rightarrow> mutex \<times> sched \<Rightarrow> bool \<times> mutex \<times> sched" where
  "mutex_lock_guarded c ms =
     (let (m, s) = ms; me = cpu_current (cpus s c) in
      if \<not> mlocked m then (True, m\<lparr>mlocked := True, mowner := me\<rparr>, s)
      else
        let (h, q) = mutex_enqueue me (tasks s, mwait m);
            s = upd_task me (\<lambda>k. k\<lparr>tstate := TASK_STATE_BLOCKED\<rparr>) (s\<lparr>tasks := h\<rparr>)
        in (False, m\<lparr>mwait := q\<rparr>, s))"

definition mutex_lock :: "nat \<Rightarrow> mutex \<times> sched \<Rightarrow> bool \<times> mutex \<times> sched" where
  "mutex_lock c ms =
     (let (got, m, s) = mutex_lock_guarded c ms in (got, m, if got then s else snd (schedule c s)))"

text \<open>The guarded section of \<^verbatim>\<open>mutex_unlock\<close>: the task that now owns the mutex and is to be queued, or NULL.\<close>

definition mutex_unlock_guarded :: "mutex \<times> sched \<Rightarrow> tptr \<times> mutex \<times> sched" where
  "mutex_unlock_guarded ms =
     (let (m, s) = ms;
          (waiter, h, q) = mutex_dequeue (tasks s, mwait m)
      in if waiter \<noteq> NULL then
           let s = upd_task waiter (\<lambda>k. k\<lparr>tstate := TASK_STATE_READY\<rparr>) (s\<lparr>tasks := h\<rparr>)
           in (waiter, m\<lparr>mwait := q, mowner := waiter\<rparr>, s)
         else (NULL, m\<lparr>mlocked := False, mowner := NULL\<rparr>, s))"

definition mutex_unlock :: "mutex \<times> sched \<Rightarrow> mutex \<times> sched" where
  "mutex_unlock ms =
     (let (waiter, m, s) = mutex_unlock_guarded ms
      in (m, if waiter \<noteq> NULL then rq_enqueue_external waiter s else s))"

section \<open>The wait queue implements the queue interface\<close>

lemma mutex_enqueue_link: "mutex_enqueue = link_tail"
  by (auto simp: fun_eq_iff mutex_enqueue_def link_tail_def Let_def split: prod.splits)

lemma mutex_dequeue_unlink: "mutex_dequeue = unlink_head"
  by (auto simp: fun_eq_iff mutex_dequeue_def unlink_head_def Let_def split: prod.splits)

interpretation mutexq: task_fifo mutex_enqueue mutex_dequeue
  unfolding mutex_enqueue_link mutex_dequeue_unlink by unfold_locales

section \<open>The invariant\<close>

definition mutex_inv :: "mutex \<Rightarrow> sched \<Rightarrow> (nat \<Rightarrow> tptr list) \<Rightarrow> tptr list \<Rightarrow> bool" where
  "mutex_inv m s Q ws \<longleftrightarrow> sched_inv s Q \<and> queue_rep (tasks s) (mwait m) ws \<and>
     (mlocked m \<longleftrightarrow> mowner m \<noteq> NULL) \<and> (ws \<noteq> [] \<longrightarrow> mlocked m) \<and> mowner m \<notin> set ws \<and>
     (\<forall>t\<in>set ws. tstate (tasks s t) = TASK_STATE_BLOCKED \<and> (\<forall>d. t \<notin> set (sleepq (cpus s d))))"

lemma mutex_invD:
  assumes "mutex_inv m s Q ws"
  shows "sched_inv s Q" "queue_rep (tasks s) (mwait m) ws" "mlocked m \<longleftrightarrow> mowner m \<noteq> NULL" "ws \<noteq> [] \<Longrightarrow> mlocked m"
    "mowner m \<notin> set ws" "t \<in> set ws \<Longrightarrow> tstate (tasks s t) = TASK_STATE_BLOCKED"
    "t \<in> set ws \<Longrightarrow> t \<notin> set (sleepq (cpus s d))" "t \<in> set ws \<Longrightarrow> t \<notin> set (Q d)"
  using assms running_not_queued [of s Q t d] unfolding mutex_inv_def by auto

lemma mutex_inv_parked:
  "mutex_inv m s Q ws \<longleftrightarrow> parked s Q [(mwait m, ws)] \<and> (mlocked m \<longleftrightarrow> mowner m \<noteq> NULL) \<and>
     (ws \<noteq> [] \<longrightarrow> mlocked m) \<and> mowner m \<notin> set ws"
  using queue_repD(2) [of "tasks s" "mwait m" ws] by (auto simp: mutex_inv_def parked_def)

lemma unlock_handoff:
  assumes inv: "mutex_inv m s Q (t # ws)"
  obtains m' s' where "mutex_unlock_guarded (m, s) = (t, m', s')" "mutex_inv m' s' Q ws" "mowner m' = t"
    "mlocked m'" "tstate (tasks s' t) = TASK_STATE_READY" "\<forall>d. t \<notin> set (Q d)"
proof -
  have p: "parked s Q [(mwait m, t # ws)]" and l: "mlocked m" using inv unfolding mutex_inv_parked by blast+
  obtain t' h q where d: "mutex_dequeue (tasks s, mwait m) = (t', h, q)" by (metis prod_cases3)
  note w = mutexq.pop_parked [OF p d]
  have n: "t \<noteq> NULL" "t \<notin> set ws" "\<And>d. t \<notin> set (Q d)" "\<And>d. t \<notin> set (sleepq (cpus s d))"
    using w(3) by (auto simp: detached_def)
  let ?s = "upd_task t (\<lambda>k. k\<lparr>tstate := TASK_STATE_READY\<rparr>) (s\<lparr>tasks := h\<rparr>)"
  have "sched_inv ?s Q" using parkedD(1) [OF w(2)] n(3,4) unfolding sched_inv_def
    by (auto intro: upd_task_runqs upd_task_sleepers)
  then have "parked ?s Q [(q, ws)]" by (rule parked_frame [OF w(2)]) (use n(2) parkedD(5) [OF w(2)] in auto)
  then have "mutex_inv (m\<lparr>mwait := q, mowner := t\<rparr>) ?s Q ws" using l n by (simp add: mutex_inv_parked)
  moreover have "mutex_unlock_guarded (m, s) = (t, m\<lparr>mwait := q, mowner := t\<rparr>, ?s)"
    using d w(1) n(1) by (simp add: mutex_unlock_guarded_def Let_def)
  ultimately show ?thesis using that l n(3) by simp
qed

lemma unlock_free:
  assumes inv: "mutex_inv m s Q []"
  shows "mutex_unlock_guarded (m, s) = (NULL, m\<lparr>mlocked := False, mowner := NULL\<rparr>, s)"
    and "mutex_inv (m\<lparr>mlocked := False, mowner := NULL\<rparr>) s Q []"
proof -
  have q: "mwait m = empty_queue" using mutex_invD(2) [OF inv] by simp
  then show "mutex_unlock_guarded (m, s) = (NULL, m\<lparr>mlocked := False, mowner := NULL\<rparr>, s)"
    using mutexq.pop_empty by (simp add: mutex_unlock_guarded_def)
  show "mutex_inv (m\<lparr>mlocked := False, mowner := NULL\<rparr>) s Q []" using inv by (simp add: mutex_inv_def)
qed

lemma lock_parks:
  assumes inv: "mutex_inv m s Q ws" and l: "mlocked m" and me: "running_on c s me" "me \<noteq> mowner m"
  obtains m' s' where "mutex_lock_guarded c (m, s) = (False, m', s')" "mutex_inv m' s' Q (ws @ [me])"
    "mowner m' = mowner m" "tstate (tasks s' me) = TASK_STATE_BLOCKED"
proof -
  have p: "parked s Q [(mwait m, ws)]" using inv by (simp add: mutex_inv_parked)
  have cur: "cpu_current (cpus s c) = me" "me \<noteq> NULL" "tstate (tasks s me) = TASK_STATE_RUNNING"
    using me by (simp_all add: running_on_def)
  obtain h q where e: "mutex_enqueue me (tasks s, mwait m) = (h, q)" by fastforce
  define s2 where "s2 = upd_task me (\<lambda>k. k\<lparr>tstate := TASK_STATE_BLOCKED\<rparr>) (s\<lparr>tasks := h\<rparr>)"
  have "parked s2 Q [(q, ws @ [me])]" unfolding s2_def by (rule mutexq.enq_parked(1) [OF p cur(2,3) e])
  then have "mutex_inv (m\<lparr>mwait := q\<rparr>) s2 Q (ws @ [me])"
    using l inv me(2) by (simp add: mutex_inv_parked)
  moreover have "mutex_lock_guarded c (m, s) = (False, m\<lparr>mwait := q\<rparr>, s2)"
    using l e cur(1) by (simp add: mutex_lock_guarded_def Let_def s2_def)
  ultimately show ?thesis using that by (simp add: s2_def)
qed

text \<open>The steps after the guard is released keep the mutex, whatever has happened in between.\<close>

lemma switch_keeps:
  assumes "mutex_inv m s Q ws" and "tstate (tasks s (cpu_current (cpus s c))) \<noteq> TASK_STATE_RUNNING"
  shows "\<exists>Q'. mutex_inv m (snd (schedule c s)) Q' ws"
  using schedule_parked(1) [of s Q "[(mwait m, ws)]" c "fst (schedule c s)" "snd (schedule c s)"] assms
  by (auto simp: mutex_inv_parked)

lemma enqueue_keeps:
  assumes inv: "mutex_inv m s Q ws" and t: "t \<noteq> NULL" "tstate (tasks s t) = TASK_STATE_READY" "\<forall>d. t \<notin> set (Q d)"
  shows "mutex_inv m (rq_enqueue_external t s) (enqueue_home s t Q) ws"
proof -
  have p: "parked s Q [(mwait m, ws)]" using inv by (simp add: mutex_inv_parked)
  have "upd_task t (\<lambda>k. k\<lparr>tstate := TASK_STATE_READY\<rparr>) s = s" using t(2) by (simp add: upd_task_def fun_upd_idem)
  then have "wake_task t s = rq_enqueue_external t s" by (simp add: wake_task_def)
  moreover have "detached s Q [(mwait m, ws)] t"
    using t mutex_invD(6) [OF inv, of t] awake_not_sleeping [OF mutex_invD(1) [OF inv], of t] by (auto simp: detached_def)
  ultimately show ?thesis using wake_task_parked(1) [OF p, of t] inv by (auto simp: mutex_inv_parked)
qed

section \<open>Properties of the mutex\<close>

text \<open>
  C19. The mutex is exclusive and fair, in every interleaving of its steps.  Locking a free mutex
  gives it to the caller; on a held one the caller (not the owner) is blocked at the end of the
  wait queue and the owner stays the owner.  Unlocking, by whatever task on whatever CPU, passes
  ownership directly to the longest waiting task, which is ready and on no run queue yet, so
  the mutex is never up for grabs while someone waits; with no waiter it becomes free.  The
  steps after the guard is released, giving up the CPU and queueing the new owner, keep wait
  queue, run queues and owner consistent in any later state.
\<close>

theorem mutex_correct:
  assumes "mutex_inv m s Q ws"
  shows "(\<forall>c me. running_on c s me \<and> me \<noteq> mowner m \<longrightarrow>
      (\<exists>m' s'. mutex_lock_guarded c (m, s) = (\<not> mlocked m, m', s') \<and> mlocked m' \<and>
         (if mlocked m
          then mutex_inv m' s' Q (ws @ [me]) \<and> mowner m' = mowner m \<and> tstate (tasks s' me) = TASK_STATE_BLOCKED
          else mutex_inv m' s' Q [] \<and> mowner m' = me \<and> s' = s))) \<and>
    (\<forall>c. tstate (tasks s (cpu_current (cpus s c))) \<noteq> TASK_STATE_RUNNING \<longrightarrow>
       (\<exists>Q'. mutex_inv m (snd (schedule c s)) Q' ws)) \<and>
    (case ws of
       [] \<Rightarrow> mutex_unlock_guarded (m, s) = (NULL, m\<lparr>mlocked := False, mowner := NULL\<rparr>, s) \<and>
             mutex_inv (m\<lparr>mlocked := False, mowner := NULL\<rparr>) s Q []
     | t # ts \<Rightarrow> \<exists>m' s'. mutex_unlock_guarded (m, s) = (t, m', s') \<and> mutex_inv m' s' Q ts \<and> mlocked m' \<and>
             mowner m' = t \<and> tstate (tasks s' t) = TASK_STATE_READY \<and> (\<forall>d. t \<notin> set (Q d))) \<and>
    (\<forall>t. t \<noteq> NULL \<and> tstate (tasks s t) = TASK_STATE_READY \<and> (\<forall>d. t \<notin> set (Q d)) \<longrightarrow>
       mutex_inv m (rq_enqueue_external t s) (enqueue_home s t Q) ws)"
proof (intro conjI allI impI, elim conjE)
  fix c me assume me: "running_on c s me" "me \<noteq> mowner m"
  show "\<exists>m' s'. mutex_lock_guarded c (m, s) = (\<not> mlocked m, m', s') \<and> mlocked m' \<and>
         (if mlocked m
          then mutex_inv m' s' Q (ws @ [me]) \<and> mowner m' = mowner m \<and> tstate (tasks s' me) = TASK_STATE_BLOCKED
          else mutex_inv m' s' Q [] \<and> mowner m' = me \<and> s' = s)"
  proof (cases "mlocked m")
    case True
    obtain m' s' where l: "mutex_lock_guarded c (m, s) = (False, m', s')" "mutex_inv m' s' Q (ws @ [me])"
      "mowner m' = mowner m" "tstate (tasks s' me) = TASK_STATE_BLOCKED" by (rule lock_parks [OF assms True me])
    moreover have "mlocked m'" using mutex_invD(4) [OF l(2)] by simp
    ultimately show ?thesis using True by auto
  next
    case False
    then have "ws = []" using mutex_invD(4) [OF assms] by blast
    then show ?thesis using False assms me unfolding mutex_inv_def
      by (intro exI [of _ "m\<lparr>mlocked := True, mowner := me\<rparr>"] exI [of _ s])
        (simp add: mutex_lock_guarded_def running_on_def)
  qed
next
  show "case ws of
       [] \<Rightarrow> mutex_unlock_guarded (m, s) = (NULL, m\<lparr>mlocked := False, mowner := NULL\<rparr>, s) \<and>
             mutex_inv (m\<lparr>mlocked := False, mowner := NULL\<rparr>) s Q []
     | t # ts \<Rightarrow> \<exists>m' s'. mutex_unlock_guarded (m, s) = (t, m', s') \<and> mutex_inv m' s' Q ts \<and> mlocked m' \<and>
             mowner m' = t \<and> tstate (tasks s' t) = TASK_STATE_READY \<and> (\<forall>d. t \<notin> set (Q d))"
  proof (cases ws)
    case Nil
    then show ?thesis using unlock_free assms by simp
  next
    case (Cons t ts)
    show ?thesis unfolding Cons list.case
      by (rule unlock_handoff [OF assms [unfolded Cons]]) blast
  qed
qed (use assms in \<open>auto intro: switch_keeps enqueue_keeps\<close>)

text \<open>Task 9 owns the mutex, task 1 queues up and gets it.\<close>

theorem mutex_correct_witness:
  "\<exists>m1 s1 m2 s2. mutex_lock_guarded 0 (mutex_init\<lparr>mlocked := True, mowner := 9\<rparr>, demo_sched) = (False, m1, s1) \<and>
     mutex_inv m1 s1 demo_queues [1] \<and> mowner m1 = 9 \<and> tstate (tasks s1 1) = TASK_STATE_BLOCKED \<and>
     mutex_unlock_guarded (m1, s1) = (1, m2, s2) \<and> mutex_inv m2 s2 demo_queues [] \<and> mowner m2 = 1 \<and>
     mutex_inv m2 (rq_enqueue_external 1 s2) (enqueue_home s2 1 demo_queues) []"
proof -
  let ?m = "mutex_init\<lparr>mlocked := True, mowner := 9\<rparr>"
  have i: "mutex_inv ?m demo_sched demo_queues []"
    using demo_inv by (simp add: mutex_inv_def mutex_init_def empty_queue_def)
  obtain m1 s1 where 1: "mutex_lock_guarded 0 (?m, demo_sched) = (False, m1, s1)" "mutex_inv m1 s1 demo_queues [1]"
    "mowner m1 = 9" "tstate (tasks s1 1) = TASK_STATE_BLOCKED"
    using conjunct1 [OF mutex_correct [OF i], rule_format, of 0 1] demo_running by auto
  obtain m2 s2 where 2: "mutex_unlock_guarded (m1, s1) = (1, m2, s2)" "mutex_inv m2 s2 demo_queues []"
    "mowner m2 = 1" "tstate (tasks s2 1) = TASK_STATE_READY" "\<forall>d. 1 \<notin> set (demo_queues d)"
    using mutex_correct [OF 1(2)] by auto
  have "mutex_inv m2 (rq_enqueue_external 1 s2) (enqueue_home s2 1 demo_queues) []"
    using mutex_correct [OF 2(2)] 2(4,5) by auto
  then show ?thesis using 1 2 by blast
qed

text \<open>
  A signal takes a waiter off the CPU-wait without giving it the mutex: it is ready to run and
  its \<^verbatim>\<open>mutex_lock\<close> will return although another task still owns the mutex.
\<close>

lemma signal_breaks_mutex_wait:
  assumes "mutex_inv m s Q ws" and "t \<in> set ws" and "signo_valid signo"
  shows "tstate (tasks (signal_send t signo s) t) = TASK_STATE_READY" and "mowner m \<noteq> t"
proof -
  note i = mutex_invD [OF assms(1)]
  have r: "runqs s Q" and t: "t \<noteq> NULL" "tstate (tasks s t) = TASK_STATE_BLOCKED"
    using i(1) queue_repD(1) [OF i(2)] i(6) assms(2) unfolding sched_inv_def by metis+
  obtain s2 where s2: "same_sched s2 (signal_send t signo s)"
    "s2 = upd_task t (\<lambda>k. k\<lparr>pending_signals := pending_signals k OR sig_bit signo, tstate := TASK_STATE_READY\<rparr>) s"
    by (rule signal_send_blocked [OF r t(1) assms(3) t(2)]) (rule that)
  show "tstate (tasks (signal_send t signo s) t) = TASK_STATE_READY" using same_schedD(2) [OF s2(1), of t] by (simp add: s2(2))
  show "mowner m \<noteq> t" using i(5) assms(2) by blast
qed

end
