(* ===== verification/Waitpid.thy ===== *)
theory Waitpid
  imports Mutex
begin

text \<open>
  \<^verbatim>\<open>multi/waitpid.c\<close>: waiting for children, against \<^verbatim>\<open>task_exit\<close> running concurrently on other
  CPUs.  \<^verbatim>\<open>do_waitpid\<close> is split where it drops its locks: the fast path, and the recheck that
  parks the caller under \<^verbatim>\<open>zombie_list_lock\<close>.
\<close>

section \<open>Operations\<close>

datatype wait_result =
    WaitReturn int "u64 option"   \<comment> \<open>the value returned, and the status written through the user pointer\<close>
  | WaitRecheck                   \<comment> \<open>nothing yet: go on to the locked recheck\<close>
  | WaitParked                    \<comment> \<open>blocked; the loop starts over when the caller runs again\<close>

definition want_pid :: "int \<Rightarrow> u64" where
  "want_pid target_pid = (if target_pid > 0 then word_of_int target_pid else 0)"

text \<open>Claim a zombie: read its status and identity, then free it.\<close>

definition reap :: "u64 \<Rightarrow> tptr \<Rightarrow> sched \<Rightarrow> wait_result \<times> sched" where
  "reap user_status z s =
     (let code = exit_code (tasks s z); pid = tpid (tasks s z)
      in (WaitReturn (sint pid) (if user_status \<noteq> 0 then Some code else None), free_dead_task z s))"

definition do_waitpid_fast :: "nat \<Rightarrow> int \<Rightarrow> u64 \<Rightarrow> sched \<Rightarrow> wait_result \<times> sched" where
  "do_waitpid_fast c target_pid user_status s =
     (if user_status \<noteq> 0 \<and> user_status \<ge> 0xFFFF800000000000 then (WaitReturn (- EINVAL) None, s)
      else
        let self = cpu_current (cpus s c); want = want_pid target_pid;
            (z, s) = zombie_list_take_locked self want s
        in if z \<noteq> NULL then reap user_status z s
           else if \<not> task_has_children self want s then (WaitReturn (- ECHILD) None, s)
           else (WaitRecheck, s))"

definition do_waitpid_recheck :: "nat \<Rightarrow> int \<Rightarrow> u64 \<Rightarrow> sched \<Rightarrow> wait_result \<times> sched" where
  "do_waitpid_recheck c target_pid user_status s =
     (let self = cpu_current (cpus s c); want = want_pid target_pid;
          (z, s) = zombie_list_take_locked self want s
      in if z \<noteq> NULL then reap user_status z s
         else (WaitParked, upd_task self (\<lambda>k. k\<lparr>wait_target := want, tstate := TASK_STATE_BLOCKED\<rparr>) s))"

text \<open>The part of \<^verbatim>\<open>task_exit\<close> before it gives up the CPU for good.\<close>

definition exit_task :: "tptr \<Rightarrow> u64 \<Rightarrow> sched \<Rightarrow> sched" where
  "exit_task cur code s =
     notify_parent cur (upd_task cur (\<lambda>k. k\<lparr>tstate := TASK_STATE_ZOMBIE\<rparr>)
       (detach_children cur (upd_task cur (\<lambda>k. k\<lparr>exit_code := code\<rparr>) s)))"

lemma task_exit_eq: "task_exit c code s = schedule c (exit_task (cpu_current (cpus s c)) code s)"
  by (simp add: task_exit_def exit_task_def Let_def)

section \<open>Interleavings\<close>

text \<open>
  \<open>wreach s W\<close>: the state \<open>s\<close> can arise, with \<open>W\<close> the tasks inside the park of a
  \<^verbatim>\<open>waitpid\<close> and the child each waits for (0 for any).  Any CPU may take the next step.  The
  last rule covers everything else the kernel does: it neither touches the zombie list nor
  the identity, parent or wait target of the tasks involved, and it does not block a task
  that is parked in \<^verbatim>\<open>waitpid\<close>, which is not running.
\<close>

inductive wreach :: "sched \<Rightarrow> (tptr \<rightharpoonup> u64) \<Rightarrow> bool" where
  start: "zombies s = [] \<Longrightarrow> wreach s Map.empty"
| fast: "wreach s W \<Longrightarrow> W (cpu_current (cpus s c)) = None \<Longrightarrow> do_waitpid_fast c pid st s = (r, s') \<Longrightarrow> wreach s' W"
| recheck_returns: "wreach s W \<Longrightarrow> W (cpu_current (cpus s c)) = None \<Longrightarrow>
    do_waitpid_recheck c pid st s = (WaitReturn v x, s') \<Longrightarrow> wreach s' W"
| recheck_parks: "wreach s W \<Longrightarrow> cpu_current (cpus s c) \<noteq> NULL \<Longrightarrow> W (cpu_current (cpus s c)) = None \<Longrightarrow>
    do_waitpid_recheck c pid st s = (WaitParked, s') \<Longrightarrow> wreach s' (W(cpu_current (cpus s c) \<mapsto> want_pid pid))"
| exit: "wreach s W \<Longrightarrow> W cur = None \<Longrightarrow> cur \<noteq> NULL \<Longrightarrow> wreach (exit_task cur code s) W"
| resume: "wreach s W \<Longrightarrow> tstate (tasks s p) \<noteq> TASK_STATE_BLOCKED \<Longrightarrow> wreach s (W(p := None))"
| other: "wreach s W \<Longrightarrow> zombies s' = zombies s \<Longrightarrow>
    \<forall>t. t \<in> set (zombies s) \<or> W t \<noteq> None \<longrightarrow> tparent (tasks s' t) = tparent (tasks s t) \<and>
      tpid (tasks s' t) = tpid (tasks s t) \<and> wait_target (tasks s' t) = wait_target (tasks s t) \<Longrightarrow>
    \<forall>t. W t \<noteq> None \<longrightarrow> tstate (tasks s' t) = TASK_STATE_BLOCKED \<longrightarrow> tstate (tasks s t) = TASK_STATE_BLOCKED \<Longrightarrow>
    wreach s' W"

definition wait_inv :: "sched \<Rightarrow> (tptr \<rightharpoonup> u64) \<Rightarrow> bool" where
  "wait_inv s W \<longleftrightarrow> W NULL = None \<and> NULL \<notin> set (zombies s) \<and> (\<forall>p want. W p = Some want \<longrightarrow> tstate (tasks s p) = TASK_STATE_BLOCKED \<longrightarrow>
     wait_target (tasks s p) = want \<and> (\<forall>z\<in>set (zombies s). \<not> child_matches s p want z))"

lemma wait_invD:
  "wait_inv s W \<Longrightarrow> W p = Some want \<Longrightarrow> tstate (tasks s p) = TASK_STATE_BLOCKED \<Longrightarrow> wait_target (tasks s p) = want"
  "wait_inv s W \<Longrightarrow> W p = Some want \<Longrightarrow> tstate (tasks s p) = TASK_STATE_BLOCKED \<Longrightarrow> z \<in> set (zombies s) \<Longrightarrow>
     \<not> child_matches s p want z"
  unfolding wait_inv_def by blast+

lemma wait_inv_mono:
  assumes "wait_inv s W" and "set (zombies s') \<subseteq> set (zombies s)"
    and "\<And>p. W p \<noteq> None \<Longrightarrow> tstate (tasks s' p) = TASK_STATE_BLOCKED \<Longrightarrow>
      tstate (tasks s p) = TASK_STATE_BLOCKED \<and> wait_target (tasks s' p) = wait_target (tasks s p)"
    and "\<And>z. z \<in> set (zombies s') \<Longrightarrow> tpid (tasks s' z) = tpid (tasks s z) \<and>
      (tparent (tasks s' z) = tparent (tasks s z) \<or> W (tparent (tasks s' z)) = None)"
  shows "wait_inv s' W"
  unfolding wait_inv_def
proof (intro conjI allI impI)
  show "W NULL = None" using assms(1) by (simp add: wait_inv_def)
  show "NULL \<notin> set (zombies s')" using assms(1,2) unfolding wait_inv_def by blast
  fix p want assume p: "W p = Some want" "tstate (tasks s' p) = TASK_STATE_BLOCKED"
  then have b: "tstate (tasks s p) = TASK_STATE_BLOCKED" "wait_target (tasks s' p) = wait_target (tasks s p)"
    using assms(3) by auto
  show "wait_target (tasks s' p) = want" using wait_invD(1) [OF assms(1) p(1) b(1)] b(2) by simp
  show "\<forall>z\<in>set (zombies s'). \<not> child_matches s' p want z"
  proof
    fix z assume z: "z \<in> set (zombies s')"
    then have "z \<in> set (zombies s)" using assms(2) by blast
    from wait_invD(2) [OF assms(1) p(1) b(1) this] show "\<not> child_matches s' p want z"
      using assms(4) [OF z] p(1) by (auto simp: child_matches_def)
  qed
qed

section \<open>Each step keeps the invariant\<close>

lemma zombie_take_frame:
  assumes "zombie_list_take_locked p want s = (z, s')"
  shows "tasks s' = tasks s" "cpus s' = cpus s" "set (zombies s') \<subseteq> set (zombies s)" "all_tasks s' = all_tasks s"
    and "z = NULL \<Longrightarrow> NULL \<notin> set (zombies s) \<Longrightarrow> \<forall>x\<in>set (zombies s). \<not> child_matches s p want x"
  using assms by (auto simp: zombie_list_take_locked_def find_None_iff find_Some_iff split: option.splits
    dest: set_remove1_subset [THEN subsetD] nth_mem)

lemma reap_frame:
  assumes "reap st z s = (r, s')"
  shows "tparent (tasks s' t) = tparent (tasks s t)" "tpid (tasks s' t) = tpid (tasks s t)"
    "wait_target (tasks s' t) = wait_target (tasks s t)" "tstate (tasks s' t) = tstate (tasks s t)" "zombies s' = zombies s"
  using assms by (auto simp: reap_def free_dead_task_def tasks_list_remove_def Let_def)

lemma take_reap_inv:
  assumes "wait_inv s W" and "zombie_list_take_locked p want s = (z, s1)" and "reap st z s1 = (r, s')"
  shows "wait_inv s' W"
  by (rule wait_inv_mono [OF assms(1)]) (use zombie_take_frame [OF assms(2)] reap_frame [OF assms(3)] in auto)

lemma take_inv:
  assumes "wait_inv s W" and "zombie_list_take_locked p want s = (z, s1)"
  shows "wait_inv s1 W"
  by (rule wait_inv_mono [OF assms(1)]) (use zombie_take_frame [OF assms(2)] in auto)

lemma recheck_parks_inv:
  assumes inv: "wait_inv s W" and nn: "cpu_current (cpus s c) \<noteq> NULL"
    and e: "do_waitpid_recheck c pid st s = (WaitParked, s')"
  shows "wait_inv s' (W(cpu_current (cpus s c) \<mapsto> want_pid pid))"
proof -
  let ?p = "cpu_current (cpus s c)" and ?w = "want_pid pid"
  obtain z s1 where t: "zombie_list_take_locked ?p ?w s = (z, s1)" by fastforce
  note f = zombie_take_frame [OF t]
  have z: "z = NULL" and s': "s' = upd_task ?p (\<lambda>k. k\<lparr>wait_target := ?w, tstate := TASK_STATE_BLOCKED\<rparr>) s1"
    using e t by (auto simp: do_waitpid_recheck_def Let_def reap_def split: if_splits)
  have n: "NULL \<notin> set (zombies s)" using inv by (simp add: wait_inv_def)
  have none: "\<forall>x\<in>set (zombies s). \<not> child_matches s ?p ?w x" by (rule f(5) [OF z n])
  have cm: "child_matches s' q w x = child_matches s q w x" for q w x
    by (simp add: child_matches_def s' f(1))
  have zs: "set (zombies s') \<subseteq> set (zombies s)" using f(3) by (simp add: s')
  show ?thesis unfolding wait_inv_def
  proof (intro conjI allI impI)
    show "(W(?p \<mapsto> ?w)) NULL = None" using inv nn by (simp add: wait_inv_def)
    show "NULL \<notin> set (zombies s')" using n zs by blast
    fix q w assume q: "(W(?p \<mapsto> ?w)) q = Some w" "tstate (tasks s' q) = TASK_STATE_BLOCKED"
    show "wait_target (tasks s' q) = w"
      using q wait_invD(1) [OF inv, of q w] by (auto simp: s' f(1) split: if_splits)
    show "\<forall>x\<in>set (zombies s'). \<not> child_matches s' q w x"
    proof (cases "q = ?p")
      case True
      then show ?thesis using none zs q(1) cm by auto
    next
      case False
      then show ?thesis using wait_invD(2) [OF inv, of q w] q zs cm by (auto simp: s' f(1))
    qed
  qed
qed

lemma fast_inv:
  assumes inv: "wait_inv s W" and e: "do_waitpid_fast c pid st s = (r, s')"
  shows "wait_inv s' W"
proof (cases "st \<noteq> 0 \<and> st \<ge> 0xFFFF800000000000")
  case False
  obtain z s1 where t: "zombie_list_take_locked (cpu_current (cpus s c)) (want_pid pid) s = (z, s1)" by fastforce
  have "reap st z s1 = (r, s') \<or> s' = s1" using e t False by (auto simp: do_waitpid_fast_def Let_def split: if_splits)
  then show ?thesis using take_reap_inv [OF inv t] take_inv [OF inv t] by blast
qed (use assms in \<open>auto simp: do_waitpid_fast_def\<close>)

lemma recheck_returns_inv:
  assumes inv: "wait_inv s W" and e: "do_waitpid_recheck c pid st s = (WaitReturn v x, s')"
  shows "wait_inv s' W"
proof -
  obtain z s1 where t: "zombie_list_take_locked (cpu_current (cpus s c)) (want_pid pid) s = (z, s1)" by fastforce
  have "reap st z s1 = (WaitReturn v x, s')" using e t by (auto simp: do_waitpid_recheck_def Let_def split: if_splits)
  then show ?thesis using take_reap_inv [OF inv t] by blast
qed

text \<open>
  \<^verbatim>\<open>task_exit\<close> adds the zombie and looks at its parent under one lock: a parent parked for this
  child is made ready in the same step.
\<close>

lemma rq_enqueue_external_frame:
  "tparent (tasks (rq_enqueue_external p s) t) = tparent (tasks s t)"
  "tpid (tasks (rq_enqueue_external p s) t) = tpid (tasks s t)"
  "wait_target (tasks (rq_enqueue_external p s) t) = wait_target (tasks s t)"
  "tstate (tasks (rq_enqueue_external p s) t) = tstate (tasks s t)"
  "zombies (rq_enqueue_external p s) = zombies s"
  by (auto simp: rq_enqueue_external_def rq_enqueue_def rq_enqueue_locked_def Let_def split: prod.splits)

lemma notify_parent_inv:
  assumes inv: "wait_inv s W" and cur: "cur \<noteq> NULL"
  shows "wait_inv (notify_parent cur s) W"
proof -
  let ?p = "tparent (tasks s cur)" and ?s1 = "zombie_list_add_locked cur s"
  have s1: "tasks ?s1 = tasks s" "zombies ?s1 = cur # zombies s" by (simp_all add: zombie_list_add_locked_def)
  define wake where "wake \<longleftrightarrow> tstate (tasks s ?p) = TASK_STATE_BLOCKED \<and>
    (wait_target (tasks s ?p) = 0 \<or> wait_target (tasks s ?p) = tpid (tasks s cur))"
  define s' where "s' = (if wake then rq_enqueue_external ?p (upd_task ?p (\<lambda>k. k\<lparr>tstate := TASK_STATE_READY\<rparr>) ?s1) else ?s1)"
  have s': "zombies s' = cur # zombies s" "tparent (tasks s' t) = tparent (tasks s t)" "tpid (tasks s' t) = tpid (tasks s t)"
    "wait_target (tasks s' t) = wait_target (tasks s t)"
    "tstate (tasks s' t) = (if wake \<and> t = ?p then TASK_STATE_READY else tstate (tasks s t))" for t
    by (auto simp: s'_def s1 rq_enqueue_external_frame)
  have "wait_inv s' W"
    unfolding wait_inv_def
  proof (intro conjI allI impI)
    show "W NULL = None" using inv by (simp add: wait_inv_def)
    show "NULL \<notin> set (zombies s')" using inv cur by (simp add: s' wait_inv_def)
    fix q w assume q: "W q = Some w" "tstate (tasks s' q) = TASK_STATE_BLOCKED"
    then have b: "tstate (tasks s q) = TASK_STATE_BLOCKED" "\<not> (wake \<and> q = ?p)" by (auto simp: s' split: if_splits)
    have t: "wait_target (tasks s q) = w" by (rule wait_invD(1) [OF inv q(1) b(1)])
    then show "wait_target (tasks s' q) = w" by (simp add: s')
    have "\<not> child_matches s q w cur" using b t by (auto simp: child_matches_def wake_def)
    then show "\<forall>z\<in>set (zombies s'). \<not> child_matches s' q w z"
      using wait_invD(2) [OF inv q(1) b(1)] by (auto simp: s' child_matches_def)
  qed
  then show ?thesis using inv by (auto simp: notify_parent_def Let_def s1 s'_def wake_def)
qed

lemma exit_task_inv:
  assumes inv: "wait_inv s W" and cur: "W cur = None" "cur \<noteq> NULL"
  shows "wait_inv (exit_task cur code s) W"
proof -
  let ?s1 = "upd_task cur (\<lambda>k. k\<lparr>tstate := TASK_STATE_ZOMBIE\<rparr>) (detach_children cur (upd_task cur (\<lambda>k. k\<lparr>exit_code := code\<rparr>) s))"
  have "wait_inv ?s1 W"
    by (rule wait_inv_mono [OF inv]) (use inv cur in \<open>auto simp: detach_children_def wait_inv_def split: if_splits\<close>)
  then show ?thesis unfolding exit_task_def using cur(2) by (rule notify_parent_inv)
qed

lemma wreach_inv: "wreach s W \<Longrightarrow> wait_inv s W"
proof (induction rule: wreach.induct)
  case (start s)
  then show ?case by (simp add: wait_inv_def)
next
  case (fast s W c pid st r s')
  then show ?case by (blast intro: fast_inv)
next
  case (recheck_returns s W c pid st v x s')
  then show ?case by (blast intro: recheck_returns_inv)
next
  case (recheck_parks s W c pid st s')
  then show ?case by (blast intro: recheck_parks_inv)
next
  case (exit s W cur code)
  then show ?case by (blast intro: exit_task_inv)
next
  case (resume s W p)
  then show ?case by (auto simp: wait_inv_def)
next
  case (other s W s')
  then show ?case by (intro wait_inv_mono [OF other.IH]) auto
qed

text \<open>
  C20.  No wakeup is lost between \<^verbatim>\<open>waitpid\<close> and \<^verbatim>\<open>task_exit\<close>: whatever the interleaving of
  the lookups, parks and exits on all CPUs, a task that is still blocked inside \<^verbatim>\<open>waitpid\<close> has
  no zombie on the list that its wait would accept; and its wait target is the one it asked for.
\<close>

theorem waitpid_no_lost_wakeup:
  assumes "wreach s W" and "W p = Some want" and "tstate (tasks s p) = TASK_STATE_BLOCKED" and "z \<in> set (zombies s)"
  shows "\<not> child_matches s p want z \<and> wait_target (tasks s p) = want"
  using wait_invD [OF wreach_inv [OF assms(1)] assms(2,3)] assms(4) by simp

definition demo_waiting :: sched where
  "demo_waiting = exit_task 2 7 (snd (do_waitpid_recheck 0 (-1) 0
     (upd_task 9 (\<lambda>k. k\<lparr>tstate := TASK_STATE_RUNNING\<rparr>) (upd_task 2 (\<lambda>k. k\<lparr>tparent := 9\<rparr>) demo_sched))))"

theorem waitpid_no_lost_wakeup_witness:
  "wreach demo_waiting [1 \<mapsto> 0] \<and> tstate (tasks demo_waiting 1) = TASK_STATE_BLOCKED \<and> 2 \<in> set (zombies demo_waiting) \<and>
   \<not> child_matches demo_waiting 1 0 2"
proof -
  let ?s0 = "upd_task 9 (\<lambda>k. k\<lparr>tstate := TASK_STATE_RUNNING\<rparr>) (upd_task 2 (\<lambda>k. k\<lparr>tparent := 9\<rparr>) demo_sched)"
  have z: "zombies ?s0 = []" by code_simp
  have c: "cpu_current (cpus ?s0 0) = 1" using demo_running by (simp add: running_on_def)
  have t: "zombie_list_take_locked 1 0 ?s0 = (NULL, ?s0)" using z by (simp add: zombie_list_take_locked_def)
  have e: "do_waitpid_recheck 0 (-1) 0 ?s0 =
      (WaitParked, upd_task 1 (\<lambda>k. k\<lparr>wait_target := 0, tstate := TASK_STATE_BLOCKED\<rparr>) ?s0)"
    using t c by (simp add: do_waitpid_recheck_def want_pid_def Let_def)
  have "wreach ?s0 Map.empty" by (rule start [OF z])
  from recheck_parks [OF this, of 0 "-1" 0, OF _ _ e] c have
    r: "wreach (snd (do_waitpid_recheck 0 (-1) 0 ?s0)) [1 \<mapsto> 0]" using e by (simp add: want_pid_def)
  have w: "wreach demo_waiting [1 \<mapsto> 0]" unfolding demo_waiting_def by (rule exit [OF r]) simp_all
  have b: "tstate (tasks demo_waiting 1) = TASK_STATE_BLOCKED" "2 \<in> set (zombies demo_waiting)"
    unfolding demo_waiting_def e
    by (simp_all add: exit_task_def notify_parent_def Let_def zombie_list_add_locked_def detach_children_def)
  show ?thesis using waitpid_no_lost_wakeup [OF w, of 1 0 2] w b by simp
qed

text \<open>
  A zombie whose parent exits without waiting for it stays on the zombie list with no parent:
  no later \<^verbatim>\<open>waitpid\<close> can match it, and nothing else frees it.
\<close>

lemma orphaned_zombie_unreachable:
  assumes "z \<in> set (zombies s)" "z \<in> set (all_tasks s)" "tparent (tasks s z) = cur" "z \<noteq> cur" and "p \<noteq> NULL"
  shows "z \<in> set (zombies (exit_task cur code s)) \<and> \<not> child_matches (exit_task cur code s) p want z"
proof -
  define s1 where "s1 = upd_task cur (\<lambda>k. k\<lparr>tstate := TASK_STATE_ZOMBIE\<rparr>) (detach_children cur (upd_task cur (\<lambda>k. k\<lparr>exit_code := code\<rparr>) s))"
  have s1: "tparent (tasks s1 z) = NULL" "z \<in> set (zombies s1)"
    using assms unfolding s1_def by (simp_all add: detach_children_def)
  have e: "exit_task cur code s = notify_parent cur s1" unfolding exit_task_def s1_def by (simp add: Let_def)
  have "tparent (tasks (notify_parent cur s1) z) = NULL" "z \<in> set (zombies (notify_parent cur s1))"
    using s1 by (auto simp: notify_parent_def zombie_list_add_locked_def Let_def rq_enqueue_external_frame)
  then show ?thesis using assms(5) unfolding e by (simp add: child_matches_def)
qed

text \<open>
  A parent that never called \<^verbatim>\<open>waitpid\<close> has wait target 0, so the exit of a child also wakes it
  from any other wait it is blocked in.
\<close>

lemma exit_wakes_unrelated_wait:
  assumes "tparent (tasks s cur) = p" "p \<noteq> NULL" "tstate (tasks s p) = TASK_STATE_BLOCKED" "wait_target (tasks s p) = 0"
  shows "tstate (tasks (notify_parent cur s) p) = TASK_STATE_READY"
  using assms by (simp add: notify_parent_def zombie_list_add_locked_def Let_def rq_enqueue_external_frame)

end
