(* ===== verification/Vfs_Types.thy ===== *)
theory Vfs_Types
  imports Prelude
begin

text \<open>
  The objects of the virtual file system (\<^verbatim>\<open>file_system/vfs_types.h\<close>, \<^verbatim>\<open>vfs_defs.h\<close>).  Pointers
  are natural numbers with 0 for NULL; the locks inside the objects are not fields here, the
  operations under a lock are single steps.
\<close>

section \<open>Constants\<close>

definition VFS_TYPE_FILE :: u64 where "VFS_TYPE_FILE = 1"
definition VFS_TYPE_DIR :: u64 where "VFS_TYPE_DIR = 2"
definition VFS_TYPE_SYMLINK :: u64 where "VFS_TYPE_SYMLINK = 3"
definition VFS_TYPE_CHARDEV :: u64 where "VFS_TYPE_CHARDEV = 4"
definition VFS_TYPE_BLOCKDEV :: u64 where "VFS_TYPE_BLOCKDEV = 5"
definition VFS_TYPE_FIFO :: u64 where "VFS_TYPE_FIFO = 6"
definition VFS_TYPE_SOCKET :: u64 where "VFS_TYPE_SOCKET = 7"

lemmas vfs_type_defs = VFS_TYPE_FILE_def VFS_TYPE_DIR_def VFS_TYPE_SYMLINK_def VFS_TYPE_CHARDEV_def
  VFS_TYPE_BLOCKDEV_def VFS_TYPE_FIFO_def VFS_TYPE_SOCKET_def

definition O_RDONLY :: u32 where "O_RDONLY = 0"
definition O_WRONLY :: u32 where "O_WRONLY = 1"
definition O_ACCMODE :: u32 where "O_ACCMODE = 3"
definition O_CREAT :: u32 where "O_CREAT = 0x40"
definition O_TRUNC :: u32 where "O_TRUNC = 0x200"
definition O_APPEND :: u32 where "O_APPEND = 0x400"

definition VFS_NAME_MAX :: nat where "VFS_NAME_MAX = 255"
definition VFS_PATH_MAX :: nat where "VFS_PATH_MAX = 4096"
definition VFS_SYMLINK_MAX :: nat where "VFS_SYMLINK_MAX = 40"

section \<open>Objects\<close>

text \<open>The address of a table of file operations.\<close>

datatype fops_ptr = NoFops | PipeFops | TtyFops | PtySlaveOps | PtyMasterOps | PtmxOps | DriverFops nat

record file_t =
  finode :: nat
  fops :: fops_ptr
  fposition :: u64
  fflags :: u32
  fmode :: u32
  fref_count :: u64
  fprivate :: nat
  fstash :: "u8 list option"

definition zero_file :: file_t where
  "zero_file = \<lparr>finode = 0, fops = NoFops, fposition = 0, fflags = 0, fmode = 0, fref_count = 0,
     fprivate = 0, fstash = None\<rparr>"

end
