(* ===== verification/Ring.thy ===== *)
theory Ring
  imports Prelude
begin

text \<open>
  Byte rings with monotonic 64-bit counters: pipes (\<^verbatim>\<open>file_system/pipe.c\<close>), the console
  terminal and both directions of a pseudo terminal (\<^verbatim>\<open>drivers/tty_ldisc.c\<close>) all keep a buffer
  whose cell for the counter value \<open>n\<close> is \<open>n mod size\<close>, and read the fill level as the
  difference of two counters that may wrap.  \<open>ring_contents\<close> is what such a ring holds; the
  locale \<open>byte_stream\<close> is what its users rely on.
\<close>

section \<open>What a ring holds\<close>

definition ring_contents :: "(nat \<Rightarrow> u8) \<Rightarrow> nat \<Rightarrow> u64 \<Rightarrow> u64 \<Rightarrow> u8 list" where
  "ring_contents buf sz t h = map (\<lambda>i. buf ((unat t + i) mod sz)) [0..<unat (h - t)]"

lemma length_ring_contents [simp]: "length (ring_contents buf sz t h) = unat (h - t)"
  by (simp add: ring_contents_def)

lemma ring_contents_empty [simp]: "ring_contents buf sz t t = []"
  by (simp add: ring_contents_def)

lemma unat_mod_size: "unat (x mod s) = unat x mod unat s" for x s :: u64
  by (simp add: unat_mod)

text \<open>
  The capacity divides $2^{64}$, so the cell of a counter does not depend on whether the
  counter has wrapped.
\<close>

definition ring_size :: "nat \<Rightarrow> bool" where
  "ring_size n \<longleftrightarrow> 0 < n \<and> n < 2 ^ 63 \<and> n dvd 2 ^ 64"

lemma ring_size_pos: "ring_size n \<Longrightarrow> 0 < n"
  by (simp add: ring_size_def)

lemma unat_add_mod_size:
  fixes x y :: u64
  assumes "ring_size n"
  shows "unat (x + y) mod n = (unat x + unat y) mod n"
proof -
  have "unat (x + y) = (unat x + unat y) mod 2 ^ 64"
    by (simp add: unat_word_ariths)
  then show ?thesis using assms by (simp add: ring_size_def mod_mod_cancel)
qed

lemma unat_minus_1_plus:
  fixes x y :: u64
  assumes "y \<noteq> x"
  shows "unat (x - y) = Suc (unat (x - (y + 1)))"
proof -
  have *: "x - (y + 1) = (x - y) - 1" by (rule diff_diff_eq [symmetric])
  show ?thesis unfolding * using assms unat_minus_one [of "x - y"] unat_gt_0 [of "x - y"] by simp
qed

lemma ring_contents_Cons:
  assumes "ring_size n" and "t \<noteq> h"
  shows "ring_contents buf n t h = buf (unat t mod n) # ring_contents buf n (t + 1) h"
proof -
  have "(unat t + Suc i) mod n = (unat (t + 1) + i) mod n" for i
    using unat_add_mod_size [OF assms(1), of t 1] by (metis add.assoc mod_add_left_eq plus_1_eq_Suc unat_1)
  moreover have "[0..<unat (h - t)] = 0 # map Suc [0..<unat (h - (t + 1))]"
    unfolding unat_minus_1_plus [OF assms(2)] by (simp add: upt_conv_Cons map_Suc_upt del: upt_Suc)
  ultimately show ?thesis by (simp add: ring_contents_def comp_def)
qed

lemma ring_contents_snoc:
  assumes "ring_size n" and "unat (h - t) < n"
  shows "ring_contents (buf(unat h mod n := c)) n t (h + 1) = ring_contents buf n t h @ [c]"
proof -
  let ?k = "unat (h - t)"
  have s: "unat (h + 1 - t) = Suc ?k"
  proof -
    have "Suc ?k < 2 ^ 64" using assms by (simp add: ring_size_def)
    moreover have "unat ((h - t) + 1) = (?k + 1) mod 2 ^ 64" by (simp add: unat_word_ariths)
    ultimately show ?thesis by (simp add: algebra_simps)
  qed
  have h: "unat h mod n = (unat t + ?k) mod n"
    using unat_add_mod_size [OF assms(1), of t "h - t"] by simp
  have "(unat t + i) mod n \<noteq> unat h mod n" if "i < ?k" for i
  proof
    assume "(unat t + i) mod n = unat h mod n"
    then have "(unat t + ?k) mod n = (unat t + i) mod n" using h by simp
    then have "n dvd (unat t + ?k) - (unat t + i)" using that by (metis mod_eq_dvd_iff_nat nat_add_left_cancel_le less_imp_le)
    then have "n dvd ?k - i" by simp
    then show False using that assms(2) by (auto dest: dvd_imp_le)
  qed
  then show ?thesis by (simp add: ring_contents_def s h)
qed

lemma ring_contents_butlast:
  assumes "ring_size n" and "t \<noteq> h" and "unat (h - t) \<le> n"
  shows "ring_contents buf n t h = ring_contents buf n t (h - 1) @ [buf (unat (h - 1) mod n)]"
proof -
  have k: "unat (h - t) = Suc (unat (h - 1 - t))"
    using unat_minus_one [of "h - t"] unat_gt_0 [of "h - t"] assms(2) by (simp add: algebra_simps)
  have "(unat t + unat (h - 1 - t)) mod n = unat (h - 1) mod n"
    using unat_add_mod_size [OF assms(1), of t "h - 1 - t"] by simp
  then show ?thesis by (simp add: ring_contents_def k)
qed

section \<open>The stream interface\<close>

text \<open>
  A bounded byte queue: \<open>fill\<close> stores as many bytes as fit, \<open>drain\<close> removes up to a number of
  bytes from the front.
\<close>

datatype stream_op = Fill "u8 list" | Drain nat

locale byte_stream =
  fixes fill :: "u8 list \<Rightarrow> 'r \<Rightarrow> nat \<times> 'r"
    and drain :: "nat \<Rightarrow> 'r \<Rightarrow> u8 list \<times> 'r"
    and held :: "'r \<Rightarrow> u8 list"
    and ok :: "'r \<Rightarrow> bool"
    and cap :: "'r \<Rightarrow> nat"
  assumes held_le: "ok r \<Longrightarrow> length (held r) \<le> cap r"
    and fill_spec: "ok r \<Longrightarrow> fill src r = (n, r') \<Longrightarrow>
      ok r' \<and> cap r' = cap r \<and> n = min (length src) (cap r - length (held r)) \<and> held r' = held r @ take n src"
    and drain_spec: "ok r \<Longrightarrow> drain k r = (bs, r') \<Longrightarrow>
      ok r' \<and> cap r' = cap r \<and> bs = take k (held r) \<and> held r' = drop k (held r)"
begin

fun run :: "stream_op list \<Rightarrow> 'r \<Rightarrow> u8 list \<times> u8 list \<times> 'r" where
  "run [] r = ([], [], r)"
| "run (Fill src # ops) r = (let (n, r') = fill src r; (i, out, r'') = run ops r' in (take n src @ i, out, r''))"
| "run (Drain k # ops) r = (let (bs, r') = drain k r; (i, out, r'') = run ops r' in (i, bs @ out, r''))"

text \<open>
  Whatever the order of stores and removals, the bytes that came out followed by the bytes
  still held are the bytes held at first followed by the bytes taken in: nothing is lost,
  invented or reordered, and the ring never holds more than its capacity.
\<close>

lemma run_stream:
  assumes "ok r" and "run ops r = (i, out, r')"
  shows "ok r' \<and> cap r' = cap r \<and> out @ held r' = held r @ i"
  using assms
proof (induction ops arbitrary: r i out r')
  case (Cons x ops)
  show ?case
  proof (cases x)
    case (Fill src)
    obtain n r1 where f: "fill src r = (n, r1)" by fastforce
    obtain j out1 r2 where g: "run ops r1 = (j, out1, r2)" by (metis prod_cases3)
    from fill_spec [OF Cons.prems(1) f] Cons.IH [OF _ g] Cons.prems(2) show ?thesis
      by (simp add: Fill f g)
  next
    case (Drain k)
    obtain bs r1 where f: "drain k r = (bs, r1)" by fastforce
    obtain j out1 r2 where g: "run ops r1 = (j, out1, r2)" by (metis prod_cases3)
    from drain_spec [OF Cons.prems(1) f] Cons.IH [OF _ g] Cons.prems(2) have
      "ok r' \<and> cap r' = cap r \<and> out1 @ held r' = drop k (held r) @ j" "i = j" "out = take k (held r) @ out1"
      by (auto simp: Drain f g)
    then show ?thesis by (metis append.assoc append_take_drop_id)
  qed
qed simp

lemma fill_all:
  assumes "ok r" and "length (held r) + length src \<le> cap r" and "fill src r = (n, r')"
  shows "n = length src \<and> held r' = held r @ src"
  using fill_spec [OF assms(1,3)] assms(2) by simp

lemma drain_all:
  assumes "ok r" and "length (held r) \<le> k" and "drain k r = (bs, r')"
  shows "bs = held r \<and> held r' = []"
  using drain_spec [OF assms(1,3)] assms(2) by simp

end

end
