(* ===== verification/Pipe.thy ===== *)
theory Pipe
  imports Vfs_Types Ring Waiters Signal
begin

text \<open>
  \<^verbatim>\<open>file_system/pipe.c\<close>: anonymous pipes and FIFOs.  A critical section under \<^verbatim>\<open>p->lock\<close> is one
  step; \<^verbatim>\<open>pipe_read\<close> and \<^verbatim>\<open>pipe_write\<close> are loops of such sections, each of which returns,
  parks the caller on a waiter queue or (for a write that made progress) goes round again.
\<close>

section \<open>Data\<close>

definition PIPE_BUF_SIZE :: u64 where "PIPE_BUF_SIZE = 4096"

datatype pipe_side = PIPE_SIDE_READ | PIPE_SIDE_WRITE

record pipe =
  pbuf :: "nat \<Rightarrow> u8"
  phead :: u64
  ptail :: u64
  readers :: u32
  writers :: u32
  ever_readers :: bool
  ever_writers :: bool
  read_waiter :: tqueue
  write_waiter :: tqueue
  pinode :: nat

record pipe_end =
  epipe :: nat
  eside :: pipe_side

section \<open>The ring\<close>

definition ring_count :: "pipe \<Rightarrow> u64" where
  "ring_count p = phead p - ptail p"

definition ring_space :: "pipe \<Rightarrow> u64" where
  "ring_space p = PIPE_BUF_SIZE - ring_count p"

fun ring_drain :: "nat \<Rightarrow> pipe \<Rightarrow> u8 list \<times> pipe" where
  "ring_drain 0 p = ([], p)"
| "ring_drain (Suc n) p =
     (if ptail p = phead p then ([], p)
      else
        let b = pbuf p (unat (ptail p mod PIPE_BUF_SIZE));
            (bs, p') = ring_drain n (p\<lparr>ptail := ptail p + 1\<rparr>)
        in (b # bs, p'))"

fun ring_fill :: "u8 list \<Rightarrow> pipe \<Rightarrow> nat \<times> pipe" where
  "ring_fill [] p = (0, p)"
| "ring_fill (b # bs) p =
     (if ring_space p > 0 then
        let (n, p') = ring_fill bs
              (p\<lparr>pbuf := (pbuf p)(unat (phead p mod PIPE_BUF_SIZE) := b), phead := phead p + 1\<rparr>)
        in (Suc n, p')
      else (0, p))"

section \<open>Waiter queues\<close>

definition waiter_enqueue :: "tptr \<Rightarrow> theap \<times> tqueue \<Rightarrow> theap \<times> tqueue" where
  "waiter_enqueue me hq =
     (let (h, q) = hq;
          h = h(me := (h me)\<lparr>tnext := NULL\<rparr>);
          h = h(me := (h me)\<lparr>tprev := qtail q\<rparr>);
          (h, q) = (if qtail q \<noteq> NULL then (h(qtail q := (h (qtail q))\<lparr>tnext := me\<rparr>), q)
                    else (h, q\<lparr>qhead := me\<rparr>))
      in (h, q\<lparr>qtail := me\<rparr>))"

definition waiter_pop :: "theap \<times> tqueue \<Rightarrow> tptr \<times> theap \<times> tqueue" where
  "waiter_pop hq =
     (let (h, q) = hq; w = qhead q in
      if w = NULL then (NULL, h, q)
      else
        let q = q\<lparr>qhead := tnext (h w)\<rparr>;
            (h, q) = (if qhead q \<noteq> NULL then (h(qhead q := (h (qhead q))\<lparr>tprev := NULL\<rparr>), q)
                      else (h, q\<lparr>qtail := NULL\<rparr>))
        in (w, h(w := (h w)\<lparr>tnext := NULL, tprev := NULL\<rparr>), q))"

definition waiter_remove_self :: "tptr \<Rightarrow> theap \<times> tqueue \<Rightarrow> theap \<times> tqueue" where
  "waiter_remove_self me hq =
     (let (h, q) = hq in
      if tnext (h me) = NULL \<and> tprev (h me) = NULL \<and> qhead q \<noteq> me then (h, q)
      else
        let (h, q) = (if tprev (h me) \<noteq> NULL
                      then (h(tprev (h me) := (h (tprev (h me)))\<lparr>tnext := tnext (h me)\<rparr>), q)
                      else if qhead q = me then (h, q\<lparr>qhead := tnext (h me)\<rparr>) else (h, q));
            (h, q) = (if tnext (h me) \<noteq> NULL
                      then (h(tnext (h me) := (h (tnext (h me)))\<lparr>tprev := tprev (h me)\<rparr>), q)
                      else if qtail q = me then (h, q\<lparr>qtail := tprev (h me)\<rparr>) else (h, q))
        in (h(me := (h me)\<lparr>tnext := NULL, tprev := NULL\<rparr>), q))"

text \<open>
  The two walks along a chain of tasks; \<open>None\<close> would be a walk that never meets a NULL link.
\<close>

partial_function (option) mark_ready :: "tptr \<Rightarrow> theap \<Rightarrow> theap option" where
  "mark_ready t h =
     (if t = NULL then Some h
      else let h1 = h(t := (h t)\<lparr>tstate := TASK_STATE_READY, tprev := NULL\<rparr>) in mark_ready (tnext (h1 t)) h1)"

definition waiter_drain_all :: "theap \<times> tqueue \<Rightarrow> (tptr \<times> theap \<times> tqueue) option" where
  "waiter_drain_all hq =
     (let (h, q) = hq; chain = qhead q in
      map_option (\<lambda>h'. (chain, h', \<lparr>qhead = NULL, qtail = NULL\<rparr>)) (mark_ready chain h))"

partial_function (option) wake_chain :: "tptr \<Rightarrow> sched \<Rightarrow> sched option" where
  "wake_chain t s =
     (if t = NULL then Some s
      else
        let nxt = tnext (tasks s t);
            s1 = rq_enqueue_external t (upd_task t (\<lambda>k. k\<lparr>tnext := NULL\<rparr>) s)
        in wake_chain nxt s1)"

section \<open>Reading and writing\<close>

datatype io_result = Done int "u8 list" | Parked | Again nat

definition park_reader :: "nat \<Rightarrow> pipe \<times> sched \<Rightarrow> pipe \<times> sched" where
  "park_reader c ps =
     (let (p, s) = ps; me = cpu_current (cpus s c);
          (h, q) = waiter_enqueue me (tasks s, read_waiter p)
      in (p\<lparr>read_waiter := q\<rparr>, upd_task me (\<lambda>k. k\<lparr>tstate := TASK_STATE_BLOCKED\<rparr>) (s\<lparr>tasks := h\<rparr>)))"

definition park_writer :: "nat \<Rightarrow> pipe \<times> sched \<Rightarrow> pipe \<times> sched" where
  "park_writer c ps =
     (let (p, s) = ps; me = cpu_current (cpus s c);
          (h, q) = waiter_enqueue me (tasks s, write_waiter p)
      in (p\<lparr>write_waiter := q\<rparr>, upd_task me (\<lambda>k. k\<lparr>tstate := TASK_STATE_BLOCKED\<rparr>) (s\<lparr>tasks := h\<rparr>)))"

text \<open>One turn of the loop of \<^verbatim>\<open>pipe_read\<close>; a parked caller then gives up its CPU (\<open>schedule\<close>).\<close>

definition pipe_read_turn :: "nat \<Rightarrow> u64 \<Rightarrow> pipe \<times> sched \<Rightarrow> io_result \<times> pipe \<times> sched" where
  "pipe_read_turn c sz ps =
     (let (p, s) = ps in
      if ring_count p > 0 then
        let (bs, p) = ring_drain (unat sz) p;
            (w, h, q) = waiter_pop (tasks s, write_waiter p)
        in (Done (int (length bs)) bs, p\<lparr>write_waiter := q\<rparr>, wake_opt w (s\<lparr>tasks := h\<rparr>))
      else if writers p = 0 then (Done 0 [], p, s)
      else (Parked, park_reader c (p, s)))"

definition pipe_read_resume :: "tptr \<Rightarrow> pipe \<times> sched \<Rightarrow> pipe \<times> sched" where
  "pipe_read_resume me ps =
     (let (p, s) = ps; (h, q) = waiter_remove_self me (tasks s, read_waiter p)
      in (p\<lparr>read_waiter := q\<rparr>, s\<lparr>tasks := h\<rparr>))"

definition pipe_read :: "nat \<Rightarrow> pipe_end option \<Rightarrow> u64 \<Rightarrow> pipe \<times> sched \<Rightarrow> io_result \<times> pipe \<times> sched" where
  "pipe_read c pend sz ps =
     (if sz = 0 then (Done 0 [], ps)
      else case pend of
        None \<Rightarrow> (Done (- EBADF) [], ps)
      | Some e \<Rightarrow>
          if eside e \<noteq> PIPE_SIDE_READ then (Done (- EBADF) [], ps)
          else pipe_read_turn c sz ps)"

text \<open>One turn of the loop of \<^verbatim>\<open>pipe_write\<close>, with \<open>tot\<close> bytes of \<open>src\<close> already stored.\<close>

definition pipe_write_turn :: "nat \<Rightarrow> u8 list \<Rightarrow> nat \<Rightarrow> pipe \<times> sched \<Rightarrow> io_result \<times> pipe \<times> sched" where
  "pipe_write_turn c src tot ps =
     (let (p, s) = ps in
      if \<not> tot < length src then (Done (int tot) [], p, s)
      else if readers p = 0 then
        (Done (if tot > 0 then int tot else - EPIPE) [], p, signal_send (cpu_current (cpus s c)) SIGPIPE s)
      else if ring_space p > 0 then
        let (n, p) = ring_fill (drop tot src) p;
            (r, h, q) = waiter_pop (tasks s, read_waiter p);
            p = p\<lparr>read_waiter := q\<rparr>;
            s = wake_opt r (s\<lparr>tasks := h\<rparr>)
        in if tot + n = length src then (Done (int (tot + n)) [], p, s) else (Again (tot + n), p, s)
      else (Parked, park_writer c (p, s)))"

definition pipe_write_resume :: "tptr \<Rightarrow> pipe \<times> sched \<Rightarrow> pipe \<times> sched" where
  "pipe_write_resume me ps =
     (let (p, s) = ps; (h, q) = waiter_remove_self me (tasks s, write_waiter p)
      in (p\<lparr>write_waiter := q\<rparr>, s\<lparr>tasks := h\<rparr>))"

definition pipe_write :: "nat \<Rightarrow> pipe_end option \<Rightarrow> u8 list \<Rightarrow> pipe \<times> sched \<Rightarrow> io_result \<times> pipe \<times> sched" where
  "pipe_write c pend src ps =
     (if src = [] then (Done 0 [], ps)
      else case pend of
        None \<Rightarrow> (Done (- EBADF) [], ps)
      | Some e \<Rightarrow>
          if eside e \<noteq> PIPE_SIDE_WRITE then (Done (- EBADF) [], ps)
          else pipe_write_turn c src 0 ps)"

section \<open>Closing, creating, opening\<close>

text \<open>
  The heap objects of the component: pipes, ends, the files they are installed in, the
  \<^verbatim>\<open>inode->pipe\<close> pointer of FIFO inodes, and what has been given back to \<^verbatim>\<open>kfree\<close>.
\<close>

datatype pipe_obj = PipeBuf nat | PipeObj nat | PipeEnd nat | FileObj nat

record pipe_store =
  pipes :: "nat \<Rightarrow> pipe"
  pends :: "nat \<Rightarrow> pipe_end"
  pfiles :: "nat \<Rightarrow> file_t"
  inode_pipe :: "nat \<Rightarrow> nat"
  pfrees :: "pipe_obj list"

definition pipe_free :: "nat \<Rightarrow> pipe_store \<Rightarrow> pipe_store" where
  "pipe_free pp st = (if pp = 0 then st else st\<lparr>pfrees := pfrees st @ [PipeBuf pp, PipeObj pp]\<rparr>)"

text \<open>The part of \<^verbatim>\<open>pipe_close\<close> under the pipe's lock: counters and the chain to wake.\<close>

definition pipe_close_side :: "pipe_side \<Rightarrow> pipe \<times> theap \<Rightarrow> (tptr \<times> pipe \<times> theap) option" where
  "pipe_close_side side ph =
     (let (p, h) = ph;
          p = (if side = PIPE_SIDE_READ then (if readers p > 0 then p\<lparr>readers := readers p - 1\<rparr> else p)
               else (if writers p > 0 then p\<lparr>writers := writers p - 1\<rparr> else p))
      in if side = PIPE_SIDE_READ \<and> readers p = 0 then
           map_option (\<lambda>(chain, h, q). (chain, p\<lparr>write_waiter := q\<rparr>, h)) (waiter_drain_all (h, write_waiter p))
         else if side = PIPE_SIDE_WRITE \<and> writers p = 0 then
           map_option (\<lambda>(chain, h, q). (chain, p\<lparr>read_waiter := q\<rparr>, h)) (waiter_drain_all (h, read_waiter p))
         else Some (NULL, p, h))"

definition pipe_close :: "nat \<Rightarrow> pipe_store \<times> sched \<Rightarrow> (pipe_store \<times> sched) option" where
  "pipe_close f sts =
     (let (st, s) = sts; e = fprivate (pfiles st f) in
      if e = 0 then Some (st, s)
      else
        let pp = epipe (pends st e)
        in case pipe_close_side (eside (pends st e)) (pipes st pp, tasks s) of
             None \<Rightarrow> None
           | Some (chain, p, h) \<Rightarrow>
               let free_pipe = (readers p = 0 \<and> writers p = 0);
                   st = st\<lparr>pipes := (pipes st)(pp := p)\<rparr>;
                   st = (if free_pipe \<and> pinode p \<noteq> 0 then st\<lparr>inode_pipe := (inode_pipe st)(pinode p := 0)\<rparr> else st)
               in case wake_chain chain (s\<lparr>tasks := h\<rparr>) of
                    None \<Rightarrow> None
                  | Some s \<Rightarrow>
                      let st = (if free_pipe then pipe_free pp st else st);
                          st = st\<lparr>pfrees := pfrees st @ [PipeEnd e]\<rparr>
                      in Some (st\<lparr>pfiles := (pfiles st)(f := (pfiles st f)\<lparr>fprivate := 0\<rparr>)\<rparr>, s))"

text \<open>
  \<open>new\<close> and \<open>buf_ok\<close> are the results of the two calls of \<^verbatim>\<open>kmalloc\<close> (0 and False when they
  fail); \<open>junk\<close> is what the fresh buffer contains.
\<close>

definition zero_pipe :: "(nat \<Rightarrow> u8) \<Rightarrow> pipe" where
  "zero_pipe junk = \<lparr>pbuf = junk, phead = 0, ptail = 0, readers = 0, writers = 0, ever_readers = False,
     ever_writers = False, read_waiter = \<lparr>qhead = NULL, qtail = NULL\<rparr>,
     write_waiter = \<lparr>qhead = NULL, qtail = NULL\<rparr>, pinode = 0\<rparr>"

definition pipe_alloc :: "nat \<Rightarrow> bool \<Rightarrow> (nat \<Rightarrow> u8) \<Rightarrow> nat \<Rightarrow> pipe_store \<Rightarrow> nat \<times> pipe_store" where
  "pipe_alloc new buf_ok junk fifo_inode st =
     (if new = 0 then (0, st)
      else if \<not> buf_ok then (0, st\<lparr>pfrees := pfrees st @ [PipeObj new]\<rparr>)
      else (new, st\<lparr>pipes := (pipes st)(new := (zero_pipe junk)\<lparr>pinode := fifo_inode\<rparr>)\<rparr>))"

definition install_end :: "nat \<Rightarrow> nat \<Rightarrow> nat \<Rightarrow> nat \<Rightarrow> pipe_side \<Rightarrow> pipe_store \<Rightarrow> int \<times> pipe_store" where
  "install_end stub_inode new f pp side st =
     (if new = 0 then (- ENOMEM, st)
      else
        let ino = (if pinode (pipes st pp) \<noteq> 0 then pinode (pipes st pp) else stub_inode)
        in (0, st\<lparr>pends := (pends st)(new := \<lparr>epipe = pp, eside = side\<rparr>),
                  pfiles := (pfiles st)(f := (pfiles st f)\<lparr>finode := ino, fops := PipeFops, fposition := 0,
                    fmode := 0, fref_count := 1, fprivate := new\<rparr>)\<rparr>))"

text \<open>
  \<^verbatim>\<open>pipe_create_pair\<close>: \<open>pp\<close>, \<open>rdf\<close>, \<open>wrf\<close>, \<open>re\<close>, \<open>we\<close> are the results of the allocations, in the
  order the code makes them; on failure everything allocated so far is given back.
\<close>

definition free_file :: "nat \<Rightarrow> pipe_store \<Rightarrow> pipe_store" where
  "free_file f st = (if f \<noteq> 0 then st\<lparr>pfrees := pfrees st @ [FileObj f]\<rparr> else st)"

definition pipe_create_pair ::
  "nat \<Rightarrow> nat \<Rightarrow> bool \<Rightarrow> (nat \<Rightarrow> u8) \<Rightarrow> nat \<Rightarrow> nat \<Rightarrow> nat \<Rightarrow> nat \<Rightarrow> pipe_store \<Rightarrow> (int + nat \<times> nat) \<times> pipe_store" where
  "pipe_create_pair stub_inode new buf_ok junk rdf wrf re we st =
     (let (pp, st) = pipe_alloc new buf_ok junk 0 st in
      if pp = 0 then (Inl (- ENOMEM), st)
      else
        let st = st\<lparr>pipes := (pipes st)(pp := (pipes st pp)\<lparr>readers := 1, writers := 1\<rparr>),
                    pfiles := (\<lambda>x. if x \<noteq> 0 \<and> (x = rdf \<or> x = wrf) then zero_file else pfiles st x)\<rparr>;
            fail = (\<lambda>st. (Inl (- ENOMEM), pipe_free pp (free_file wrf (free_file rdf st))))
        in if rdf = 0 \<or> wrf = 0 then fail st
           else
             let (r, st) = install_end stub_inode re rdf pp PIPE_SIDE_READ st in
             if r < 0 then fail st
             else
               let st = st\<lparr>pfiles := (pfiles st)(rdf := (pfiles st rdf)\<lparr>fflags := O_RDONLY\<rparr>)\<rparr>;
                   (r, st) = install_end stub_inode we wrf pp PIPE_SIDE_WRITE st
               in if r < 0 then
                    fail (st\<lparr>pfrees := pfrees st @ [PipeEnd (fprivate (pfiles st rdf))],
                             pfiles := (pfiles st)(rdf := (pfiles st rdf)\<lparr>fprivate := 0, fops := NoFops\<rparr>)\<rparr>)
                  else (Inr (rdf, wrf), st\<lparr>pfiles := (pfiles st)(wrf := (pfiles st wrf)\<lparr>fflags := O_WRONLY\<rparr>)\<rparr>))"

text \<open>
  \<^verbatim>\<open>fifo_open\<close> in three parts: attaching (under \<^verbatim>\<open>fifo_attach_lock\<close>), the turn of the
  wait-for-peer loop, and the end that installs the file or rolls the counter back.
\<close>

definition fifo_side :: "u32 \<Rightarrow> pipe_side" where
  "fifo_side flags = (if flags AND O_ACCMODE = O_WRONLY then PIPE_SIDE_WRITE else PIPE_SIDE_READ)"

definition fifo_attach ::
  "nat \<Rightarrow> bool \<Rightarrow> (nat \<Rightarrow> u8) \<Rightarrow> nat \<Rightarrow> pipe_side \<Rightarrow> pipe_store \<times> sched \<Rightarrow> ((int + tptr) \<times> pipe_store \<times> sched) option" where
  "fifo_attach new buf_ok junk ino side sts =
     (let (st, s) = sts;
          (pp, st) = (if inode_pipe st ino = 0 then pipe_alloc new buf_ok junk ino st else (inode_pipe st ino, st))
      in if pp = 0 then Some (Inl (- ENOMEM), st, s)
         else
           let st = st\<lparr>inode_pipe := (inode_pipe st)(ino := pp)\<rparr>;
               p = pipes st pp;
               p = (if side = PIPE_SIDE_READ then p\<lparr>readers := readers p + 1, ever_readers := True\<rparr>
                    else p\<lparr>writers := writers p + 1, ever_writers := True\<rparr>)
           in case waiter_drain_all (tasks s, if side = PIPE_SIDE_READ then write_waiter p else read_waiter p) of
                None \<Rightarrow> None
              | Some (chain, h, q) \<Rightarrow>
                  let p = (if side = PIPE_SIDE_READ then p\<lparr>write_waiter := q\<rparr> else p\<lparr>read_waiter := q\<rparr>)
                  in Some (Inr chain, st\<lparr>pipes := (pipes st)(pp := p)\<rparr>, s\<lparr>tasks := h\<rparr>))"

definition fifo_need_block :: "pipe_side \<Rightarrow> pipe \<Rightarrow> bool" where
  "fifo_need_block side p = (if side = PIPE_SIDE_READ then \<not> ever_writers p else \<not> ever_readers p)"

definition fifo_wait_turn :: "nat \<Rightarrow> pipe_side \<Rightarrow> pipe \<times> sched \<Rightarrow> io_result \<times> pipe \<times> sched" where
  "fifo_wait_turn c side ps =
     (if \<not> fifo_need_block side (fst ps) then (Done 0 [], ps)
      else (Parked, if side = PIPE_SIDE_READ then park_reader c ps else park_writer c ps))"

definition fifo_finish :: "nat \<Rightarrow> nat \<Rightarrow> nat \<Rightarrow> pipe_side \<Rightarrow> nat \<Rightarrow> pipe_store \<Rightarrow> int \<times> pipe_store" where
  "fifo_finish stub_inode ino f side new st =
     (let pp = inode_pipe st ino;
          (r, st) = install_end stub_inode new f pp side st
      in if r < 0 then
           let p = pipes st pp;
               p = (if side = PIPE_SIDE_READ then p\<lparr>readers := readers p - 1\<rparr> else p\<lparr>writers := writers p - 1\<rparr>);
               st = st\<lparr>pipes := (pipes st)(pp := p)\<rparr>
           in (r, if readers p = 0 \<and> writers p = 0
                  then pipe_free pp (st\<lparr>inode_pipe := (inode_pipe st)(ino := 0)\<rparr>) else st)
         else (0, st))"

end
