(* ===== verification/Pipe_Props.thy ===== *)
theory Pipe_Props
  imports Pipe
begin

text \<open>
  The pipe ring implements the byte stream interface and the pipe waiter queues the task queue
  interface; what readers and writers observe follows from the two.
\<close>

section \<open>The ring is a byte stream\<close>

definition pipe_bytes :: "pipe \<Rightarrow> u8 list" where
  "pipe_bytes p = ring_contents (pbuf p) 4096 (ptail p) (phead p)"

definition pipe_ok :: "pipe \<Rightarrow> bool" where
  "pipe_ok p \<longleftrightarrow> unat (phead p - ptail p) \<le> 4096"

lemma pipe_ring_size: "ring_size 4096"
  by (simp add: ring_size_def)

lemma length_pipe_bytes [simp]: "length (pipe_bytes p) = unat (ring_count p)"
  by (simp add: pipe_bytes_def ring_count_def)

lemma pipe_index: "unat (x mod PIPE_BUF_SIZE) = unat x mod 4096"
  by (simp add: unat_mod_size PIPE_BUF_SIZE_def)

lemma ring_count_0: "ring_count p = 0 \<longleftrightarrow> pipe_bytes p = []" "ring_count p > 0 \<longleftrightarrow> pipe_bytes p \<noteq> []"
proof -
  show a: "ring_count p = 0 \<longleftrightarrow> pipe_bytes p = []"
    by (metis length_0_conv length_pipe_bytes unat_eq_zero)
  show "ring_count p > 0 \<longleftrightarrow> pipe_bytes p \<noteq> []" using a word_neq_0_conv by blast
qed

lemma ring_space_pos: "pipe_ok p \<Longrightarrow> ring_space p > 0 \<longleftrightarrow> length (pipe_bytes p) < 4096"
proof -
  assume ok: "pipe_ok p"
  have "ring_count p \<le> 4096" using ok by (simp add: pipe_ok_def ring_count_def word_le_nat_alt)
  then have "unat (ring_space p) = 4096 - unat (ring_count p)" unfolding ring_space_def PIPE_BUF_SIZE_def
    by (subst unat_sub) simp_all
  then show ?thesis by (simp add: word_less_nat_alt)
qed

lemma ring_drain_spec:
  assumes "pipe_ok p" and "ring_drain k p = (bs, p')"
  shows "pipe_ok p' \<and> bs = take k (pipe_bytes p) \<and> pipe_bytes p' = drop k (pipe_bytes p)"
  using assms
proof (induction k arbitrary: p bs p')
  case (Suc k)
  show ?case
  proof (cases "ptail p = phead p")
    case True
    then show ?thesis using Suc.prems by (simp add: pipe_bytes_def)
  next
    case False
    let ?p1 = "p\<lparr>ptail := ptail p + 1\<rparr>"
    obtain cs p1 where r: "ring_drain k ?p1 = (cs, p1)" by fastforce
    have b: "pipe_bytes p = pbuf p (unat (ptail p) mod 4096) # pipe_bytes ?p1"
      using ring_contents_Cons [OF pipe_ring_size False] by (simp add: pipe_bytes_def)
    have "pipe_ok ?p1" using Suc.prems(1) unat_minus_1_plus [OF False] by (simp add: pipe_ok_def)
    from Suc.IH [OF this r] Suc.prems(2) False b show ?thesis by (simp add: r pipe_index Let_def)
  qed
qed simp

lemma ring_drain_frame: "ring_drain k p = (bs, p') \<Longrightarrow> p' = p\<lparr>ptail := ptail p'\<rparr>"
proof (induction k arbitrary: p bs p')
  case (Suc k)
  obtain cs p1 where r: "ring_drain k (p\<lparr>ptail := ptail p + 1\<rparr>) = (cs, p1)" by fastforce
  from Suc.IH [OF r] Suc.prems r show ?case by (auto split: if_splits)
qed simp

lemma ring_fill_spec:
  assumes "pipe_ok p" and "ring_fill src p = (n, p')"
  shows "pipe_ok p' \<and> n = min (length src) (4096 - length (pipe_bytes p)) \<and> pipe_bytes p' = pipe_bytes p @ take n src"
  using assms
proof (induction src arbitrary: p n p')
  case (Cons b src)
  show ?case
  proof (cases "ring_space p > 0")
    case True
    let ?p1 = "p\<lparr>pbuf := (pbuf p)(unat (phead p mod PIPE_BUF_SIZE) := b), phead := phead p + 1\<rparr>"
    obtain m p1 where r: "ring_fill src ?p1 = (m, p1)" by fastforce
    have l: "unat (phead p - ptail p) < 4096" using ring_space_pos [OF Cons.prems(1)] True by (simp add: ring_count_def)
    have c: "pipe_bytes ?p1 = pipe_bytes p @ [b]"
      using ring_contents_snoc [OF pipe_ring_size l, of "pbuf p" b] by (simp add: pipe_bytes_def pipe_index)
    have "pipe_ok ?p1" using arg_cong [OF c, of length] l by (simp add: pipe_ok_def ring_count_def)
    from Cons.IH [OF this r] c True Cons.prems(2) r l show ?thesis
      by (auto simp: ring_count_def)
  next
    case False
    then show ?thesis using Cons.prems ring_space_pos [OF Cons.prems(1)] by simp
  qed
qed simp

lemma ring_fill_frame: "ring_fill src p = (n, p') \<Longrightarrow> p' = p\<lparr>pbuf := pbuf p', phead := phead p'\<rparr>"
proof (induction src arbitrary: p n p')
  case (Cons b src)
  obtain m p1 where r: "ring_fill src (p\<lparr>pbuf := (pbuf p)(unat (phead p mod PIPE_BUF_SIZE) := b), phead := phead p + 1\<rparr>) = (m, p1)"
    by fastforce
  from Cons.IH [OF r] Cons.prems r show ?case by (auto split: if_splits)
qed simp

interpretation pipe_ring: byte_stream ring_fill ring_drain pipe_bytes pipe_ok "\<lambda>_. 4096"
proof
  show "length (pipe_bytes r) \<le> 4096" if "pipe_ok r" for r using that by (simp add: pipe_ok_def ring_count_def)
  show "pipe_ok r' \<and> 4096 = 4096 \<and> n = min (length src) (4096 - length (pipe_bytes r)) \<and>
      pipe_bytes r' = pipe_bytes r @ take n src" if "pipe_ok r" "ring_fill src r = (n, r')" for r src n r'
    using ring_fill_spec [OF that] by blast
  show "pipe_ok r' \<and> 4096 = 4096 \<and> bs = take k (pipe_bytes r) \<and> pipe_bytes r' = drop k (pipe_bytes r)"
    if "pipe_ok r" "ring_drain k r = (bs, r')" for r k bs r'
    using ring_drain_spec [OF that] by blast
qed

section \<open>The waiter queues\<close>

lemma waiter_enqueue_link: "waiter_enqueue = link_tail"
  by (auto simp: fun_eq_iff waiter_enqueue_def link_tail_def Let_def split: prod.splits)

lemma waiter_pop_unlink: "waiter_pop = unlink_head"
  by (auto simp: fun_eq_iff waiter_pop_def unlink_head_def Let_def split: prod.splits)

lemma waiter_remove_splice: "waiter_remove_self = splice_out"
  by (simp add: fun_eq_iff waiter_remove_self_def splice_out_def)

interpretation pipeq: task_fifo_remove waiter_enqueue waiter_pop waiter_remove_self
  unfolding waiter_enqueue_link waiter_pop_unlink waiter_remove_splice by unfold_locales

section \<open>Streams\<close>

fun result_bytes :: "io_result \<Rightarrow> u8 list" where
  "result_bytes (Done v bs) = bs"
| "result_bytes _ = []"

text \<open>The bytes a turn of a write reports to have stored, beyond the first \<open>tot\<close>.\<close>

fun reported :: "u8 list \<Rightarrow> nat \<Rightarrow> io_result \<Rightarrow> u8 list" where
  "reported src tot (Done v _) = take (nat v - tot) (drop tot src)"
| "reported src tot (Again n) = take (n - tot) (drop tot src)"
| "reported src tot Parked = []"

text \<open>
  \<open>pipe_history p w r\<close>: the pipe \<open>p\<close> can arise, after turns of reads and writes by any tasks in
  any scheduler states, with \<open>w\<close> the bytes the writers were told are stored and \<open>r\<close> the bytes
  the readers were given.  \<open>other\<close> covers opening, closing and the waiter queues.
\<close>

inductive pipe_history :: "pipe \<Rightarrow> u8 list \<Rightarrow> u8 list \<Rightarrow> bool" where
  created: "pipe_history (zero_pipe junk) [] []"
| read_first: "pipe_history p w r \<Longrightarrow> pipe_read c e sz (p, s) = (res, p', s') \<Longrightarrow> pipe_history p' w (r @ result_bytes res)"
| read_more: "pipe_history p w r \<Longrightarrow> pipe_read_turn c sz (p, s) = (res, p', s') \<Longrightarrow> pipe_history p' w (r @ result_bytes res)"
| write_first: "pipe_history p w r \<Longrightarrow> pipe_write c e src (p, s) = (res, p', s') \<Longrightarrow> pipe_history p' (w @ reported src 0 res) r"
| write_more: "pipe_history p w r \<Longrightarrow> pipe_write_turn c src tot (p, s) = (res, p', s') \<Longrightarrow>
    pipe_history p' (w @ reported src tot res) r"
| other: "pipe_history p w r \<Longrightarrow> pbuf p' = pbuf p \<Longrightarrow> phead p' = phead p \<Longrightarrow> ptail p' = ptail p \<Longrightarrow> pipe_history p' w r"

lemma pipe_bytes_simps [simp]:
  "pipe_bytes (p\<lparr>read_waiter := q\<rparr>) = pipe_bytes p" "pipe_bytes (p\<lparr>write_waiter := q\<rparr>) = pipe_bytes p"
  "pipe_ok (p\<lparr>read_waiter := q\<rparr>) = pipe_ok p" "pipe_ok (p\<lparr>write_waiter := q\<rparr>) = pipe_ok p"
  "ring_count (p\<lparr>read_waiter := q\<rparr>) = ring_count p" "ring_count (p\<lparr>write_waiter := q\<rparr>) = ring_count p"
  by (simp_all add: pipe_bytes_def pipe_ok_def ring_count_def)

lemma park_bytes [simp]:
  "pipe_bytes (fst (park_reader c ps)) = pipe_bytes (fst ps)" "pipe_ok (fst (park_reader c ps)) = pipe_ok (fst ps)"
  "pipe_bytes (fst (park_writer c ps)) = pipe_bytes (fst ps)" "pipe_ok (fst (park_writer c ps)) = pipe_ok (fst ps)"
  by (simp_all add: park_reader_def park_writer_def split_beta Let_def)

lemma read_turn_stream:
  assumes ok: "pipe_ok p" and e: "pipe_read_turn c sz (p, s) = (res, p', s')"
  shows "pipe_ok p' \<and> result_bytes res @ pipe_bytes p' = pipe_bytes p"
proof (cases "ring_count p > 0")
  case True
  obtain bs p1 where d: "ring_drain (unat sz) p = (bs, p1)" by fastforce
  from ring_drain_spec [OF ok d] e True show ?thesis
    by (auto simp: pipe_read_turn_def d Let_def split: prod.splits)
next
  case False
  then show ?thesis using e ok park_bytes [of c "(p, s)"]
    by (auto simp: pipe_read_turn_def simp del: park_bytes split: if_splits)
qed

lemma write_turn_stream:
  assumes ok: "pipe_ok p" and e: "pipe_write_turn c src tot (p, s) = (res, p', s')"
  shows "pipe_ok p' \<and> pipe_bytes p' = pipe_bytes p @ reported src tot res"
proof (cases "tot < length src \<and> readers p \<noteq> 0 \<and> ring_space p > 0")
  case True
  obtain n p1 where f: "ring_fill (drop tot src) p = (n, p1)" by fastforce
  from ring_fill_spec [OF ok f] e True show ?thesis
    by (auto simp: pipe_write_turn_def f Let_def nat_add_distrib split: prod.splits if_splits)
next
  case False
  then show ?thesis using e ok park_bytes [of c "(p, s)"]
    by (auto simp: pipe_write_turn_def errno_defs simp del: park_bytes split: if_splits)
qed

lemma read_stream:
  assumes "pipe_ok p" and "pipe_read c e sz (p, s) = (res, p', s')"
  shows "pipe_ok p' \<and> result_bytes res @ pipe_bytes p' = pipe_bytes p"
  using assms read_turn_stream [of p c sz s res p' s'] by (auto simp: pipe_read_def split: if_splits option.splits)

lemma write_stream:
  assumes "pipe_ok p" and "pipe_write c e src (p, s) = (res, p', s')"
  shows "pipe_ok p' \<and> pipe_bytes p' = pipe_bytes p @ reported src 0 res"
  using assms write_turn_stream [of p c src 0 s res p' s']
  by (auto simp: pipe_write_def errno_defs split: if_splits option.splits)

lemma history_stream: "pipe_history p w r \<Longrightarrow> pipe_ok p \<and> w = r @ pipe_bytes p"
proof (induction rule: pipe_history.induct)
  case (created junk)
  then show ?case by (simp add: zero_pipe_def pipe_ok_def pipe_bytes_def)
next
  case (read_first p w r c e sz s res p' s')
  then show ?case using read_stream [OF _ read_first.hyps(2)] by (metis append.assoc)
next
  case (read_more p w r c sz s res p' s')
  then show ?case using read_turn_stream [OF _ read_more.hyps(2)] by (metis append.assoc)
next
  case (write_first p w r c e src s res p' s')
  then show ?case using write_stream [OF _ write_first.hyps(2)] by simp
next
  case (write_more p w r c src tot s res p' s')
  then show ?case using write_turn_stream [OF _ write_more.hyps(2)] by simp
next
  case (other p w r p')
  then show ?case by (simp add: pipe_ok_def pipe_bytes_def)
qed

text \<open>
  C21. A pipe is a byte stream.  Whatever the interleaving of reads and writes, whichever tasks
  perform them and whatever the scheduler does in between, the bytes the writers were told are
  stored are, in order, the bytes the readers were given followed by the bytes in the ring; the
  ring never holds more than its 4096 bytes.
\<close>

theorem pipe_stream:
  assumes "pipe_history p w r"
  shows "w = r @ pipe_bytes p \<and> length (pipe_bytes p) \<le> 4096"
  using history_stream [OF assms] pipe_ring.held_le [of p] by simp

definition demo_pipe :: pipe where
  "demo_pipe = (zero_pipe (\<lambda>_. 0))\<lparr>readers := 1, writers := 1\<rparr>"

theorem pipe_stream_witness:
  "\<exists>p. pipe_history p [7, 8, 9] [7, 8] \<and> pipe_bytes p = [9]"
proof -
  let ?R = "Some \<lparr>epipe = 1, eside = PIPE_SIDE_READ\<rparr>" and ?W = "Some \<lparr>epipe = 1, eside = PIPE_SIDE_WRITE\<rparr>"
  let ?p2 = "demo_pipe\<lparr>pbuf := (\<lambda>_. 0)(0 := 7, 1 := 8, 2 := 9), phead := 3\<rparr>"
  have s: "s\<lparr>tasks := tasks s\<rparr> = s" for s :: sched by simp
  have 0: "pipe_history demo_pipe [] []"
    by (rule pipe_history.other [OF pipe_history.created [of "\<lambda>_. 0"]]) (simp_all add: demo_pipe_def)
  have 1: "pipe_write 0 ?W [7, 8, 9] (demo_pipe, demo_sched) = (Done 3 [], ?p2, demo_sched)"
    by (simp add: pipe_write_def pipe_write_turn_def demo_pipe_def zero_pipe_def ring_space_def ring_count_def
      PIPE_BUF_SIZE_def waiter_pop_def wake_opt_def s)
  have u: "unat (2::u64) = Suc (Suc 0)" by simp
  have d: "ring_drain (unat (2::u64)) ?p2 = ([7, 8], ?p2\<lparr>ptail := 2\<rparr>)"
    unfolding u by (simp add: demo_pipe_def zero_pipe_def PIPE_BUF_SIZE_def)
  have 2: "pipe_read 0 ?R 2 (?p2, demo_sched) = (Done 2 [7, 8], ?p2\<lparr>ptail := 2\<rparr>, demo_sched)"
    unfolding pipe_read_def pipe_read_turn_def using d
    by (simp add: demo_pipe_def zero_pipe_def ring_count_def waiter_pop_def wake_opt_def s)
  have "pipe_history (?p2\<lparr>ptail := 2\<rparr>) [7, 8, 9] [7, 8]"
    using pipe_history.read_first [OF pipe_history.write_first [OF 0 1] 2] by simp
  with pipe_stream [OF this] show ?thesis by auto
qed

end
