(* ===== verification/Pipe_Wake.thy ===== *)
theory Pipe_Wake
  imports Pipe_Props
begin

text \<open>
  Blocking and waking on pipes: what each turn of a read or write does to the waiters, what the
  last close of a side does, and that a lone reader and a lone writer never sleep on a pipe
  that could serve them.
\<close>

section \<open>Chains of tasks\<close>

fun chained :: "theap \<Rightarrow> tptr list \<Rightarrow> bool" where
  "chained h [] \<longleftrightarrow> True"
| "chained h (x # xs) \<longleftrightarrow> x \<noteq> NULL \<and> tnext (h x) = hd (xs @ [NULL]) \<and> chained h xs"

lemma chained_cong: "(\<And>x. x \<in> set xs \<Longrightarrow> tnext (h x) = tnext (g x)) \<Longrightarrow> chained h xs = chained g xs"
  by (induction xs) auto

lemma dlseg_chained: "dlseg h p xs NULL \<Longrightarrow> chained h xs"
  by (induction xs arbitrary: p) auto

definition marked :: "tptr list \<Rightarrow> theap \<Rightarrow> theap" where
  "marked xs h = (\<lambda>x. if x \<in> set xs then (h x)\<lparr>tstate := TASK_STATE_READY, tprev := NULL\<rparr> else h x)"

lemma mark_ready_chain:
  assumes "chained h xs" and "distinct xs"
  shows "mark_ready (hd (xs @ [NULL])) h = Some (marked xs h)"
  using assms
proof (induction xs arbitrary: h)
  case Nil
  then show ?case by (simp add: mark_ready.simps marked_def)
next
  case (Cons x xs)
  let ?h1 = "h(x := (h x)\<lparr>tstate := TASK_STATE_READY, tprev := NULL\<rparr>)"
  have "chained ?h1 xs = chained h xs" by (rule chained_cong) (use Cons.prems(2) in auto)
  with Cons have "mark_ready (hd (xs @ [NULL])) ?h1 = Some (marked xs ?h1)" by simp
  moreover have "marked xs ?h1 = marked (x # xs) h" using Cons.prems(2) by (auto simp: marked_def fun_eq_iff)
  ultimately show ?case using Cons.prems by (simp add: mark_ready.simps [of x])
qed

lemma waiter_drain_all_rep:
  assumes "queue_rep h q xs"
  shows "waiter_drain_all (h, q) = Some (hd (xs @ [NULL]), marked xs h, empty_queue)"
  using mark_ready_chain [OF dlseg_chained, of h NULL xs] queue_repD [OF assms]
  by (simp add: waiter_drain_all_def empty_queue_def)

lemma wake_chain_NULL [simp]: "wake_chain NULL s = Some s"
  by (simp add: wake_chain.simps)

lemma wake_chain_parked:
  assumes "parked s Q ws" and "chained (tasks s) xs" and "distinct xs"
    and "\<And>x. x \<in> set xs \<Longrightarrow> detached s Q ws x \<and> tstate (tasks s x) = TASK_STATE_READY"
  shows "\<exists>s'. wake_chain (hd (xs @ [NULL])) s = Some s' \<and> parked s' (fold (enqueue_home s) xs Q) ws \<and>
    (\<forall>x. tstate (tasks s' x) = tstate (tasks s x)) \<and> (\<forall>c. cpu_current (cpus s' c) = cpu_current (cpus s c))"
  using assms
proof (induction xs arbitrary: s Q)
  case Nil
  then show ?case by (simp add: wake_chain.simps)
next
  case (Cons x xs)
  let ?s0 = "upd_task x (\<lambda>k. k\<lparr>tnext := NULL\<rparr>) s"
  have x: "x \<noteq> NULL" "\<And>d. x \<notin> set (Q d)" "\<And>d. x \<notin> set (sleepq (cpus s d))" "x \<notin> waiting ws"
    "tstate (tasks s x) = TASK_STATE_READY" using Cons.prems(4) [of x] by (auto simp: detached_def)
  have "sched_inv ?s0 Q" unfolding upd_task_def
    by (rule sched_inv_outside [OF parkedD(1) [OF Cons.prems(1)]]) (use x(2,3) in auto)
  then have p0: "parked ?s0 Q ws"
    by (rule parked_frame [OF Cons.prems(1)]) (use x(4) parkedD(5) [OF Cons.prems(1)] in auto)
  have d0: "detached ?s0 Q ws x" using x by (simp add: detached_def)
  have w: "rq_enqueue_external x ?s0 = wake_task x ?s0"
  proof -
    have "upd_task x (\<lambda>k. k\<lparr>tstate := TASK_STATE_READY\<rparr>) ?s0 = ?s0"
      using x(5) by (cases "tasks s x") (simp add: upd_task_def)
    then show ?thesis by (simp add: wake_task_def)
  qed
  note p1 = wake_task_parked [OF p0 d0]
  let ?s1 = "wake_task x ?s0"
  have keep: "tasks ?s1 y = tasks s y" if "y \<in> set xs" for y
  proof -
    have "y \<noteq> x" "\<And>d. y \<notin> set (Q d)" using that Cons.prems(3,4) by (auto simp: detached_def)
    then show ?thesis using p1(8) [of y] by simp
  qed
  have eh: "enqueue_home ?s0 x Q = enqueue_home s x Q" by (simp add: enqueue_home_def)
  have ehs: "enqueue_home ?s1 = enqueue_home s" using p1(6) by (auto simp: enqueue_home_def fun_eq_iff)
  have "chained (tasks ?s1) xs = chained (tasks s) xs" by (rule chained_cong) (simp add: keep)
  then have c1: "chained (tasks ?s1) xs" using Cons.prems(2) by simp
  have d1: "detached ?s1 (enqueue_home s x Q) ws y \<and> tstate (tasks ?s1 y) = TASK_STATE_READY" if y: "y \<in> set xs" for y
  proof -
    have "y \<noteq> x" using y Cons.prems(3) by auto
    moreover have "detached s Q ws y" "tstate (tasks s y) = TASK_STATE_READY" using Cons.prems(4) [of y] y by auto
    ultimately show ?thesis using keep [OF y] p1(7) by (auto simp: detached_def enqueue_home_def)
  qed
  obtain s' where s': "wake_chain (hd (xs @ [NULL])) ?s1 = Some s'" "parked s' (fold (enqueue_home ?s1) xs (enqueue_home s x Q)) ws"
    "\<forall>y. tstate (tasks s' y) = tstate (tasks ?s1 y)" "\<forall>c. cpu_current (cpus s' c) = cpu_current (cpus ?s1 c)"
    using Cons.IH [of ?s1 "enqueue_home s x Q"] p1(1) [unfolded eh] c1 Cons.prems(3) d1 by auto
  have st: "tstate (tasks ?s1 y) = tstate (tasks s y)" for y
    using p1(2) p1(3) [of y] x(5) by (cases "y = x") auto
  have "wake_chain (hd ((x # xs) @ [NULL])) s = wake_chain (hd (xs @ [NULL])) ?s1"
    using x(1) Cons.prems(2) w by (simp add: wake_chain.simps [of x] Let_def)
  then show ?case using s' st p1(4) by (auto simp: ehs)
qed

section \<open>The turns of reads and writes\<close>

definition pipe_inv :: "pipe \<Rightarrow> sched \<Rightarrow> (nat \<Rightarrow> tptr list) \<Rightarrow> tptr list \<Rightarrow> tptr list \<Rightarrow> bool" where
  "pipe_inv p s Q rs ws \<longleftrightarrow> pipe_ok p \<and> parked s Q [(read_waiter p, rs), (write_waiter p, ws)]"

lemma pipe_inv_swap: "pipe_inv p s Q rs ws \<longleftrightarrow> pipe_ok p \<and> parked s Q [(write_waiter p, ws), (read_waiter p, rs)]"
  by (simp add: pipe_inv_def parked_swap)

text \<open>The sender of a signal to itself keeps running; only the pending bit changes.\<close>

lemma signal_self_parked:
  assumes "parked s Q ws" and "me \<noteq> NULL" "tstate (tasks s me) = TASK_STATE_RUNNING" and "signo_valid sig"
  shows "parked (signal_send me sig s) Q ws"
    and "tstate (tasks (signal_send me sig s) x) = tstate (tasks s x)"
    and "pending_signals (tasks (signal_send me sig s) me) = pending_signals (tasks s me) OR sig_bit sig"
proof -
  have n: "me \<notin> waiting ws" using parkedD(4) [OF assms(1), of me] assms(3) by auto
  have e: "signal_send me sig s = upd_task me (\<lambda>k. k\<lparr>pending_signals := pending_signals k OR sig_bit sig\<rparr>) s"
    using assms by (simp add: signal_send_def Let_def)
  have nq: "me \<notin> set (Q d)" "me \<notin> set (sleepq (cpus s d))" for d
    using running_not_queued [OF parkedD(1) [OF assms(1)]] awake_not_sleeping [OF parkedD(1) [OF assms(1)]] assms(3) by simp_all
  have "sched_inv (signal_send me sig s) Q" unfolding e upd_task_def
    by (rule sched_inv_outside [OF parkedD(1) [OF assms(1)]]) (use nq in auto)
  then show "parked (signal_send me sig s) Q ws"
    by (rule parked_frame [OF assms(1)]) (use n parkedD(5) [OF assms(1)] in \<open>auto simp: e\<close>)
  show "tstate (tasks (signal_send me sig s) x) = tstate (tasks s x)"
    "pending_signals (tasks (signal_send me sig s) me) = pending_signals (tasks s me) OR sig_bit sig" by (simp_all add: e)
qed

lemma read_turn_parks:
  assumes inv: "pipe_inv p s Q rs ws" and me: "running_on c s me" and b: "pipe_bytes p = []" "writers p \<noteq> 0"
    and e: "pipe_read_turn c sz (p, s) = (res, p', s')"
  shows "res = Parked" "pipe_inv p' s' Q (rs @ [me]) ws" "tstate (tasks s' me) = TASK_STATE_BLOCKED"
    "pipe_bytes p' = []" "writers p' = writers p" "readers p' = readers p" "cpu_current (cpus s' c) = me"
proof -
  have cur: "cpu_current (cpus s c) = me" "me \<noteq> NULL" "tstate (tasks s me) = TASK_STATE_RUNNING"
    using me by (simp_all add: running_on_def)
  obtain h q where w: "waiter_enqueue me (tasks s, read_waiter p) = (h, q)" by fastforce
  have n: "\<not> ring_count p > 0" using b(1) ring_count_0 by blast
  have r: "res = Parked" "p' = p\<lparr>read_waiter := q\<rparr>" "s' = upd_task me (\<lambda>k. k\<lparr>tstate := TASK_STATE_BLOCKED\<rparr>) (s\<lparr>tasks := h\<rparr>)"
    using e n b(2) w cur(1) by (auto simp: pipe_read_turn_def park_reader_def)
  have "parked s Q [(read_waiter p, rs), (write_waiter p, ws)]" "pipe_ok p" using inv by (simp_all add: pipe_inv_def)
  from pipeq.enq_parked(1) [OF this(1) cur(2,3) w] this(2) show "pipe_inv p' s' Q (rs @ [me]) ws"
    by (simp add: pipe_inv_def r)
  show "res = Parked" "tstate (tasks s' me) = TASK_STATE_BLOCKED" "pipe_bytes p' = []" "writers p' = writers p"
    "readers p' = readers p" "cpu_current (cpus s' c) = me" using r b(1) cur(1) by simp_all
qed

lemma read_turn_data:
  assumes inv: "pipe_inv p s Q rs ws" and b: "pipe_bytes p \<noteq> []" and e: "pipe_read_turn c sz (p, s) = (res, p', s')"
  shows "res = Done (int (min (unat sz) (length (pipe_bytes p)))) (take (unat sz) (pipe_bytes p))"
    "pipe_bytes p' = drop (unat sz) (pipe_bytes p)" "writers p' = writers p" "readers p' = readers p"
    "pipe_inv p' s' (if ws = [] then Q else enqueue_home s (hd ws) Q) rs (tl ws)"
    "ws \<noteq> [] \<Longrightarrow> tstate (tasks s' (hd ws)) = TASK_STATE_READY"
    "ws = [] \<or> x \<noteq> hd ws \<Longrightarrow> tstate (tasks s' x) = tstate (tasks s x)"
proof -
  have ok: "pipe_ok p" using inv by (simp add: pipe_inv_def)
  have pk: "parked s Q [(write_waiter p, ws), (read_waiter p, rs)]" using inv by (simp add: pipe_inv_swap)
  obtain bs p1 where d: "ring_drain (unat sz) p = (bs, p1)" by fastforce
  note ds = ring_drain_spec [OF ok d]
  have f: "read_waiter p1 = read_waiter p" "write_waiter p1 = write_waiter p" "writers p1 = writers p" "readers p1 = readers p"
    using arg_cong [OF ring_drain_frame [OF d], of read_waiter] arg_cong [OF ring_drain_frame [OF d], of write_waiter]
      arg_cong [OF ring_drain_frame [OF d], of writers] arg_cong [OF ring_drain_frame [OF d], of readers] by simp_all
  obtain w h q where wp: "waiter_pop (tasks s, write_waiter p) = (w, h, q)" by (metis prod_cases3)
  have r: "res = Done (int (length bs)) bs" "p' = p1\<lparr>write_waiter := q\<rparr>" "s' = wake_opt w (s\<lparr>tasks := h\<rparr>)"
    using e b ring_count_0(2) [of p] by (auto simp: pipe_read_turn_def d f wp)
  note pw = pipeq.pop_wake_parked [OF pk wp]
  show "res = Done (int (min (unat sz) (length (pipe_bytes p)))) (take (unat sz) (pipe_bytes p))"
    using r(1) ds by (simp add: min.commute)
  show "pipe_bytes p' = drop (unat sz) (pipe_bytes p)" "writers p' = writers p" "readers p' = readers p" using r f ds by simp_all
  show "pipe_inv p' s' (if ws = [] then Q else enqueue_home s (hd ws) Q) rs (tl ws)"
    using pw(2) ds f r by (simp add: pipe_inv_swap)
  show "ws \<noteq> [] \<Longrightarrow> tstate (tasks s' (hd ws)) = TASK_STATE_READY"
    "ws = [] \<or> x \<noteq> hd ws \<Longrightarrow> tstate (tasks s' x) = tstate (tasks s x)" using pw(3,4) r by simp_all
qed

lemma write_turn_data:
  assumes inv: "pipe_inv p s Q rs ws" and b: "length (pipe_bytes p) < 4096" "readers p \<noteq> 0" "tot < length src"
    and e: "pipe_write_turn c src tot (p, s) = (res, p', s')"
  defines "n \<equiv> min (length src - tot) (4096 - length (pipe_bytes p))"
  shows "res = (if tot + n = length src then Done (int (tot + n)) [] else Again (tot + n))"
    "pipe_bytes p' = pipe_bytes p @ take n (drop tot src)" "writers p' = writers p" "readers p' = readers p"
    "pipe_inv p' s' (if rs = [] then Q else enqueue_home s (hd rs) Q) (tl rs) ws"
    "rs \<noteq> [] \<Longrightarrow> tstate (tasks s' (hd rs)) = TASK_STATE_READY"
    "rs = [] \<or> x \<noteq> hd rs \<Longrightarrow> tstate (tasks s' x) = tstate (tasks s x)"
proof -
  have ok: "pipe_ok p" and pk: "parked s Q [(read_waiter p, rs), (write_waiter p, ws)]" using inv by (simp_all add: pipe_inv_def)
  obtain m p1 where d: "ring_fill (drop tot src) p = (m, p1)" by fastforce
  note ds = ring_fill_spec [OF ok d]
  have m: "m = n" using ds by (simp add: n_def)
  have f: "read_waiter p1 = read_waiter p" "write_waiter p1 = write_waiter p" "writers p1 = writers p" "readers p1 = readers p"
    using arg_cong [OF ring_fill_frame [OF d], of read_waiter] arg_cong [OF ring_fill_frame [OF d], of write_waiter]
      arg_cong [OF ring_fill_frame [OF d], of writers] arg_cong [OF ring_fill_frame [OF d], of readers] by simp_all
  obtain w h q where wp: "waiter_pop (tasks s, read_waiter p) = (w, h, q)" by (metis prod_cases3)
  have r: "res = (if tot + n = length src then Done (int (tot + n)) [] else Again (tot + n))" "p' = p1\<lparr>read_waiter := q\<rparr>"
    "s' = wake_opt w (s\<lparr>tasks := h\<rparr>)"
    using e b ring_space_pos [OF ok] m by (auto simp: pipe_write_turn_def d f wp Let_def split: if_splits)
  note pw = pipeq.pop_wake_parked [OF pk wp]
  show "res = (if tot + n = length src then Done (int (tot + n)) [] else Again (tot + n))" by (rule r(1))
  show "pipe_bytes p' = pipe_bytes p @ take n (drop tot src)" "writers p' = writers p" "readers p' = readers p"
    using r f ds m by simp_all
  show "pipe_inv p' s' (if rs = [] then Q else enqueue_home s (hd rs) Q) (tl rs) ws"
    using pw(2) ds f r by (simp add: pipe_inv_def)
  show "rs \<noteq> [] \<Longrightarrow> tstate (tasks s' (hd rs)) = TASK_STATE_READY"
    "rs = [] \<or> x \<noteq> hd rs \<Longrightarrow> tstate (tasks s' x) = tstate (tasks s x)" using pw(3,4) r by simp_all
qed

lemma write_turn_parks:
  assumes inv: "pipe_inv p s Q rs ws" and me: "running_on c s me" and b: "length (pipe_bytes p) = 4096" "readers p \<noteq> 0" "tot < length src"
    and e: "pipe_write_turn c src tot (p, s) = (res, p', s')"
  shows "res = Parked" "pipe_inv p' s' Q rs (ws @ [me])" "tstate (tasks s' me) = TASK_STATE_BLOCKED"
    "pipe_bytes p' = pipe_bytes p" "writers p' = writers p" "readers p' = readers p" "cpu_current (cpus s' c) = me"
proof -
  have ok: "pipe_ok p" and pk: "parked s Q [(write_waiter p, ws), (read_waiter p, rs)]" using inv by (simp_all add: pipe_inv_swap)
  have cur: "cpu_current (cpus s c) = me" "me \<noteq> NULL" "tstate (tasks s me) = TASK_STATE_RUNNING"
    using me by (simp_all add: running_on_def)
  obtain h q where w: "waiter_enqueue me (tasks s, write_waiter p) = (h, q)" by fastforce
  have r: "res = Parked" "p' = p\<lparr>write_waiter := q\<rparr>" "s' = upd_task me (\<lambda>k. k\<lparr>tstate := TASK_STATE_BLOCKED\<rparr>) (s\<lparr>tasks := h\<rparr>)"
    using e ring_space_pos [OF ok] b w cur(1) by (auto simp: pipe_write_turn_def park_writer_def)
  from pipeq.enq_parked(1) [OF pk cur(2,3) w] ok show "pipe_inv p' s' Q rs (ws @ [me])"
    by (simp add: pipe_inv_swap r)
  show "res = Parked" "tstate (tasks s' me) = TASK_STATE_BLOCKED" "pipe_bytes p' = pipe_bytes p" "writers p' = writers p"
    "readers p' = readers p" "cpu_current (cpus s' c) = me" using r cur(1) by simp_all
qed

section \<open>Closing a side\<close>

lemma drain_wake:
  assumes p: "parked s Q ((q, xs) # ws)"
  obtains s' where "waiter_drain_all (tasks s, q) = Some (hd (xs @ [NULL]), marked xs (tasks s), empty_queue)"
    "wake_chain (hd (xs @ [NULL])) (s\<lparr>tasks := marked xs (tasks s)\<rparr>) = Some s'"
    "parked s' (fold (enqueue_home s) xs Q) ((empty_queue, []) # ws)"
    "\<And>x. tstate (tasks s' x) = (if x \<in> set xs then TASK_STATE_READY else tstate (tasks s x))"
    "\<And>c. cpu_current (cpus s' c) = cpu_current (cpus s c)"
proof -
  note i = parkedD [OF p]
  let ?s1 = "s\<lparr>tasks := marked xs (tasks s)\<rparr>"
  have q: "queue_rep (tasks s) q xs" using i(3) by simp
  note qd = queue_repD [OF q]
  have "sched_inv ?s1 Q"
    by (rule sched_inv_outside [OF i(1)]) (use i(5,6) in \<open>auto simp: marked_def\<close>)
  then have p1: "parked ?s1 Q ws"
    by (rule parked_frame [OF parked_tl [OF p]]) (use i(2,5) in \<open>auto simp: marked_def\<close>)
  have c: "chained (tasks ?s1) xs"
    using chained_cong [of xs "tasks ?s1" "tasks s"] dlseg_chained [OF qd(5)] by (simp add: marked_def)
  have d: "detached ?s1 Q ws x \<and> tstate (tasks ?s1 x) = TASK_STATE_READY" if "x \<in> set xs" for x
    using that qd(1) i(2) i(5,6) [of x] by (auto simp: detached_def marked_def)
  have eh: "enqueue_home ?s1 = enqueue_home s" by (auto simp: enqueue_home_def marked_def fun_eq_iff)
  obtain s' where s': "wake_chain (hd (xs @ [NULL])) ?s1 = Some s'" "parked s' (fold (enqueue_home s) xs Q) ws"
    "\<forall>x. tstate (tasks s' x) = tstate (tasks ?s1 x)" "\<forall>c. cpu_current (cpus s' c) = cpu_current (cpus ?s1 c)"
    using wake_chain_parked [OF p1 c qd(2) d] unfolding eh by blast
  have "parked s' (fold (enqueue_home s) xs Q) ((empty_queue, []) # ws)"
    using parked_empty [OF parkedD(1) [OF s'(2)] s'(2)] .
  then show ?thesis using that [OF waiter_drain_all_rep [OF q] s'(1)] s'(3,4) by (simp add: marked_def)
qed

definition dec32 :: "u32 \<Rightarrow> u32" where
  "dec32 n = (if n > 0 then n - 1 else n)"

lemma dec32_readers: "(if readers p > 0 then p\<lparr>readers := readers p - 1\<rparr> else p) = p\<lparr>readers := dec32 (readers p)\<rparr>"
  by (simp add: dec32_def)

lemma dec32_writers: "(if writers p > 0 then p\<lparr>writers := writers p - 1\<rparr> else p) = p\<lparr>writers := dec32 (writers p)\<rparr>"
  by (simp add: dec32_def)

text \<open>What a close does to the pipe and the scheduler, by the side it closes.\<close>

definition pipe_close_step :: "pipe_side \<Rightarrow> pipe \<times> sched \<Rightarrow> (pipe \<times> sched) option" where
  "pipe_close_step side ps =
     (case pipe_close_side side (fst ps, tasks (snd ps)) of
        None \<Rightarrow> None
      | Some (chain, p, h) \<Rightarrow> map_option (Pair p) (wake_chain chain ((snd ps)\<lparr>tasks := h\<rparr>)))"

lemma close_read_step:
  assumes inv: "pipe_inv p s Q rs ws"
  obtains p' s' where "pipe_close_step PIPE_SIDE_READ (p, s) = Some (p', s')" "readers p' = dec32 (readers p)"
    "writers p' = writers p" "pipe_bytes p' = pipe_bytes p" "pinode p' = pinode p"
    "readers p' \<noteq> 0 \<Longrightarrow> s' = s \<and> pipe_inv p' s' Q rs ws"
    "readers p' = 0 \<Longrightarrow> pipe_inv p' s' (fold (enqueue_home s) ws Q) rs [] \<and>
       (\<forall>x. tstate (tasks s' x) = (if x \<in> set ws then TASK_STATE_READY else tstate (tasks s x)))"
    "\<And>c. cpu_current (cpus s' c) = cpu_current (cpus s c)"
proof (cases "dec32 (readers p) = 0")
  case False
  have "pipe_close_side PIPE_SIDE_READ (p, tasks s) = Some (NULL, p\<lparr>readers := dec32 (readers p)\<rparr>, tasks s)"
    using False by (simp add: pipe_close_side_def dec32_readers dec32_writers)
  then have "pipe_close_step PIPE_SIDE_READ (p, s) = Some (p\<lparr>readers := dec32 (readers p)\<rparr>, s)"
    by (simp add: pipe_close_step_def)
  then show ?thesis using False inv
    by (intro that [of "p\<lparr>readers := dec32 (readers p)\<rparr>" s]) (simp_all add: pipe_inv_def pipe_ok_def pipe_bytes_def)
next
  case True
  have pk: "parked s Q [(write_waiter p, ws), (read_waiter p, rs)]" and ok: "pipe_ok p" using inv by (simp_all add: pipe_inv_swap)
  obtain s' where d: "waiter_drain_all (tasks s, write_waiter p) = Some (hd (ws @ [NULL]), marked ws (tasks s), empty_queue)"
    "wake_chain (hd (ws @ [NULL])) (s\<lparr>tasks := marked ws (tasks s)\<rparr>) = Some s'"
    "parked s' (fold (enqueue_home s) ws Q) [(empty_queue, []), (read_waiter p, rs)]"
    "\<And>x. tstate (tasks s' x) = (if x \<in> set ws then TASK_STATE_READY else tstate (tasks s x))"
    "\<And>c. cpu_current (cpus s' c) = cpu_current (cpus s c)"
    by (rule drain_wake [OF pk]) (rule that)
  let ?p = "p\<lparr>readers := 0, write_waiter := empty_queue\<rparr>"
  have "pipe_close_side PIPE_SIDE_READ (p, tasks s) = Some (hd (ws @ [NULL]), ?p, marked ws (tasks s))"
    using True d(1) by (simp add: pipe_close_side_def dec32_readers dec32_writers)
  then have "pipe_close_step PIPE_SIDE_READ (p, s) = Some (?p, s')"
    using d(2) by (simp add: pipe_close_step_def)
  moreover have "pipe_inv ?p s' (fold (enqueue_home s) ws Q) rs []"
    using d(3) ok by (simp add: pipe_inv_swap pipe_ok_def)
  ultimately show ?thesis using True d(4,5)
    by (intro that [of ?p s']) (simp_all add: pipe_bytes_def)
qed

lemma close_write_step:
  assumes inv: "pipe_inv p s Q rs ws"
  obtains p' s' where "pipe_close_step PIPE_SIDE_WRITE (p, s) = Some (p', s')" "writers p' = dec32 (writers p)"
    "readers p' = readers p" "pipe_bytes p' = pipe_bytes p" "pinode p' = pinode p"
    "writers p' \<noteq> 0 \<Longrightarrow> s' = s \<and> pipe_inv p' s' Q rs ws"
    "writers p' = 0 \<Longrightarrow> pipe_inv p' s' (fold (enqueue_home s) rs Q) [] ws \<and>
       (\<forall>x. tstate (tasks s' x) = (if x \<in> set rs then TASK_STATE_READY else tstate (tasks s x)))"
    "\<And>c. cpu_current (cpus s' c) = cpu_current (cpus s c)"
proof (cases "dec32 (writers p) = 0")
  case False
  have "pipe_close_side PIPE_SIDE_WRITE (p, tasks s) = Some (NULL, p\<lparr>writers := dec32 (writers p)\<rparr>, tasks s)"
    using False by (simp add: pipe_close_side_def dec32_readers dec32_writers)
  then have "pipe_close_step PIPE_SIDE_WRITE (p, s) = Some (p\<lparr>writers := dec32 (writers p)\<rparr>, s)"
    by (simp add: pipe_close_step_def)
  then show ?thesis using False inv
    by (intro that [of "p\<lparr>writers := dec32 (writers p)\<rparr>" s]) (simp_all add: pipe_inv_def pipe_ok_def pipe_bytes_def)
next
  case True
  have pk: "parked s Q [(read_waiter p, rs), (write_waiter p, ws)]" and ok: "pipe_ok p" using inv by (simp_all add: pipe_inv_def)
  obtain s' where d: "waiter_drain_all (tasks s, read_waiter p) = Some (hd (rs @ [NULL]), marked rs (tasks s), empty_queue)"
    "wake_chain (hd (rs @ [NULL])) (s\<lparr>tasks := marked rs (tasks s)\<rparr>) = Some s'"
    "parked s' (fold (enqueue_home s) rs Q) [(empty_queue, []), (write_waiter p, ws)]"
    "\<And>x. tstate (tasks s' x) = (if x \<in> set rs then TASK_STATE_READY else tstate (tasks s x))"
    "\<And>c. cpu_current (cpus s' c) = cpu_current (cpus s c)"
    by (rule drain_wake [OF pk]) (rule that)
  let ?p = "p\<lparr>writers := 0, read_waiter := empty_queue\<rparr>"
  have "pipe_close_side PIPE_SIDE_WRITE (p, tasks s) = Some (hd (rs @ [NULL]), ?p, marked rs (tasks s))"
    using True d(1) by (simp add: pipe_close_side_def dec32_readers dec32_writers)
  then have "pipe_close_step PIPE_SIDE_WRITE (p, s) = Some (?p, s')"
    using d(2) by (simp add: pipe_close_step_def)
  moreover have "pipe_inv ?p s' (fold (enqueue_home s) rs Q) [] ws"
    using d(3) ok by (simp add: pipe_inv_def pipe_ok_def)
  ultimately show ?thesis using True d(4,5)
    by (intro that [of ?p s']) (simp_all add: pipe_bytes_def)
qed

lemma pipe_close_by_step:
  assumes e: "fprivate (pfiles st f) = e" "e \<noteq> 0" "epipe (pends st e) = pp" "pp \<noteq> 0"
    and c: "pipe_close_step (eside (pends st e)) (pipes st pp, s) = Some (p', s')"
  defines "gone \<equiv> readers p' = 0 \<and> writers p' = 0"
  shows "pipe_close f (st, s) =
    Some (st\<lparr>pipes := (pipes st)(pp := p'), pfiles := (pfiles st)(f := (pfiles st f)\<lparr>fprivate := 0\<rparr>),
             inode_pipe := (if gone \<and> pinode p' \<noteq> 0 then (inode_pipe st)(pinode p' := 0) else inode_pipe st),
             pfrees := pfrees st @ (if gone then [PipeBuf pp, PipeObj pp] else []) @ [PipeEnd e]\<rparr>, s')"
proof -
  obtain chain h where h: "pipe_close_side (eside (pends st e)) (pipes st pp, tasks s) = Some (chain, p', h)"
    "wake_chain chain (s\<lparr>tasks := h\<rparr>) = Some s'"
    using c by (auto simp: pipe_close_step_def split: option.splits)
  then show ?thesis using e by (simp add: pipe_close_def pipe_free_def Let_def gone_def)
qed

text \<open>
  C23. Closing an end always finishes.  It takes one off the count of its side; when that was
  the last one, every task waiting on the other side becomes ready, on its home run queue in
  the order it had waited, and no one is left waiting there; otherwise no task moves.  The
  pipe is freed exactly when both counts are zero, a FIFO inode then forgets it, and the end
  is freed and unlinked from the file.
\<close>

theorem pipe_close_correct:
  assumes "pipe_inv (pipes st pp) s Q rs ws" and "fprivate (pfiles st f) = e" "e \<noteq> 0" "epipe (pends st e) = pp" "pp \<noteq> 0"
  shows "\<exists>st' s' p'. pipe_close f (st, s) = Some (st', s') \<and> pipes st' = (pipes st)(pp := p') \<and>
    pipe_bytes p' = pipe_bytes (pipes st pp) \<and> fprivate (pfiles st' f) = 0 \<and>
    (case eside (pends st e) of
       PIPE_SIDE_READ \<Rightarrow> readers p' = dec32 (readers (pipes st pp)) \<and> writers p' = writers (pipes st pp) \<and>
         (if readers p' = 0
          then pipe_inv p' s' (fold (enqueue_home s) ws Q) rs [] \<and> (\<forall>x\<in>set ws. tstate (tasks s' x) = TASK_STATE_READY)
          else s' = s \<and> pipe_inv p' s' Q rs ws)
     | PIPE_SIDE_WRITE \<Rightarrow> writers p' = dec32 (writers (pipes st pp)) \<and> readers p' = readers (pipes st pp) \<and>
         (if writers p' = 0
          then pipe_inv p' s' (fold (enqueue_home s) rs Q) [] ws \<and> (\<forall>x\<in>set rs. tstate (tasks s' x) = TASK_STATE_READY)
          else s' = s \<and> pipe_inv p' s' Q rs ws)) \<and>
    (if readers p' = 0 \<and> writers p' = 0
     then pfrees st' = pfrees st @ [PipeBuf pp, PipeObj pp, PipeEnd e] \<and> (pinode p' \<noteq> 0 \<longrightarrow> inode_pipe st' (pinode p') = 0)
     else pfrees st' = pfrees st @ [PipeEnd e] \<and> inode_pipe st' = inode_pipe st)"
proof (cases "eside (pends st e)")
  case PIPE_SIDE_READ
  obtain p' s' where c: "pipe_close_step PIPE_SIDE_READ (pipes st pp, s) = Some (p', s')" "readers p' = dec32 (readers (pipes st pp))"
    "writers p' = writers (pipes st pp)" "pipe_bytes p' = pipe_bytes (pipes st pp)"
    "readers p' \<noteq> 0 \<Longrightarrow> s' = s \<and> pipe_inv p' s' Q rs ws"
    "readers p' = 0 \<Longrightarrow> pipe_inv p' s' (fold (enqueue_home s) ws Q) rs [] \<and>
       (\<forall>x. tstate (tasks s' x) = (if x \<in> set ws then TASK_STATE_READY else tstate (tasks s x)))"
    by (rule close_read_step [OF assms(1)]) (rule that)
  show ?thesis unfolding PIPE_SIDE_READ pipe_side.case pipe_close_by_step [OF assms(2-5), unfolded PIPE_SIDE_READ, OF c(1)]
    by (rule exI, rule exI [of _ s'], rule exI [of _ p'], rule conjI, rule refl) (use c(2-6) in auto)
next
  case PIPE_SIDE_WRITE
  obtain p' s' where c: "pipe_close_step PIPE_SIDE_WRITE (pipes st pp, s) = Some (p', s')" "writers p' = dec32 (writers (pipes st pp))"
    "readers p' = readers (pipes st pp)" "pipe_bytes p' = pipe_bytes (pipes st pp)"
    "writers p' \<noteq> 0 \<Longrightarrow> s' = s \<and> pipe_inv p' s' Q rs ws"
    "writers p' = 0 \<Longrightarrow> pipe_inv p' s' (fold (enqueue_home s) rs Q) [] ws \<and>
       (\<forall>x. tstate (tasks s' x) = (if x \<in> set rs then TASK_STATE_READY else tstate (tasks s x)))"
    by (rule close_write_step [OF assms(1)]) (rule that)
  show ?thesis unfolding PIPE_SIDE_WRITE pipe_side.case pipe_close_by_step [OF assms(2-5), unfolded PIPE_SIDE_WRITE, OF c(1)]
    by (rule exI, rule exI [of _ s'], rule exI [of _ p'], rule conjI, rule refl) (use c(2-6) in auto)
qed

text \<open>Task 1 of the example scheduler, parked on an empty pipe; then the only writer closes.\<close>

lemma demo_pipe_inv: "pipe_inv demo_pipe demo_sched demo_queues [] []"
  using demo_inv by (simp add: pipe_inv_def parked_def pipe_ok_def demo_pipe_def zero_pipe_def empty_queue_def)

definition demo_parked :: "io_result \<times> pipe \<times> sched" where
  "demo_parked = pipe_read_turn 0 4 (demo_pipe, demo_sched)"

lemma demo_parked_inv:
  "fst demo_parked = Parked" "pipe_inv (fst (snd demo_parked)) (snd (snd demo_parked)) demo_queues [1] []"
  "writers (fst (snd demo_parked)) = 1" "readers (fst (snd demo_parked)) = 1"
proof -
  obtain res p s where e: "demo_parked = (res, p, s)" by (metis prod_cases3)
  have b: "pipe_bytes demo_pipe = []" "writers demo_pipe \<noteq> 0" "writers demo_pipe = 1" "readers demo_pipe = 1"
    by (simp_all add: demo_pipe_def zero_pipe_def pipe_bytes_def)
  note r = read_turn_parks [OF demo_pipe_inv demo_running b(1,2) e [unfolded demo_parked_def]]
  show "fst demo_parked = Parked" "pipe_inv (fst (snd demo_parked)) (snd (snd demo_parked)) demo_queues [1] []"
    "writers (fst (snd demo_parked)) = 1" "readers (fst (snd demo_parked)) = 1" using r b by (simp_all add: e)
qed

definition demo_store :: pipe_store where
  "demo_store = \<lparr>pipes = (\<lambda>_. fst (snd demo_parked)), pends = (\<lambda>_. \<lparr>epipe = 1, eside = PIPE_SIDE_WRITE\<rparr>),
     pfiles = (\<lambda>_. zero_file\<lparr>fprivate := 5\<rparr>), inode_pipe = (\<lambda>_. 0), pfrees = []\<rparr>"

theorem pipe_close_correct_witness:
  "\<exists>st' s'. pipe_close 3 (demo_store, snd (snd demo_parked)) = Some (st', s') \<and> fprivate (pfiles st' 3) = 0 \<and>
     writers (pipes st' 1) = 0 \<and> tstate (tasks s' 1) = TASK_STATE_READY \<and> pfrees st' = [PipeEnd 5]"
proof -
  have "pipe_inv (pipes demo_store 1) (snd (snd demo_parked)) demo_queues [1] []"
    using demo_parked_inv(2) by (simp add: demo_store_def)
  from pipe_close_correct [OF this, of 3 5] demo_parked_inv(3,4) show ?thesis
    by (auto simp: demo_store_def dec32_def)
qed

section \<open>One reader, one writer\<close>

text \<open>
  \<open>pipe_reach R W p s\<close>: the pipe and the scheduler can arise when only task \<open>R\<close> reads and only
  task \<open>W\<close> writes.  A turn that parks its task leaves it on its CPU, blocked; \<open>switches\<close> is the
  \<open>schedule\<close> the task calls after it released the lock of the pipe, with steps of the other CPUs in
  between.  \<open>other\<close> is any step of the rest of the kernel that leaves the tasks parked on
  this pipe parked.
\<close>

inductive pipe_reach :: "tptr \<Rightarrow> tptr \<Rightarrow> pipe \<Rightarrow> sched \<Rightarrow> bool" for R W where
  start: "pipe_inv p s Q [] [] \<Longrightarrow> pipe_reach R W p s"
| reads: "pipe_reach R W p s \<Longrightarrow> running_on c s R \<Longrightarrow> pipe_read_turn c sz (p, s) = (res, p', s') \<Longrightarrow>
    pipe_reach R W p' s'"
| writes: "pipe_reach R W p s \<Longrightarrow> running_on c s W \<Longrightarrow> pipe_write_turn c src tot (p, s) = (res, p', s') \<Longrightarrow>
    pipe_reach R W p' s'"
| switches: "pipe_reach R W p s \<Longrightarrow> tstate (tasks s (cpu_current (cpus s c))) \<noteq> TASK_STATE_RUNNING \<Longrightarrow>
    pipe_reach R W p (snd (schedule c s))"
| closes: "pipe_reach R W p s \<Longrightarrow> pipe_close_step side (p, s) = Some (p', s') \<Longrightarrow> pipe_reach R W p' s'"
| read_resumes: "pipe_reach R W p s \<Longrightarrow> running_on c s R \<Longrightarrow> tnext (tasks s R) = NULL \<Longrightarrow> tprev (tasks s R) = NULL \<Longrightarrow>
    pipe_read_resume R (p, s) = (p', s') \<Longrightarrow> pipe_reach R W p' s'"
| write_resumes: "pipe_reach R W p s \<Longrightarrow> running_on c s W \<Longrightarrow> tnext (tasks s W) = NULL \<Longrightarrow> tprev (tasks s W) = NULL \<Longrightarrow>
    pipe_write_resume W (p, s) = (p', s') \<Longrightarrow> pipe_reach R W p' s'"
| other: "pipe_reach R W p s \<Longrightarrow> \<forall>Q rs ws. pipe_inv p s Q rs ws \<longrightarrow> (\<exists>Q'. pipe_inv p s' Q' rs ws) \<Longrightarrow> pipe_reach R W p s'"

definition no_stall :: "tptr \<Rightarrow> tptr \<Rightarrow> pipe \<Rightarrow> sched \<Rightarrow> tptr list \<Rightarrow> tptr list \<Rightarrow> bool" where
  "no_stall R W p s rs ws \<longleftrightarrow> (\<exists>Q. pipe_inv p s Q rs ws) \<and> (rs = [] \<or> rs = [R] \<and> pipe_bytes p = [] \<and> writers p \<noteq> 0) \<and>
     (ws = [] \<or> ws = [W] \<and> length (pipe_bytes p) = 4096 \<and> readers p \<noteq> 0)"

lemma no_stall_running:
  assumes "no_stall R W p s rs ws" and "running_on c s t"
  shows "t \<notin> set rs" "t \<notin> set ws"
  using assms parkedD(4) [of s _ "[(read_waiter p, rs), (write_waiter p, ws)]" t]
  by (auto simp: no_stall_def pipe_inv_def running_on_def)

lemma no_stall_schedule:
  assumes "pipe_inv p s Q rs ws" and "tstate (tasks s (cpu_current (cpus s c))) \<noteq> TASK_STATE_RUNNING"
  shows "\<exists>Q'. pipe_inv p (snd (schedule c s)) Q' rs ws"
  using schedule_parked(1) [of s Q _ c "fst (schedule c s)" "snd (schedule c s)"] assms by (simp add: pipe_inv_def)

lemma reads_no_stall:
  assumes ns: "no_stall R W p s rs ws" and run: "running_on c s R" and e: "pipe_read_turn c sz (p, s) = (res, p', s')"
  shows "\<exists>rs ws. no_stall R W p' s' rs ws"
proof -
  obtain Q where inv: "pipe_inv p s Q rs ws" using ns by (auto simp: no_stall_def)
  have rs: "rs = []" using ns no_stall_running(1) [OF ns run] by (auto simp: no_stall_def)
  consider "pipe_bytes p \<noteq> []" | "pipe_bytes p = []" "writers p = 0" | "pipe_bytes p = []" "writers p \<noteq> 0" by blast
  then show ?thesis
  proof cases
    case 1
    note d = read_turn_data [OF inv 1 e]
    have "tl ws = []" using ns by (auto simp: no_stall_def)
    then have "no_stall R W p' s' [] []" using d(5) rs by (auto simp: no_stall_def)
    then show ?thesis using d(1) by auto
  next
    case 2
    then have "res = Done 0 []" "p' = p" "s' = s" using e ring_count_0(1) [of p] by (auto simp: pipe_read_turn_def)
    then show ?thesis using ns by auto
  next
    case 3
    note d = read_turn_parks [OF inv run 3 e]
    have "ws = []" using ns 3(1) by (auto simp: no_stall_def)
    then have "no_stall R W p' s' [R] []" using d(2-7) rs 3 by (auto simp: no_stall_def)
    then show ?thesis by blast
  qed
qed

lemma writes_no_stall:
  assumes ns: "no_stall R W p s rs ws" and run: "running_on c s W" and e: "pipe_write_turn c src tot (p, s) = (res, p', s')"
  shows "\<exists>rs ws. no_stall R W p' s' rs ws"
proof -
  obtain Q where inv: "pipe_inv p s Q rs ws" using ns by (auto simp: no_stall_def)
  have ws: "ws = []" using ns no_stall_running(2) [OF ns run] by (auto simp: no_stall_def)
  have ok: "pipe_ok p" using inv by (simp add: pipe_inv_def)
  have le: "length (pipe_bytes p) \<le> 4096" by (rule pipe_ring.held_le [OF ok])
  consider "\<not> tot < length src" | "tot < length src" "readers p = 0"
    | "tot < length src" "readers p \<noteq> 0" "length (pipe_bytes p) < 4096"
    | "tot < length src" "readers p \<noteq> 0" "length (pipe_bytes p) = 4096" using le by linarith
  then show ?thesis
  proof cases
    case 1
    then have "res = Done (int tot) []" "p' = p" "s' = s" using e by (auto simp: pipe_write_turn_def)
    then show ?thesis using ns by auto
  next
    case 2
    have s: "s' = signal_send W SIGPIPE s" "p' = p" "res \<noteq> Parked" using e 2 run by (auto simp: pipe_write_turn_def running_on_def)
    have "parked s' Q [(read_waiter p, rs), (write_waiter p, ws)]"
      using signal_self_parked(1) [of s Q "[(read_waiter p, rs), (write_waiter p, ws)]" W SIGPIPE] inv run s(1)
      by (simp add: pipe_inv_def running_on_def signo_valid_def NSIG_def)
    then have "no_stall R W p' s' rs ws" using ns ok s(2) by (auto simp: no_stall_def pipe_inv_def)
    then show ?thesis using s(3) by auto
  next
    case 3
    note d = write_turn_data [OF inv 3(3,2,1) e]
    have "tl rs = []" using ns by (auto simp: no_stall_def)
    then have "no_stall R W p' s' [] []" using d(5) ws by (auto simp: no_stall_def)
    then show ?thesis using d(1) by auto
  next
    case 4
    note d = write_turn_parks [OF inv run 4(3,2,1) e]
    have "pipe_bytes p \<noteq> []" using 4(3) by (metis list.size(3) zero_neq_numeral)
    then have "rs = []" using ns by (auto simp: no_stall_def)
    then have "no_stall R W p' s' [] [W]" using d(2-7) ws 4 by (auto simp: no_stall_def)
    then show ?thesis by blast
  qed
qed

lemma closes_no_stall:
  assumes ns: "no_stall R W p s rs ws" and e: "pipe_close_step side (p, s) = Some (p', s')"
  shows "\<exists>rs ws. no_stall R W p' s' rs ws"
proof -
  obtain Q where inv: "pipe_inv p s Q rs ws" using ns by (auto simp: no_stall_def)
  show ?thesis
  proof (cases side)
    case PIPE_SIDE_READ
    show ?thesis by (rule close_read_step [OF inv]) (use e ns PIPE_SIDE_READ in \<open>auto simp: no_stall_def\<close>)
  next
    case PIPE_SIDE_WRITE
    show ?thesis by (rule close_write_step [OF inv]) (use e ns PIPE_SIDE_WRITE in \<open>auto simp: no_stall_def\<close>)
  qed
qed

lemma resumes_no_stall:
  assumes ns: "no_stall R W p s rs ws" and run: "running_on c s t" and l: "tnext (tasks s t) = NULL" "tprev (tasks s t) = NULL"
  shows "pipe_read_resume t (p, s) = (p, s)" "pipe_write_resume t (p, s) = (p, s)"
proof -
  obtain Q where inv: "pipe_inv p s Q rs ws" using ns by (auto simp: no_stall_def)
  have t: "t \<noteq> NULL" using run by (simp add: running_on_def)
  show "pipe_read_resume t (p, s) = (p, s)"
    using pipeq.remove_popped [of s Q "read_waiter p" rs "[(write_waiter p, ws)]" t] inv no_stall_running(1) [OF ns run] t l
    by (simp add: pipe_read_resume_def pipe_inv_def)
  show "pipe_write_resume t (p, s) = (p, s)"
    using pipeq.remove_popped [of s Q "write_waiter p" ws "[(read_waiter p, rs)]" t] inv no_stall_running(2) [OF ns run] t l
    by (simp add: pipe_write_resume_def pipe_inv_swap)
qed

lemma reach_no_stall: "pipe_reach R W p s \<Longrightarrow> \<exists>rs ws. no_stall R W p s rs ws"
proof (induction rule: pipe_reach.induct)
  case (start p s Q)
  then show ?case by (auto simp: no_stall_def)
next
  case (reads p s c sz res p' s')
  then show ?case using reads_no_stall by blast
next
  case (writes p s c src tot res p' s')
  then show ?case using writes_no_stall by blast
next
  case (switches p s c)
  then obtain rs ws where ns: "no_stall R W p s rs ws" by blast
  then have "\<exists>Q. pipe_inv p (snd (schedule c s)) Q rs ws"
    using no_stall_schedule switches.hyps(2) by (auto simp: no_stall_def)
  with ns have "no_stall R W p (snd (schedule c s)) rs ws" by (simp add: no_stall_def)
  then show ?case by blast
next
  case (closes p s side p' s')
  then show ?case using closes_no_stall by blast
next
  case (read_resumes p s c p' s')
  then show ?case using resumes_no_stall(1) by fastforce
next
  case (write_resumes p s c p' s')
  then show ?case using resumes_no_stall(2) by fastforce
next
  case (other p s s')
  then obtain rs ws where ns: "no_stall R W p s rs ws" by blast
  then have "\<exists>Q. pipe_inv p s' Q rs ws" using other.hyps(2) by (auto simp: no_stall_def)
  with ns have "no_stall R W p s' rs ws" by (simp add: no_stall_def)
  then show ?case by blast
qed

text \<open>
  C22. No wakeup is lost on a pipe with exactly one reading task and one writing task.  In every
  state they can bring about, with any closes in between and the switch away of a parked task as
  a step of its own, the reader waits on the pipe only while the ring is empty and a writer is
  open, the writer only while the ring is full and a reader is open, and never both at once.
  (With two readers it fails: see \<open>two_readers_stall\<close> below.)
\<close>

theorem pipe_no_lost_wakeup:
  assumes "pipe_reach R W p s"
  shows "(qhead (read_waiter p) \<noteq> NULL \<longrightarrow> qhead (read_waiter p) = R \<and> tstate (tasks s R) = TASK_STATE_BLOCKED \<and>
            pipe_bytes p = [] \<and> writers p \<noteq> 0) \<and>
    (qhead (write_waiter p) \<noteq> NULL \<longrightarrow> qhead (write_waiter p) = W \<and> tstate (tasks s W) = TASK_STATE_BLOCKED \<and>
            length (pipe_bytes p) = 4096 \<and> readers p \<noteq> 0) \<and>
    (qhead (read_waiter p) = NULL \<or> qhead (write_waiter p) = NULL)"
proof -
  obtain rs ws where ns: "no_stall R W p s rs ws" using reach_no_stall [OF assms] by blast
  then obtain Q where pk: "parked s Q [(read_waiter p, rs), (write_waiter p, ws)]" by (auto simp: no_stall_def pipe_inv_def)
  have h: "qhead (read_waiter p) = hd (rs @ [NULL])" "qhead (write_waiter p) = hd (ws @ [NULL])"
    using queue_repD(3) [OF parkedD(3) [OF pk, of "read_waiter p" rs]] queue_repD(3) [OF parkedD(3) [OF pk, of "write_waiter p" ws]]
    by simp_all
  have b: "x \<in> set rs \<union> set ws \<Longrightarrow> tstate (tasks s x) = TASK_STATE_BLOCKED" for x using parkedD(4) [OF pk, of x] by auto
  have "pipe_bytes p = [] \<longrightarrow> unat (ring_count p) \<noteq> 4096" by (metis length_pipe_bytes list.size(3) zero_neq_numeral)
  then show ?thesis using ns h b by (auto simp: no_stall_def)
qed

theorem pipe_no_lost_wakeup_witness:
  "\<exists>p s. pipe_reach 1 2 p s \<and> qhead (read_waiter p) = 1 \<and> tstate (tasks s 1) = TASK_STATE_BLOCKED \<and>
     pipe_bytes p = [] \<and> writers p \<noteq> 0"
proof -
  obtain p s where e: "demo_parked = (Parked, p, s)" using demo_parked_inv(1) by (metis prod_cases3 fst_conv)
  let ?s = "snd (schedule 0 s)"
  have b: "pipe_bytes demo_pipe = []" "writers demo_pipe \<noteq> 0" by (simp_all add: demo_pipe_def zero_pipe_def pipe_bytes_def)
  have "tstate (tasks s (cpu_current (cpus s 0))) \<noteq> TASK_STATE_RUNNING"
    using read_turn_parks(3,7) [OF demo_pipe_inv demo_running b e [unfolded demo_parked_def]] by simp
  then have r: "pipe_reach 1 2 p ?s"
    by (rule switches [OF reads [OF start [OF demo_pipe_inv] demo_running e [unfolded demo_parked_def]]])
  have "queue_rep (tasks s) (read_waiter p) [1]"
    using demo_parked_inv(2) parkedD(3) [of s demo_queues "[(read_waiter p, [1]), (write_waiter p, [])]" "read_waiter p" "[1]"]
    by (simp add: e pipe_inv_def)
  then have "qhead (read_waiter p) = 1" by (simp add: queue_rep_def)
  with pipe_no_lost_wakeup [OF r] r show ?thesis by auto
qed

text \<open>
  With two readers this fails: a write wakes one of them, and if that one does not take
  everything, the other stays blocked on a ring that holds data.
\<close>

lemma two_readers_stall:
  assumes inv: "pipe_inv p s Q (r1 # r2 # rs) ws" and b: "pipe_bytes p = []" "readers p \<noteq> 0" "0 < length src" "length src \<le> 4096"
    and w: "pipe_write_turn c src 0 (p, s) = (res, p1, s1)"
    and later: "pipe_inv p1 s2 Q2 (r2 # rs) ws" and r: "pipe_read_turn d sz (p1, s2) = (res2, p2, s3)" and sz: "unat sz < length src"
  shows "pipe_bytes p2 = drop (unat sz) src" "pipe_bytes p2 \<noteq> []" "tstate (tasks s3 r2) = TASK_STATE_BLOCKED"
proof -
  have "pipe_bytes p1 = src" using write_turn_data(2) [OF inv _ b(2) b(3) w] b by simp
  moreover note d = read_turn_data [OF later _ r]
  ultimately show "pipe_bytes p2 = drop (unat sz) src" using b(3) by auto
  then show "pipe_bytes p2 \<noteq> []" using sz by simp
  have "pipe_inv p2 s3 (if ws = [] then Q2 else enqueue_home s2 (hd ws) Q2) (r2 # rs) (tl ws)"
    using d(5) \<open>pipe_bytes p1 = src\<close> b(3) by auto
  then show "tstate (tasks s3 r2) = TASK_STATE_BLOCKED"
    unfolding pipe_inv_def by (elim conjE) (erule parkedD(4), simp)
qed

end
