(* ===== verification/Ldisc.thy ===== *)
theory Ldisc
  imports Ring Waiters Signal
begin

text \<open>
  \<^verbatim>\<open>drivers/tty_ldisc.c\<close>: the line discipline shared by the console terminal and the pseudo
  terminals.  \<open>ldisc_ring\<close> is the ring a caller's view points to, with its queue of blocked
  readers.  The operations run under the caller's lock.
\<close>

section \<open>Data\<close>

definition TTY_FLAG_ICANON :: u32 where "TTY_FLAG_ICANON = 1"
definition TTY_FLAG_ECHO :: u32 where "TTY_FLAG_ECHO = 2"
definition TTY_FLAG_ISIG :: u32 where "TTY_FLAG_ISIG = 4"

definition has_flag :: "u32 \<Rightarrow> u32 \<Rightarrow> bool" where
  "has_flag flags f \<longleftrightarrow> flags AND f \<noteq> 0"

record ldisc_ring =
  lbuf :: "nat \<Rightarrow> u8"
  lsize :: u64
  lhead :: u64
  ltail :: u64
  lwaiter :: tqueue

record ldisc_result =
  lr_signal :: int
  lr_pgrp :: u64
  lr_wake :: tptr

section \<open>The ring\<close>

definition ldisc_count :: "ldisc_ring \<Rightarrow> u64" where
  "ldisc_count r = lhead r - ltail r"

definition ldisc_push :: "u8 \<Rightarrow> ldisc_ring \<Rightarrow> ldisc_ring" where
  "ldisc_push c r =
     (if ldisc_count r \<ge> lsize r then r
      else r\<lparr>lbuf := (lbuf r)(unat (lhead r mod lsize r) := c), lhead := lhead r + 1\<rparr>)"

definition ldisc_pop_back :: "ldisc_ring \<Rightarrow> u8 option \<times> ldisc_ring" where
  "ldisc_pop_back r =
     (if ldisc_count r = 0 then (None, r)
      else let r = r\<lparr>lhead := lhead r - 1\<rparr> in (Some (lbuf r (unat (lhead r mod lsize r))), r))"

text \<open>The search for a newline from counter \<open>i\<close>, over the \<open>n\<close> counters up to the head.\<close>

fun find_nl :: "nat \<Rightarrow> u64 \<Rightarrow> ldisc_ring \<Rightarrow> u64 option" where
  "find_nl 0 i r = None"
| "find_nl (Suc n) i r = (if lbuf r (unat (i mod lsize r)) = 10 then Some i else find_nl n (i + 1) r)"

fun drain_through :: "u64 \<Rightarrow> nat \<Rightarrow> ldisc_ring \<Rightarrow> u8 list \<times> ldisc_ring" where
  "drain_through nl_pos 0 r = ([], r)"
| "drain_through nl_pos (Suc n) r =
     (if ltail r \<le> nl_pos then
        let b = lbuf r (unat (ltail r mod lsize r));
            (bs, r') = drain_through nl_pos n (r\<lparr>ltail := ltail r + 1\<rparr>)
        in (b # bs, r')
      else ([], r))"

fun drain_raw :: "nat \<Rightarrow> ldisc_ring \<Rightarrow> u8 list \<times> ldisc_ring" where
  "drain_raw 0 r = ([], r)"
| "drain_raw (Suc n) r =
     (if ltail r = lhead r then ([], r)
      else
        let b = lbuf r (unat (ltail r mod lsize r));
            (bs, r') = drain_raw n (r\<lparr>ltail := ltail r + 1\<rparr>)
        in (b # bs, r'))"

definition ldisc_drain :: "u32 \<Rightarrow> u64 \<Rightarrow> ldisc_ring \<Rightarrow> u8 list \<times> ldisc_ring" where
  "ldisc_drain flags sz r =
     (if has_flag flags TTY_FLAG_ICANON then
        (case find_nl (unat (lhead r - ltail r)) (ltail r) r of
           None \<Rightarrow> ([], r)
         | Some nl_pos \<Rightarrow> drain_through nl_pos (unat sz) r)
      else drain_raw (unat sz) r)"

section \<open>Blocked readers\<close>

definition ldisc_waiter_enqueue :: "tptr \<Rightarrow> theap \<times> tqueue \<Rightarrow> theap \<times> tqueue" where
  "ldisc_waiter_enqueue me hq =
     (let (h, q) = hq;
          h = h(me := (h me)\<lparr>tnext := NULL\<rparr>);
          h = h(me := (h me)\<lparr>tprev := qtail q\<rparr>);
          (h, q) = (if qtail q \<noteq> NULL then (h(qtail q := (h (qtail q))\<lparr>tnext := me\<rparr>), q)
                    else (h, q\<lparr>qhead := me\<rparr>))
      in (h, q\<lparr>qtail := me\<rparr>))"

definition ldisc_waiter_pop :: "theap \<times> tqueue \<Rightarrow> tptr \<times> theap \<times> tqueue" where
  "ldisc_waiter_pop hq =
     (let (h, q) = hq; w = qhead q in
      if w = NULL then (NULL, h, q)
      else
        let q = q\<lparr>qhead := tnext (h w)\<rparr>;
            (h, q) = (if qhead q \<noteq> NULL then (h(qhead q := (h (qhead q))\<lparr>tprev := NULL\<rparr>), q)
                      else (h, q\<lparr>qtail := NULL\<rparr>))
        in (w, h(w := (h w)\<lparr>tnext := NULL, tprev := NULL\<rparr>), q))"

definition ldisc_waiter_remove :: "tptr \<Rightarrow> theap \<times> tqueue \<Rightarrow> theap \<times> tqueue" where
  "ldisc_waiter_remove me hq =
     (let (h, q) = hq in
      if \<not> (tnext (h me) \<noteq> NULL \<or> tprev (h me) \<noteq> NULL \<or> qhead q = me) then (h, q)
      else
        let (h, q) = (if tprev (h me) \<noteq> NULL
                      then (h(tprev (h me) := (h (tprev (h me)))\<lparr>tnext := tnext (h me)\<rparr>), q)
                      else if qhead q = me then (h, q\<lparr>qhead := tnext (h me)\<rparr>) else (h, q));
            (h, q) = (if tnext (h me) \<noteq> NULL
                      then (h(tnext (h me) := (h (tnext (h me)))\<lparr>tprev := tprev (h me)\<rparr>), q)
                      else if qtail q = me then (h, q\<lparr>qtail := tprev (h me)\<rparr>) else (h, q))
        in (h(me := (h me)\<lparr>tnext := NULL, tprev := NULL\<rparr>), q))"

section \<open>Input\<close>

text \<open>
  \<open>echo\<close> is the callback with its context \<open>'x\<close> (\<open>None\<close> for a NULL callback); it may also wake
  tasks, so it acts on the scheduler state.
\<close>

type_synonym 'x echo_fn = "(u8 \<Rightarrow> sched \<times> 'x \<Rightarrow> sched \<times> 'x) option"

definition do_echo :: "u32 \<Rightarrow> 'x echo_fn \<Rightarrow> u8 \<Rightarrow> sched \<times> 'x \<Rightarrow> sched \<times> 'x" where
  "do_echo flags echo c sx =
     (case echo of None \<Rightarrow> sx | Some f \<Rightarrow> if has_flag flags TTY_FLAG_ECHO then f c sx else sx)"

definition ldisc_input ::
  "u32 \<Rightarrow> u64 \<Rightarrow> u8 \<Rightarrow> 'x echo_fn \<Rightarrow> ldisc_ring \<times> sched \<times> 'x \<Rightarrow> ldisc_result \<times> ldisc_ring \<times> sched \<times> 'x" where
  "ldisc_input flags pgrp b echo st =
     (let (r, sx) = st; res = \<lparr>lr_signal = 0, lr_pgrp = 0, lr_wake = NULL\<rparr> in
      if has_flag flags TTY_FLAG_ISIG \<and> b = 3 then (res\<lparr>lr_signal := SIGINT, lr_pgrp := pgrp\<rparr>, r, sx)
      else if has_flag flags TTY_FLAG_ICANON \<and> b = 8 then
        let (popped, r) = ldisc_pop_back r
        in (res, r, if popped \<noteq> None then do_echo flags echo 8 sx else sx)
      else
        let r = ldisc_push b r;
            sx = do_echo flags echo b sx;
            wake = (if has_flag flags TTY_FLAG_ICANON then b = 10 else True)
        in if wake then
             let (w, h, q) = ldisc_waiter_pop (tasks (fst sx), lwaiter r)
             in (res\<lparr>lr_wake := w\<rparr>, r\<lparr>lwaiter := q\<rparr>, (fst sx)\<lparr>tasks := h\<rparr>, snd sx)
           else (res, r, sx))"

end
