(* ===== verification/Ldisc_Props.thy ===== *)
theory Ldisc_Props
  imports Ldisc
begin

text \<open>
  The line discipline's ring is a byte list edited at its end, its raw mode a byte stream, and
  its cooked mode returns whole lines.
\<close>

section \<open>What the ring holds\<close>

definition ldisc_cap :: "ldisc_ring \<Rightarrow> nat" where
  "ldisc_cap r = unat (lsize r)"

definition ldisc_bytes :: "ldisc_ring \<Rightarrow> u8 list" where
  "ldisc_bytes r = ring_contents (lbuf r) (ldisc_cap r) (ltail r) (lhead r)"

definition ldisc_ok :: "ldisc_ring \<Rightarrow> bool" where
  "ldisc_ok r \<longleftrightarrow> ring_size (ldisc_cap r) \<and> unat (lhead r - ltail r) \<le> ldisc_cap r"

lemma length_ldisc_bytes: "length (ldisc_bytes r) = unat (ldisc_count r)"
  by (simp add: ldisc_bytes_def ldisc_count_def)

lemma ldisc_index: "unat (x mod lsize r) = unat x mod ldisc_cap r"
  by (simp add: unat_mod_size ldisc_cap_def)

lemma ldisc_count_0: "ldisc_count r = 0 \<longleftrightarrow> ldisc_bytes r = []"
  by (metis length_0_conv length_ldisc_bytes unat_eq_zero)

lemma ldisc_ok_le: "ldisc_ok r \<Longrightarrow> length (ldisc_bytes r) \<le> ldisc_cap r"
  by (simp add: ldisc_ok_def length_ldisc_bytes ldisc_count_def)

lemma ldisc_push_spec:
  assumes "ldisc_ok r"
  shows "ldisc_ok (ldisc_push c r)"
    and "ldisc_bytes (ldisc_push c r) = (if length (ldisc_bytes r) < ldisc_cap r then ldisc_bytes r @ [c] else ldisc_bytes r)"
    and "ldisc_cap (ldisc_push c r) = ldisc_cap r" and "ltail (ldisc_push c r) = ltail r"
    and "lwaiter (ldisc_push c r) = lwaiter r" and "lsize (ldisc_push c r) = lsize r"
proof -
  have f: "ldisc_count r \<ge> lsize r \<longleftrightarrow> \<not> length (ldisc_bytes r) < ldisc_cap r"
    by (simp add: length_ldisc_bytes ldisc_cap_def word_le_nat_alt linorder_not_less)
  show cap: "ldisc_cap (ldisc_push c r) = ldisc_cap r" and "ltail (ldisc_push c r) = ltail r"
    "lwaiter (ldisc_push c r) = lwaiter r" "lsize (ldisc_push c r) = lsize r"
    by (simp_all add: ldisc_push_def ldisc_cap_def)
  show b: "ldisc_bytes (ldisc_push c r) = (if length (ldisc_bytes r) < ldisc_cap r then ldisc_bytes r @ [c] else ldisc_bytes r)"
  proof (cases "length (ldisc_bytes r) < ldisc_cap r")
    case True
    then have l: "unat (lhead r - ltail r) < ldisc_cap r" by (simp add: length_ldisc_bytes ldisc_count_def)
    have "ring_size (ldisc_cap r)" using assms by (simp add: ldisc_ok_def)
    from ring_contents_snoc [OF this l, of "lbuf r" c] f True show ?thesis
      by (simp add: ldisc_bytes_def ldisc_push_def ldisc_index ldisc_cap_def)
  qed (simp add: f ldisc_push_def)
  have "length (ldisc_bytes (ldisc_push c r)) \<le> ldisc_cap r" using b ldisc_ok_le [OF assms] by auto
  then show "ldisc_ok (ldisc_push c r)" using assms cap
    by (simp add: ldisc_ok_def length_ldisc_bytes ldisc_count_def)
qed

lemma ldisc_pop_back_spec:
  assumes "ldisc_ok r" and "ldisc_pop_back r = (popped, r')"
  shows "ldisc_ok r'" and "ldisc_bytes r' = butlast (ldisc_bytes r)"
    and "popped = (if ldisc_bytes r = [] then None else Some (last (ldisc_bytes r)))"
    and "ltail r' = ltail r" "lwaiter r' = lwaiter r" "ldisc_cap r' = ldisc_cap r"
proof -
  show "ltail r' = ltail r" "lwaiter r' = lwaiter r" "ldisc_cap r' = ldisc_cap r"
    using assms(2) by (auto simp: ldisc_pop_back_def ldisc_cap_def Let_def split: if_splits)
  have "ldisc_ok r' \<and> ldisc_bytes r' = butlast (ldisc_bytes r) \<and>
      popped = (if ldisc_bytes r = [] then None else Some (last (ldisc_bytes r)))"
  proof (cases "ldisc_count r = 0")
    case True
    then show ?thesis using assms ldisc_count_0 [of r] by (auto simp: ldisc_pop_back_def)
  next
    case False
    let ?r = "r\<lparr>lhead := lhead r - 1\<rparr>"
    have n: "ltail r \<noteq> lhead r" using False by (simp add: ldisc_count_def)
    have sz: "ring_size (ldisc_cap r)" "unat (lhead r - ltail r) \<le> ldisc_cap r" using assms(1) by (simp_all add: ldisc_ok_def)
    have r: "r' = ?r" "popped = Some (lbuf r (unat (lhead r - 1) mod ldisc_cap r))"
      using assms(2) False ldisc_index [of "lhead r - 1" r] by (auto simp: ldisc_pop_back_def Let_def)
    have b: "ldisc_bytes r = ldisc_bytes ?r @ [lbuf r (unat (lhead r - 1) mod ldisc_cap r)]"
      using ring_contents_butlast [OF sz(1) n sz(2), of "lbuf r"] by (simp add: ldisc_bytes_def ldisc_cap_def)
    then have "length (ldisc_bytes ?r) \<le> ldisc_cap r" using ldisc_ok_le [OF assms(1)] by simp
    then have "ldisc_ok ?r" using sz(1) by (simp add: ldisc_ok_def length_ldisc_bytes ldisc_count_def ldisc_cap_def)
    then show ?thesis using r b by simp
  qed
  then show "ldisc_ok r'" "ldisc_bytes r' = butlast (ldisc_bytes r)"
    "popped = (if ldisc_bytes r = [] then None else Some (last (ldisc_bytes r)))" by blast+
qed

section \<open>Raw mode is a byte stream\<close>

lemma ldisc_tail_step:
  assumes "ldisc_ok r" and "ltail r \<noteq> lhead r"
  shows "ldisc_ok (r\<lparr>ltail := ltail r + 1\<rparr>)"
    and "ldisc_bytes r = lbuf r (unat (ltail r mod lsize r)) # ldisc_bytes (r\<lparr>ltail := ltail r + 1\<rparr>)"
  using assms ring_contents_Cons [of "ldisc_cap r" "ltail r" "lhead r" "lbuf r"] unat_minus_1_plus [OF assms(2)]
  by (simp_all add: ldisc_ok_def ldisc_bytes_def ldisc_cap_def unat_mod_size)

lemma drain_raw_spec:
  assumes "ldisc_ok r" and "drain_raw k r = (bs, r')"
  shows "ldisc_ok r' \<and> bs = take k (ldisc_bytes r) \<and> ldisc_bytes r' = drop k (ldisc_bytes r) \<and> r' = r\<lparr>ltail := ltail r'\<rparr>"
  using assms
proof (induction k arbitrary: r bs r')
  case (Suc k)
  show ?case
  proof (cases "ltail r = lhead r")
    case True
    then show ?thesis using Suc.prems by (simp add: ldisc_bytes_def)
  next
    case False
    obtain cs r1 where d: "drain_raw k (r\<lparr>ltail := ltail r + 1\<rparr>) = (cs, r1)" by fastforce
    note st = ldisc_tail_step [OF Suc.prems(1) False]
    from Suc.IH [OF st(1) d] Suc.prems(2) False d st(2) show ?thesis by (auto simp: Let_def)
  qed
qed simp

text \<open>The copy loop of a pseudo terminal write: as many bytes as there is space for.\<close>

definition ldisc_put :: "u8 list \<Rightarrow> ldisc_ring \<Rightarrow> nat \<times> ldisc_ring" where
  "ldisc_put src r =
     (let want = min (length src) (unat (lsize r - ldisc_count r)) in (want, fold ldisc_push (take want src) r))"

lemma fold_push_spec:
  assumes "ldisc_ok r" and "length (ldisc_bytes r) + length bs \<le> ldisc_cap r"
  shows "ldisc_ok (fold ldisc_push bs r) \<and> ldisc_bytes (fold ldisc_push bs r) = ldisc_bytes r @ bs \<and>
    ldisc_cap (fold ldisc_push bs r) = ldisc_cap r \<and> ltail (fold ldisc_push bs r) = ltail r \<and>
    lwaiter (fold ldisc_push bs r) = lwaiter r"
  using assms
proof (induction bs arbitrary: r)
  case (Cons b bs)
  note p = ldisc_push_spec [OF Cons.prems(1), of b]
  have "ldisc_bytes (ldisc_push b r) = ldisc_bytes r @ [b]" using p(2) Cons.prems(2) by simp
  with Cons.IH [OF p(1)] p(3-5) Cons.prems(2) show ?case by simp
qed simp

lemma ldisc_space:
  assumes "ldisc_ok r"
  shows "unat (lsize r - ldisc_count r) = ldisc_cap r - length (ldisc_bytes r)"
proof -
  have "ldisc_count r \<le> lsize r"
    using ldisc_ok_le [OF assms] by (simp add: length_ldisc_bytes ldisc_cap_def word_le_nat_alt)
  then show ?thesis by (simp add: unat_sub length_ldisc_bytes ldisc_cap_def)
qed

lemma ldisc_put_spec:
  assumes "ldisc_ok r" and "ldisc_put src r = (n, r')"
  shows "ldisc_ok r' \<and> ldisc_cap r' = ldisc_cap r \<and> n = min (length src) (ldisc_cap r - length (ldisc_bytes r)) \<and>
    ldisc_bytes r' = ldisc_bytes r @ take n src \<and> lwaiter r' = lwaiter r"
proof -
  have n: "n = min (length src) (ldisc_cap r - length (ldisc_bytes r))" "r' = fold ldisc_push (take n src) r"
    using assms by (auto simp: ldisc_put_def Let_def ldisc_space)
  have "length (ldisc_bytes r) + length (take n src) \<le> ldisc_cap r" using n(1) ldisc_ok_le [OF assms(1)] by auto
  from fold_push_spec [OF assms(1) this] n show ?thesis by simp
qed

interpretation raw_ring: byte_stream ldisc_put drain_raw ldisc_bytes ldisc_ok ldisc_cap
proof
  show "length (ldisc_bytes r) \<le> ldisc_cap r" if "ldisc_ok r" for r by (rule ldisc_ok_le [OF that])
  show "ldisc_ok r' \<and> ldisc_cap r' = ldisc_cap r \<and> n = min (length src) (ldisc_cap r - length (ldisc_bytes r)) \<and>
      ldisc_bytes r' = ldisc_bytes r @ take n src" if "ldisc_ok r" "ldisc_put src r = (n, r')" for r src n r'
    using ldisc_put_spec [OF that] by blast
  show "ldisc_ok r' \<and> ldisc_cap r' = ldisc_cap r \<and> bs = take k (ldisc_bytes r) \<and> ldisc_bytes r' = drop k (ldisc_bytes r)"
    if "ldisc_ok r" "drain_raw k r = (bs, r')" for r k bs r'
  proof -
    have "ldisc_cap r' = ldisc_cap r" using drain_raw_spec [OF that] by (metis ldisc_cap_def ldisc_ring.select_convs(2) ldisc_ring.surjective ldisc_ring.update_convs(4))
    then show ?thesis using drain_raw_spec [OF that] by blast
  qed
qed

section \<open>Cooked mode returns lines\<close>

definition first_line :: "u8 list \<Rightarrow> u8 list" where
  "first_line xs = (if 10 \<in> set xs then takeWhile (\<lambda>b. b \<noteq> 10) xs @ [10] else [])"

lemma first_line_Cons: "first_line (x # xs) = (if x = 10 then [10] else if 10 \<in> set xs then x # first_line xs else [])"
  by (auto simp: first_line_def)

lemma find_nl_spec:
  assumes "ldisc_ok r" and "unat (lhead r - i) \<le> ldisc_cap r" and "n = unat (lhead r - i)" and "i \<le> lhead r"
  shows "find_nl n i r = (let xs = ring_contents (lbuf r) (ldisc_cap r) i (lhead r) in
    if 10 \<in> set xs then Some (i + of_nat (length (takeWhile (\<lambda>b. b \<noteq> 10) xs))) else None)"
  using assms(2-4)
proof (induction n arbitrary: i)
  case 0
  then have "lhead r - i = 0" by (metis unat_eq_zero)
  then have "lhead r = i" by simp
  then show ?case by simp
next
  case (Suc n)
  have ne: "i \<noteq> lhead r" using Suc.prems(2) by auto
  have sz: "ring_size (ldisc_cap r)" using assms(1) by (simp add: ldisc_ok_def)
  note c = ring_contents_Cons [OF sz ne, of "lbuf r"]
  have m: "unat (lhead r - i) = Suc (unat (lhead r - (i + 1)))" by (rule unat_minus_1_plus [OF ne])
  have le: "i + 1 \<le> lhead r" using Suc.prems(3) ne by (simp add: inc_le order.strict_iff_order)
  show ?case using Suc.IH [of "i + 1"] m Suc.prems le c
    by (simp add: Let_def ldisc_index add.assoc)
qed

lemma drain_through_spec:
  assumes "ldisc_ok r" and "unat (ltail r) + k = Suc (unat nl)" "k \<le> length (ldisc_bytes r)"
    "Suc (unat nl) \<le> unat (lhead r)" and "drain_through nl n r = (bs, r')"
  shows "ldisc_ok r' \<and> bs = take (min n k) (ldisc_bytes r) \<and> ldisc_bytes r' = drop (min n k) (ldisc_bytes r) \<and>
    r' = r\<lparr>ltail := ltail r'\<rparr> \<and> ltail r' \<le> lhead r"
  using assms
proof (induction n arbitrary: r k bs r')
  case 0
  then show ?case by (simp add: word_le_nat_alt)
next
  case (Suc n)
  show ?case
  proof (cases k)
    case 0
    then have "\<not> ltail r \<le> nl" using Suc.prems(2) by (simp add: word_le_nat_alt)
    then show ?thesis using Suc.prems 0 by (simp add: word_le_nat_alt)
  next
    case (Suc j)
    have le: "ltail r \<le> nl" using Suc.prems(2) \<open>k = Suc j\<close> by (simp add: word_le_nat_alt)
    have ne: "ltail r \<noteq> lhead r" using Suc.prems(3) \<open>k = Suc j\<close> by (auto simp: ldisc_bytes_def)
    note st = ldisc_tail_step [OF Suc.prems(1) ne]
    obtain cs r1 where d: "drain_through nl n (r\<lparr>ltail := ltail r + 1\<rparr>) = (cs, r1)" by fastforce
    have "unat (ltail r) + 1 < 2 ^ 64" using Suc.prems(2,4) \<open>k = Suc j\<close> unat64_less [of "lhead r"] by linarith
    then have u: "unat (ltail r + 1) = unat (ltail r) + 1" by (simp add: unat_word_ariths)
    have "ldisc_ok r1 \<and> cs = take (min n j) (ldisc_bytes (r\<lparr>ltail := ltail r + 1\<rparr>)) \<and>
        ldisc_bytes r1 = drop (min n j) (ldisc_bytes (r\<lparr>ltail := ltail r + 1\<rparr>)) \<and>
        r1 = (r\<lparr>ltail := ltail r + 1\<rparr>)\<lparr>ltail := ltail r1\<rparr> \<and> ltail r1 \<le> lhead (r\<lparr>ltail := ltail r + 1\<rparr>)"
      by (rule Suc.IH [OF st(1) _ _ _ d]) (use Suc.prems(2-4) \<open>k = Suc j\<close> st(2) u in auto)
    then show ?thesis using Suc.prems(5) le d st(2) \<open>k = Suc j\<close> by (auto simp: Let_def)
  qed
qed

text \<open>
  In cooked mode a read gets the first line, or as much of it as fits, and nothing while no line
  is complete.  The counters must not have wrapped between tail and head, which takes $2^{64}$
  input bytes.
\<close>

lemma ldisc_drain_cooked:
  assumes ok: "ldisc_ok r" and fl: "has_flag flags TTY_FLAG_ICANON" and le: "ltail r \<le> lhead r"
    and e: "ldisc_drain flags sz r = (bs, r')"
  shows "bs = take (unat sz) (first_line (ldisc_bytes r))"
    and "ldisc_bytes r' = drop (length bs) (ldisc_bytes r)" and "ldisc_ok r'" and "ltail r' \<le> lhead r'"
    and "r' = r\<lparr>ltail := ltail r'\<rparr>"
proof -
  let ?xs = "ldisc_bytes r" and ?k = "Suc (length (takeWhile (\<lambda>b. b \<noteq> 10) (ldisc_bytes r)))"
  have f: "find_nl (unat (lhead r - ltail r)) (ltail r) r =
      (if 10 \<in> set ?xs then Some (ltail r + of_nat (length (takeWhile (\<lambda>b. b \<noteq> 10) ?xs))) else None)"
    using find_nl_spec [OF ok _ refl le] ok by (simp add: Let_def ldisc_ok_def ldisc_bytes_def)
  have "bs = take (unat sz) (first_line ?xs) \<and> ldisc_bytes r' = drop (length bs) ?xs \<and> ldisc_ok r' \<and> ltail r' \<le> lhead r' \<and>
      r' = r\<lparr>ltail := ltail r'\<rparr>"
  proof (cases "10 \<in> set ?xs")
    case False
    then show ?thesis using e f fl ok le by (simp add: ldisc_drain_def first_line_def)
  next
    case True
    have "takeWhile (\<lambda>b. b \<noteq> 10) ?xs \<noteq> ?xs" using True by (auto simp: takeWhile_eq_all_conv)
    then have "length (takeWhile (\<lambda>b. b \<noteq> 10) ?xs) \<noteq> length ?xs" by (metis takeWhile_eq_take take_all order_refl)
    then have k: "?k \<le> length ?xs" using length_takeWhile_le [of "\<lambda>b. b \<noteq> 10" ?xs] by linarith
    have c: "unat (ltail r) + length ?xs = unat (lhead r)"
      using le by (simp add: length_ldisc_bytes ldisc_count_def unat_sub word_le_nat_alt)
    let ?nl = "ltail r + of_nat (length (takeWhile (\<lambda>b. b \<noteq> 10) ?xs))"
    have small: "unat (ltail r) + ?k \<le> unat (lhead r)" using k c by simp
    then have u: "unat (ltail r) + ?k = Suc (unat ?nl)" using unat64_less [of "lhead r"]
      by (simp add: unat_word_ariths unat_of_nat)
    have d: "drain_through ?nl (unat sz) r = (bs, r')" using e f fl True by (simp add: ldisc_drain_def)
    have s: "ldisc_ok r' \<and> bs = take (min (unat sz) ?k) ?xs \<and> ldisc_bytes r' = drop (min (unat sz) ?k) ?xs \<and>
        r' = r\<lparr>ltail := ltail r'\<rparr> \<and> ltail r' \<le> lhead r"
      by (rule drain_through_spec [OF ok u k _ d]) (use small u in simp)
    have "take ?k ?xs = takeWhile (\<lambda>b. b \<noteq> 10) ?xs @ [10]"
    proof -
      have "?xs ! (?k - 1) = 10" using nth_length_takeWhile [of "\<lambda>b. b \<noteq> 10" ?xs] k by simp
      then show ?thesis using k by (simp add: take_Suc_conv_app_nth takeWhile_eq_take [symmetric])
    qed
    then have fl: "first_line ?xs = take ?k ?xs" using True by (simp add: first_line_def)
    have "lhead r' = lhead r" using s by (metis ldisc_ring.select_convs(3) ldisc_ring.surjective ldisc_ring.update_convs(4))
    then show ?thesis using s k by (simp add: fl)
  qed
  then show "bs = take (unat sz) (first_line (ldisc_bytes r))" "ldisc_bytes r' = drop (length bs) (ldisc_bytes r)"
    "ldisc_ok r'" "ltail r' \<le> lhead r'" "r' = r\<lparr>ltail := ltail r'\<rparr>" by blast+
qed

section \<open>The waiter queue\<close>

lemma ldisc_enqueue_link: "ldisc_waiter_enqueue = link_tail"
  by (auto simp: fun_eq_iff ldisc_waiter_enqueue_def link_tail_def Let_def split: prod.splits)

lemma ldisc_pop_unlink: "ldisc_waiter_pop = unlink_head"
  by (auto simp: fun_eq_iff ldisc_waiter_pop_def unlink_head_def Let_def split: prod.splits)

lemma ldisc_remove_splice: "ldisc_waiter_remove = splice_out"
  by (auto simp: fun_eq_iff ldisc_waiter_remove_def splice_out_def)

interpretation ldiscq: task_fifo_remove ldisc_waiter_enqueue ldisc_waiter_pop ldisc_waiter_remove
  unfolding ldisc_enqueue_link ldisc_pop_unlink ldisc_remove_splice by unfold_locales

section \<open>Input as line editing\<close>

text \<open>What one byte does to the text typed so far.\<close>

definition edit :: "u32 \<Rightarrow> nat \<Rightarrow> u8 \<Rightarrow> u8 list \<Rightarrow> u8 list" where
  "edit flags cap b xs =
     (if has_flag flags TTY_FLAG_ISIG \<and> b = 3 then xs
      else if has_flag flags TTY_FLAG_ICANON \<and> b = 8 then butlast xs
      else if length xs < cap then xs @ [b] else xs)"

lemma ldisc_bytes_waiter [simp]:
  "ldisc_bytes (r\<lparr>lwaiter := q\<rparr>) = ldisc_bytes r" "ldisc_ok (r\<lparr>lwaiter := q\<rparr>) = ldisc_ok r"
  "ldisc_cap (r\<lparr>lwaiter := q\<rparr>) = ldisc_cap r"
  by (simp_all add: ldisc_bytes_def ldisc_ok_def ldisc_cap_def)

lemma ldisc_input_edits:
  assumes ok: "ldisc_ok r" and e: "ldisc_input flags pgrp b echo (r, s, x) = (res, r', s', x')"
  shows "ldisc_ok r'" and "ldisc_bytes r' = edit flags (ldisc_cap r) b (ldisc_bytes r)" and "ldisc_cap r' = ldisc_cap r"
    and "ltail r' = ltail r"
    and "lr_signal res = (if has_flag flags TTY_FLAG_ISIG \<and> b = 3 then SIGINT else 0)"
    and "lr_pgrp res = (if has_flag flags TTY_FLAG_ISIG \<and> b = 3 then pgrp else 0)"
proof -
  obtain popped r1 where pb: "ldisc_pop_back r = (popped, r1)" by fastforce
  note p = ldisc_push_spec [OF ok, of b] and q = ldisc_pop_back_spec [OF ok pb]
  have *: "ldisc_ok r' \<and> ldisc_bytes r' = edit flags (ldisc_cap r) b (ldisc_bytes r) \<and> ldisc_cap r' = ldisc_cap r \<and> ltail r' = ltail r \<and>
      lr_signal res = (if has_flag flags TTY_FLAG_ISIG \<and> b = 3 then SIGINT else 0) \<and>
      lr_pgrp res = (if has_flag flags TTY_FLAG_ISIG \<and> b = 3 then pgrp else 0)"
    using e p q ok unfolding ldisc_input_def edit_def
    by (auto simp: pb Let_def split: if_splits prod.splits)
  then show "ldisc_ok r'" "ldisc_bytes r' = edit flags (ldisc_cap r) b (ldisc_bytes r)" "ldisc_cap r' = ldisc_cap r"
    "ltail r' = ltail r" "lr_signal res = (if has_flag flags TTY_FLAG_ISIG \<and> b = 3 then SIGINT else 0)"
    "lr_pgrp res = (if has_flag flags TTY_FLAG_ISIG \<and> b = 3 then pgrp else 0)" by blast+
qed

end
