(* ===== verification/Devfs.thy ===== *)
theory Devfs
  imports Vfs_Types
begin

text \<open>
  \<^verbatim>\<open>drivers/devfs.c\<close>: the table of device drivers, and the old-style device numbers of
  \<^verbatim>\<open>devfs_defs.h\<close>.
\<close>

section \<open>Device numbers\<close>

definition MKDEV :: "u32 \<Rightarrow> u32 \<Rightarrow> u32" where
  "MKDEV maj mnr = push_bit 8 (maj AND 0xFF) OR (mnr AND 0xFF)"

definition MAJOR :: "u32 \<Rightarrow> u32" where
  "MAJOR dev = drop_bit 8 dev AND 0xFF"

definition MINOR :: "u32 \<Rightarrow> u32" where
  "MINOR dev = dev AND 0xFF"

section \<open>The table\<close>

definition DEVFS_MAX_DEVICES :: nat where "DEVFS_MAX_DEVICES = 32"

record devfs_entry =
  dv_major :: u32
  dv_minor :: u32
  dv_is_block :: bool
  dv_fops :: fops_ptr
  dv_token :: nat

definition devfs_init :: "devfs_entry list" where
  "devfs_init = replicate DEVFS_MAX_DEVICES \<lparr>dv_major = 0, dv_minor = 0, dv_is_block = False, dv_fops = NoFops, dv_token = 0\<rparr>"

definition dev_matches :: "bool \<Rightarrow> u32 \<Rightarrow> u32 \<Rightarrow> devfs_entry \<Rightarrow> bool" where
  "dev_matches is_block maj mnr d \<longleftrightarrow> dv_is_block d = is_block \<and> dv_major d = maj \<and> dv_minor d = mnr"

text \<open>The scan: the first free slot, or \<open>Inl\<close> when the number is taken.\<close>

fun devfs_scan :: "bool \<Rightarrow> u32 \<Rightarrow> u32 \<Rightarrow> nat \<Rightarrow> nat option \<Rightarrow> devfs_entry list \<Rightarrow> int + nat option" where
  "devfs_scan is_block maj mnr i free_slot [] = Inr free_slot"
| "devfs_scan is_block maj mnr i free_slot (d # ds) =
     (if dv_fops d = NoFops then
        devfs_scan is_block maj mnr (Suc i) (if free_slot = None then Some i else free_slot) ds
      else if dev_matches is_block maj mnr d then Inl (- EBUSY)
      else devfs_scan is_block maj mnr (Suc i) free_slot ds)"

definition devfs_register :: "bool \<Rightarrow> u32 \<Rightarrow> u32 \<Rightarrow> fops_ptr \<Rightarrow> nat \<Rightarrow> devfs_entry list \<Rightarrow> int \<times> devfs_entry list" where
  "devfs_register is_block maj mnr ops token devices =
     (if ops = NoFops then (- EINVAL, devices)
      else case devfs_scan is_block maj mnr 0 None devices of
        Inl e \<Rightarrow> (e, devices)
      | Inr None \<Rightarrow> (- ENOMEM, devices)
      | Inr (Some i) \<Rightarrow>
          (0, devices[i := \<lparr>dv_major = maj, dv_minor = mnr, dv_is_block = is_block, dv_fops = ops, dv_token = token\<rparr>]))"

definition devfs_register_char :: "u32 \<Rightarrow> u32 \<Rightarrow> fops_ptr \<Rightarrow> nat \<Rightarrow> devfs_entry list \<Rightarrow> int \<times> devfs_entry list" where
  "devfs_register_char maj mnr ops token devices = devfs_register False maj mnr ops token devices"

definition devfs_register_block :: "u32 \<Rightarrow> u32 \<Rightarrow> fops_ptr \<Rightarrow> nat \<Rightarrow> devfs_entry list \<Rightarrow> int \<times> devfs_entry list" where
  "devfs_register_block maj mnr ops token devices = devfs_register True maj mnr ops token devices"

definition devfs_lookup :: "bool \<Rightarrow> u32 \<Rightarrow> u32 \<Rightarrow> devfs_entry list \<Rightarrow> devfs_entry option" where
  "devfs_lookup is_block maj mnr devices =
     List.find (\<lambda>d. dv_fops d \<noteq> NoFops \<and> dev_matches is_block maj mnr d) devices"

section \<open>Registration and lookup\<close>

lemma dev_number_roundtrip: "MAJOR (MKDEV a b) = a AND 0xFF" "MINOR (MKDEV a b) = b AND 0xFF"
proof -
  have m: "bit (0xFF :: u32) n \<longleftrightarrow> n < 8" for n
    using bit_mask_iff [of 8 n, where ?'a = "32 word"] by (auto simp: mask_eq_exp_minus_1)
  show "MAJOR (MKDEV a b) = a AND 0xFF"
  proof (rule bit_word_eqI)
    fix n assume "n < LENGTH(32)"
    then show "bit (MAJOR (MKDEV a b)) n = bit (a AND 0xFF) n" using m [of n] m [of "8 + n"]
      by (auto simp: MAJOR_def MKDEV_def bit_and_iff bit_or_iff bit_push_bit_iff bit_drop_bit_eq)
  qed
  show "MINOR (MKDEV a b) = b AND 0xFF"
  proof (rule bit_word_eqI)
    fix n assume "n < LENGTH(32)"
    then show "bit (MINOR (MKDEV a b)) n = bit (b AND 0xFF) n" using m [of n]
      by (auto simp: MINOR_def MKDEV_def bit_and_iff bit_or_iff bit_push_bit_iff)
  qed
qed

lemma devfs_scan_error: "devfs_scan is_block maj mnr k f ds = Inl e \<Longrightarrow> e = - EBUSY"
  by (induction ds arbitrary: k f) (auto split: if_splits)

lemma devfs_scan_free:
  assumes "devfs_scan is_block maj mnr k f ds = Inr (Some i)"
  shows "f = Some i \<or> k \<le> i \<and> i < k + length ds \<and> dv_fops (ds ! (i - k)) = NoFops"
  using assms
proof (induction ds arbitrary: k f)
  case (Cons d ds)
  show ?case
  proof (cases "dv_fops d = NoFops")
    case True
    with Cons.prems Cons.IH [of "Suc k" "if f = None then Some k else f"] show ?thesis
      by (cases f) (auto simp: nth_Cons' Suc_diff_le split: if_splits)
  next
    case False
    then have "devfs_scan is_block maj mnr (Suc k) f ds = Inr (Some i)" using Cons.prems by (simp split: if_splits)
    from Cons.IH [OF this] show ?thesis by (auto simp: nth_Cons' Suc_diff_le)
  qed
qed simp

lemma devfs_scan_new:
  "devfs_scan is_block maj mnr k f ds = Inr j \<Longrightarrow> d \<in> set ds \<Longrightarrow> dv_fops d \<noteq> NoFops \<Longrightarrow> \<not> dev_matches is_block maj mnr d"
  by (induction ds arbitrary: k f) (auto split: if_splits)

lemma find_unique:
  assumes "i < length xs" and "P (xs ! i)" and "\<And>j. j < length xs \<Longrightarrow> P (xs ! j) \<Longrightarrow> j = i"
  shows "List.find P xs = Some (xs ! i)"
proof -
  have "\<not> P (xs ! j)" if "j < i" for j using assms(1) assms(3) [of j] that by linarith
  then show ?thesis unfolding find_Some_iff using assms(1,2) by blast
qed

lemma find_cong_nth: "length xs = length ys \<Longrightarrow> (\<And>j. j < length xs \<Longrightarrow> (P (xs ! j) \<longleftrightarrow> P (ys ! j)) \<and> (P (xs ! j) \<longrightarrow> xs ! j = ys ! j)) \<Longrightarrow>
    List.find P xs = List.find P ys"
proof (induction xs ys rule: list_induct2)
  case (Cons x xs y ys)
  have "List.find P xs = List.find P ys"
  proof (rule Cons.IH)
    fix j assume "j < length xs"
    then have "Suc j < length (x # xs)" by simp
    from Cons.prems [OF this] show "(P (xs ! j) \<longleftrightarrow> P (ys ! j)) \<and> (P (xs ! j) \<longrightarrow> xs ! j = ys ! j)"
      unfolding nth_Cons_Suc .
  qed
  moreover have "0 < length (x # xs)" by simp
  from Cons.prems [OF this] have "P x = P y" "P x \<longrightarrow> x = y" unfolding nth_Cons_0 by blast+
  ultimately show ?case by (metis find.simps(2))
qed simp

text \<open>A successful registration is what lookup then finds, and every other number keeps its driver.\<close>

lemma devfs_register_lookup:
  assumes "devfs_register is_block maj mnr ops token devices = (0, devices')"
  shows "devfs_lookup is_block maj mnr devices' =
      Some \<lparr>dv_major = maj, dv_minor = mnr, dv_is_block = is_block, dv_fops = ops, dv_token = token\<rparr>"
    and "(b, a, n) \<noteq> (is_block, maj, mnr) \<Longrightarrow> devfs_lookup b a n devices' = devfs_lookup b a n devices"
    and "devfs_lookup is_block maj mnr devices = None" and "length devices' = length devices"
proof -
  let ?d = "\<lparr>dv_major = maj, dv_minor = mnr, dv_is_block = is_block, dv_fops = ops, dv_token = token\<rparr>"
  obtain i where i: "devfs_scan is_block maj mnr 0 None devices = Inr (Some i)" "devices' = devices[i := ?d]" "ops \<noteq> NoFops"
    using assms devfs_scan_error [of is_block maj mnr 0 None devices]
    by (auto simp: devfs_register_def errno_defs split: if_splits sum.splits option.splits)
  note s = devfs_scan_free [OF i(1)] and new = devfs_scan_new [OF i(1)]
  have il: "i < length devices" "dv_fops (devices ! i) = NoFops" using s by auto
  show "length devices' = length devices" using i by simp
  show "devfs_lookup is_block maj mnr devices = None"
    using new by (auto simp: devfs_lookup_def find_None_iff)
  have "List.find (\<lambda>d. dv_fops d \<noteq> NoFops \<and> dev_matches is_block maj mnr d) devices' = Some (devices' ! i)"
  proof (rule find_unique)
    fix j assume j: "j < length devices'" "dv_fops (devices' ! j) \<noteq> NoFops \<and> dev_matches is_block maj mnr (devices' ! j)"
    show "j = i"
    proof (rule ccontr)
      assume "j \<noteq> i"
      then have "devices' ! j = devices ! j" "devices ! j \<in> set devices" using j(1) i(2) by simp_all
      then show False using j(2) new [of "devices ! j"] by simp
    qed
  qed (use il i in \<open>auto simp: dev_matches_def\<close>)
  then show "devfs_lookup is_block maj mnr devices' = Some ?d" using il i(2) by (simp add: devfs_lookup_def)
  show "devfs_lookup b a n devices' = devfs_lookup b a n devices" if "(b, a, n) \<noteq> (is_block, maj, mnr)"
    unfolding devfs_lookup_def
    by (rule find_cong_nth) (use il i that in \<open>auto simp: dev_matches_def nth_list_update\<close>)
qed

end
