(* ===== verification/Tty.thy ===== *)
theory Tty
  imports Ldisc_Props Devfs Util_Memory
begin

text \<open>
  \<^verbatim>\<open>drivers/tty.c\<close>: the console terminal.  The console output (\<^verbatim>\<open>putchar\<close> and
  \<^verbatim>\<open>print_str_SYSCALL\<close> of \<^verbatim>\<open>drivers/vga.c\<close>) is the list of bytes sent to it.
\<close>

section \<open>Data\<close>

definition TTY_BUF_SIZE :: u64 where "TTY_BUF_SIZE = 512"

record tty =
  tring :: ldisc_ring
  tflags :: u32
  tpgrp :: u64
  tfops :: fops_ptr

record geometry =
  g_cols :: u64
  g_rows :: u64
  g_width :: u64
  g_height :: u64

definition zero_ring :: "u64 \<Rightarrow> ldisc_ring" where
  "zero_ring n = \<lparr>lbuf = (\<lambda>_. 0), lsize = n, lhead = 0, ltail = 0, lwaiter = \<lparr>qhead = NULL, qtail = NULL\<rparr>\<rparr>"

text \<open>Stores of 16 and 32 bits, lowest byte first.\<close>

definition store16 :: "u64 \<Rightarrow> u16 \<Rightarrow> mem \<Rightarrow> mem" where
  "store16 a v m = store_bytes 2 a (ucast v) m"

definition load16 :: "u64 \<Rightarrow> mem \<Rightarrow> u16" where
  "load16 a m = ucast (load_bytes 2 a m)"

definition store32 :: "u64 \<Rightarrow> u32 \<Rightarrow> mem \<Rightarrow> mem" where
  "store32 a v m = store_bytes 4 a (ucast v) m"

definition store_winsize :: "u64 \<Rightarrow> u16 \<times> u16 \<times> u16 \<times> u16 \<Rightarrow> mem \<Rightarrow> mem" where
  "store_winsize a w m =
     (let (row, col, xpixel, ypixel) = w
      in store16 (a + 6) ypixel (store16 (a + 4) xpixel (store16 (a + 2) col (store16 a row m))))"

definition load_winsize :: "u64 \<Rightarrow> mem \<Rightarrow> u16 \<times> u16 \<times> u16 \<times> u16" where
  "load_winsize a m = (load16 a m, load16 (a + 2) m, load16 (a + 4) m, load16 (a + 6) m)"

definition TTY_IOCTL_SET_RAW :: u64 where "TTY_IOCTL_SET_RAW = 0x100"
definition TTY_IOCTL_SET_COOKED :: u64 where "TTY_IOCTL_SET_COOKED = 0x101"
definition TTY_IOCTL_SET_FOREGROUND :: u64 where "TTY_IOCTL_SET_FOREGROUND = 0x102"
definition TTY_IOCTL_TIOCSPGRP :: u64 where "TTY_IOCTL_TIOCSPGRP = 0x103"
definition TTY_IOCTL_TIOCGPGRP :: u64 where "TTY_IOCTL_TIOCGPGRP = 0x104"
definition TTY_IOCTL_TIOCGWINSZ :: u64 where "TTY_IOCTL_TIOCGWINSZ = 0x105"

datatype tty_result = TtyDone int "u8 list" | TtyParked

section \<open>File operations\<close>

definition tty_echo :: "u8 \<Rightarrow> sched \<times> u8 list \<Rightarrow> sched \<times> u8 list" where
  "tty_echo c sx = (fst sx, snd sx @ [c])"

text \<open>Parking a reader on the ring's queue; the caller then gives up the CPU.\<close>

definition ldisc_park :: "nat \<Rightarrow> tqueue \<times> sched \<Rightarrow> tqueue \<times> sched" where
  "ldisc_park c qs =
     (let (q, s) = qs; me = cpu_current (cpus s c);
          (h, q) = ldisc_waiter_enqueue me (tasks s, q)
      in (q, upd_task me (\<lambda>k. k\<lparr>tstate := TASK_STATE_BLOCKED\<rparr>) (s\<lparr>tasks := h\<rparr>)))"

definition tty_read_turn :: "nat \<Rightarrow> u64 \<Rightarrow> tty \<times> sched \<Rightarrow> tty_result \<times> tty \<times> sched" where
  "tty_read_turn c sz ts =
     (let (t, s) = ts; (bs, r) = ldisc_drain (tflags t) sz (tring t) in
      if bs \<noteq> [] then (TtyDone (int (length bs)) bs, t\<lparr>tring := r\<rparr>, s)
      else
        let (q, s) = ldisc_park c (lwaiter r, s)
        in (TtyParked, t\<lparr>tring := r\<lparr>lwaiter := q\<rparr>\<rparr>, s))"

definition tty_read_resume :: "tptr \<Rightarrow> tty \<times> sched \<Rightarrow> tty \<times> sched" where
  "tty_read_resume me ts =
     (let (t, s) = ts; (h, q) = ldisc_waiter_remove me (tasks s, lwaiter (tring t))
      in (t\<lparr>tring := (tring t)\<lparr>lwaiter := q\<rparr>\<rparr>, s\<lparr>tasks := h\<rparr>))"

definition tty_read :: "nat \<Rightarrow> u64 \<Rightarrow> tty \<times> sched \<Rightarrow> tty_result \<times> tty \<times> sched" where
  "tty_read c sz ts = (if sz = 0 then (TtyDone 0 [], ts) else tty_read_turn c sz ts)"

text \<open>\<^verbatim>\<open>print_str_SYSCALL\<close> stops at a NUL byte.\<close>

definition tty_write :: "u8 list \<Rightarrow> u8 list \<Rightarrow> int \<times> u8 list" where
  "tty_write src console =
     (let out = takeWhile (\<lambda>b. b \<noteq> 0) src in (int (length out), console @ out))"

definition tty_ioctl :: "geometry \<Rightarrow> nat \<Rightarrow> u64 \<Rightarrow> u64 \<Rightarrow> sched \<Rightarrow> tty \<times> mem \<Rightarrow> int \<times> tty \<times> mem" where
  "tty_ioctl g c cmd arg s tm =
     (let (t, m) = tm in
      if cmd = TTY_IOCTL_SET_RAW then (0, t\<lparr>tflags := tflags t AND NOT (TTY_FLAG_ICANON OR TTY_FLAG_ECHO)\<rparr>, m)
      else if cmd = TTY_IOCTL_SET_COOKED then (0, t\<lparr>tflags := tflags t OR TTY_FLAG_ICANON OR TTY_FLAG_ECHO\<rparr>, m)
      else if cmd = TTY_IOCTL_SET_FOREGROUND then (0, t\<lparr>tpgrp := pgid (tasks s (cpu_current (cpus s c)))\<rparr>, m)
      else if cmd = TTY_IOCTL_TIOCSPGRP then (0, t\<lparr>tpgrp := arg\<rparr>, m)
      else if cmd = TTY_IOCTL_TIOCGPGRP then (0, t, if arg \<noteq> 0 then store64 arg (tpgrp t) m else m)
      else if cmd = TTY_IOCTL_TIOCGWINSZ then
        (if arg = 0 then (- EINVAL, t, m)
         else (0, t, store_winsize arg (ucast (g_rows g), ucast (g_cols g), ucast (g_width g), ucast (g_height g)) m))
      else (- ENOTTY, t, m))"

definition tty_close :: "tty \<Rightarrow> int \<times> tty" where
  "tty_close t = (0, t)"

section \<open>Set-up and input\<close>

definition tty_init :: "bool \<Rightarrow> nat \<Rightarrow> devfs_entry list \<Rightarrow> tty \<times> devfs_entry list" where
  "tty_init is_console self devices =
     (\<lparr>tring = zero_ring TTY_BUF_SIZE, tflags = TTY_FLAG_ICANON OR TTY_FLAG_ECHO OR TTY_FLAG_ISIG,
       tpgrp = 0, tfops = TtyFops\<rparr>,
      if is_console then snd (devfs_register_char 4 0 TtyFops self devices) else devices)"

definition tty_open :: "nat \<Rightarrow> nat \<Rightarrow> tty \<Rightarrow> file_t option \<Rightarrow> file_t option" where
  "tty_open stub_inode self t f =
     map_option (\<lambda>f. f\<lparr>finode := stub_inode, fops := tfops t, fposition := 0, fflags := 0, fmode := 0,
                        fref_count := 1, fprivate := self\<rparr>) f"

definition tty_drop_task :: "tptr \<Rightarrow> tty \<Rightarrow> tty" where
  "tty_drop_task t tt = tt"

definition tty_input_byte :: "u8 \<Rightarrow> tty \<times> sched \<times> u8 list \<Rightarrow> tty \<times> sched \<times> u8 list" where
  "tty_input_byte b tsx =
     (let (t, s, out) = tsx;
          (res, r, s, out) = ldisc_input (tflags t) (tpgrp t) b (Some tty_echo) (tring t, s, out);
          s = (if lr_signal res \<noteq> 0 \<and> lr_pgrp res \<noteq> 0 then signal_send_pgrp (lr_pgrp res) (lr_signal res) s else s);
          s = wake_opt (lr_wake res) s
      in (t\<lparr>tring := r\<rparr>, s, out))"

end
