(* ===== verification/Tty_Props.thy ===== *)
theory Tty_Props
  imports Tty
begin

text \<open>
  What typing at the console does: input edits a line, a read returns the first complete line,
  and a reader that sleeps has no line to read.
\<close>

section \<open>Typing\<close>

definition tty_ok :: "tty \<Rightarrow> bool" where
  "tty_ok t \<longleftrightarrow> ldisc_ok (tring t) \<and> ldisc_cap (tring t) = 512"

definition tty_text :: "tty \<Rightarrow> u8 list" where
  "tty_text t = ldisc_bytes (tring t)"

lemma tty_init_ok: "tty_ok (fst (tty_init b self ds)) \<and> tty_text (fst (tty_init b self ds)) = []"
  by (simp add: tty_ok_def tty_text_def tty_init_def zero_ring_def ldisc_ok_def ldisc_cap_def ldisc_bytes_def TTY_BUF_SIZE_def ring_size_def)

lemma tty_input_edits:
  assumes "tty_ok t" and "tty_input_byte b (t, s, out) = (t', s', out')"
  shows "tty_ok t'" "tty_text t' = edit (tflags t) 512 b (tty_text t)" "tflags t' = tflags t" "ltail (tring t') = ltail (tring t)"
    "tpgrp t' = tpgrp t"
proof -
  obtain res r s1 o1 where i: "ldisc_input (tflags t) (tpgrp t) b (Some tty_echo) (tring t, s, out) = (res, r, s1, o1)"
    by (metis prod_cases4)
  have ok: "ldisc_ok (tring t)" using assms(1) by (simp add: tty_ok_def)
  have t': "t' = t\<lparr>tring := r\<rparr>" using assms(2) i by (simp add: tty_input_byte_def Let_def)
  note e = ldisc_input_edits [OF ok i]
  show "tty_ok t'" "tty_text t' = edit (tflags t) 512 b (tty_text t)" "tflags t' = tflags t" "ltail (tring t') = ltail (tring t)"
    "tpgrp t' = tpgrp t"
    using e assms(1) by (simp_all add: t' tty_ok_def tty_text_def)
qed

lemma type_edits:
  assumes "tty_ok t" and "fold tty_input_byte bs (t, s, out) = (t', s', out')"
  shows "tty_ok t' \<and> tty_text t' = fold (edit (tflags t) 512) bs (tty_text t) \<and> tflags t' = tflags t \<and> ltail (tring t') = ltail (tring t)"
  using assms
proof (induction bs arbitrary: t s out)
  case (Cons b bs)
  obtain t1 s1 o1 where i: "tty_input_byte b (t, s, out) = (t1, s1, o1)" by (metis prod_cases3)
  note e = tty_input_edits [OF Cons.prems(1) i]
  have "fold tty_input_byte bs (t1, s1, o1) = (t', s', out')" using Cons.prems(2) i by simp
  from Cons.IH [OF e(1) this] e show ?case by simp
qed simp

lemma tty_head: "tty_ok t \<Longrightarrow> lhead (tring t) = ltail (tring t) + of_nat (length (tty_text t))"
  by (simp add: tty_text_def length_ldisc_bytes ldisc_count_def)

lemma tty_tail_le:
  assumes "tty_ok t" and "unat (ltail (tring t)) + 512 < 2 ^ 64"
  shows "ltail (tring t) \<le> lhead (tring t)"
proof -
  have "length (tty_text t) \<le> 512" using assms(1) ldisc_ok_le [of "tring t"] by (simp add: tty_ok_def tty_text_def)
  then have "unat (lhead (tring t)) = unat (ltail (tring t)) + length (tty_text t)"
    using assms by (simp add: tty_head unat_word_ariths unat_of_nat)
  then show ?thesis by (simp add: word_le_nat_alt)
qed

lemma tty_read_line:
  assumes ok: "tty_ok t" and fl: "has_flag (tflags t) TTY_FLAG_ICANON" and b: "unat (ltail (tring t)) + 512 < 2 ^ 64"
    and sz: "sz \<noteq> 0" and e: "tty_read c sz (t, s) = (res, t', s')"
  defines "line \<equiv> take (unat sz) (first_line (tty_text t))"
  shows "res = (if first_line (tty_text t) = [] then TtyParked else TtyDone (int (length line)) line)"
    and "tty_text t' = drop (length line) (tty_text t)" and "tty_ok t'"
proof -
  obtain bs r where d: "ldisc_drain (tflags t) sz (tring t) = (bs, r)" by fastforce
  have lok: "ldisc_ok (tring t)" using ok by (simp add: tty_ok_def)
  note dr = ldisc_drain_cooked [OF lok fl tty_tail_le [OF ok b] d]
  have bs: "bs = line" using dr(1) by (simp add: line_def tty_text_def)
  have n: "bs = [] \<longleftrightarrow> first_line (tty_text t) = []"
    using sz by (simp add: bs line_def unat_eq_zero)
  have c: "ldisc_cap r = 512" using dr(5) ok by (metis ldisc_cap_def ldisc_ring.select_convs(2) ldisc_ring.surjective ldisc_ring.update_convs(4) tty_ok_def)
  show "res = (if first_line (tty_text t) = [] then TtyParked else TtyDone (int (length line)) line)"
    using e d sz n bs by (auto simp: tty_read_def tty_read_turn_def Let_def split: if_splits prod.splits)
  have "ldisc_bytes (tring t') = ldisc_bytes r \<and> ldisc_ok (tring t') = ldisc_ok r \<and> ldisc_cap (tring t') = ldisc_cap r"
    using e d sz by (auto simp: tty_read_def tty_read_turn_def Let_def split: if_splits prod.splits)
  then show "tty_text t' = drop (length line) (tty_text t)" "tty_ok t'"
    using dr(2,3) c bs by (simp_all add: tty_text_def tty_ok_def)
qed

text \<open>
  C24. The console is a line editor.  Bytes typed in cooked mode edit the pending text (a
  backspace takes back the last byte, Ctrl+C leaves it alone, a byte beyond the 512 the
  buffer holds is dropped), and a read returns the first complete line of the edited text, cut to
  the size asked for, and leaves the rest; while no line is complete the reader is parked
  and nothing is consumed.
\<close>

theorem tty_line_discipline:
  assumes "tty_ok t" and "has_flag (tflags t) TTY_FLAG_ICANON" and "unat (ltail (tring t)) + 512 < 2 ^ 64" and "sz \<noteq> 0"
    and "fold tty_input_byte bs (t, s, out) = (t1, s1, out1)" and "tty_read c sz (t1, s2) = (res, t2, s3)"
  shows "let text = fold (edit (tflags t) 512) bs (tty_text t); line = take (unat sz) (first_line text)
    in tty_text t1 = text \<and> tty_text t2 = drop (length line) text \<and> tty_ok t2 \<and>
       res = (if first_line text = [] then TtyParked else TtyDone (int (length line)) line)"
proof -
  note y = type_edits [OF assms(1,5)]
  have "unat (ltail (tring t1)) + 512 < 2 ^ 64" "has_flag (tflags t1) TTY_FLAG_ICANON" "tty_ok t1" using y assms(2,3) by simp_all
  from tty_read_line [OF this(3,2,1) assms(4,6)] y show ?thesis by (simp add: Let_def)
qed

text \<open>Typing \<^verbatim>\<open>h x BS i newline\<close> and reading up to ten bytes.\<close>

theorem tty_line_discipline_witness:
  "\<exists>t2 s3. tty_read 0 10 (fst (fold tty_input_byte [104, 120, 8, 105, 10] (fst (tty_init False 7 []), demo_sched, [])), demo_sched) =
     (TtyDone 3 [104, 105, 10], t2, s3) \<and> tty_text t2 = []"
proof -
  let ?t = "fst (tty_init False 7 [])"
  obtain t1 s1 o1 where f: "fold tty_input_byte [104, 120, 8, 105, 10] (?t, demo_sched, []) = (t1, s1, o1)" by (metis prod_cases3)
  obtain res t2 s3 where r: "tty_read 0 10 (t1, demo_sched) = (res, t2, s3)" by (metis prod_cases3)
  have fl: "has_flag (tflags ?t) TTY_FLAG_ICANON" by (simp add: tty_init_def has_flag_def TTY_FLAG_ICANON_def TTY_FLAG_ECHO_def TTY_FLAG_ISIG_def)
  have "ltail (tring ?t) = 0" by (simp add: tty_init_def zero_ring_def)
  then have b: "unat (ltail (tring ?t)) + 512 < 2 ^ 64" by simp
  have x: "fold (edit (tflags ?t) 512) [104, 120, 8, 105, 10] (tty_text ?t) = [104, 105, 10]"
    using fl tty_init_ok [of False 7 "[]"] by (simp add: edit_def)
  have l: "first_line [104, 105, 10] = [104, 105, 10]" "take (unat (10 :: u64)) [104, 105, 10] = [104, 105, 10 :: u8]"
    by (simp_all add: first_line_def)
  from tty_line_discipline [OF conjunct1 [OF tty_init_ok] fl b _ f r] f r show ?thesis
    unfolding x by (simp add: Let_def l)
qed

text \<open>
  A line of 512 bytes or more can never be read: the newline that would complete it finds no
  room and is dropped, so the reader it wakes goes back to sleep.
\<close>

lemma full_line_is_stuck:
  assumes "length xs = cap" and "10 \<notin> set xs" and "b \<noteq> 8"
  shows "first_line (edit flags cap b xs) = []"
  using assms by (simp add: edit_def first_line_def)

section \<open>Blocked readers\<close>

definition tty_inv :: "tty \<Rightarrow> sched \<Rightarrow> (nat \<Rightarrow> tptr list) \<Rightarrow> tptr list \<Rightarrow> bool" where
  "tty_inv t s Q rs \<longleftrightarrow> tty_ok t \<and> parked s Q [(lwaiter (tring t), rs)]"

lemma first_line_empty: "first_line xs = [] \<longleftrightarrow> 10 \<notin> set xs"
  by (simp add: first_line_def)

definition is_ctrl_c :: "u32 \<Rightarrow> u8 \<Rightarrow> bool" where
  "is_ctrl_c flags b \<longleftrightarrow> has_flag flags TTY_FLAG_ISIG \<and> b = 3"

text \<open>
  Which reader a byte wakes: in cooked mode only a newline wakes one, in raw mode every byte.
\<close>

definition wakes :: "u32 \<Rightarrow> u8 \<Rightarrow> bool" where
  "wakes flags b \<longleftrightarrow> \<not> is_ctrl_c flags b \<and> (has_flag flags TTY_FLAG_ICANON \<longrightarrow> b = 10)"

lemma tty_input_wake:
  assumes inv: "tty_inv t s Q rs" and n: "\<not> is_ctrl_c (tflags t) b"
    and e: "tty_input_byte b (t, s, out) = (t', s', out')"
  shows "tty_inv t' s' (if wakes (tflags t) b \<and> rs \<noteq> [] then enqueue_home s (hd rs) Q else Q)
      (if wakes (tflags t) b then tl rs else rs)"
    and "wakes (tflags t) b \<Longrightarrow> rs \<noteq> [] \<Longrightarrow> tstate (tasks s' (hd rs)) = TASK_STATE_READY"
    and "\<not> wakes (tflags t) b \<Longrightarrow> s' = s"
proof -
  have ok: "tty_ok t" "ldisc_ok (tring t)" and pk: "parked s Q [(lwaiter (tring t), rs)]"
    using inv by (simp_all add: tty_inv_def tty_ok_def)
  note ed = tty_input_edits [OF ok(1) e]
  obtain popped r1 where pb: "ldisc_pop_back (tring t) = (popped, r1)" by fastforce
  have echo: "do_echo (tflags t) (Some tty_echo) c (s, out) = (s, snd (do_echo (tflags t) (Some tty_echo) c (s, out)))" for c
    by (simp add: do_echo_def tty_echo_def)
  obtain w h q where wp: "ldisc_waiter_pop (tasks s, lwaiter (tring t)) = (w, h, q)" by (metis prod_cases3)
  note pw = ldiscq.pop_wake_parked [OF pk wp]
  have pl: "lwaiter (ldisc_push b (tring t)) = lwaiter (tring t)" by (rule ldisc_push_spec(5) [OF ok(2)])
  have r: "s' = (if wakes (tflags t) b then wake_opt w (s\<lparr>tasks := h\<rparr>) else s) \<and>
      lwaiter (tring t') = (if wakes (tflags t) b then q else lwaiter (tring t))"
  proof (cases "has_flag (tflags t) TTY_FLAG_ICANON \<and> b = 8")
    case True
    then have "\<not> wakes (tflags t) b" by (auto simp: wakes_def)
    moreover have "s' = s \<and> lwaiter (tring t') = lwaiter (tring t)"
      using e True n ldisc_pop_back_spec(5) [OF ok(2) pb] echo [of 8]
      by (auto simp: tty_input_byte_def ldisc_input_def pb is_ctrl_c_def wake_opt_def Let_def split: if_splits prod.splits)
    ultimately show ?thesis by simp
  next
    case False
    then show ?thesis
      using e n wp pl echo [of b]
      by (cases "do_echo (tflags t) (Some tty_echo) b (s, out)")
        (auto simp: tty_input_byte_def ldisc_input_def is_ctrl_c_def wakes_def wake_opt_def Let_def split: if_splits prod.splits)
  qed
  show "tty_inv t' s' (if wakes (tflags t) b \<and> rs \<noteq> [] then enqueue_home s (hd rs) Q else Q)
      (if wakes (tflags t) b then tl rs else rs)"
    using r pw(2) pk ed(1) by (cases "rs = []") (auto simp: tty_inv_def)
  show "wakes (tflags t) b \<Longrightarrow> rs \<noteq> [] \<Longrightarrow> tstate (tasks s' (hd rs)) = TASK_STATE_READY" using r pw(3) by simp
  show "\<not> wakes (tflags t) b \<Longrightarrow> s' = s" using r by simp
qed

lemma tty_read_parks:
  assumes inv: "tty_inv t s Q rs" and run: "running_on c s me" and fl: "has_flag (tflags t) TTY_FLAG_ICANON"
    and b: "unat (ltail (tring t)) + 512 < 2 ^ 64" and sz: "sz \<noteq> 0" and e: "tty_read c sz (t, s) = (res, t', s')"
  shows "tflags t' = tflags t"
    and "first_line (tty_text t) = [] \<Longrightarrow> tty_text t' = tty_text t \<and> tty_inv t' s' Q (rs @ [me]) \<and>
      tstate (tasks s' (cpu_current (cpus s' c))) = TASK_STATE_BLOCKED"
    and "first_line (tty_text t) \<noteq> [] \<Longrightarrow> tty_inv t' s' Q rs \<and> s' = s"
proof -
  have ok: "tty_ok t" "ldisc_ok (tring t)" and pk: "parked s Q [(lwaiter (tring t), rs)]"
    using inv by (simp_all add: tty_inv_def tty_ok_def)
  note rl = tty_read_line [OF ok(1) fl b sz e]
  have cur: "cpu_current (cpus s c) = me" "me \<noteq> NULL" "tstate (tasks s me) = TASK_STATE_RUNNING"
    using run by (simp_all add: running_on_def)
  obtain bs r where d: "ldisc_drain (tflags t) sz (tring t) = (bs, r)" by fastforce
  have w: "lwaiter r = lwaiter (tring t)" using ldisc_drain_cooked(5) [OF ok(2) fl tty_tail_le [OF ok(1) b] d]
    by (metis ldisc_ring.select_convs(5) ldisc_ring.surjective ldisc_ring.update_convs(4))
  show fl': "tflags t' = tflags t"
    using e d sz by (auto simp: tty_read_def tty_read_turn_def Let_def split: if_splits prod.splits)
  show "first_line (tty_text t) \<noteq> [] \<Longrightarrow> tty_inv t' s' Q rs \<and> s' = s"
    using e d sz rl(1,3) pk w by (auto simp: tty_read_def tty_read_turn_def tty_inv_def Let_def split: if_splits prod.splits)
  assume fe: "first_line (tty_text t) = []"
  obtain h q where en: "ldisc_waiter_enqueue me (tasks s, lwaiter (tring t)) = (h, q)" by fastforce
  have "lwaiter (tring t') = q \<and> s' = upd_task me (\<lambda>k. k\<lparr>tstate := TASK_STATE_BLOCKED\<rparr>) (s\<lparr>tasks := h\<rparr>)"
    using e d sz rl(1) fe w en cur(1)
    by (auto simp: tty_read_def tty_read_turn_def ldisc_park_def Let_def split: if_splits prod.splits)
  moreover from ldiscq.enq_parked(1) [OF pk cur(2,3) en] rl(3)
  have "parked (upd_task me (\<lambda>k. k\<lparr>tstate := TASK_STATE_BLOCKED\<rparr>) (s\<lparr>tasks := h\<rparr>)) Q [(q, rs @ [me])]" by simp
  ultimately show "tty_text t' = tty_text t \<and> tty_inv t' s' Q (rs @ [me]) \<and>
      tstate (tasks s' (cpu_current (cpus s' c))) = TASK_STATE_BLOCKED"
    using rl(2,3) fe cur(1) by (auto simp: tty_inv_def)
qed

lemma tty_read_raw:
  assumes inv: "tty_inv t s Q rs" and run: "running_on c s me" and fl: "\<not> has_flag (tflags t) TTY_FLAG_ICANON"
    and sz: "sz \<noteq> 0" and e: "tty_read c sz (t, s) = (res, t', s')"
  shows "tty_text t = [] \<Longrightarrow> tty_text t' = [] \<and> tty_inv t' s' Q (rs @ [me])"
    and "tty_text t \<noteq> [] \<Longrightarrow> tty_inv t' s' Q rs"
proof -
  have ok: "ldisc_ok (tring t)" "ldisc_cap (tring t) = 512" and pk: "parked s Q [(lwaiter (tring t), rs)]"
    using inv by (simp_all add: tty_inv_def tty_ok_def)
  have cur: "cpu_current (cpus s c) = me" "me \<noteq> NULL" "tstate (tasks s me) = TASK_STATE_RUNNING"
    using run by (simp_all add: running_on_def)
  obtain bs r where d: "drain_raw (unat sz) (tring t) = (bs, r)" by fastforce
  note dr = drain_raw_spec [OF ok(1) d]
  have k: "lwaiter r = lwaiter (tring t)" "ldisc_cap r = 512" "ldisc_ok r"
    using dr ok(2) by (metis ldisc_ring.select_convs(5) ldisc_ring.surjective ldisc_ring.update_convs(4),
      metis ldisc_cap_def ldisc_ring.select_convs(2) ldisc_ring.surjective ldisc_ring.update_convs(4), blast)
  have n: "bs = [] \<longleftrightarrow> tty_text t = []" using dr sz by (simp add: tty_text_def unat_eq_zero)
  show "tty_text t \<noteq> [] \<Longrightarrow> tty_inv t' s' Q rs"
    using e d sz fl n pk k by (auto simp: tty_read_def tty_read_turn_def ldisc_drain_def tty_inv_def tty_ok_def split: prod.splits)
  assume te: "tty_text t = []"
  obtain h q where en: "ldisc_waiter_enqueue me (tasks s, lwaiter (tring t)) = (h, q)" by fastforce
  have t': "tring t' = r\<lparr>lwaiter := q\<rparr>" "s' = upd_task me (\<lambda>k. k\<lparr>tstate := TASK_STATE_BLOCKED\<rparr>) (s\<lparr>tasks := h\<rparr>)"
    using e d sz fl n te k(1) en cur(1)
    by (auto simp: tty_read_def tty_read_turn_def ldisc_drain_def ldisc_park_def split: prod.splits)
  then show "tty_text t' = [] \<and> tty_inv t' s' Q (rs @ [me])"
    using ldiscq.enq_parked(1) [OF pk cur(2,3) en] k dr te by (simp add: tty_inv_def tty_ok_def tty_text_def)
qed

lemma tty_ioctl_inv:
  assumes "tty_inv t s Q rs" and "tty_ioctl g c cmd arg s (t, m) = (v, t', m')"
  shows "tty_inv t' s Q rs" "tty_text t' = tty_text t"
  using assms by (auto simp: tty_ioctl_def tty_inv_def tty_ok_def tty_text_def split: if_splits)

text \<open>
  \<open>tty_reach R t s\<close>: the terminal and the scheduler can arise when only task \<open>R\<close> reads, in any
  mix of the two modes.  A step of the kernel that leaves the tasks parked on the terminal parked
  \<open>spares\<close> them; a Ctrl+C typed is such a step when the signal it sends does not reach the parked
  reader.  The switch away of a parked reader is a step of its own.
\<close>

definition spares :: "tty \<Rightarrow> sched \<Rightarrow> sched \<Rightarrow> bool" where
  "spares t s s' \<longleftrightarrow> (\<forall>Q rs. tty_inv t s Q rs \<longrightarrow> (\<exists>Q'. tty_inv t s' Q' rs))"

inductive tty_reach :: "tptr \<Rightarrow> tty \<Rightarrow> sched \<Rightarrow> bool" for R where
  start: "tty_inv t s Q [] \<Longrightarrow> tty_reach R t s"
| types: "tty_reach R t s \<Longrightarrow> tty_input_byte b (t, s, out) = (t', s', out') \<Longrightarrow>
    is_ctrl_c (tflags t) b \<longrightarrow> spares t s s' \<Longrightarrow> tty_reach R t' s'"
| ioctls: "tty_reach R t s \<Longrightarrow> tty_ioctl g c cmd arg s (t, m) = (v, t', m') \<Longrightarrow> tty_reach R t' s"
| reads: "tty_reach R t s \<Longrightarrow> running_on c s R \<Longrightarrow> sz \<noteq> 0 \<Longrightarrow> unat (ltail (tring t)) + 512 < 2 ^ 64 \<Longrightarrow>
    tty_read c sz (t, s) = (res, t', s') \<Longrightarrow> tty_reach R t' s'"
| switches: "tty_reach R t s \<Longrightarrow> tstate (tasks s (cpu_current (cpus s c))) \<noteq> TASK_STATE_RUNNING \<Longrightarrow>
    tty_reach R t (snd (schedule c s))"
| resumes: "tty_reach R t s \<Longrightarrow> running_on c s R \<Longrightarrow> tnext (tasks s R) = NULL \<Longrightarrow> tprev (tasks s R) = NULL \<Longrightarrow>
    tty_read_resume R (t, s) = (t', s') \<Longrightarrow> tty_reach R t' s'"
| other: "tty_reach R t s \<Longrightarrow> spares t s s' \<Longrightarrow> tty_reach R t s'"

definition tty_awake :: "tptr \<Rightarrow> tty \<Rightarrow> sched \<Rightarrow> tptr list \<Rightarrow> bool" where
  "tty_awake R t s rs \<longleftrightarrow> (\<exists>Q. tty_inv t s Q rs) \<and>
     (rs = [] \<or> rs = [R] \<and> 10 \<notin> set (tty_text t))"

lemma tty_awake_running:
  assumes "tty_awake R t s rs" and "running_on c s R"
  shows "rs = []"
  using assms parkedD(4) [of s _ "[(lwaiter (tring t), rs)]" R]
  by (auto simp: tty_awake_def tty_inv_def running_on_def)

lemma spares_awake: "tty_awake R t s rs \<Longrightarrow> spares t s s' \<Longrightarrow> tty_awake R t s' rs"
  by (auto simp: tty_awake_def spares_def)

lemma ctrl_c_ring: "is_ctrl_c (tflags t) b \<Longrightarrow> tty_input_byte b (t, s, out) = (t', s', out') \<Longrightarrow> t' = t"
  by (auto simp: tty_input_byte_def ldisc_input_def is_ctrl_c_def Let_def)

lemma types_awake:
  assumes "tty_awake R t s rs" and e: "tty_input_byte b (t, s, out) = (t', s', out')"
    and c: "is_ctrl_c (tflags t) b \<longrightarrow> spares t s s'"
  shows "\<exists>rs. tty_awake R t' s' rs"
proof (cases "is_ctrl_c (tflags t) b")
  case True
  then show ?thesis using spares_awake [OF assms(1)] c ctrl_c_ring [OF True e] by blast
next
  case n: False
  obtain Q where inv: "tty_inv t s Q rs" using assms(1) by (auto simp: tty_awake_def)
  have ok: "tty_ok t" using inv by (simp add: tty_inv_def)
  note w = tty_input_wake(1) [OF inv n e] and ed = tty_input_edits [OF ok e]
  show ?thesis
  proof (cases "wakes (tflags t) b")
    case True
    then have "tty_awake R t' s' []" using w assms(1) by (auto simp: tty_awake_def)
    then show ?thesis by blast
  next
    case False
    then have "b \<noteq> 10 \<or> b = 8" using n by (auto simp: wakes_def)
    then have "10 \<notin> set (tty_text t) \<longrightarrow> 10 \<notin> set (tty_text t')" unfolding ed(2) edit_def by (auto dest: in_set_butlastD)
    then have "tty_awake R t' s' rs" using w assms(1) False by (auto simp: tty_awake_def)
    then show ?thesis by blast
  qed
qed

lemma reads_awake:
  assumes a: "tty_awake R t s rs" and run: "running_on c s R" and sz: "sz \<noteq> 0" and b: "unat (ltail (tring t)) + 512 < 2 ^ 64"
    and e: "tty_read c sz (t, s) = (res, t', s')"
  shows "\<exists>rs. tty_awake R t' s' rs"
proof -
  have rs: "rs = []" by (rule tty_awake_running [OF a run])
  obtain Q where inv: "tty_inv t s Q []" using a rs by (auto simp: tty_awake_def)
  show ?thesis
  proof (cases "has_flag (tflags t) TTY_FLAG_ICANON")
    case True
    from tty_read_parks(2,3) [OF inv run True b sz e]
    have "tty_awake R t' s' (if first_line (tty_text t) = [] then [R] else [])" by (auto simp: tty_awake_def first_line_empty)
    then show ?thesis by blast
  next
    case False
    from tty_read_raw [OF inv run False sz e]
    have "tty_awake R t' s' (if tty_text t = [] then [R] else [])" by (auto simp: tty_awake_def)
    then show ?thesis by blast
  qed
qed

lemma switches_awake:
  assumes "tty_awake R t s rs" and "tstate (tasks s (cpu_current (cpus s c))) \<noteq> TASK_STATE_RUNNING"
  shows "tty_awake R t (snd (schedule c s)) rs"
  using assms schedule_parked(1) [of s _ "[(lwaiter (tring t), rs)]" c "fst (schedule c s)" "snd (schedule c s)"]
  by (auto simp: tty_awake_def tty_inv_def)

lemma reach_awake: "tty_reach R t s \<Longrightarrow> \<exists>rs. tty_awake R t s rs"
proof (induction rule: tty_reach.induct)
  case (start t s Q)
  then show ?case by (auto simp: tty_awake_def)
next
  case (types t s b out t' s' out')
  then show ?case using types_awake by blast
next
  case (ioctls t s g c cmd arg m v t' m')
  then show ?case using tty_ioctl_inv by (fastforce simp: tty_awake_def)
next
  case (reads t s c sz res t' s')
  then show ?case using reads_awake by blast
next
  case (switches t s c)
  then show ?case using switches_awake by blast
next
  case (resumes t s c t' s')
  then obtain rs where a: "tty_awake R t s rs" by blast
  have rs: "rs = []" by (rule tty_awake_running [OF a resumes.hyps(2)])
  obtain Q where pk: "parked s Q [(lwaiter (tring t), [])]" using a rs by (auto simp: tty_awake_def tty_inv_def)
  have "R \<noteq> NULL" using resumes.hyps(2) by (simp add: running_on_def)
  then have "ldisc_waiter_remove R (tasks s, lwaiter (tring t)) = (tasks s, lwaiter (tring t))"
    using ldiscq.remove_popped [OF pk, of R] resumes.hyps(3,4) by simp
  then have "t' = t" "s' = s" using resumes.hyps(5) by (auto simp: tty_read_resume_def)
  then show ?case using a by blast
next
  case (other t s s')
  then show ?case using spares_awake by blast
qed

text \<open>
  C25. No wakeup is lost on a terminal that one task reads.  In every state that typing, reads in
  either mode, mode changes and other ioctls, and task switches can bring about, with
  whatever the rest of the kernel does that leaves the parked reader parked, only that task waits
  on the terminal, it is blocked, and there is no complete line for it to read.  Three
  limits: one reader (with two, a partial read leaves the other asleep on a complete line), no
  Ctrl+C to the group of the reader while it sleeps (the signal makes it ready without
  unlinking it), and the 64-bit read counter does not come within 512 of its wrap-around.
\<close>

theorem tty_no_lost_wakeup:
  assumes "tty_reach R t s" and "qhead (lwaiter (tring t)) \<noteq> NULL"
  shows "qhead (lwaiter (tring t)) = R \<and> tstate (tasks s R) = TASK_STATE_BLOCKED \<and> first_line (tty_text t) = []"
proof -
  obtain rs where a: "tty_awake R t s rs" using reach_awake [OF assms(1)] by blast
  then obtain Q where pk: "parked s Q [(lwaiter (tring t), rs)]" by (auto simp: tty_awake_def tty_inv_def)
  have "qhead (lwaiter (tring t)) = hd (rs @ [NULL])" using queue_repD(3) [OF parkedD(3) [OF pk, of "lwaiter (tring t)" rs]] by simp
  with assms(2) a have "rs = [R]" by (auto simp: tty_awake_def)
  with a parkedD(4) [OF pk, of R] \<open>qhead (lwaiter (tring t)) = hd (rs @ [NULL])\<close> show ?thesis
    by (simp add: tty_awake_def first_line_empty)
qed

theorem tty_no_lost_wakeup_witness:
  "\<exists>t s. tty_reach 1 t s \<and> qhead (lwaiter (tring t)) = 1 \<and> tstate (tasks s 1) = TASK_STATE_BLOCKED \<and> first_line (tty_text t) = []"
proof -
  let ?t = "fst (tty_init False 7 [])"
  have fl: "has_flag (tflags ?t) TTY_FLAG_ICANON" by (simp add: tty_init_def has_flag_def TTY_FLAG_ICANON_def TTY_FLAG_ECHO_def TTY_FLAG_ISIG_def)
  have ok: "tty_ok ?t" "tty_text ?t = []" using tty_init_ok by auto
  have inv: "tty_inv ?t demo_sched demo_queues []" using demo_inv ok(1) by (simp add: tty_inv_def parked_def tty_init_def zero_ring_def empty_queue_def)
  have b: "unat (ltail (tring ?t)) + 512 < 2 ^ 64" by (simp add: tty_init_def zero_ring_def)
  obtain res t s where e: "tty_read 0 10 (?t, demo_sched) = (res, t, s)" by (metis prod_cases3)
  have ten: "(10 :: u64) \<noteq> 0" by simp
  have res: "res = TtyParked" using tty_read_line(1) [OF ok(1) fl b ten e] ok(2) by (simp add: first_line_def)
  have "tty_inv t s demo_queues [1]" using tty_read_parks(2) [OF inv demo_running fl b ten e] ok(2) by (simp add: first_line_def)
  then have "queue_rep (tasks s) (lwaiter (tring t)) [1]"
    using parkedD(3) [of s demo_queues "[(lwaiter (tring t), [1])]" "lwaiter (tring t)" "[1]"] by (simp add: tty_inv_def)
  then have q: "qhead (lwaiter (tring t)) = 1" by (simp add: queue_rep_def)
  have bl: "tstate (tasks s (cpu_current (cpus s 0))) \<noteq> TASK_STATE_RUNNING"
    using tty_read_parks(2) [OF inv demo_running fl b ten e] ok(2) by (simp add: first_line_def)
  obtain v t' m' where io: "tty_ioctl g 0 TTY_IOCTL_SET_RAW 0 (snd (schedule 0 s)) (t, m) = (v, t', m')" by (metis prod_cases3)
  have "tty_reach 1 t (snd (schedule 0 s))"
    by (rule tty_reach.switches [OF tty_reach.reads [OF tty_reach.start [OF inv] demo_running ten b e] bl])
  then have r: "tty_reach 1 t' (snd (schedule 0 s))" by (rule tty_reach.ioctls [OF _ io])
  have t': "tring t' = tring t" using io by (auto simp: tty_ioctl_def)
  have "qhead (lwaiter (tring t')) = 1" using q t' by simp
  then have "qhead (lwaiter (tring t')) \<noteq> NULL" by simp
  from tty_no_lost_wakeup [OF r this] r show ?thesis by blast
qed

end
