(* ===== verification/Pty.thy ===== *)
theory Pty
  imports Tty
begin

text \<open>
  \<^verbatim>\<open>drivers/pty.c\<close>: pseudo terminal pairs.  \<open>m2s\<close> carries keystrokes through the line discipline
  to the slave, \<open>s2m\<close> the slave's output to the master.  As for pipes, a section under the
  pair's lock is one step of a call: it returns, parks the caller or goes round again.
\<close>

section \<open>Data\<close>

definition PTY_BUF_SIZE :: u64 where "PTY_BUF_SIZE = 4096"
definition PTY_MAX_PAIRS :: nat where "PTY_MAX_PAIRS = 8"
definition TIOCGPTN :: u64 where "TIOCGPTN = 0x110"
definition TIOCSPTLCK :: u64 where "TIOCSPTLCK = 0x111"
definition TIOCSCTTY :: u64 where "TIOCSCTTY = 0x112"
definition TIOCSWINSZ :: u64 where "TIOCSWINSZ = 0x113"
definition SIGWINCH :: int where "SIGWINCH = 28"

record pty_pair =
  m2s :: ldisc_ring
  s2m :: ldisc_ring
  s_write_waiter :: tqueue
  pt_flags :: u32
  pt_pgrp :: u64
  pt_winsize :: "u16 \<times> u16 \<times> u16 \<times> u16"
  in_use :: bool
  master_open :: bool
  slave_open :: bool
  slave_ever_opened :: bool
  pt_locked :: bool
  pt_index :: nat

definition zero_pair :: pty_pair where
  "zero_pair = \<lparr>m2s = zero_ring PTY_BUF_SIZE, s2m = zero_ring PTY_BUF_SIZE,
     s_write_waiter = \<lparr>qhead = NULL, qtail = NULL\<rparr>, pt_flags = 0, pt_pgrp = 0, pt_winsize = (0, 0, 0, 0),
     in_use = False, master_open = False, slave_open = False, slave_ever_opened = False,
     pt_locked = False, pt_index = 0\<rparr>"

datatype pty_result = PtyDone int "u8 list" | PtyParked | PtyAgain nat

definition partial_count :: "nat \<Rightarrow> int \<Rightarrow> int" where
  "partial_count tot e = (if tot > 0 then int tot else - e)"

definition s2m_space :: "pty_pair \<Rightarrow> u64" where
  "s2m_space p = PTY_BUF_SIZE - (lhead (s2m p) - ltail (s2m p))"

definition pop_wake :: "tqueue \<Rightarrow> sched \<Rightarrow> tqueue \<times> sched" where
  "pop_wake q s = (let (w, h, q) = ldisc_waiter_pop (tasks s, q) in (q, wake_opt w (s\<lparr>tasks := h\<rparr>)))"

definition pty_get :: "pty_pair list \<Rightarrow> nat \<Rightarrow> pty_pair option" where
  "pty_get tab i = (if i \<ge> PTY_MAX_PAIRS then None else if in_use (tab ! i) then Some (tab ! i) else None)"

definition echo_to_master :: "u8 \<Rightarrow> sched \<times> ldisc_ring \<Rightarrow> sched \<times> ldisc_ring" where
  "echo_to_master c sx =
     (let (s, sring) = sx; sring = ldisc_push c sring; (q, s) = pop_wake (lwaiter sring) s
      in (s, sring\<lparr>lwaiter := q\<rparr>))"

section \<open>The slave\<close>

definition pty_slave_read :: "nat \<Rightarrow> u64 \<Rightarrow> pty_pair \<times> sched \<Rightarrow> pty_result \<times> pty_pair \<times> sched" where
  "pty_slave_read c sz ps =
     (let (p, s) = ps in
      if sz = 0 then (PtyDone 0 [], p, s)
      else
        let (bs, r) = ldisc_drain (pt_flags p) sz (m2s p) in
        if bs \<noteq> [] then (PtyDone (int (length bs)) bs, p\<lparr>m2s := r\<rparr>, s)
        else if \<not> master_open p then (PtyDone 0 [], p\<lparr>m2s := r\<rparr>, s)
        else let (q, s) = ldisc_park c (lwaiter r, s) in (PtyParked, p\<lparr>m2s := r\<lparr>lwaiter := q\<rparr>\<rparr>, s))"

definition pty_slave_read_resume :: "tptr \<Rightarrow> pty_pair \<times> sched \<Rightarrow> pty_pair \<times> sched" where
  "pty_slave_read_resume me ps =
     (let (p, s) = ps; (h, q) = ldisc_waiter_remove me (tasks s, lwaiter (m2s p))
      in (p\<lparr>m2s := (m2s p)\<lparr>lwaiter := q\<rparr>\<rparr>, s\<lparr>tasks := h\<rparr>))"

definition pty_slave_write :: "nat \<Rightarrow> u8 list \<Rightarrow> nat \<Rightarrow> pty_pair \<times> sched \<Rightarrow> pty_result \<times> pty_pair \<times> sched" where
  "pty_slave_write c src tot ps =
     (let (p, s) = ps in
      if \<not> tot < length src then (PtyDone (int tot) [], p, s)
      else if \<not> master_open p then
        (PtyDone (partial_count tot EPIPE) [], p, signal_send (cpu_current (cpus s c)) SIGPIPE s)
      else if s2m_space p = 0 then
        let (q, s) = ldisc_park c (s_write_waiter p, s) in (PtyParked, p\<lparr>s_write_waiter := q\<rparr>, s)
      else
        let want = min (length src - tot) (unat (s2m_space p));
            r = fold ldisc_push (take want (drop tot src)) (s2m p);
            (q, s) = pop_wake (lwaiter r) s
        in (PtyAgain (tot + want), p\<lparr>s2m := r\<lparr>lwaiter := q\<rparr>\<rparr>, s))"

text \<open>What a writer does when it runs again: a pending signal ends the call.\<close>

definition pty_slave_write_resume :: "tptr \<Rightarrow> nat \<Rightarrow> pty_pair \<times> sched \<Rightarrow> pty_result \<times> pty_pair \<times> sched" where
  "pty_slave_write_resume me tot ps =
     (let (p, s) = ps;
          (h, q) = ldisc_waiter_remove me (tasks s, s_write_waiter p);
          p = p\<lparr>s_write_waiter := q\<rparr>;
          s = s\<lparr>tasks := h\<rparr>
      in if pending_signals (tasks s me) \<noteq> 0 then (PtyDone (partial_count tot EINTR) [], p, s)
         else (PtyAgain tot, p, s))"

definition pty_set_winsize :: "u64 \<Rightarrow> mem \<Rightarrow> pty_pair \<times> sched \<Rightarrow> pty_pair \<times> sched" where
  "pty_set_winsize arg m ps =
     (let (p, s) = ps
      in (p\<lparr>pt_winsize := load_winsize arg m\<rparr>, if pt_pgrp p \<noteq> 0 then signal_send_pgrp (pt_pgrp p) SIGWINCH s else s))"

definition pty_slave_ioctl ::
  "nat \<Rightarrow> nat \<Rightarrow> u64 \<Rightarrow> u64 \<Rightarrow> pty_pair \<times> sched \<times> mem \<Rightarrow> int \<times> pty_pair \<times> sched \<times> mem" where
  "pty_slave_ioctl c f cmd arg psm =
     (let (p, s, m) = psm; me = cpu_current (cpus s c) in
      if cmd = TTY_IOCTL_TIOCSPGRP then (0, p\<lparr>pt_pgrp := arg\<rparr>, s, m)
      else if cmd = TTY_IOCTL_TIOCGPGRP then (0, p, s, if arg \<noteq> 0 then store64 arg (pt_pgrp p) m else m)
      else if cmd = TTY_IOCTL_TIOCGWINSZ then
        (if arg = 0 then (- EINVAL, p, s, m) else (0, p, s, store_winsize arg (pt_winsize p) m))
      else if cmd = TIOCSWINSZ then
        (if arg = 0 then (- EINVAL, p, s, m) else let (p, s) = pty_set_winsize arg m (p, s) in (0, p, s, m))
      else if cmd = TIOCSCTTY then
        let s = upd_task me (\<lambda>k. k\<lparr>ctty := f\<rparr>) s
        in (0, if pt_pgrp p = 0 then p\<lparr>pt_pgrp := pgid (tasks s me)\<rparr> else p, s, m)
      else if cmd = TTY_IOCTL_SET_RAW then
        (0, p\<lparr>pt_flags := pt_flags p AND NOT (TTY_FLAG_ICANON OR TTY_FLAG_ECHO)\<rparr>, s, m)
      else if cmd = TTY_IOCTL_SET_COOKED then
        (0, p\<lparr>pt_flags := pt_flags p OR TTY_FLAG_ICANON OR TTY_FLAG_ECHO\<rparr>, s, m)
      else (- ENOTTY, p, s, m))"

definition pty_slave_open :: "pty_pair \<times> sched \<Rightarrow> int \<times> pty_pair \<times> sched" where
  "pty_slave_open ps =
     (let (p, s) = ps in
      if \<not> in_use p then (- ENODEV, p, s)
      else if pt_locked p then (- EIO, p, s)
      else
        let p = p\<lparr>slave_open := True, slave_ever_opened := True\<rparr>;
            (q, s) = pop_wake (lwaiter (s2m p)) s
        in (0, p\<lparr>s2m := (s2m p)\<lparr>lwaiter := q\<rparr>\<rparr>, s))"

definition pty_slave_close :: "pty_pair \<times> sched \<Rightarrow> int \<times> pty_pair \<times> sched" where
  "pty_slave_close ps =
     (let (p, s) = ps;
          p = p\<lparr>slave_open := False\<rparr>;
          (q, s) = pop_wake (lwaiter (s2m p)) s
      in (0, p\<lparr>s2m := (s2m p)\<lparr>lwaiter := q\<rparr>\<rparr>, s))"

text \<open>
  Emptying a queue onto a chain (the last waiter first) and waking the chain; \<open>None\<close> would be
  a walk without end.
\<close>

partial_function (option) pop_all :: "theap \<Rightarrow> tqueue \<Rightarrow> tptr \<Rightarrow> (tptr \<times> theap \<times> tqueue) option" where
  "pop_all h q chain =
     (let (t, h1, q1) = ldisc_waiter_pop (h, q) in
      if t = NULL then Some (chain, h1, q1)
      else pop_all (h1(t := (h1 t)\<lparr>tnext := chain\<rparr>)) q1 t)"

partial_function (option) wake_writers :: "tptr \<Rightarrow> sched \<Rightarrow> sched option" where
  "wake_writers t s =
     (if t = NULL then Some s
      else
        let nxt = tnext (tasks s t);
            s1 = rq_enqueue_external t (upd_task t (\<lambda>k. k\<lparr>tnext := NULL, tstate := TASK_STATE_READY\<rparr>) s)
        in wake_writers nxt s1)"

text \<open>\<open>f\<close> is the file, if there is one, and \<open>p\<close> the pair its \<^verbatim>\<open>private_data\<close> names when it is a slave.\<close>

definition pty_drop_fg_output :: "file_t option \<Rightarrow> u64 \<Rightarrow> pty_pair \<times> sched \<Rightarrow> (pty_pair \<times> sched) option" where
  "pty_drop_fg_output f pg ps =
     (let (p, s) = ps in
      if f = None \<or> fops (the f) \<noteq> PtySlaveOps then Some (p, s)
      else if fprivate (the f) = 0 \<or> \<not> in_use p then Some (p, s)
      else if pg \<noteq> pt_pgrp p then Some (p, s)
      else
        let p = p\<lparr>s2m := (s2m p)\<lparr>lhead := 0, ltail := 0\<rparr>\<rparr> in
        case pop_all (tasks s) (s_write_waiter p) NULL of
          None \<Rightarrow> None
        | Some (chain, h, q) \<Rightarrow> map_option (Pair (p\<lparr>s_write_waiter := q\<rparr>)) (wake_writers chain (s\<lparr>tasks := h\<rparr>)))"

section \<open>The master\<close>

definition pty_master_read :: "nat \<Rightarrow> u64 \<Rightarrow> pty_pair \<times> sched \<Rightarrow> pty_result \<times> pty_pair \<times> sched" where
  "pty_master_read c sz ps =
     (let (p, s) = ps in
      if sz = 0 then (PtyDone 0 [], p, s)
      else
        let (bs, r) = ldisc_drain 0 sz (s2m p) in
        if bs \<noteq> [] then
          let (q, s) = pop_wake (s_write_waiter p) s
          in (PtyDone (int (length bs)) bs, p\<lparr>s2m := r, s_write_waiter := q\<rparr>, s)
        else if slave_ever_opened p \<and> \<not> slave_open p then (PtyDone 0 [], p\<lparr>s2m := r\<rparr>, s)
        else let (q, s) = ldisc_park c (lwaiter r, s) in (PtyParked, p\<lparr>s2m := r\<lparr>lwaiter := q\<rparr>\<rparr>, s))"

definition pty_master_read_resume :: "tptr \<Rightarrow> pty_pair \<times> sched \<Rightarrow> pty_result \<times> pty_pair \<times> sched" where
  "pty_master_read_resume me ps =
     (let (p, s) = ps;
          (h, q) = ldisc_waiter_remove me (tasks s, lwaiter (s2m p));
          p = p\<lparr>s2m := (s2m p)\<lparr>lwaiter := q\<rparr>\<rparr>;
          s = s\<lparr>tasks := h\<rparr>
      in if pending_signals (tasks s me) \<noteq> 0 then (PtyDone (- EINTR) [], p, s) else (PtyAgain 0, p, s))"

text \<open>One byte of \<^verbatim>\<open>pty_master_write\<close>.\<close>

definition pty_master_write :: "nat \<Rightarrow> u8 list \<Rightarrow> nat \<Rightarrow> pty_pair \<times> sched \<Rightarrow> pty_result \<times> pty_pair \<times> sched" where
  "pty_master_write c src tot ps =
     (let (p, s) = ps in
      if \<not> tot < length src then (PtyDone (int tot) [], p, s)
      else
        let is_signal_byte = (has_flag (pt_flags p) TTY_FLAG_ISIG \<and> src ! tot = 3) in
        if has_flag (pt_flags p) TTY_FLAG_ECHO \<and> \<not> is_signal_byte \<and> s2m_space p = 0 then
          let (q, s) = ldisc_park c (s_write_waiter p, s) in (PtyParked, p\<lparr>s_write_waiter := q\<rparr>, s)
        else
          let (res, mr, s, sr) = ldisc_input (pt_flags p) (pt_pgrp p) (src ! tot) (Some echo_to_master) (m2s p, s, s2m p);
              s = wake_opt (lr_wake res) s;
              s = (if lr_signal res \<noteq> 0 \<and> lr_pgrp res \<noteq> 0 then signal_send_pgrp (lr_pgrp res) (lr_signal res) s else s)
          in (PtyAgain (tot + 1), p\<lparr>m2s := mr, s2m := sr\<rparr>, s))"

definition pty_master_write_resume :: "tptr \<Rightarrow> nat \<Rightarrow> pty_pair \<times> sched \<Rightarrow> pty_result \<times> pty_pair \<times> sched" where
  "pty_master_write_resume me tot ps =
     (let (p, s) = ps;
          (h, q) = ldisc_waiter_remove me (tasks s, s_write_waiter p);
          p = p\<lparr>s_write_waiter := q\<rparr>;
          s = s\<lparr>tasks := h\<rparr>
      in if pending_signals (tasks s me) \<noteq> 0 then (PtyDone (partial_count tot EINTR) [], p, s)
         else if \<not> slave_open p then (PtyDone (partial_count tot EIO) [], p, s)
         else (PtyAgain tot, p, s))"

definition pty_master_ioctl :: "u64 \<Rightarrow> u64 \<Rightarrow> pty_pair \<times> sched \<times> mem \<Rightarrow> int \<times> pty_pair \<times> sched \<times> mem" where
  "pty_master_ioctl cmd arg psm =
     (let (p, s, m) = psm in
      if cmd = TIOCGPTN then
        (if arg = 0 then (- EINVAL, p, s, m) else (0, p, s, store32 arg (of_nat (pt_index p)) m))
      else if cmd = TIOCSPTLCK then
        (if arg = 0 then (- EINVAL, p, s, m) else (0, p\<lparr>pt_locked := (load32 arg m \<noteq> 0)\<rparr>, s, m))
      else if cmd = TIOCSWINSZ then
        (if arg = 0 then (- EINVAL, p, s, m) else let (p, s) = pty_set_winsize arg m (p, s) in (0, p, s, m))
      else if cmd = TTY_IOCTL_TIOCGWINSZ then
        (if arg = 0 then (- EINVAL, p, s, m) else (0, p, s, store_winsize arg (pt_winsize p) m))
      else (- ENOTTY, p, s, m))"

definition pty_master_close :: "pty_pair \<times> sched \<Rightarrow> (pty_pair \<times> sched) option" where
  "pty_master_close ps =
     (let (p, s) = ps;
          p = p\<lparr>master_open := False\<rparr>;
          (w, h, mq) = ldisc_waiter_pop (tasks s, lwaiter (m2s p));
          p = p\<lparr>m2s := (m2s p)\<lparr>lwaiter := mq\<rparr>\<rparr>
      in case pop_all h (s_write_waiter p) NULL of
           None \<Rightarrow> None
         | Some (chain, h, q) \<Rightarrow>
             let p = p\<lparr>s_write_waiter := q\<rparr>;
                 p = (if \<not> slave_open p \<and> \<not> master_open p then zero_pair else p)
             in map_option (Pair p) (wake_writers chain (wake_opt w (s\<lparr>tasks := h\<rparr>))))"

section \<open>Allocation\<close>

definition fresh_pair :: "nat \<Rightarrow> pty_pair" where
  "fresh_pair i = zero_pair\<lparr>in_use := True, master_open := True, pt_locked := True, pt_index := i,
     pt_flags := TTY_FLAG_ICANON OR TTY_FLAG_ECHO OR TTY_FLAG_ISIG\<rparr>"

fun first_free :: "pty_pair list \<Rightarrow> nat \<Rightarrow> nat option" where
  "first_free [] i = None"
| "first_free (p # ps) i = (if \<not> in_use p then Some i else first_free ps (Suc i))"

text \<open>
  \<^verbatim>\<open>ptmx_open\<close> is one step: the scan for a free slot and the claim of it. The source
  disables interrupts on its own CPU and takes no lock, so this holds for opens that do not
  overlap on two CPUs; two overlapping opens could claim the same slot.
\<close>

definition ptmx_open :: "nat \<Rightarrow> pty_pair list \<times> file_t \<Rightarrow> int \<times> pty_pair list \<times> file_t" where
  "ptmx_open stub_inode tf =
     (let (tab, f) = tf in
      case first_free tab 0 of
        None \<Rightarrow> (- ENOMEM, tab, f)
      | Some i \<Rightarrow>
          (0, tab[i := fresh_pair i],
           f\<lparr>fops := PtyMasterOps, fprivate := i + 1, finode := stub_inode, fposition := 0\<rparr>))"

definition pty_init :: "devfs_entry list \<Rightarrow> pty_pair list \<times> devfs_entry list" where
  "pty_init devices =
     (replicate PTY_MAX_PAIRS zero_pair,
      fold (\<lambda>i ds. snd (devfs_register_char 136 (of_nat i) PtySlaveOps (i + 1) ds)) [0..<PTY_MAX_PAIRS]
        (snd (devfs_register_char 5 2 PtmxOps 0 devices)))"

end
