(* ===== verification/Pty_Props.thy ===== *)
theory Pty_Props
  imports Pty Tty_Props
begin

text \<open>
  The output direction of a pseudo terminal is a byte stream that carries the slave's writes and
  the echo of the master's keystrokes; the input direction edits a line as the console does;
  slots are given out lowest first.
\<close>

section \<open>The two rings\<close>

definition pty_ok :: "pty_pair \<Rightarrow> bool" where
  "pty_ok p \<longleftrightarrow> ldisc_ok (s2m p) \<and> lsize (s2m p) = PTY_BUF_SIZE \<and> ldisc_ok (m2s p) \<and> lsize (m2s p) = PTY_BUF_SIZE"

definition pty_output :: "pty_pair \<Rightarrow> u8 list" where
  "pty_output p = ldisc_bytes (s2m p)"

definition pty_typed :: "pty_pair \<Rightarrow> u8 list" where
  "pty_typed p = ldisc_bytes (m2s p)"

lemma pty_cap: "lsize r = PTY_BUF_SIZE \<Longrightarrow> ldisc_cap r = 4096"
  by (simp add: ldisc_cap_def PTY_BUF_SIZE_def)

lemma zero_ring_ok: "ldisc_ok (zero_ring PTY_BUF_SIZE)" "ldisc_bytes (zero_ring PTY_BUF_SIZE) = []"
  "lsize (zero_ring PTY_BUF_SIZE) = PTY_BUF_SIZE"
  by (simp_all add: zero_ring_def ldisc_ok_def ldisc_cap_def ldisc_bytes_def PTY_BUF_SIZE_def ring_size_def)

lemma fresh_pair_ok: "pty_ok (fresh_pair i)" "pty_output (fresh_pair i) = []" "pty_typed (fresh_pair i) = []"
  by (simp_all add: pty_ok_def pty_output_def pty_typed_def fresh_pair_def zero_pair_def zero_ring_ok)

lemma s2m_space_spec:
  assumes "pty_ok p"
  shows "unat (s2m_space p) = 4096 - length (pty_output p)"
  using ldisc_space [of "s2m p"] assms pty_cap [of "s2m p"]
  by (simp add: pty_ok_def s2m_space_def pty_output_def ldisc_count_def)

lemma pty_output_le: "pty_ok p \<Longrightarrow> length (pty_output p) \<le> 4096"
  using ldisc_ok_le [of "s2m p"] pty_cap [of "s2m p"] by (simp add: pty_ok_def pty_output_def)

section \<open>Output\<close>

text \<open>The bytes a keystroke puts on the output: its echo, if the modes ask for one.\<close>

definition echo_bytes :: "u32 \<Rightarrow> u8 list \<Rightarrow> u8 \<Rightarrow> u8 list" where
  "echo_bytes flags typed b =
     (if \<not> has_flag flags TTY_FLAG_ECHO \<or> has_flag flags TTY_FLAG_ISIG \<and> b = 3 then []
      else if has_flag flags TTY_FLAG_ICANON \<and> b = 8 \<and> typed = [] then []
      else [b])"

lemma echo_to_master_ring:
  assumes "echo_to_master c (s, r) = (s', r')"
  shows "\<exists>q. r' = (ldisc_push c r)\<lparr>lwaiter := q\<rparr>"
  using assms by (auto simp: echo_to_master_def Let_def split: prod.splits)

lemma lsize_ldisc: "lsize (ldisc_push b r) = lsize r" "lsize (r\<lparr>lwaiter := q\<rparr>) = lsize r"
  by (simp_all add: ldisc_push_def)

lemma lsize_pop_back: "ldisc_pop_back r = (popped, r') \<Longrightarrow> lsize r' = lsize r"
  by (auto simp: ldisc_pop_back_def Let_def split: if_splits)

lemma ldisc_input_size:
  assumes "ldisc_input flags pgrp b echo (r, s, x) = (res, r', s', x')"
  shows "lsize r' = lsize r"
  using assms by (auto simp: ldisc_input_def Let_def lsize_ldisc dest: lsize_pop_back split: if_splits prod.splits)

text \<open>What the input path does with the callback's context.\<close>

lemma ldisc_input_echo:
  assumes ok: "ldisc_ok r" and e: "ldisc_input flags pgrp b (Some f) (r, s, x) = (res, r', s', x')"
  shows "x' = (case echo_bytes flags (ldisc_bytes r) b of [] \<Rightarrow> x | c # _ \<Rightarrow> snd (f c (s, x)))"
proof -
  obtain popped r1 where pb: "ldisc_pop_back r = (popped, r1)" by fastforce
  note q = ldisc_pop_back_spec(3) [OF ok pb]
  show ?thesis using e q unfolding ldisc_input_def echo_bytes_def do_echo_def
    by (auto simp: pb Let_def split: if_splits prod.splits)
qed

text \<open>The bytes a turn of a write stored, and the bytes a turn of a read returned.\<close>

fun stored :: "u8 list \<Rightarrow> nat \<Rightarrow> pty_result \<Rightarrow> u8 list" where
  "stored src tot (PtyAgain n) = take (n - tot) (drop tot src)"
| "stored src tot _ = []"

fun given :: "pty_result \<Rightarrow> u8 list" where
  "given (PtyDone n bs) = bs"
| "given _ = []"

lemma slave_write_stream:
  assumes ok: "pty_ok p" and e: "pty_slave_write c src tot (p, s) = (res, p', s')"
  shows "pty_ok p' \<and> pty_output p' = pty_output p @ stored src tot res \<and> pty_typed p' = pty_typed p \<and> pt_flags p' = pt_flags p"
proof (cases "tot < length src \<and> master_open p \<and> s2m_space p \<noteq> 0")
  case False
  then show ?thesis using ok e
    by (auto simp: pty_slave_write_def pty_ok_def pty_output_def pty_typed_def split: if_splits prod.splits)
next
  case True
  let ?w = "min (length src - tot) (unat (s2m_space p))"
  let ?bs = "take ?w (drop tot src)"
  obtain q s1 where w: "pop_wake (lwaiter (fold ldisc_push ?bs (s2m p))) s = (q, s1)" by fastforce
  have p': "res = PtyAgain (tot + ?w)" "p' = p\<lparr>s2m := (fold ldisc_push ?bs (s2m p))\<lparr>lwaiter := q\<rparr>\<rparr>"
    using e True by (auto simp: pty_slave_write_def Let_def w)
  have sz: "lsize (fold ldisc_push bs r) = lsize r" for bs r
    by (induction bs arbitrary: r) (simp_all add: lsize_ldisc)
  have len: "length (ldisc_bytes (s2m p)) + length ?bs \<le> ldisc_cap (s2m p)"
    using s2m_space_spec [OF ok] pty_output_le [OF ok] ok pty_cap [of "s2m p"] by (auto simp: pty_ok_def pty_output_def)
  have k: "ldisc_ok (s2m p)" using ok by (simp add: pty_ok_def)
  from fold_push_spec [OF k len] ok sz show ?thesis by (simp add: p' pty_ok_def pty_output_def pty_typed_def)
qed

lemma master_read_stream:
  assumes ok: "pty_ok p" and e: "pty_master_read c sz (p, s) = (res, p', s')"
  shows "pty_ok p' \<and> given res @ pty_output p' = pty_output p \<and> pty_typed p' = pty_typed p \<and> pt_flags p' = pt_flags p"
proof -
  have k: "ldisc_ok (s2m p)" using ok by (simp add: pty_ok_def)
  obtain bs r where d: "ldisc_drain 0 sz (s2m p) = (bs, r)" by fastforce
  then have raw: "drain_raw (unat sz) (s2m p) = (bs, r)" by (simp add: ldisc_drain_def has_flag_def)
  note sp = drain_raw_spec [OF k raw]
  then have b: "ldisc_ok r" "bs @ ldisc_bytes r = ldisc_bytes (s2m p)" "lsize r = lsize (s2m p)"
    by (simp_all, metis ldisc_ring.select_convs(2) ldisc_ring.surjective ldisc_ring.update_convs(4))
  show ?thesis using e b ok d
    by (auto simp: pty_master_read_def pty_ok_def pty_output_def pty_typed_def Let_def split: if_splits prod.splits)
qed

lemma master_write_stream:
  assumes ok: "pty_ok p" and e: "pty_master_write c src tot (p, s) = (res, p', s')"
  shows "pty_ok p' \<and> pt_flags p' = pt_flags p \<and>
    (if res = PtyAgain (tot + 1)
     then pty_output p' = pty_output p @ echo_bytes (pt_flags p) (pty_typed p) (src ! tot) \<and>
          pty_typed p' = edit (pt_flags p) 4096 (src ! tot) (pty_typed p)
     else pty_output p' = pty_output p \<and> pty_typed p' = pty_typed p)"
proof (cases "tot < length src \<and> \<not> (has_flag (pt_flags p) TTY_FLAG_ECHO \<and>
      \<not> (has_flag (pt_flags p) TTY_FLAG_ISIG \<and> src ! tot = 3) \<and> s2m_space p = 0)")
  case False
  then show ?thesis using ok e
    by (auto simp: pty_master_write_def pty_ok_def pty_output_def pty_typed_def Let_def split: if_splits prod.splits)
next
  case True
  let ?b = "src ! tot" and ?f = "pt_flags p"
  have k: "ldisc_ok (m2s p)" "ldisc_ok (s2m p)" and c: "ldisc_cap (m2s p) = 4096" "ldisc_cap (s2m p) = 4096"
    using ok pty_cap by (auto simp: pty_ok_def)
  obtain r mr s1 sr where i: "ldisc_input ?f (pt_pgrp p) ?b (Some echo_to_master) (m2s p, s, s2m p) = (r, mr, s1, sr)"
    by (metis prod_cases4)
  have p': "res = PtyAgain (tot + 1)" "p' = p\<lparr>m2s := mr, s2m := sr\<rparr>"
    using e True by (auto simp: pty_master_write_def Let_def i split: if_splits)
  note ed = ldisc_input_edits [OF k(1) i] and sz = ldisc_input_size [OF i] and x = ldisc_input_echo [OF k(1) i]
  have out: "ldisc_ok sr \<and> lsize sr = lsize (s2m p) \<and> ldisc_bytes sr = ldisc_bytes (s2m p) @ echo_bytes ?f (ldisc_bytes (m2s p)) ?b"
  proof (cases "echo_bytes ?f (ldisc_bytes (m2s p)) ?b")
    case Nil
    then show ?thesis using x k by simp
  next
    case (Cons c cs)
    then have cb: "c = ?b" "cs = []" and fl: "has_flag ?f TTY_FLAG_ECHO" "\<not> (has_flag ?f TTY_FLAG_ISIG \<and> ?b = 3)"
      by (auto simp: echo_bytes_def split: if_splits)
    have "s2m_space p \<noteq> 0" using True fl by blast
    then have "unat (s2m_space p) \<noteq> 0" by (simp add: unat_eq_zero)
    then have room: "length (ldisc_bytes (s2m p)) < ldisc_cap (s2m p)"
      using s2m_space_spec [OF ok] c by (simp add: pty_output_def)
    obtain s2 r2 where e2: "echo_to_master c (s, s2m p) = (s2, r2)" by fastforce
    obtain q where q: "r2 = (ldisc_push c (s2m p))\<lparr>lwaiter := q\<rparr>" using echo_to_master_ring [OF e2] by blast
    show ?thesis using x ldisc_push_spec(1,2,6) [OF k(2), of c] room by (simp add: Cons cb e2 [unfolded cb] q lsize_ldisc)
  qed
  show ?thesis using ok out ed(1,2) sz c by (simp add: p' pty_ok_def pty_output_def pty_typed_def)
qed

lemma ldisc_head: "lhead r = ltail r + of_nat (length (ldisc_bytes r))"
  by (simp add: length_ldisc_bytes ldisc_count_def)

lemma slave_read_quiet:
  assumes ok: "pty_ok p" and b: "unat (ltail (m2s p)) + 4096 < 2 ^ 64" and e: "pty_slave_read c sz (p, s) = (res, p', s')"
  shows "pty_ok p' \<and> pty_output p' = pty_output p"
proof -
  have k: "ldisc_ok (m2s p)" "lsize (m2s p) = PTY_BUF_SIZE" using ok by (simp_all add: pty_ok_def)
  obtain bs r where d: "ldisc_drain (pt_flags p) sz (m2s p) = (bs, r)" by fastforce
  have "ldisc_ok r \<and> r = (m2s p)\<lparr>ltail := ltail r\<rparr>"
  proof (cases "has_flag (pt_flags p) TTY_FLAG_ICANON")
    case True
    have "length (ldisc_bytes (m2s p)) \<le> 4096" using ldisc_ok_le [OF k(1)] pty_cap [OF k(2)] by simp
    then have "unat (lhead (m2s p)) = unat (ltail (m2s p)) + length (ldisc_bytes (m2s p))"
      using b ldisc_head [of "m2s p"] by (simp add: unat_word_ariths unat_of_nat)
    then have le: "ltail (m2s p) \<le> lhead (m2s p)" by (simp add: word_le_nat_alt)
    show ?thesis using ldisc_drain_cooked(3,5) [OF k(1) True le d] by simp
  next
    case False
    then show ?thesis using drain_raw_spec [OF k(1), of "unat sz" bs r] d by (simp add: ldisc_drain_def)
  qed
  then have "ldisc_ok r" "lsize r = PTY_BUF_SIZE"
    using k(2) by (simp, metis ldisc_ring.select_convs(2) ldisc_ring.surjective ldisc_ring.update_convs(4))
  then show ?thesis using ok e d
    by (auto simp: pty_slave_read_def pty_ok_def pty_output_def Let_def split: if_splits prod.splits)
qed

lemma resume_quiet:
  assumes ok: "pty_ok p"
  shows "pty_slave_read_resume me (p, s) = (p', s') \<Longrightarrow> pty_ok p' \<and> pty_output p' = pty_output p"
    "pty_slave_write_resume me tot (p, s) = (res, p', s') \<Longrightarrow> pty_ok p' \<and> pty_output p' = pty_output p"
    "pty_master_read_resume me (p, s) = (res, p', s') \<Longrightarrow> pty_ok p' \<and> pty_output p' = pty_output p"
    "pty_master_write_resume me tot (p, s) = (res, p', s') \<Longrightarrow> pty_ok p' \<and> pty_output p' = pty_output p"
  using ok by (auto simp: pty_slave_read_resume_def pty_slave_write_resume_def pty_master_read_resume_def
      pty_master_write_resume_def pty_ok_def pty_output_def Let_def split: prod.splits if_splits)

lemma control_quiet:
  assumes ok: "pty_ok p"
  shows "pty_slave_ioctl c f cmd arg (p, s, m) = (v, p', s', m') \<Longrightarrow> pty_ok p' \<and> pty_output p' = pty_output p"
    "pty_master_ioctl cmd arg (p, s, m) = (v, p', s', m') \<Longrightarrow> pty_ok p' \<and> pty_output p' = pty_output p"
    "pty_slave_open (p, s) = (v, p', s') \<Longrightarrow> pty_ok p' \<and> pty_output p' = pty_output p"
    "pty_slave_close (p, s) = (v, p', s') \<Longrightarrow> pty_ok p' \<and> pty_output p' = pty_output p"
    "pty_master_close (p, s) = Some (p', s') \<Longrightarrow> in_use p' \<Longrightarrow> pty_ok p' \<and> pty_output p' = pty_output p"
  using ok by (auto simp: pty_slave_ioctl_def pty_master_ioctl_def pty_slave_open_def pty_slave_close_def pty_master_close_def
      pty_set_winsize_def zero_pair_def pty_ok_def pty_output_def Let_def split: prod.splits if_splits option.splits)

text \<open>What a drop discards: the whole pending output, when its checks let it through.\<close>

definition discards :: "file_t option \<Rightarrow> u64 \<Rightarrow> pty_pair \<Rightarrow> u8 list" where
  "discards f pg p = (case f of None \<Rightarrow> []
     | Some f \<Rightarrow> if fops f = PtySlaveOps \<and> fprivate f \<noteq> 0 \<and> in_use p \<and> pg = pt_pgrp p then pty_output p else [])"

lemma drop_output:
  assumes "pty_ok p" and "pty_drop_fg_output f pg (p, s) = Some (p', s')"
  shows "pty_ok p' \<and> discards f pg p @ pty_output p' = pty_output p"
  using assms by (auto simp: pty_drop_fg_output_def discards_def pty_ok_def pty_output_def ldisc_ok_def ldisc_cap_def
      ldisc_bytes_def Let_def split: if_splits option.splits)

text \<open>
  \<open>pty_history p w tr\<close>: the pair \<open>p\<close> can arise with \<open>w\<close> the bytes put on the output (slave
  writes that were accepted, and echoes) and \<open>tr\<close> what left it, in order: runs of bytes the
  master was \<open>Given\<close> and runs a kill of the foreground task \<open>Dropped\<close>.  The steps are all the
  operations of the pair, each in any scheduler state; the history ends when the slot is given
  back.
\<close>

datatype outcome = Given "u8 list" | Dropped "u8 list"

primrec outcome_bytes :: "outcome \<Rightarrow> u8 list" where
  "outcome_bytes (Given bs) = bs"
| "outcome_bytes (Dropped bs) = bs"

inductive pty_history :: "pty_pair \<Rightarrow> u8 list \<Rightarrow> outcome list \<Rightarrow> bool" where
  opened: "ptmx_open stub (tab, f) = (0, tab', f') \<Longrightarrow> length tab = PTY_MAX_PAIRS \<Longrightarrow>
    pty_history (tab' ! (fprivate f' - 1)) [] []"
| slave_writes: "pty_history p w tr \<Longrightarrow> pty_slave_write c src tot (p, s) = (res, p', s') \<Longrightarrow>
    pty_history p' (w @ stored src tot res) tr"
| master_reads: "pty_history p w tr \<Longrightarrow> pty_master_read c sz (p, s) = (res, p', s') \<Longrightarrow>
    pty_history p' w (tr @ [Given (given res)])"
| types: "pty_history p w tr \<Longrightarrow> pty_master_write c src tot (p, s) = (PtyAgain n, p', s') \<Longrightarrow>
    pty_history p' (w @ echo_bytes (pt_flags p) (pty_typed p) (src ! tot)) tr"
| type_waits: "pty_history p w tr \<Longrightarrow> pty_master_write c src tot (p, s) = (res, p', s') \<Longrightarrow>
    res \<noteq> PtyAgain (tot + 1) \<Longrightarrow> pty_history p' w tr"
| drops: "pty_history p w tr \<Longrightarrow> pty_drop_fg_output f pg (p, s) = Some (p', s') \<Longrightarrow>
    pty_history p' w (tr @ [Dropped (discards f pg p)])"
| slave_reads: "pty_history p w tr \<Longrightarrow> pty_slave_read c sz (p, s) = (res, p', s') \<Longrightarrow>
    unat (ltail (m2s p)) + 4096 < 2 ^ 64 \<Longrightarrow> pty_history p' w tr"
| slave_read_resumes: "pty_history p w tr \<Longrightarrow> pty_slave_read_resume me (p, s) = (p', s') \<Longrightarrow> pty_history p' w tr"
| slave_write_resumes: "pty_history p w tr \<Longrightarrow> pty_slave_write_resume me tot (p, s) = (res, p', s') \<Longrightarrow> pty_history p' w tr"
| master_read_resumes: "pty_history p w tr \<Longrightarrow> pty_master_read_resume me (p, s) = (res, p', s') \<Longrightarrow> pty_history p' w tr"
| master_write_resumes: "pty_history p w tr \<Longrightarrow> pty_master_write_resume me tot (p, s) = (res, p', s') \<Longrightarrow> pty_history p' w tr"
| slave_ioctls: "pty_history p w tr \<Longrightarrow> pty_slave_ioctl c fp cmd arg (p, s, m) = (v, p', s', m') \<Longrightarrow> pty_history p' w tr"
| master_ioctls: "pty_history p w tr \<Longrightarrow> pty_master_ioctl cmd arg (p, s, m) = (v, p', s', m') \<Longrightarrow> pty_history p' w tr"
| slave_opens: "pty_history p w tr \<Longrightarrow> pty_slave_open (p, s) = (v, p', s') \<Longrightarrow> pty_history p' w tr"
| slave_closes: "pty_history p w tr \<Longrightarrow> pty_slave_close (p, s) = (v, p', s') \<Longrightarrow> pty_history p' w tr"
| master_closes: "pty_history p w tr \<Longrightarrow> pty_master_close (p, s) = Some (p', s') \<Longrightarrow> in_use p' \<Longrightarrow> pty_history p' w tr"

lemma first_free_lowest:
  assumes "first_free tab k = Some i"
  shows "k \<le> i \<and> i < k + length tab \<and> \<not> in_use (tab ! (i - k)) \<and> (\<forall>j < i - k. in_use (tab ! j))"
  using assms
proof (induction tab arbitrary: k)
  case (Cons p tab)
  show ?case
  proof (cases "in_use p")
    case True
    then have f: "first_free tab (Suc k) = Some i" using Cons.prems by simp
    note h = Cons.IH [OF f]
    obtain m where m: "i - k = Suc m" "i - Suc k = m" using h by (metis Suc_diff_le diff_Suc_Suc)
    show ?thesis using h True m by (auto simp: less_Suc_eq_0_disj)
  qed (use Cons.prems in simp)
qed simp

lemma first_free_None: "first_free tab k = None \<longleftrightarrow> (\<forall>p \<in> set tab. in_use p)"
  by (induction tab arbitrary: k) auto

lemma ptmx_open_fresh:
  assumes "ptmx_open stub (tab, f) = (0, tab', f')"
  shows "\<exists>i < length tab. first_free tab 0 = Some i \<and> tab' = tab[i := fresh_pair i] \<and> fprivate f' = i + 1 \<and> fops f' = PtyMasterOps"
proof -
  obtain i where i: "first_free tab 0 = Some i" using assms by (auto simp: ptmx_open_def ENOMEM_def split: option.splits)
  then show ?thesis using assms first_free_lowest [OF i] by (auto simp: ptmx_open_def)
qed

lemma pty_history_stream: "pty_history p w tr \<Longrightarrow> pty_ok p \<and> w = concat (map outcome_bytes tr) @ pty_output p"
proof (induction rule: pty_history.induct)
  case (opened stub tab f tab' f')
  then show ?case using ptmx_open_fresh [OF opened.hyps(1)] fresh_pair_ok by auto
next
  case (slave_writes p w tr c src tot s res p' s')
  then show ?case using slave_write_stream [OF _ slave_writes.hyps(2)] by simp
next
  case (master_reads p w tr c sz s res p' s')
  then show ?case using master_read_stream [OF _ master_reads.hyps(2)] by simp
next
  case (types p w tr c src tot s n p' s')
  have "n = tot + 1" using types.hyps(2) by (auto simp: pty_master_write_def Let_def split: if_splits prod.splits)
  then show ?case using master_write_stream [OF _ types.hyps(2)] types.IH by simp
next
  case (type_waits p w tr c src tot s res p' s')
  then show ?case using master_write_stream [OF _ type_waits.hyps(2)] by simp
next
  case (drops p w tr f pg s p' s')
  then show ?case using drop_output [OF _ drops.hyps(2)] by simp
next
  case (slave_reads p w tr c sz s res p' s')
  then show ?case using slave_read_quiet [OF _ slave_reads.hyps(3,2)] by simp
qed (use resume_quiet control_quiet in metis)+

text \<open>
  C26. The output of a pseudo terminal.  From the moment the master is opened until the slot is
  given back, and whatever operations are called on the pair in whatever scheduler states, the
  bytes accepted from slave writes and the echoes of the keystrokes are, in order, the runs of
  bytes that left the ring followed by the bytes in the ring.  A run leaves the ring only to a
  read of the master or by the drop of the pending output when a signal kills a task of the
  foreground group, which takes all that is pending; without such a drop the output is a byte
  stream.  No echo is lost on the way in: a keystroke that would be echoed into a full ring
  waits.  The ring never holds more than 4096 bytes.  Slave reads are covered up to 4096 short of
  the wrap-around of their 64-bit counter.
\<close>

theorem pty_output_stream:
  assumes "pty_history p w tr"
  shows "w = concat (map outcome_bytes tr) @ pty_output p \<and> length (pty_output p) \<le> 4096"
  using pty_history_stream [OF assms] pty_output_le by blast

text \<open>The slave writes a byte, a signal drops it, the slave writes another.\<close>

theorem pty_output_stream_witness:
  "\<exists>p. pty_history p [7, 8] [Dropped [7]] \<and> [7, 8] = concat (map outcome_bytes [Dropped [7]]) @ pty_output p \<and> pty_output p = [8]"
proof -
  let ?tab = "replicate 8 zero_pair" and ?p = "fresh_pair 0" and ?f = "Some (zero_file\<lparr>fops := PtySlaveOps, fprivate := 1\<rparr>)"
  let ?p1 = "?p\<lparr>s2m := (ldisc_push 7 (s2m ?p))\<rparr>"
  let ?p2 = "?p1\<lparr>s2m := (s2m ?p1)\<lparr>lhead := 0, ltail := 0\<rparr>\<rparr>"
  let ?p3 = "?p2\<lparr>s2m := (ldisc_push 8 (s2m ?p2))\<rparr>"
  note ds = s2m_space_def fresh_pair_def zero_pair_def zero_ring_def PTY_BUF_SIZE_def pop_wake_def
        ldisc_waiter_pop_def ldisc_push_def ldisc_count_def wake_opt_def
  have o1: "ptmx_open 9 (?tab, zero_file) =
      (0, ?tab[0 := ?p], zero_file\<lparr>fops := PtyMasterOps, fprivate := 1, finode := 9, fposition := 0\<rparr>)"
    by (simp add: ptmx_open_def numeral_nat zero_pair_def)
  have h1: "pty_history ?p [] []"
    using pty_history.opened [OF o1] by (simp add: PTY_MAX_PAIRS_def)
  have "pty_slave_write 0 [7] 0 (?p, demo_sched) = (PtyAgain 1, ?p1, demo_sched)"
    by (simp add: pty_slave_write_def ds)
  from pty_history.slave_writes [OF h1 this] have h2: "pty_history ?p1 [7] []" by simp
  have "pty_drop_fg_output ?f 0 (?p1, demo_sched) = Some (?p2, demo_sched)"
    by (simp add: pty_drop_fg_output_def ds pop_all.simps wake_writers.simps)
  from pty_history.drops [OF h2 this] have h3: "pty_history ?p2 [7] [Dropped (discards ?f 0 ?p1)]" by simp
  have "pty_output ?p1 = [7]" using pty_output_stream [OF h2] by simp
  then have "discards ?f 0 ?p1 = [7]" by (simp add: discards_def fresh_pair_def zero_pair_def)
  with h3 have h4: "pty_history ?p2 [7] [Dropped [7]]" by simp
  have "pty_slave_write 0 [8] 0 (?p2, demo_sched) = (PtyAgain 1, ?p3, demo_sched)"
    by (simp add: pty_slave_write_def ds)
  from pty_history.slave_writes [OF h4 this] have h5: "pty_history ?p3 [7, 8] [Dropped [7]]" by simp
  show ?thesis using pty_output_stream [OF h5] h5 by auto
qed

section \<open>Slots\<close>

text \<open>
  C27. Opening the pseudo terminal multiplexer.  It fails with ENOMEM exactly when all eight
  slots are in use; otherwise the lowest free slot becomes a fresh pair with the master open,
  locked, in cooked mode with echo and signals and with empty rings, the file becomes the master
  of that slot, and no other slot changes.  The slave of the new pair cannot be opened until the
  master has unlocked it, and can be afterwards.
\<close>

theorem ptmx_open_correct:
  fixes f :: file_t
  assumes "length tab = PTY_MAX_PAIRS" and "ptmx_open stub (tab, f) = (ret, tab', f')" and "arg \<noteq> 0" and "load32 arg m = 0"
  shows "ret = - ENOMEM \<and> (\<forall>p \<in> set tab. in_use p) \<and> tab' = tab \<and> f' = f \<or>
    ret = 0 \<and> (\<exists>i < PTY_MAX_PAIRS. \<not> in_use (tab ! i) \<and> (\<forall>j < i. in_use (tab ! j)) \<and> tab' = tab[i := fresh_pair i] \<and>
      fops f' = PtyMasterOps \<and> fprivate f' = i + 1 \<and> pty_get tab' i = Some (fresh_pair i) \<and>
      pty_output (fresh_pair i) = [] \<and> pty_typed (fresh_pair i) = [] \<and>
      fst (pty_slave_open (fresh_pair i, s)) = - EIO \<and>
      fst (pty_slave_open (fst (snd (pty_master_ioctl TIOCSPTLCK arg (fresh_pair i, s, m))), s)) = 0)"
proof (cases "first_free tab 0")
  case None
  then show ?thesis using assms(2) first_free_None [of tab 0] by (auto simp: ptmx_open_def)
next
  case (Some i)
  note l = first_free_lowest [OF Some]
  have e: "fst (pty_slave_open (fresh_pair i, s)) = - EIO" by (simp add: pty_slave_open_def fresh_pair_def)
  have u: "fst (snd (pty_master_ioctl TIOCSPTLCK arg (fresh_pair i, s, m))) = (fresh_pair i)\<lparr>pt_locked := False\<rparr>"
    using assms(3,4) by (simp add: pty_master_ioctl_def TIOCSPTLCK_def TIOCGPTN_def)
  have o: "fst (pty_slave_open ((fresh_pair i)\<lparr>pt_locked := False\<rparr>, s)) = 0"
    by (simp add: pty_slave_open_def fresh_pair_def split: prod.splits)
  have g: "pty_get (tab[i := fresh_pair i]) i = Some (fresh_pair i)"
    using l assms(1) by (simp add: pty_get_def fresh_pair_def)
  show ?thesis using l e u o g assms(1,2) Some fresh_pair_ok(2,3) by (auto simp: ptmx_open_def)
qed

theorem ptmx_open_correct_witness:
  "\<exists>tab f. fst (ptmx_open 9 (replicate 8 zero_pair, zero_file)) = 0 \<and>
     ptmx_open 9 (replicate 8 zero_pair, zero_file) = (0, tab, f) \<and> fprivate f = 1 \<and> in_use (tab ! 0)"
proof -
  have o1: "ptmx_open 9 (replicate 8 zero_pair, zero_file) =
      (0, (replicate 8 zero_pair)[0 := fresh_pair 0], zero_file\<lparr>fops := PtyMasterOps, fprivate := 1, finode := 9, fposition := 0\<rparr>)"
    by (simp add: ptmx_open_def numeral_nat zero_pair_def)
  have "(1 :: u64) \<noteq> 0" by simp
  moreover have "load32 1 (\<lambda>_. 0) = 0" by (simp add: load32_def numeral_nat)
  ultimately show ?thesis using ptmx_open_correct [OF _ o1, where s = demo_sched and m = "\<lambda>_. 0" and arg = 1] o1
    by (simp add: PTY_MAX_PAIRS_def fresh_pair_def)
qed

text \<open>
  A slot whose master closes while the slave is open is never free again: the slave's close does
  not look at the master.
\<close>

lemma pty_slot_leaks:
  assumes "in_use p" and "slave_open p" and "pty_master_close (p, s) = Some (p', s')" and "pty_slave_close (p', s1) = (r, p'', s2)"
  shows "in_use p'' \<and> \<not> master_open p'' \<and> \<not> slave_open p''"
  using assms by (auto simp: pty_master_close_def pty_slave_close_def Let_def split: prod.splits option.splits)

text \<open>
  One close ends the output of every slave file: with nothing in the ring the master reads end
  of file although a second open of the slave is still there to write.
\<close>

lemma pty_slave_close_eof:
  assumes "pty_ok p" and "pty_output p = []" and "sz \<noteq> 0" and "slave_ever_opened p" and "pty_slave_close (p, s) = (r, p', s1)"
  shows "fst (pty_master_read c sz (p', s1)) = PtyDone 0 []"
proof -
  obtain q where p': "p' = p\<lparr>slave_open := False, s2m := (s2m p)\<lparr>lwaiter := q\<rparr>\<rparr>"
    using assms(5) by (auto simp: pty_slave_close_def Let_def split: prod.splits)
  have "ldisc_drain 0 sz (s2m p') = ([], s2m p')"
  proof -
    obtain bs r where d: "drain_raw (unat sz) (s2m p') = (bs, r)" by fastforce
    have "ltail (s2m p') = lhead (s2m p')"
      using assms(2) ldisc_count_0 [of "s2m p"] by (simp add: pty_output_def p' ldisc_count_def)
    then show ?thesis by (cases "unat sz") (simp_all add: ldisc_drain_def has_flag_def)
  qed
  then show ?thesis using assms(3,4) by (simp add: pty_master_read_def p')
qed

end
