(* ===== verification/Vfs.thy ===== *)
theory Vfs
  imports Vfs_Types Devfs Util_String
begin

text \<open>
  The state of the virtual file system and its dispatch layer (\<^verbatim>\<open>file_system/vfs_types.h\<close>,
  \<^verbatim>\<open>vfs.c\<close>, \<^verbatim>\<open>vfs_sb.c\<close>, \<^verbatim>\<open>vfs_inode.c\<close>).  The operation tables that a file system or a driver
  installs are function pointers in the code; here they are functions in an environment
  \<open>'x fsenv\<close>, on the part \<open>'x fsys\<close> of the state that a file system owns: the inodes, the
  superblocks and whatever it keeps itself (\<open>'x\<close>).  Of a dentry an operation reads the name and
  the inode, and sets the inode.
\<close>

section \<open>Objects\<close>

text \<open>\<open>ifs_word\<close> is the 32-bit word that \<^verbatim>\<open>fs_specific\<close> points to, where a file system keeps the inode number.\<close>

record inode_t =
  owner_id :: u32
  group_id :: u32
  iflags :: u64
  itype :: u64
  isize :: u64
  permissions :: u64
  idev_id :: u32
  iops :: nat
  ifile_ops :: fops_ptr
  ifs_specific :: nat
  ifs_word :: u32
  isb :: nat
  ipipe :: nat

record superblock_t =
  smagic :: u64
  sblock_size :: u64
  sops :: nat
  sstart_lba :: u64
  root_inode :: nat
  io_inflight :: u64
  unmounting :: bool

datatype mount_type = MOUNT_NONE | MOUNT_BIND | MOUNT_FILESYSTEM

text \<open>Every dentry is created with a name, so the name is not a pointer here.\<close>

record dentry_t =
  mount_type :: mount_type
  mount_dentry :: nat
  dname :: "u8 list"
  dinode :: nat
  dparent :: nat

record fs_inode_stat =
  st_type :: u64
  st_mode :: u64
  st_size :: u64
  st_nlinks :: u64
  st_uid :: u32
  st_gid :: u32
  st_dev_id :: u32
  st_atime :: u64
  st_mtime :: u64
  st_ctime :: u64

text \<open>\<open>ilive\<close>: the addresses at which an inode is allocated.\<close>

record 'x fsys =
  inodes :: "nat \<Rightarrow> inode_t"
  ilive :: "nat \<Rightarrow> bool"
  sbs :: "nat \<Rightarrow> superblock_t"
  fsx :: 'x

section \<open>Operation tables\<close>

text \<open>
  An operation on a directory inode and a dentry, given by its name and inode: the result, the
  dentry's inode afterwards, and the file system's state.
\<close>

type_synonym 'x dentry_op = "nat \<Rightarrow> u8 list \<times> nat \<Rightarrow> 'x fsys \<Rightarrow> int \<times> nat \<times> 'x fsys"

record 'x inode_ops =
  io_lookup :: "'x dentry_op option"
  io_create :: "(u64 \<Rightarrow> 'x dentry_op) option"
  io_mkdir :: "(u64 \<Rightarrow> 'x dentry_op) option"
  io_rmdir :: "'x dentry_op option"
  io_unlink :: "'x dentry_op option"
  io_rename :: "(nat \<Rightarrow> u8 list \<times> nat \<Rightarrow> nat \<Rightarrow> u8 list \<times> nat \<Rightarrow> 'x fsys \<Rightarrow> int \<times> nat \<times> nat \<times> 'x fsys) option"
  io_hardlink :: "(nat \<Rightarrow> 'x dentry_op) option"
  io_mknod :: "(u64 \<Rightarrow> u64 \<Rightarrow> u32 \<Rightarrow> 'x dentry_op) option"
  io_symlink :: "(u8 list \<Rightarrow> 'x dentry_op) option"
  io_readlink :: "(nat \<Rightarrow> u64 \<Rightarrow> 'x fsys \<Rightarrow> (int + u8 list) \<times> 'x fsys) option"
  io_getattr :: "(nat \<Rightarrow> 'x fsys \<Rightarrow> int \<times> fs_inode_stat \<times> 'x fsys) option"
  io_setattr :: "(nat \<Rightarrow> fs_inode_stat \<Rightarrow> 'x fsys \<Rightarrow> int \<times> 'x fsys) option"

record 'x sb_ops =
  so_alloc_inode :: "(nat \<Rightarrow> 'x fsys \<Rightarrow> nat \<times> 'x fsys) option"
  so_free_inode :: "(nat \<Rightarrow> 'x fsys \<Rightarrow> int \<times> 'x fsys) option"
  so_read_inode :: "(nat \<Rightarrow> 'x fsys \<Rightarrow> int \<times> 'x fsys) option"
  so_write_inode :: "(nat \<Rightarrow> 'x fsys \<Rightarrow> int \<times> 'x fsys) option"
  so_mount :: "(nat \<Rightarrow> 'x fsys \<Rightarrow> int \<times> 'x fsys) option"
  so_unmount :: "(nat \<Rightarrow> 'x fsys \<Rightarrow> int \<times> 'x fsys) option"
  so_sync :: "(nat \<Rightarrow> 'x fsys \<Rightarrow> int \<times> 'x fsys) option"
  so_stat :: "(nat \<Rightarrow> 'x fsys \<Rightarrow> int \<times> (u64 \<times> u64) \<times> 'x fsys) option"

type_synonym 'x file_op = "file_t \<Rightarrow> 'x fsys \<Rightarrow> int \<times> file_t \<times> 'x fsys"

text \<open>\<open>fo_readdir\<close> also delivers the entry: its name and its inode.\<close>

record 'x file_ops =
  fo_read :: "(u64 \<Rightarrow> u64 \<Rightarrow> 'x file_op) option"
  fo_write :: "(u64 \<Rightarrow> u64 \<Rightarrow> 'x file_op) option"
  fo_seek :: "(int \<Rightarrow> int \<Rightarrow> 'x file_op) option"
  fo_truncate :: "(u64 \<Rightarrow> 'x file_op) option"
  fo_readdir :: "(file_t \<Rightarrow> 'x fsys \<Rightarrow> int \<times> (u8 list \<times> nat) \<times> file_t \<times> 'x fsys) option"
  fo_open :: "(nat \<Rightarrow> 'x file_op) option"
  fo_close :: "'x file_op option"
  fo_flush :: "'x file_op option"
  fo_ioctl :: "(u64 \<Rightarrow> u64 \<Rightarrow> 'x file_op) option"

text \<open>
  \<open>kaddr n\<close> is what the \<open>n\<close>-th call of \<^verbatim>\<open>kmalloc\<close> returns, 0 when it has no memory: the slab
  allocator is not modelled, and its answers are an arbitrary sequence.  \<open>link_frames\<close> is the
  number of link buffers (one of 4 KiB for each nested call of \<^verbatim>\<open>follow_symlinks\<close>) that the kernel
  stack has room for; with the stack of 16 KiB it is at most 3.  The opening
  of a FIFO blocks in the middle (theory \<open>Pipe\<close> has its sections), here it is one operation.
\<close>

record 'x fsenv =
  kaddr :: "nat \<Rightarrow> nat"
  link_frames :: nat
  iops_of :: "nat \<Rightarrow> 'x inode_ops"
  sops_of :: "nat \<Rightarrow> 'x sb_ops"
  fops_of :: "fops_ptr \<Rightarrow> 'x file_ops"
  fifo_open_op :: "u32 \<Rightarrow> nat \<Rightarrow> 'x file_op"
  dev_table :: "devfs_entry list"

section \<open>State\<close>

text \<open>
  \<open>dlive\<close>: the addresses of allocated dentries.  \<open>dtable\<close>: the chains of the dentry cache, by
  bucket.  \<open>cwd\<close>: the current directory of the running task, 0 when there is none.  \<open>fd_file\<close>: the
  files of its descriptor table, 0 for a free slot.  \<open>flive\<close>: the addresses of allocated open files.
\<close>

record 'x vfs =
  fs :: "'x fsys"
  dentries :: "nat \<Rightarrow> dentry_t"
  dlive :: "nat \<Rightarrow> bool"
  dtable :: "nat \<Rightarrow> nat list"
  vfs_root :: nat
  cwd :: nat
  files :: "nat \<Rightarrow> file_t"
  flive :: "nat \<Rightarrow> bool"
  fd_file :: "nat list"
  nalloc :: nat

abbreviation inode_of :: "'x vfs \<Rightarrow> nat \<Rightarrow> inode_t" where
  "inode_of s i \<equiv> inodes (fs s) i"

abbreviation dentry_of :: "'x vfs \<Rightarrow> nat \<Rightarrow> dentry_t" where
  "dentry_of s d \<equiv> dentries s d"

definition upd_dentry :: "nat \<Rightarrow> (dentry_t \<Rightarrow> dentry_t) \<Rightarrow> 'x vfs \<Rightarrow> 'x vfs" where
  "upd_dentry d f s = s\<lparr>dentries := (dentries s)(d := f (dentries s d))\<rparr>"

definition zero_dentry :: dentry_t where
  "zero_dentry = \<lparr>mount_type = MOUNT_NONE, mount_dentry = 0, dname = [], dinode = 0, dparent = 0\<rparr>"

definition kmalloc :: "'x fsenv \<Rightarrow> 'x vfs \<Rightarrow> nat \<times> 'x vfs" where
  "kmalloc E s = (kaddr E (nalloc s), s\<lparr>nalloc := nalloc s + 1\<rparr>)"

section \<open>Checks (vfs.c)\<close>

definition S_IMMUTABLE :: u64 where "S_IMMUTABLE = 2"

definition vfs_check_sb :: "nat \<Rightarrow> 'x vfs \<Rightarrow> int" where
  "vfs_check_sb sb s = (if sb = 0 \<or> sops (sbs (fs s) sb) = 0 then - EINVAL else 0)"

definition vfs_check_inode :: "nat \<Rightarrow> 'x vfs \<Rightarrow> int" where
  "vfs_check_inode i s = (if i = 0 \<or> isb (inode_of s i) = 0 \<or> iops (inode_of s i) = 0 then - EINVAL else 0)"

definition vfs_check_dir :: "nat \<Rightarrow> 'x vfs \<Rightarrow> int" where
  "vfs_check_dir dir s =
     (let r = vfs_check_inode dir s in
      if r < 0 then r else if itype (inode_of s dir) \<noteq> VFS_TYPE_DIR then - ENOTDIR else 0)"

definition vfs_check_file :: "nat \<Rightarrow> 'x vfs \<Rightarrow> int" where
  "vfs_check_file f s = (if f = 0 \<or> finode (files s f) = 0 \<or> fops (files s f) = NoFops then - EINVAL else 0)"

definition vfs_check_dentry :: "nat \<Rightarrow> 'x vfs \<Rightarrow> int" where
  "vfs_check_dentry d s = (if d = 0 then - EINVAL else 0)"

definition vfs_check_writable :: "nat \<Rightarrow> 'x vfs \<Rightarrow> int" where
  "vfs_check_writable i s = (if iflags (inode_of s i) AND S_IMMUTABLE \<noteq> 0 then - EPERM else 0)"

definition upd_sb :: "nat \<Rightarrow> (superblock_t \<Rightarrow> superblock_t) \<Rightarrow> 'x vfs \<Rightarrow> 'x vfs" where
  "upd_sb sb f s = s\<lparr>fs := (fs s)\<lparr>sbs := (sbs (fs s))(sb := f (sbs (fs s) sb))\<rparr>\<rparr>"

definition fs_io_begin :: "nat \<Rightarrow> 'x vfs \<Rightarrow> int \<times> 'x vfs" where
  "fs_io_begin sb s =
     (if sb = 0 then (- EINVAL, s)
      else if unmounting (sbs (fs s) sb) then (- EBUSY, s)
      else (0, upd_sb sb (\<lambda>b. b\<lparr>io_inflight := io_inflight b + 1\<rparr>) s))"

definition fs_io_end :: "nat \<Rightarrow> 'x vfs \<Rightarrow> 'x vfs" where
  "fs_io_end sb s =
     (if sb = 0 then s
      else if io_inflight (sbs (fs s) sb) > 0 then upd_sb sb (\<lambda>b. b\<lparr>io_inflight := io_inflight b - 1\<rparr>) s else s)"

definition vfs_strdup :: "'x fsenv \<Rightarrow> u8 list \<Rightarrow> 'x vfs \<Rightarrow> u8 list option \<times> 'x vfs" where
  "vfs_strdup E str s = (let (p, s) = kmalloc E s in (if p = 0 then None else Some str, s))"

section \<open>Dispatch\<close>

text \<open>\<^verbatim>\<open>VFS_CALL\<close>: an operation that is not there is an error.\<close>

definition VFS_CALL :: "'f option \<Rightarrow> ('f \<Rightarrow> int \<times> 's) \<Rightarrow> 's \<Rightarrow> int \<times> 's" where
  "VFS_CALL fn app s = (case fn of Some f \<Rightarrow> app f | None \<Rightarrow> (- ENOTSUP, s))"

definition call_dentry_op :: "'x dentry_op \<Rightarrow> nat \<Rightarrow> nat \<Rightarrow> 'x vfs \<Rightarrow> int \<times> 'x vfs" where
  "call_dentry_op f dir d s =
     (let (r, i, fs') = f dir (dname (dentry_of s d), dinode (dentry_of s d)) (fs s)
      in (r, upd_dentry d (\<lambda>k. k\<lparr>dinode := i\<rparr>) (s\<lparr>fs := fs'\<rparr>)))"

definition call_fs :: "('x fsys \<Rightarrow> int \<times> 'x fsys) \<Rightarrow> 'x vfs \<Rightarrow> int \<times> 'x vfs" where
  "call_fs f s = (let (r, fs') = f (fs s) in (r, s\<lparr>fs := fs'\<rparr>))"

abbreviation ops_of_inode :: "'x fsenv \<Rightarrow> 'x vfs \<Rightarrow> nat \<Rightarrow> 'x inode_ops" where
  "ops_of_inode E s i \<equiv> iops_of E (iops (inode_of s i))"

abbreviation ops_of_sb :: "'x fsenv \<Rightarrow> 'x vfs \<Rightarrow> nat \<Rightarrow> 'x sb_ops" where
  "ops_of_sb E s sb \<equiv> sops_of E (sops (sbs (fs s) sb))"

section \<open>Superblock operations (vfs_sb.c)\<close>

definition vfs_alloc_inode :: "'x fsenv \<Rightarrow> nat \<Rightarrow> 'x vfs \<Rightarrow> nat \<times> 'x vfs" where
  "vfs_alloc_inode E sb s =
     (if vfs_check_sb sb s < 0 then (0, s)
      else case so_alloc_inode (ops_of_sb E s sb) of
        None \<Rightarrow> (0, s)
      | Some f \<Rightarrow> let (i, fs') = f sb (fs s) in (i, s\<lparr>fs := fs'\<rparr>))"

definition vfs_free_inode :: "'x fsenv \<Rightarrow> nat \<Rightarrow> 'x vfs \<Rightarrow> int \<times> 'x vfs" where
  "vfs_free_inode E i s =
     (let r = vfs_check_inode i s in
      if r < 0 then (r, s) else VFS_CALL (so_free_inode (ops_of_sb E s (isb (inode_of s i)))) (\<lambda>f. call_fs (f i) s) s)"

definition vfs_read_inode :: "'x fsenv \<Rightarrow> nat \<Rightarrow> 'x vfs \<Rightarrow> int \<times> 'x vfs" where
  "vfs_read_inode E i s =
     (let r = vfs_check_inode i s in
      if r < 0 then (r, s) else VFS_CALL (so_read_inode (ops_of_sb E s (isb (inode_of s i)))) (\<lambda>f. call_fs (f i) s) s)"

definition vfs_write_inode :: "'x fsenv \<Rightarrow> nat \<Rightarrow> 'x vfs \<Rightarrow> int \<times> 'x vfs" where
  "vfs_write_inode E i s =
     (let r = vfs_check_inode i s in
      if r < 0 then (r, s) else VFS_CALL (so_write_inode (ops_of_sb E s (isb (inode_of s i)))) (\<lambda>f. call_fs (f i) s) s)"

definition vfs_mount :: "'x fsenv \<Rightarrow> nat \<Rightarrow> 'x vfs \<Rightarrow> int \<times> 'x vfs" where
  "vfs_mount E sb s =
     (let r = vfs_check_sb sb s in
      if r < 0 then (r, s) else VFS_CALL (so_mount (ops_of_sb E s sb)) (\<lambda>f. call_fs (f sb) s) s)"

definition vfs_unmount :: "'x fsenv \<Rightarrow> nat \<Rightarrow> 'x vfs \<Rightarrow> int \<times> 'x vfs" where
  "vfs_unmount E sb s =
     (let r = vfs_check_sb sb s in
      if r < 0 then (r, s) else VFS_CALL (so_unmount (ops_of_sb E s sb)) (\<lambda>f. call_fs (f sb) s) s)"

definition vfs_sync :: "'x fsenv \<Rightarrow> nat \<Rightarrow> 'x vfs \<Rightarrow> int \<times> 'x vfs" where
  "vfs_sync E sb s =
     (let r = vfs_check_sb sb s in
      if r < 0 then (r, s) else VFS_CALL (so_sync (ops_of_sb E s sb)) (\<lambda>f. call_fs (f sb) s) s)"

text \<open>The operations that also fill in a structure return it next to the state.\<close>

definition vfs_stat :: "'x fsenv \<Rightarrow> nat \<Rightarrow> (u64 \<times> u64) option \<Rightarrow> 'x vfs \<Rightarrow> int \<times> (u64 \<times> u64) option \<times> 'x vfs" where
  "vfs_stat E sb out s =
     (let r = vfs_check_sb sb s in
      if r < 0 then (r, out, s)
      else if out = None then (- EINVAL, out, s)
      else VFS_CALL (so_stat (ops_of_sb E s sb)) (\<lambda>f. let (r, st, fs') = f sb (fs s) in (r, Some st, s\<lparr>fs := fs'\<rparr>)) (out, s))"

section \<open>Inode operations (vfs_inode.c)\<close>

definition check_dir_dentry :: "nat \<Rightarrow> nat \<Rightarrow> 'x vfs \<Rightarrow> int" where
  "check_dir_dentry dir d s = (let r = vfs_check_dir dir s in if r < 0 then r else vfs_check_dentry d s)"

definition check_dir_dentry_writable :: "nat \<Rightarrow> nat \<Rightarrow> 'x vfs \<Rightarrow> int" where
  "check_dir_dentry_writable dir d s =
     (let r = check_dir_dentry dir d s in if r < 0 then r else vfs_check_writable dir s)"

definition vfs_lookup :: "'x fsenv \<Rightarrow> nat \<Rightarrow> nat \<Rightarrow> 'x vfs \<Rightarrow> int \<times> 'x vfs" where
  "vfs_lookup E dir d s =
     (let r = check_dir_dentry dir d s in
      if r < 0 then (r, s) else VFS_CALL (io_lookup (ops_of_inode E s dir)) (\<lambda>f. call_dentry_op f dir d s) s)"

definition vfs_create :: "'x fsenv \<Rightarrow> nat \<Rightarrow> nat \<Rightarrow> u64 \<Rightarrow> 'x vfs \<Rightarrow> int \<times> 'x vfs" where
  "vfs_create E dir d perm s =
     (let r = check_dir_dentry_writable dir d s in
      if r < 0 then (r, s) else VFS_CALL (io_create (ops_of_inode E s dir)) (\<lambda>f. call_dentry_op (f perm) dir d s) s)"

definition vfs_mkdir :: "'x fsenv \<Rightarrow> nat \<Rightarrow> nat \<Rightarrow> u64 \<Rightarrow> 'x vfs \<Rightarrow> int \<times> 'x vfs" where
  "vfs_mkdir E dir d perm s =
     (let r = check_dir_dentry_writable dir d s in
      if r < 0 then (r, s) else VFS_CALL (io_mkdir (ops_of_inode E s dir)) (\<lambda>f. call_dentry_op (f perm) dir d s) s)"

definition vfs_rmdir :: "'x fsenv \<Rightarrow> nat \<Rightarrow> nat \<Rightarrow> 'x vfs \<Rightarrow> int \<times> 'x vfs" where
  "vfs_rmdir E dir d s =
     (let r = check_dir_dentry_writable dir d s in
      if r < 0 then (r, s) else VFS_CALL (io_rmdir (ops_of_inode E s dir)) (\<lambda>f. call_dentry_op f dir d s) s)"

definition vfs_unlink :: "'x fsenv \<Rightarrow> nat \<Rightarrow> nat \<Rightarrow> 'x vfs \<Rightarrow> int \<times> 'x vfs" where
  "vfs_unlink E dir d s =
     (let r = check_dir_dentry_writable dir d s in
      if r < 0 then (r, s) else VFS_CALL (io_unlink (ops_of_inode E s dir)) (\<lambda>f. call_dentry_op f dir d s) s)"

definition vfs_rename :: "'x fsenv \<Rightarrow> nat \<Rightarrow> nat \<Rightarrow> nat \<Rightarrow> nat \<Rightarrow> 'x vfs \<Rightarrow> int \<times> 'x vfs" where
  "vfs_rename E old_dir old_d new_dir new_d s =
     (let r = check_dir_dentry_writable old_dir old_d s in
      if r < 0 then (r, s)
      else
        let r = check_dir_dentry_writable new_dir new_d s in
        if r < 0 then (r, s)
        else VFS_CALL (io_rename (ops_of_inode E s old_dir))
          (\<lambda>f. let (r, io, inw, fs') = f old_dir (dname (dentry_of s old_d), dinode (dentry_of s old_d))
                                       new_dir (dname (dentry_of s new_d), dinode (dentry_of s new_d)) (fs s)
               in (r, upd_dentry new_d (\<lambda>k. k\<lparr>dinode := inw\<rparr>) (upd_dentry old_d (\<lambda>k. k\<lparr>dinode := io\<rparr>) (s\<lparr>fs := fs'\<rparr>)))) s)"

definition vfs_hardlink :: "'x fsenv \<Rightarrow> nat \<Rightarrow> nat \<Rightarrow> nat \<Rightarrow> 'x vfs \<Rightarrow> int \<times> 'x vfs" where
  "vfs_hardlink E dir existing d s =
     (let r = check_dir_dentry_writable dir d s in
      if r < 0 then (r, s)
      else
        let r = vfs_check_inode existing s in
        if r < 0 then (r, s)
        else if itype (inode_of s existing) = VFS_TYPE_DIR then (- EPERM, s)
        else VFS_CALL (io_hardlink (ops_of_inode E s dir)) (\<lambda>f. call_dentry_op (f existing) dir d s) s)"

definition vfs_mknod :: "'x fsenv \<Rightarrow> nat \<Rightarrow> nat \<Rightarrow> u64 \<Rightarrow> u64 \<Rightarrow> u32 \<Rightarrow> 'x vfs \<Rightarrow> int \<times> 'x vfs" where
  "vfs_mknod E dir d ty perm dev s =
     (let r = check_dir_dentry_writable dir d s in
      if r < 0 then (r, s)
      else if ty \<noteq> VFS_TYPE_CHARDEV \<and> ty \<noteq> VFS_TYPE_BLOCKDEV \<and> ty \<noteq> VFS_TYPE_FIFO \<and> ty \<noteq> VFS_TYPE_SOCKET then (- EINVAL, s)
      else VFS_CALL (io_mknod (ops_of_inode E s dir)) (\<lambda>f. call_dentry_op (f ty perm dev) dir d s) s)"

definition vfs_symlink :: "'x fsenv \<Rightarrow> nat \<Rightarrow> nat \<Rightarrow> u8 list option \<Rightarrow> 'x vfs \<Rightarrow> int \<times> 'x vfs" where
  "vfs_symlink E dir d tgt s =
     (let r = check_dir_dentry_writable dir d s in
      if r < 0 then (r, s)
      else case tgt of
        None \<Rightarrow> (- EINVAL, s)
      | Some t \<Rightarrow>
          if length t \<ge> VFS_PATH_MAX then (- ENAMETOOLONG, s)
          else VFS_CALL (io_symlink (ops_of_inode E s dir)) (\<lambda>f. call_dentry_op (f t) dir d s) s)"

text \<open>\<open>Inr bs\<close>: the bytes \<open>bs\<close> were stored and their number was returned.\<close>

definition vfs_readlink :: "'x fsenv \<Rightarrow> nat \<Rightarrow> u64 \<Rightarrow> u64 \<Rightarrow> 'x vfs \<Rightarrow> (int + u8 list) \<times> 'x vfs" where
  "vfs_readlink E i buf sz s =
     (let r = vfs_check_inode i s in
      if r < 0 then (Inl r, s)
      else if itype (inode_of s i) \<noteq> VFS_TYPE_SYMLINK then (Inl (- EINVAL), s)
      else if buf = 0 \<or> sz = 0 then (Inl (- EINVAL), s)
      else case io_readlink (ops_of_inode E s i) of
        None \<Rightarrow> (Inl (- ENOTSUP), s)
      | Some f \<Rightarrow> let (r, fs') = f i sz (fs s) in (r, s\<lparr>fs := fs'\<rparr>))"

definition vfs_getattr :: "'x fsenv \<Rightarrow> nat \<Rightarrow> fs_inode_stat option \<Rightarrow> 'x vfs \<Rightarrow> int \<times> fs_inode_stat option \<times> 'x vfs" where
  "vfs_getattr E i out s =
     (let r = vfs_check_inode i s in
      if r < 0 then (r, out, s)
      else if out = None then (- EINVAL, out, s)
      else VFS_CALL (io_getattr (ops_of_inode E s i)) (\<lambda>f. let (r, st, fs') = f i (fs s) in (r, Some st, s\<lparr>fs := fs'\<rparr>)) (out, s))"

definition vfs_setattr :: "'x fsenv \<Rightarrow> nat \<Rightarrow> fs_inode_stat option \<Rightarrow> 'x vfs \<Rightarrow> int \<times> 'x vfs" where
  "vfs_setattr E i st s =
     (let r = vfs_check_inode i s in
      if r < 0 then (r, s)
      else case st of
        None \<Rightarrow> (- EINVAL, s)
      | Some st \<Rightarrow>
          let r = vfs_check_writable i s in
          if r < 0 then (r, s) else VFS_CALL (io_setattr (ops_of_inode E s i)) (\<lambda>f. call_fs (f i st) s) s)"

end
