(* ===== verification/Dcache.thy ===== *)
theory Dcache
  imports Vfs
begin

text \<open>
  The dentry cache (\<^verbatim>\<open>file_system/dcache.c\<close>): a hash table of chains, one chain per bucket.  A
  bucket is the list of the dentries on its chain.  The interface \<open>keyed_stack\<close> is what path
  lookup relies on: per key, the dentries put under it, the latest first.
\<close>

section \<open>The table\<close>

definition DCACHE_SIZE :: u64 where "DCACHE_SIZE = 1024"
definition GOLDEN_RATIO_32 :: u64 where "GOLDEN_RATIO_32 = 0x61C88647"

text \<open>\<^verbatim>\<open>char\<close> is signed, so a byte above 127 is extended with ones.\<close>

definition hash_dentry :: "nat \<Rightarrow> u8 list \<Rightarrow> nat" where
  "hash_dentry parent nm =
     unat (fold (\<lambda>c h. (push_bit 5 h + h) + scast c) nm (of_nat parent * GOLDEN_RATIO_32) mod DCACHE_SIZE)"

definition dcache_link :: "nat \<Rightarrow> 'x vfs \<Rightarrow> 'x vfs" where
  "dcache_link d s =
     (let b = hash_dentry (dparent (dentry_of s d)) (dname (dentry_of s d))
      in s\<lparr>dtable := (dtable s)(b := d # dtable s b)\<rparr>)"

text \<open>
  The allocation of the chain entry is not checked: without memory the entry is written through
  a NULL pointer, here \<open>None\<close>.
\<close>

definition dCachePut :: "'x fsenv \<Rightarrow> nat \<Rightarrow> 'x vfs \<Rightarrow> 'x vfs option" where
  "dCachePut E d s = (let (entry, s) = kmalloc E s in if entry = 0 then None else Some (dcache_link d s))"

fun chain_remove :: "nat \<Rightarrow> nat list \<Rightarrow> nat list" where
  "chain_remove d [] = []"
| "chain_remove d (e # es) = (if e = d then es else e # chain_remove d es)"

definition dCacheRemove :: "nat \<Rightarrow> 'x vfs \<Rightarrow> 'x vfs" where
  "dCacheRemove d s =
     (let b = hash_dentry (dparent (dentry_of s d)) (dname (dentry_of s d))
      in s\<lparr>dtable := (dtable s)(b := chain_remove d (dtable s b))\<rparr>)"

fun chain_find :: "(nat \<Rightarrow> dentry_t) \<Rightarrow> nat \<Rightarrow> u8 list \<Rightarrow> nat list \<Rightarrow> nat" where
  "chain_find h parent nm [] = 0"
| "chain_find h parent nm (e # es) =
     (if dparent (h e) = parent \<and> strcmp (dname (h e)) nm = 0 then e else chain_find h parent nm es)"

definition dCacheLookup :: "nat \<Rightarrow> u8 list \<Rightarrow> 'x vfs \<Rightarrow> nat" where
  "dCacheLookup parent nm s = chain_find (dentries s) parent nm (dtable s (hash_dentry parent nm))"

section \<open>The interface\<close>

locale keyed_stack =
  fixes inv :: "'s \<Rightarrow> bool"
    and key :: "'s \<Rightarrow> 'd \<Rightarrow> 'k"
    and stack :: "'s \<Rightarrow> 'k \<Rightarrow> 'd list"
    and put :: "'d \<Rightarrow> 's \<Rightarrow> 's"
    and remove :: "'d \<Rightarrow> 's \<Rightarrow> 's"
    and find :: "'k \<Rightarrow> 's \<Rightarrow> 'd option"
  assumes key_put: "key (put d s) = key s"
    and key_remove: "key (remove d s) = key s"
    and inv_put: "inv s \<Longrightarrow> inv (put d s)"
    and inv_remove: "inv s \<Longrightarrow> inv (remove d s)"
    and stack_put: "inv s \<Longrightarrow> stack (put d s) = (stack s)(key s d := d # stack s (key s d))"
    and stack_remove: "inv s \<Longrightarrow> stack (remove d s) = (stack s)(key s d := remove1 d (stack s (key s d)))"
    and find_stack: "inv s \<Longrightarrow> find k s = (case stack s k of [] \<Rightarrow> None | d # _ \<Rightarrow> Some d)"
    and stack_key: "inv s \<Longrightarrow> d \<in> set (stack s k) \<Longrightarrow> key s d = k"
begin

lemma find_put: "inv s \<Longrightarrow> find k (put d s) = (if k = key s d then Some d else find k s)"
  by (simp add: find_stack inv_put stack_put)

lemma find_remove_other: "inv s \<Longrightarrow> key s d \<noteq> k \<Longrightarrow> find k (remove d s) = find k s"
  by (simp add: find_stack inv_remove stack_remove)

lemma find_put_remove: "inv s \<Longrightarrow> find k (remove d (put d s)) = find k s"
  by (simp add: find_stack inv_put inv_remove stack_put stack_remove key_put)

lemma find_key: "inv s \<Longrightarrow> find k s = Some d \<Longrightarrow> key s d = k"
  by (auto simp: find_stack split: list.splits intro: stack_key)

lemma remove_gone:
  assumes "inv s" and "distinct (stack s (key s d))"
  shows "find k (remove d s) \<noteq> Some d"
proof
  assume f: "find k (remove d s) = Some d"
  then have k: "k = key s d" using find_key [OF inv_remove [OF assms(1)]] by (simp add: key_remove)
  obtain ds where "remove1 d (stack s (key s d)) = d # ds"
    using f k by (auto simp: find_stack inv_remove stack_remove assms(1) split: list.splits)
  then have "d \<in> set (remove1 d (stack s (key s d)))" by simp
  then show False using assms(2) by simp
qed

end

section \<open>The table implements it\<close>

definition dkey :: "'x vfs \<Rightarrow> nat \<Rightarrow> nat \<times> u8 list" where
  "dkey s d = (dparent (dentry_of s d), dname (dentry_of s d))"

abbreviation bucket_of :: "nat \<times> u8 list \<Rightarrow> nat" where
  "bucket_of k \<equiv> hash_dentry (fst k) (snd k)"

definition dcache_inv :: "'x vfs \<Rightarrow> bool" where
  "dcache_inv s \<longleftrightarrow> (\<forall>b. \<forall>d \<in> set (dtable s b). bucket_of (dkey s d) = b)"

definition dcache_stack :: "'x vfs \<Rightarrow> nat \<times> u8 list \<Rightarrow> nat list" where
  "dcache_stack s k = filter (\<lambda>d. dkey s d = k) (dtable s (bucket_of k))"

definition dcache_find :: "nat \<times> u8 list \<Rightarrow> 'x vfs \<Rightarrow> nat option" where
  "dcache_find k s = find (\<lambda>d. dkey s d = k) (dtable s (bucket_of k))"

lemma chain_remove_remove1: "chain_remove d es = remove1 d es"
  by (induction es) auto

lemma chain_find_find:
  "chain_find h p nm es = (case find (\<lambda>d. dparent (h d) = p \<and> dname (h d) = nm) es of None \<Rightarrow> 0 | Some d \<Rightarrow> d)"
  by (induction es) (simp_all add: strcmp_zero)

lemma dCacheLookup_find: "dCacheLookup p nm s = (case dcache_find (p, nm) s of None \<Rightarrow> 0 | Some d \<Rightarrow> d)"
  by (simp add: dCacheLookup_def chain_find_find dcache_find_def dkey_def)

lemma dkey_link [simp]: "dkey (dcache_link d s) = dkey s" "dkey (dCacheRemove d s) = dkey s"
  by (simp_all add: dkey_def dcache_link_def dCacheRemove_def Let_def fun_eq_iff)

lemma filter_remove1_ne: "\<not> P d \<Longrightarrow> filter P (remove1 d xs) = filter P xs"
  by (induction xs) auto

lemma filter_remove1_in: "P d \<Longrightarrow> filter P (remove1 d xs) = remove1 d (filter P xs)"
  by (induction xs) auto

lemma find_filter: "find P xs = (case filter P xs of [] \<Rightarrow> None | x # _ \<Rightarrow> Some x)"
  by (induction xs) auto

interpretation cache: keyed_stack dcache_inv dkey dcache_stack dcache_link dCacheRemove dcache_find
proof
  fix s :: "'a vfs" and d :: nat and k
  show "dkey (dcache_link d s) = dkey s" "dkey (dCacheRemove d s) = dkey s" by simp_all
  show "dcache_inv (dcache_link d s)" if "dcache_inv s"
    using that unfolding dcache_inv_def dkey_link
    by (auto simp: dcache_link_def dkey_def Let_def)
  show "dcache_inv (dCacheRemove d s)" if "dcache_inv s"
    using that unfolding dcache_inv_def dkey_link
    by (auto simp: dCacheRemove_def chain_remove_remove1 Let_def dest: notin_set_remove1 [rotated] split: if_splits)
  show "dcache_stack (dcache_link d s) = (dcache_stack s)(dkey s d := d # dcache_stack s (dkey s d))"
  proof
    fix k
    show "dcache_stack (dcache_link d s) k = ((dcache_stack s)(dkey s d := d # dcache_stack s (dkey s d))) k"
      by (cases "k = dkey s d") (auto simp: dcache_stack_def dcache_link_def dkey_def Let_def)
  qed
  show "dcache_stack (dCacheRemove d s) = (dcache_stack s)(dkey s d := remove1 d (dcache_stack s (dkey s d)))"
  proof
    fix k
    show "dcache_stack (dCacheRemove d s) k = ((dcache_stack s)(dkey s d := remove1 d (dcache_stack s (dkey s d)))) k"
      by (cases "k = dkey s d"; cases "bucket_of k = bucket_of (dkey s d)")
        (auto simp: dcache_stack_def dCacheRemove_def chain_remove_remove1 Let_def dkey_def filter_remove1_in filter_remove1_ne)
  qed
  show "dcache_find k s = (case dcache_stack s k of [] \<Rightarrow> None | d # _ \<Rightarrow> Some d)"
    by (simp add: dcache_find_def dcache_stack_def find_filter)
  show "dkey s d = k" if "d \<in> set (dcache_stack s k)"
    using that by (simp add: dcache_stack_def)
qed

section \<open>Sequences of operations\<close>

datatype cache_op = CachePut nat | CacheRemove nat

fun run_cache :: "'x fsenv \<Rightarrow> cache_op list \<Rightarrow> 'x vfs \<Rightarrow> 'x vfs option" where
  "run_cache E [] s = Some s"
| "run_cache E (CachePut d # ops) s = Option.bind (dCachePut E d s) (run_cache E ops)"
| "run_cache E (CacheRemove d # ops) s = run_cache E ops (dCacheRemove d s)"

text \<open>The specification: a stack of dentries per parent and name, no hashing.\<close>

fun spec_cache :: "(nat \<Rightarrow> 'k) \<Rightarrow> cache_op list \<Rightarrow> ('k \<Rightarrow> nat list) \<Rightarrow> 'k \<Rightarrow> nat list" where
  "spec_cache key [] m = m"
| "spec_cache key (CachePut d # ops) m = spec_cache key ops (m(key d := d # m (key d)))"
| "spec_cache key (CacheRemove d # ops) m = spec_cache key ops (m(key d := remove1 d (m (key d))))"

definition has_memory :: "'x fsenv \<Rightarrow> 'x vfs \<Rightarrow> bool" where
  "has_memory E s \<longleftrightarrow> (\<forall>n \<ge> nalloc s. kaddr E n \<noteq> 0)"

lemma nalloc_dcache [simp]: "nalloc (dcache_link d s) = nalloc s" "nalloc (dCacheRemove d s) = nalloc s"
  by (simp_all add: dcache_link_def dCacheRemove_def Let_def)

lemma dkey_nalloc [simp]: "dkey (s\<lparr>nalloc := n\<rparr>) = dkey s" "dcache_stack (s\<lparr>nalloc := n\<rparr>) = dcache_stack s"
  "dcache_inv (s\<lparr>nalloc := n\<rparr>) = dcache_inv s" "dcache_link d (s\<lparr>nalloc := n\<rparr>) = (dcache_link d s)\<lparr>nalloc := n\<rparr>"
  by (simp_all add: dkey_def dcache_stack_def dcache_inv_def dcache_link_def fun_eq_iff Let_def)

lemma dCachePut_eq: "dCachePut E d s =
    (if kaddr E (nalloc s) = 0 then None else Some ((dcache_link d s)\<lparr>nalloc := nalloc s + 1\<rparr>))"
  by (simp add: dCachePut_def kmalloc_def)

lemma run_cache_spec:
  assumes "dcache_inv s" and "run_cache E ops s = Some s'"
  shows "dcache_inv s' \<and> dkey s' = dkey s \<and> dcache_stack s' = spec_cache (dkey s) ops (dcache_stack s)"
  using assms
proof (induction E ops s rule: run_cache.induct)
  case (2 E d ops s)
  let ?t = "(dcache_link d s)\<lparr>nalloc := nalloc s + 1\<rparr>"
  have p: "dCachePut E d s = Some ?t" using 2(3) by (auto simp: dCachePut_eq split: if_splits)
  have inv: "dcache_inv ?t" using cache.inv_put [OF 2(2), of d] by simp
  show ?case using 2(1) [OF p inv] 2(3) p by (simp add: cache.stack_put [OF 2(2)] fun_upd_def)
next
  case (3 E d ops s)
  then show ?case by (simp add: cache.inv_remove cache.stack_remove fun_upd_def)
qed simp

lemma run_cache_total: "has_memory E s \<Longrightarrow> \<exists>s'. run_cache E ops s = Some s'"
proof (induction E ops s rule: run_cache.induct)
  case (2 E d ops s)
  let ?t = "(dcache_link d s)\<lparr>nalloc := nalloc s + 1\<rparr>"
  have "dCachePut E d s = Some ?t" "has_memory E ?t" using 2(2) by (simp_all add: dCachePut_eq has_memory_def)
  then show ?case using 2(1) by simp
next
  case (3 E d ops s)
  then show ?case by (simp add: has_memory_def)
qed simp

text \<open>
  C28. The dentry cache refines a map from parent and name to a stack of dentries.  Whatever
  sequence of insertions and removals runs on the table, it completes while there is memory, and
  a lookup of any parent and name then returns the latest dentry inserted under exactly that
  parent and name and not removed since, or NULL if there is none: collisions of the hash never
  show.
\<close>

theorem dcache_refines:
  assumes "dcache_inv s" and "has_memory E s"
  shows "\<exists>s'. run_cache E ops s = Some s' \<and> dcache_inv s' \<and>
    (\<forall>parent nm. dCacheLookup parent nm s' =
       (case spec_cache (dkey s) ops (dcache_stack s) (parent, nm) of [] \<Rightarrow> 0 | d # _ \<Rightarrow> d))"
proof -
  obtain s' where r: "run_cache E ops s = Some s'" using run_cache_total [OF assms(2)] by blast
  note sp = run_cache_spec [OF assms(1) r]
  then have "dCacheLookup parent nm s' = (case spec_cache (dkey s) ops (dcache_stack s) (parent, nm) of [] \<Rightarrow> 0 | d # _ \<Rightarrow> d)"
    for parent nm by (simp add: dCacheLookup_find cache.find_stack split: list.splits)
  then show ?thesis using r sp by blast
qed

definition null_inode :: inode_t where
  "null_inode = \<lparr>owner_id = 0, group_id = 0, iflags = 0, itype = 0, isize = 0, permissions = 0, idev_id = 0,
     iops = 0, ifile_ops = NoFops, ifs_specific = 0, ifs_word = 0, isb = 0, ipipe = 0\<rparr>"

definition null_sb :: superblock_t where
  "null_sb = \<lparr>smagic = 0, sblock_size = 0, sops = 0, sstart_lba = 0, root_inode = 0, io_inflight = 0, unmounting = False\<rparr>"

definition empty_vfs :: "'x \<Rightarrow> 'x vfs" where
  "empty_vfs x = \<lparr>fs = \<lparr>inodes = \<lambda>_. null_inode, ilive = \<lambda>_. False, sbs = \<lambda>_. null_sb, fsx = x\<rparr>,
     dentries = \<lambda>_. zero_dentry, dlive = \<lambda>_. False, dtable = \<lambda>_. [], vfs_root = 0, cwd = 0,
     files = \<lambda>_. zero_file, flive = \<lambda>_. False, fd_file = replicate 64 0, nalloc = 0\<rparr>"

definition no_iops :: "'x inode_ops" where
  "no_iops = \<lparr>io_lookup = None, io_create = None, io_mkdir = None, io_rmdir = None, io_unlink = None, io_rename = None,
     io_hardlink = None, io_mknod = None, io_symlink = None, io_readlink = None, io_getattr = None, io_setattr = None\<rparr>"

definition no_sops :: "'x sb_ops" where
  "no_sops = \<lparr>so_alloc_inode = None, so_free_inode = None, so_read_inode = None, so_write_inode = None, so_mount = None,
     so_unmount = None, so_sync = None, so_stat = None\<rparr>"

definition no_fops :: "'x file_ops" where
  "no_fops = \<lparr>fo_read = None, fo_write = None, fo_seek = None, fo_truncate = None, fo_readdir = None, fo_open = None,
     fo_close = None, fo_flush = None, fo_ioctl = None\<rparr>"

definition bare_env :: "'x fsenv" where
  "bare_env = \<lparr>kaddr = \<lambda>n. n + 100, link_frames = 3, iops_of = \<lambda>_. no_iops, sops_of = \<lambda>_. no_sops, fops_of = \<lambda>_. no_fops,
     fifo_open_op = \<lambda>_ _ f x. (- ENOTSUP, f, x), dev_table = []\<rparr>"

theorem dcache_refines_witness:
  "\<exists>s' :: unit vfs. run_cache bare_env [CachePut 5, CachePut 6, CacheRemove 6]
      ((empty_vfs ())\<lparr>dentries := (\<lambda>_. zero_dentry)(5 := zero_dentry\<lparr>dname := [97], dparent := 1\<rparr>, 6 := zero_dentry\<lparr>dname := [97], dparent := 1\<rparr>)\<rparr>)
      = Some s' \<and> dCacheLookup 1 [97] s' = 5"
proof -
  let ?s = "(empty_vfs ())\<lparr>dentries := (\<lambda>_. zero_dentry)(5 := zero_dentry\<lparr>dname := [97], dparent := 1\<rparr>, 6 := zero_dentry\<lparr>dname := [97], dparent := 1\<rparr>)\<rparr> :: unit vfs"
  have "dcache_inv ?s" by (simp add: dcache_inv_def empty_vfs_def)
  moreover have "has_memory bare_env ?s" by (simp add: has_memory_def bare_env_def)
  moreover have "dkey ?s 5 = (1, [97])" "dkey ?s 6 = (1, [97])" "dcache_stack ?s = (\<lambda>_. [])"
    by (simp_all add: dkey_def dcache_stack_def empty_vfs_def fun_eq_iff)
  ultimately show ?thesis using dcache_refines [of ?s bare_env "[CachePut 5, CachePut 6, CacheRemove 6]"] by auto
qed

end
