(* ===== verification/Vfs_Path.thy ===== *)
theory Vfs_Path
  imports Dcache
begin

text \<open>
  Dentries, mounts and path resolution (\<^verbatim>\<open>file_system/vfs_dentry.c\<close>, \<^verbatim>\<open>vfs_mount.c\<close>,
  \<^verbatim>\<open>vfs_path.c\<close>).  A result \<open>None\<close> means that the call does not return: the kernel faults on a NULL
  pointer or runs over the end of its stack, or a loop never ends.
\<close>

section \<open>Dentries (vfs_dentry.c)\<close>

definition vfs_dentry_alloc :: "'x fsenv \<Rightarrow> nat \<Rightarrow> u8 list \<Rightarrow> 'x vfs \<Rightarrow> nat \<times> 'x vfs" where
  "vfs_dentry_alloc E parent nm s =
     (if length nm = 0 \<or> length nm > VFS_NAME_MAX then (0, s)
      else
        let (d, s) = kmalloc E s in
        if d = 0 then (0, s)
        else
          let (n, s) = vfs_strdup E nm s in
          case n of
            None \<Rightarrow> (0, s)
          | Some n \<Rightarrow>
              (d, s\<lparr>dentries := (dentries s)(d := zero_dentry\<lparr>dname := n, dparent := parent\<rparr>),
                    dlive := (dlive s)(d := True)\<rparr>))"

definition vfs_dentry_free :: "nat \<Rightarrow> 'x vfs \<Rightarrow> 'x vfs" where
  "vfs_dentry_free d s =
     (if d = 0 then s else let s = dCacheRemove d s in s\<lparr>dlive := (dlive s)(d := False)\<rparr>)"

definition vfs_dentry_get :: "'x fsenv \<Rightarrow> nat \<Rightarrow> u8 list \<Rightarrow> 'x vfs \<Rightarrow> (nat \<times> 'x vfs) option" where
  "vfs_dentry_get E parent nm s =
     (if parent = 0 \<or> dinode (dentry_of s parent) = 0 then Some (0, s)
      else
        let hit = dCacheLookup parent nm s in
        if hit \<noteq> 0 then Some (hit, s)
        else
          let (d, s) = vfs_dentry_alloc E parent nm s in
          if d = 0 then Some (0, s)
          else
            let (r, s) = vfs_lookup E (dinode (dentry_of s parent)) d s in
            if r < 0 then Some (0, vfs_dentry_free d s)
            else map_option (Pair d) (dCachePut E d s))"

definition vfs_iget :: "'x fsenv \<Rightarrow> nat \<Rightarrow> 'x vfs \<Rightarrow> nat \<times> 'x vfs" where
  "vfs_iget E sb s =
     (let (i, s) = vfs_alloc_inode E sb s in
      if i = 0 then (0, s)
      else let (r, s) = vfs_read_inode E i s in if r < 0 then (0, snd (vfs_free_inode E i s)) else (i, s))"

definition vfs_iput :: "'x fsenv \<Rightarrow> nat \<Rightarrow> 'x vfs \<Rightarrow> 'x vfs" where
  "vfs_iput E i s = (if i = 0 then s else snd (vfs_free_inode E i s))"

section \<open>Mounts (vfs_mount.c)\<close>

text \<open>A dentry for the root of a file system, with its name; 0 without memory.\<close>

definition alloc_root_dentry :: "'x fsenv \<Rightarrow> u8 list \<Rightarrow> (nat \<Rightarrow> dentry_t \<Rightarrow> dentry_t) \<Rightarrow> 'x vfs \<Rightarrow> nat \<times> 'x vfs" where
  "alloc_root_dentry E nm setup s =
     (let (d, s) = kmalloc E s in
      if d = 0 then (0, s)
      else
        let (n, s) = vfs_strdup E nm s in
        case n of
          None \<Rightarrow> (0, s)
        | Some n \<Rightarrow>
            (d, s\<lparr>dentries := (dentries s)(d := setup d (zero_dentry\<lparr>dname := n\<rparr>)), dlive := (dlive s)(d := True)\<rparr>))"

definition vfs_mount_root :: "'x fsenv \<Rightarrow> nat \<Rightarrow> 'x vfs \<Rightarrow> int \<times> 'x vfs" where
  "vfs_mount_root E sb s =
     (if vfs_root s \<noteq> 0 then (- EBUSY, s)
      else
        let r = vfs_check_sb sb s in
        if r < 0 then (r, s)
        else if root_inode (sbs (fs s) sb) = 0 then (- EINVAL, s)
        else
          let i = root_inode (sbs (fs s) sb);
              (root, s) = alloc_root_dentry E [47]
                (\<lambda>d k. k\<lparr>dparent := d, dinode := i, mount_type := MOUNT_FILESYSTEM\<rparr>) s
          in if root = 0 then (- ENOMEM, s) else (0, s\<lparr>vfs_root := root\<rparr>))"

definition vfs_unmount_root :: "'x fsenv \<Rightarrow> 'x vfs \<Rightarrow> int \<times> 'x vfs" where
  "vfs_unmount_root E s =
     (if vfs_root s = 0 then (- EINVAL, s)
      else
        let i = dinode (dentry_of s (vfs_root s)) in
        if i = 0 \<or> isb (inode_of s i) = 0 then (- EINVAL, s)
        else
          let sb = isb (inode_of s i); (r, s) = vfs_sync E sb s in
          if r < 0 then (r, s)
          else
            let (r, s) = vfs_unmount E sb s in
            if r < 0 then (r, s)
            else (0, s\<lparr>dlive := (dlive s)(vfs_root s := False), vfs_root := 0\<rparr>))"

abbreviation mounted_on :: "'x vfs \<Rightarrow> nat \<Rightarrow> bool" where
  "mounted_on s d \<equiv> d \<noteq> 0 \<and> mount_type (dentry_of s d) = MOUNT_FILESYSTEM \<and> mount_dentry (dentry_of s d) \<noteq> 0"

partial_function (option) vfs_traverse_mount :: "nat \<Rightarrow> 'x vfs \<Rightarrow> nat option" where
  "vfs_traverse_mount d s = (if mounted_on s d then vfs_traverse_mount (mount_dentry (dentry_of s d)) s else Some d)"

definition vfs_mount_at :: "'x fsenv \<Rightarrow> nat \<Rightarrow> nat \<Rightarrow> 'x vfs \<Rightarrow> int \<times> 'x vfs" where
  "vfs_mount_at E target sb s =
     (if target = 0 \<or> dinode (dentry_of s target) = 0 then (- EINVAL, s)
      else if itype (inode_of s (dinode (dentry_of s target))) \<noteq> VFS_TYPE_DIR then (- ENOTDIR, s)
      else if mount_dentry (dentry_of s target) \<noteq> 0 then (- EBUSY, s)
      else
        let r = vfs_check_sb sb s in
        if r < 0 then (r, s)
        else if root_inode (sbs (fs s) sb) = 0 then (- EINVAL, s)
        else
          let t = dentry_of s target; i = root_inode (sbs (fs s) sb);
              (root, s) = alloc_root_dentry E (dname t)
                (\<lambda>d k. k\<lparr>dparent := (if dparent t \<noteq> 0 then dparent t else target), dinode := i, mount_type := MOUNT_NONE\<rparr>) s
          in if root = 0 then (- ENOMEM, s)
             else (0, upd_dentry target (\<lambda>k. k\<lparr>mount_type := MOUNT_FILESYSTEM, mount_dentry := root\<rparr>) s))"

definition vfs_unmount_at :: "'x fsenv \<Rightarrow> nat \<Rightarrow> 'x vfs \<Rightarrow> int \<times> 'x vfs" where
  "vfs_unmount_at E target s =
     (if target = 0 \<or> mount_dentry (dentry_of s target) = 0 then (- EINVAL, s)
      else
        let root = mount_dentry (dentry_of s target);
            i = dinode (dentry_of s root);
            sb = (if i \<noteq> 0 then isb (inode_of s i) else 0);
            (r, s) = (if sb \<noteq> 0 then vfs_unmount E sb s else (0, s))
        in if r < 0 then (r, s)
           else
             let s = upd_dentry target (\<lambda>k. k\<lparr>mount_dentry := 0, mount_type := MOUNT_NONE\<rparr>) s
             in (0, s\<lparr>dlive := (dlive s)(root := False)\<rparr>))"

section \<open>Path components (vfs_path.c)\<close>

abbreviation slash :: u8 where "slash \<equiv> 47"

definition absolute :: "u8 list \<Rightarrow> bool" where
  "absolute path \<longleftrightarrow> path \<noteq> [] \<and> hd path = slash"

definition path_anchor :: "u8 list option \<Rightarrow> 'x vfs \<Rightarrow> nat" where
  "path_anchor path s =
     (if path \<noteq> None \<and> absolute (the path) then vfs_root s else if cwd s \<noteq> 0 then cwd s else vfs_root s)"

fun copy_component :: "nat \<Rightarrow> nat \<Rightarrow> u8 list \<Rightarrow> int + u8 list \<times> u8 list" where
  "copy_component cap n [] = Inr ([], [])"
| "copy_component cap n (c # cs) =
     (if c = slash then Inr ([], c # cs)
      else if n + 1 \<ge> cap then Inl (- ENAMETOOLONG)
      else case copy_component cap (n + 1) cs of Inl e \<Rightarrow> Inl e | Inr (w, r) \<Rightarrow> Inr (c # w, r))"

text \<open>The component and the rest of the path; an empty component at the end of the path.\<close>

definition next_component :: "u8 list \<Rightarrow> nat \<Rightarrow> int + u8 list \<times> u8 list" where
  "next_component p cap =
     (let s = dropWhile (\<lambda>c. c = slash) p in if s = [] then Inr ([], s) else copy_component cap 0 s)"

text \<open>\<open>[46]\<close> and \<open>[46, 46]\<close> are the names \<^verbatim>\<open>.\<close> and \<^verbatim>\<open>..\<close>.\<close>

definition step :: "'x fsenv \<Rightarrow> nat \<Rightarrow> u8 list \<Rightarrow> 'x vfs \<Rightarrow> (nat \<times> 'x vfs) option" where
  "step E cur nm s =
     (if strcmp nm [46] = 0 then Some (cur, s)
      else if strcmp nm [46, 46] = 0 then
        Some (if dparent (dentry_of s cur) \<noteq> 0 then dparent (dentry_of s cur) else cur, s)
      else vfs_dentry_get E cur nm s)"

section \<open>The walk\<close>

text \<open>
  \<^verbatim>\<open>walk_inner\<close> and \<^verbatim>\<open>follow_symlinks\<close> call each other; they are one function of the call to
  make: a whole walk, the component loop of a walk, or the loop that follows links.  The value
  of \<open>Follow\<close> is the dentry, with 0 for NULL.  Reading a link when the stack holds as many link
  buffers as it has room for overruns it.
\<close>

datatype walk_call = WalkInner nat "u8 list option" nat | WalkLoop nat "u8 list" nat | Follow nat nat

definition is_symlink :: "'x vfs \<Rightarrow> nat \<Rightarrow> bool" where
  "is_symlink s d \<longleftrightarrow> d \<noteq> 0 \<and> dinode (dentry_of s d) \<noteq> 0 \<and> itype (inode_of s (dinode (dentry_of s d))) = VFS_TYPE_SYMLINK"

text \<open>The string in the target buffer after the terminator is stored behind the bytes read.\<close>

definition link_target :: "u8 list \<Rightarrow> u8 list" where
  "link_target bs =
     (let tlen = (if length bs \<ge> VFS_PATH_MAX then VFS_PATH_MAX - 1 else length bs) in takeWhile (\<lambda>c. c \<noteq> 0) (take tlen bs))"

partial_function (option) walk :: "'x fsenv \<Rightarrow> walk_call \<Rightarrow> 'x vfs \<Rightarrow> (int \<times> nat \<times> 'x vfs) option" where
  "walk E call s =
     (case call of
        WalkInner start path depth \<Rightarrow>
          (case path of
             None \<Rightarrow> Some (- EINVAL, 0, s)
           | Some path \<Rightarrow>
               if depth > VFS_SYMLINK_MAX then Some (- ELOOP, 0, s)
               else if length path \<ge> VFS_PATH_MAX then Some (- ENAMETOOLONG, 0, s)
               else
                 let cur = (if absolute path then vfs_root s else start) in
                 if cur = 0 then Some (- ENOENT, 0, s) else walk E (WalkLoop cur path depth) s)
      | WalkLoop cur p depth \<Rightarrow>
          (case next_component p (VFS_NAME_MAX + 1) of
             Inl e \<Rightarrow> Some (e, 0, s)
           | Inr (nm, rest) \<Rightarrow>
               if nm = [] then Option.bind (vfs_traverse_mount cur s) (\<lambda>d. Some (0, d, s))
               else
                 Option.bind (vfs_traverse_mount cur s) (\<lambda>d.
                 Option.bind (step E d nm s) (\<lambda>(d, s).
                   if d = 0 then Some (- ENOENT, 0, s)
                   else
                     Option.bind (walk E (Follow d depth) s) (\<lambda>(_, d, s).
                       if d = 0 then Some (- ELOOP, 0, s) else walk E (WalkLoop d rest depth) s))))
      | Follow cur depth \<Rightarrow>
          if \<not> is_symlink s cur then Some (0, cur, s)
          else if depth \<ge> VFS_SYMLINK_MAX then Some (0, 0, s)
          else if depth \<ge> link_frames E then None
          else
            (case vfs_readlink E (dinode (dentry_of s cur)) 1 (of_nat VFS_PATH_MAX) s of
               (Inl e, s) \<Rightarrow> Some (0, 0, s)
             | (Inr bs, s) \<Rightarrow>
                 let tgt = link_target bs;
                     base = (if absolute tgt then vfs_root s else dparent (dentry_of s cur))
                 in Option.bind (walk E (WalkInner base (Some tgt) (depth + 1)) s) (\<lambda>(r, nxt, s).
                      if r < 0 then Some (0, 0, s) else walk E (Follow nxt depth) s)))"

definition walk_inner :: "'x fsenv \<Rightarrow> nat \<Rightarrow> u8 list option \<Rightarrow> nat \<Rightarrow> 'x vfs \<Rightarrow> (int \<times> nat \<times> 'x vfs) option" where
  "walk_inner E start path depth s = walk E (WalkInner start path depth) s"

definition follow_symlinks :: "'x fsenv \<Rightarrow> nat \<Rightarrow> nat \<Rightarrow> 'x vfs \<Rightarrow> (nat \<times> 'x vfs) option" where
  "follow_symlinks E cur depth s = map_option snd (walk E (Follow cur depth) s)"

definition vfs_path_walk :: "'x fsenv \<Rightarrow> nat \<Rightarrow> u8 list option \<Rightarrow> 'x vfs \<Rightarrow> (int \<times> nat \<times> 'x vfs) option" where
  "vfs_path_walk E start rel s = walk_inner E (if start = 0 then vfs_root s else start) rel 0 s"

definition vfs_namei :: "'x fsenv \<Rightarrow> u8 list option \<Rightarrow> 'x vfs \<Rightarrow> (int \<times> nat \<times> 'x vfs) option" where
  "vfs_namei E path s =
     (if vfs_root s = 0 then Some (- ENOENT, 0, s) else walk_inner E (path_anchor path s) path 0 s)"

section \<open>The parent of a path\<close>

fun strip_end :: "u8 list \<Rightarrow> nat \<Rightarrow> nat" where
  "strip_end path 0 = 0"
| "strip_end path (Suc n) = (if path ! n = slash then strip_end path n else Suc n)"

fun find_last_slash :: "u8 list \<Rightarrow> nat \<Rightarrow> nat option" where
  "find_last_slash path 0 = None"
| "find_last_slash path (Suc i) = (if path ! i = slash then Some i else find_last_slash path i)"

definition vfs_namei_parent ::
  "'x fsenv \<Rightarrow> u8 list option \<Rightarrow> nat \<Rightarrow> 'x vfs \<Rightarrow> (int \<times> nat \<times> u8 list \<times> 'x vfs) option" where
  "vfs_namei_parent E path leaf_cap s =
     (case path of
        None \<Rightarrow> Some (- EINVAL, 0, [], s)
      | Some path \<Rightarrow>
          if leaf_cap = 0 then Some (- EINVAL, 0, [], s)
          else if length path = 0 \<or> length path \<ge> VFS_PATH_MAX then Some (- EINVAL, 0, [], s)
          else
            let pend = strip_end path (length path) in
            if pend = 0 then Some (- EINVAL, 0, [], s)
            else
              let ls = find_last_slash path pend;
                  begin_leaf = (case ls of None \<Rightarrow> 0 | Some i \<Rightarrow> i + 1);
                  leaf_len = pend - begin_leaf
              in if leaf_len = 0 \<or> leaf_len > VFS_NAME_MAX then Some (- ENAMETOOLONG, 0, [], s)
                 else if leaf_len + 1 > leaf_cap then Some (- ENAMETOOLONG, 0, [], s)
                 else
                   let leaf = take leaf_len (drop begin_leaf path) in
                   case ls of
                     None \<Rightarrow>
                       let anchor = path_anchor (Some path) s in
                       if anchor = 0 then Some (- ENOENT, 0, leaf, s) else Some (0, anchor, leaf, s)
                   | Some i \<Rightarrow>
                       if i = 0 then
                         if vfs_root s = 0 then Some (- ENOENT, 0, leaf, s) else Some (0, vfs_root s, leaf, s)
                       else map_option (\<lambda>(r, d, s). (r, d, leaf, s)) (vfs_namei E (Some (take i path)) s))"

end
