(* ===== verification/Vfs_File.thy ===== *)
theory Vfs_File
  imports Vfs_Path
begin

text \<open>
  Open files (\<^verbatim>\<open>file_system/vfs_file.c\<close>): dispatch to the operations of the file, opening through
  the device table, reference counts, and the directory records of \<^verbatim>\<open>vfs_getdents\<close>.
\<close>

section \<open>Dispatch\<close>

abbreviation ops_of_file :: "'x fsenv \<Rightarrow> 'x vfs \<Rightarrow> nat \<Rightarrow> 'x file_ops" where
  "ops_of_file E s f \<equiv> fops_of E (fops (files s f))"

definition upd_file :: "nat \<Rightarrow> (file_t \<Rightarrow> file_t) \<Rightarrow> 'x vfs \<Rightarrow> 'x vfs" where
  "upd_file f g s = s\<lparr>files := (files s)(f := g (files s f))\<rparr>"

definition call_file_op :: "'x file_op \<Rightarrow> nat \<Rightarrow> 'x vfs \<Rightarrow> int \<times> 'x vfs" where
  "call_file_op g f s =
     (let (r, file', fs') = g (files s f) (fs s) in (r, s\<lparr>files := (files s)(f := file'), fs := fs'\<rparr>))"

definition check_io :: "nat \<Rightarrow> u64 \<Rightarrow> u64 \<Rightarrow> 'x vfs \<Rightarrow> int" where
  "check_io f buf sz s =
     (let r = vfs_check_file f s in
      if r < 0 then r
      else if itype (inode_of s (finode (files s f))) = VFS_TYPE_DIR then - EISDIR
      else if sz > 0 \<and> buf = 0 then - EINVAL
      else if UINT64_MAX - sz < fposition (files s f) then - EINVAL
      else 0)"

definition vfs_read :: "'x fsenv \<Rightarrow> nat \<Rightarrow> u64 \<Rightarrow> u64 \<Rightarrow> 'x vfs \<Rightarrow> int \<times> 'x vfs" where
  "vfs_read E f buf sz s =
     (let r = check_io f buf sz s in
      if r < 0 then (r, s) else VFS_CALL (fo_read (ops_of_file E s f)) (\<lambda>g. call_file_op (g buf sz) f s) s)"

definition SEEK_SET :: int where "SEEK_SET = 0"
definition SEEK_CUR :: int where "SEEK_CUR = 1"
definition SEEK_END :: int where "SEEK_END = 2"

definition vfs_write :: "'x fsenv \<Rightarrow> nat \<Rightarrow> u64 \<Rightarrow> u64 \<Rightarrow> 'x vfs \<Rightarrow> int \<times> 'x vfs" where
  "vfs_write E f buf sz s =
     (let r = check_io f buf sz s in
      if r < 0 then (r, s)
      else
        let r = vfs_check_writable (finode (files s f)) s in
        if r < 0 then (r, s)
        else
          let s = (if fflags (files s f) AND O_APPEND \<noteq> 0
                   then snd (VFS_CALL (fo_seek (ops_of_file E s f)) (\<lambda>g. call_file_op (g 0 SEEK_END) f s) s) else s)
          in VFS_CALL (fo_write (ops_of_file E s f)) (\<lambda>g. call_file_op (g buf sz) f s) s)"

definition vfs_seek :: "'x fsenv \<Rightarrow> nat \<Rightarrow> int \<Rightarrow> int \<Rightarrow> 'x vfs \<Rightarrow> int \<times> 'x vfs" where
  "vfs_seek E f off whence s =
     (let r = vfs_check_file f s in
      if r < 0 then (r, s)
      else if whence \<noteq> SEEK_SET \<and> whence \<noteq> SEEK_CUR \<and> whence \<noteq> SEEK_END then (- EINVAL, s)
      else VFS_CALL (fo_seek (ops_of_file E s f)) (\<lambda>g. call_file_op (g off whence) f s) s)"

definition vfs_truncate :: "'x fsenv \<Rightarrow> nat \<Rightarrow> u64 \<Rightarrow> 'x vfs \<Rightarrow> int \<times> 'x vfs" where
  "vfs_truncate E f new_size s =
     (let r = vfs_check_file f s in
      if r < 0 then (r, s)
      else if itype (inode_of s (finode (files s f))) = VFS_TYPE_DIR then (- EISDIR, s)
      else
        let r = vfs_check_writable (finode (files s f)) s in
        if r < 0 then (r, s)
        else VFS_CALL (fo_truncate (ops_of_file E s f)) (\<lambda>g. call_file_op (g new_size) f s) s)"

text \<open>One entry of a directory: the result, and the name and inode that were stored.\<close>

definition call_readdir :: "'x fsenv \<Rightarrow> nat \<Rightarrow> 'x vfs \<Rightarrow> int \<times> (u8 list \<times> nat) \<times> 'x vfs" where
  "call_readdir E f s =
     (case fo_readdir (ops_of_file E s f) of
        None \<Rightarrow> (- ENOTSUP, ([], 0), s)
      | Some g \<Rightarrow>
          let (r, entry, file', fs') = g (files s f) (fs s)
          in (r, entry, s\<lparr>files := (files s)(f := file'), fs := fs'\<rparr>))"

definition vfs_readdir :: "'x fsenv \<Rightarrow> nat \<Rightarrow> bool \<Rightarrow> 'x vfs \<Rightarrow> int \<times> (u8 list \<times> nat) \<times> 'x vfs" where
  "vfs_readdir E f has_out s =
     (let r = vfs_check_file f s in
      if r < 0 then (r, ([], 0), s)
      else if itype (inode_of s (finode (files s f))) \<noteq> VFS_TYPE_DIR then (- ENOTDIR, ([], 0), s)
      else if \<not> has_out then (- EINVAL, ([], 0), s)
      else call_readdir E f s)"

definition opened_file :: "nat \<Rightarrow> fops_ptr \<Rightarrow> nat \<Rightarrow> file_t \<Rightarrow> file_t" where
  "opened_file i ops token k =
     k\<lparr>finode := i, fops := ops, fposition := 0, fflags := 0, fmode := 0, fref_count := 1, fprivate := token\<rparr>"

definition vfs_open :: "'x fsenv \<Rightarrow> nat \<Rightarrow> nat \<Rightarrow> u32 \<Rightarrow> 'x vfs \<Rightarrow> int \<times> 'x vfs" where
  "vfs_open E i f flags s =
     (let r = vfs_check_inode i s; ty = itype (inode_of s i) in
      if r < 0 then (r, s)
      else if f = 0 then (- EINVAL, s)
      else if ty = VFS_TYPE_FIFO then call_file_op (fifo_open_op E flags i) f s
      else if ty = VFS_TYPE_CHARDEV \<or> ty = VFS_TYPE_BLOCKDEV then
        (case devfs_lookup (ty = VFS_TYPE_BLOCKDEV) (MAJOR (idev_id (inode_of s i))) (MINOR (idev_id (inode_of s i))) (dev_table E) of
           None \<Rightarrow> (- ENODEV, s)
         | Some dev \<Rightarrow>
             let s = upd_file f (opened_file i (dv_fops dev) (dv_token dev)) s in
             case fo_open (fops_of E (dv_fops dev)) of
               None \<Rightarrow> (0, s)
             | Some g \<Rightarrow> call_file_op (g i) f s)
      else if ifile_ops (inode_of s i) = NoFops then (- ENOTSUP, s)
      else
        let s = upd_file f (opened_file i (ifile_ops (inode_of s i)) 0) s
        in VFS_CALL (fo_open (fops_of E (ifile_ops (inode_of s i)))) (\<lambda>g. call_file_op (g i) f s) s)"

definition vfs_close :: "'x fsenv \<Rightarrow> nat \<Rightarrow> 'x vfs \<Rightarrow> int \<times> 'x vfs" where
  "vfs_close E f s =
     (let r = vfs_check_file f s in
      if r < 0 then (r, s) else VFS_CALL (fo_close (ops_of_file E s f)) (\<lambda>g. call_file_op g f s) s)"

definition vfs_flush :: "'x fsenv \<Rightarrow> nat \<Rightarrow> 'x vfs \<Rightarrow> int \<times> 'x vfs" where
  "vfs_flush E f s =
     (let r = vfs_check_file f s in
      if r < 0 then (r, s) else VFS_CALL (fo_flush (ops_of_file E s f)) (\<lambda>g. call_file_op g f s) s)"

definition vfs_ioctl :: "'x fsenv \<Rightarrow> nat \<Rightarrow> u64 \<Rightarrow> u64 \<Rightarrow> 'x vfs \<Rightarrow> int \<times> 'x vfs" where
  "vfs_ioctl E f cmd arg s =
     (let r = vfs_check_file f s in
      if r < 0 then (r, s) else VFS_CALL (fo_ioctl (ops_of_file E s f)) (\<lambda>g. call_file_op (g cmd arg) f s) s)"

section \<open>Reference counts\<close>

definition vfs_file_alloc :: "'x fsenv \<Rightarrow> 'x vfs \<Rightarrow> nat \<times> 'x vfs" where
  "vfs_file_alloc E s =
     (let (f, s) = kmalloc E s in
      if f = 0 then (0, s) else (f, s\<lparr>files := (files s)(f := zero_file), flive := (flive s)(f := True)\<rparr>))"

definition vfs_file_get :: "nat \<Rightarrow> 'x vfs \<Rightarrow> 'x vfs" where
  "vfs_file_get f s = (if f = 0 then s else upd_file f (\<lambda>k. k\<lparr>fref_count := fref_count k + 1\<rparr>) s)"

definition vfs_file_put :: "'x fsenv \<Rightarrow> nat \<Rightarrow> 'x vfs \<Rightarrow> 'x vfs" where
  "vfs_file_put E f s =
     (if f = 0 then s
      else
        let old = fref_count (files s f);
            s = upd_file f (\<lambda>k. k\<lparr>fref_count := fref_count k - 1\<rparr>) s
        in if old = 1 then
             let s = snd (vfs_close E f s);
                 s = upd_file f (\<lambda>k. k\<lparr>fstash := None\<rparr>) s
             in s\<lparr>flive := (flive s)(f := False)\<rparr>
           else s)"

section \<open>Iteration\<close>

text \<open>The callback gets the entry and the state; the loop ends with the directory or an error.\<close>

partial_function (option) iterate_loop ::
  "'x fsenv \<Rightarrow> nat \<Rightarrow> (u8 list \<times> nat \<Rightarrow> 'x vfs \<Rightarrow> int \<times> 'x vfs) \<Rightarrow> 'x vfs \<Rightarrow> (int \<times> 'x vfs) option" where
  "iterate_loop E f cb s =
     (let (ret, entry, s) = call_readdir E f s in
      if ret \<le> 0 then Some (ret, s)
      else
        let (cb_ret, s) = cb entry s;
            s = (if snd entry \<noteq> 0 then vfs_iput E (snd entry) s else s)
        in if cb_ret < 0 then Some (cb_ret, s) else iterate_loop E f cb s)"

definition vfs_iterate ::
  "'x fsenv \<Rightarrow> nat \<Rightarrow> (u8 list \<times> nat \<Rightarrow> 'x vfs \<Rightarrow> int \<times> 'x vfs) option \<Rightarrow> 'x vfs \<Rightarrow> (int \<times> 'x vfs) option" where
  "vfs_iterate E f cb s =
     (case cb of
        None \<Rightarrow> Some (- EINVAL, s)
      | Some cb \<Rightarrow>
          let r = vfs_check_file f s in
          if r < 0 then Some (r, s)
          else if itype (inode_of s (finode (files s f))) \<noteq> VFS_TYPE_DIR then Some (- ENOTDIR, s)
          else iterate_loop E f cb s)"

section \<open>Directory records\<close>

definition le_bytes :: "nat \<Rightarrow> u64 \<Rightarrow> u8 list" where
  "le_bytes n w = map (\<lambda>i. ucast (drop_bit (8 * i) w)) [0..<n]"

text \<open>The packed header of a record takes 19 bytes.\<close>

definition DIRENT_ALIGN :: "nat \<Rightarrow> nat" where
  "DIRENT_ALIGN x = (x + 7) div 8 * 8"

definition dirent_len :: "u8 list \<Rightarrow> nat" where
  "dirent_len nm = DIRENT_ALIGN (19 + length nm + 1)"

definition vfs_type_to_dt :: "u64 \<Rightarrow> u8" where
  "vfs_type_to_dt ty =
     (if ty = VFS_TYPE_FILE then 8 else if ty = VFS_TYPE_DIR then 4 else if ty = VFS_TYPE_SYMLINK then 10
      else if ty = VFS_TYPE_CHARDEV then 2 else if ty = VFS_TYPE_BLOCKDEV then 6 else if ty = VFS_TYPE_FIFO then 1
      else if ty = VFS_TYPE_SOCKET then 12 else 0)"

text \<open>The bytes of the record; \<open>None\<close> when it does not fit.\<close>

definition encode_dirent :: "nat \<Rightarrow> u8 list \<Rightarrow> u64 \<Rightarrow> u8 \<Rightarrow> u8 list option" where
  "encode_dirent cap nm ino ty =
     (let reclen = dirent_len nm in
      if reclen > cap then None
      else Some (le_bytes 8 ino @ le_bytes 8 (of_nat reclen) @ le_bytes 2 (of_nat reclen) @ [ty] @ nm @ [0] @
                 replicate (reclen - (19 + length nm + 1)) 0))"

definition dirent_ino :: "nat \<Rightarrow> 'x vfs \<Rightarrow> u64" where
  "dirent_ino i s = (if i \<noteq> 0 \<and> ifs_specific (inode_of s i) \<noteq> 0 then ucast (ifs_word (inode_of s i)) else 0)"

definition dirent_type :: "nat \<Rightarrow> 'x vfs \<Rightarrow> u8" where
  "dirent_type i s = (if i \<noteq> 0 then vfs_type_to_dt (itype (inode_of s i)) else 0)"

text \<open>
  The loop of \<^verbatim>\<open>vfs_getdents\<close> with \<open>n\<close> bytes of the buffer left: the result, \<open>Inl\<close> an error and
  \<open>Inr\<close> the bytes stored from here on.  \<open>out\<close> is the number of bytes stored before.
\<close>

lemma dirent_len_pos: "20 \<le> dirent_len nm"
  by (simp add: dirent_len_def DIRENT_ALIGN_def)

function getdents_loop :: "'x fsenv \<Rightarrow> nat \<Rightarrow> nat \<Rightarrow> nat \<Rightarrow> 'x vfs \<Rightarrow> (int + u8 list) \<times> 'x vfs" where
  "getdents_loop E f n out s =
     (let (rd, (nm, i), s) = call_readdir E f s in
      if rd < 0 then (Inl rd, s)
      else if rd = 0 then (Inr [], s)
      else
        let ino = dirent_ino i s; ty = dirent_type i s in
        case encode_dirent n nm ino ty of
          None \<Rightarrow>
            if out = 0 then (Inl (- EINVAL), if i \<noteq> 0 then vfs_iput E i s else s)
            else
              let (stash, s) = kmalloc E s in
              if stash = 0 then (Inl (- ENOMEM), if i \<noteq> 0 then vfs_iput E i s else s)
              else
                let s = upd_file f (\<lambda>k. k\<lparr>fstash := encode_dirent (dirent_len nm) nm ino ty\<rparr>) s
                in (Inr [], if i \<noteq> 0 then vfs_iput E i s else s)
        | Some rec \<Rightarrow>
            let s = (if i \<noteq> 0 then vfs_iput E i s else s);
                (r, s) = getdents_loop E f (n - length rec) (out + length rec) s
            in (map_sum id (\<lambda>bs. rec @ bs) r, s))"
  by pat_completeness auto

lemma encode_dirent_length: "encode_dirent n nm ino ty = Some rec \<Longrightarrow> length rec = dirent_len nm \<and> dirent_len nm \<le> n"
proof -
  have "19 + length nm + 1 \<le> dirent_len nm" by (simp add: dirent_len_def DIRENT_ALIGN_def)
  then show "encode_dirent n nm ino ty = Some rec \<Longrightarrow> length rec = dirent_len nm \<and> dirent_len nm \<le> n"
    by (auto simp: encode_dirent_def Let_def le_bytes_def split: if_splits)
qed

lemma encode_dirent_shrinks: "encode_dirent n nm ino ty = Some rec \<Longrightarrow> n - length rec < n"
  using encode_dirent_length [of n nm ino ty rec] dirent_len_pos [of nm] by linarith

termination getdents_loop
  by (relation "measure (\<lambda>(E, f, n, out, s). n)") (auto dest: encode_dirent_shrinks)

declare getdents_loop.simps [simp del]

definition vfs_getdents :: "'x fsenv \<Rightarrow> nat \<Rightarrow> u64 \<Rightarrow> u64 \<Rightarrow> 'x vfs \<Rightarrow> (int + u8 list) \<times> 'x vfs" where
  "vfs_getdents E f buf sz s =
     (let r = vfs_check_file f s in
      if r < 0 then (Inl r, s)
      else if itype (inode_of s (finode (files s f))) \<noteq> VFS_TYPE_DIR then (Inl (- ENOTDIR), s)
      else if buf = 0 \<or> sz = 0 then (Inl (- EINVAL), s)
      else
        (case fstash (files s f) of
           None \<Rightarrow> getdents_loop E f (unat sz) 0 s
         | Some stash \<Rightarrow>
             if length stash > unat sz then (Inl (- EINVAL), s)
             else
               let s = upd_file f (\<lambda>k. k\<lparr>fstash := None\<rparr>) s;
                   (r, s) = getdents_loop E f (unat sz - length stash) (length stash) s
               in (map_sum id (\<lambda>bs. stash @ bs) r, s)))"

end
