(* ===== verification/Vfs_Path_Ops.thy ===== *)
theory Vfs_Path_Ops
  imports Vfs_File
begin

text \<open>
  The operations on paths (\<^verbatim>\<open>file_system/vfs_path_ops.c\<close>): each resolves the path, works on the
  dentry and keeps the dentry cache.
\<close>

section \<open>Working on a child\<close>

definition with_new_child ::
  "'x fsenv \<Rightarrow> u8 list option \<Rightarrow> (nat \<Rightarrow> nat \<Rightarrow> 'x vfs \<Rightarrow> int \<times> 'x vfs) \<Rightarrow> 'x vfs \<Rightarrow> (int \<times> 'x vfs) option" where
  "with_new_child E path op s =
     Option.bind (vfs_namei_parent E path (VFS_NAME_MAX + 1) s) (\<lambda>(r, parent, leaf, s).
       if r < 0 then Some (r, s)
       else if parent = 0 \<or> dinode (dentry_of s parent) = 0 then Some (- ENOENT, s)
       else
         let (d, s) = vfs_dentry_alloc E parent leaf s in
         if d = 0 then Some (- ENOMEM, s)
         else
           let (r, s) = op (dinode (dentry_of s parent)) d s in
           if r < 0 then Some (r, vfs_dentry_free d s)
           else map_option (Pair 0) (dCachePut E d s))"

definition with_existing_child ::
  "'x fsenv \<Rightarrow> u8 list option \<Rightarrow> (nat \<Rightarrow> nat \<Rightarrow> 'x vfs \<Rightarrow> int \<times> 'x vfs) \<Rightarrow> 'x vfs \<Rightarrow> (int \<times> 'x vfs) option" where
  "with_existing_child E path op s =
     Option.bind (vfs_namei_parent E path (VFS_NAME_MAX + 1) s) (\<lambda>(r, parent, leaf, s).
       if r < 0 then Some (r, s)
       else if parent = 0 \<or> dinode (dentry_of s parent) = 0 then Some (- ENOENT, s)
       else
         Option.bind (vfs_dentry_get E parent leaf s) (\<lambda>(d, s).
           if d = 0 then Some (- ENOENT, s)
           else
             let (r, s) = op (dinode (dentry_of s parent)) d s in
             if r < 0 then Some (r, s) else Some (0, vfs_dentry_free d s)))"

section \<open>The operations\<close>

definition vfs_create_path :: "'x fsenv \<Rightarrow> u8 list option \<Rightarrow> u64 \<Rightarrow> 'x vfs \<Rightarrow> (int \<times> 'x vfs) option" where
  "vfs_create_path E path perm s = with_new_child E path (\<lambda>dir d. vfs_create E dir d perm) s"

definition vfs_mkdir_path :: "'x fsenv \<Rightarrow> u8 list option \<Rightarrow> u64 \<Rightarrow> 'x vfs \<Rightarrow> (int \<times> 'x vfs) option" where
  "vfs_mkdir_path E path perm s = with_new_child E path (\<lambda>dir d. vfs_mkdir E dir d perm) s"

definition vfs_symlink_path :: "'x fsenv \<Rightarrow> u8 list option \<Rightarrow> u8 list option \<Rightarrow> 'x vfs \<Rightarrow> (int \<times> 'x vfs) option" where
  "vfs_symlink_path E tgt linkpath s =
     (if tgt = None then Some (- EINVAL, s) else with_new_child E linkpath (\<lambda>dir d. vfs_symlink E dir d tgt) s)"

definition vfs_mknod_path :: "'x fsenv \<Rightarrow> u8 list option \<Rightarrow> u64 \<Rightarrow> u64 \<Rightarrow> u32 \<Rightarrow> 'x vfs \<Rightarrow> (int \<times> 'x vfs) option" where
  "vfs_mknod_path E path ty perm dev s = with_new_child E path (\<lambda>dir d. vfs_mknod E dir d ty perm dev) s"

definition vfs_unlink_path :: "'x fsenv \<Rightarrow> u8 list option \<Rightarrow> 'x vfs \<Rightarrow> (int \<times> 'x vfs) option" where
  "vfs_unlink_path E path s = with_existing_child E path (vfs_unlink E) s"

definition vfs_rmdir_path :: "'x fsenv \<Rightarrow> u8 list option \<Rightarrow> 'x vfs \<Rightarrow> (int \<times> 'x vfs) option" where
  "vfs_rmdir_path E path s = with_existing_child E path (vfs_rmdir E) s"

definition vfs_rename_path :: "'x fsenv \<Rightarrow> u8 list option \<Rightarrow> u8 list option \<Rightarrow> 'x vfs \<Rightarrow> (int \<times> 'x vfs) option" where
  "vfs_rename_path E old_path new_path s =
     Option.bind (vfs_namei_parent E old_path (VFS_NAME_MAX + 1) s) (\<lambda>(r, old_parent, old_leaf, s).
       if r < 0 then Some (r, s)
       else
         Option.bind (vfs_namei_parent E new_path (VFS_NAME_MAX + 1) s) (\<lambda>(r, new_parent, new_leaf, s).
           if r < 0 then Some (r, s)
           else if old_parent = 0 \<or> dinode (dentry_of s old_parent) = 0 \<or>
                   new_parent = 0 \<or> dinode (dentry_of s new_parent) = 0 then Some (- ENOENT, s)
           else
             Option.bind (vfs_dentry_get E old_parent old_leaf s) (\<lambda>(old_d, s).
               if old_d = 0 then Some (- ENOENT, s)
               else
                 let (new_d, s) = vfs_dentry_alloc E new_parent new_leaf s in
                 if new_d = 0 then Some (- ENOMEM, s)
                 else
                   let (r, s) = vfs_rename E (dinode (dentry_of s old_parent)) old_d (dinode (dentry_of s new_parent)) new_d s in
                   if r < 0 then Some (r, vfs_dentry_free new_d s)
                   else map_option (\<lambda>s. (0, vfs_dentry_free old_d s)) (dCachePut E new_d s))))"

definition vfs_readlink_path :: "'x fsenv \<Rightarrow> u8 list option \<Rightarrow> u64 \<Rightarrow> u64 \<Rightarrow> 'x vfs \<Rightarrow> ((int + u8 list) \<times> 'x vfs) option" where
  "vfs_readlink_path E path buf sz s =
     Option.bind (vfs_namei E path s) (\<lambda>(r, d, s).
       if r < 0 then Some (Inl r, s)
       else if d = 0 \<or> dinode (dentry_of s d) = 0 then Some (Inl (- ENOENT), s)
       else Some (vfs_readlink E (dinode (dentry_of s d)) buf sz s))"

definition vfs_stat_path ::
  "'x fsenv \<Rightarrow> u8 list option \<Rightarrow> fs_inode_stat option \<Rightarrow> 'x vfs \<Rightarrow> (int \<times> fs_inode_stat option \<times> 'x vfs) option" where
  "vfs_stat_path E path out s =
     Option.bind (vfs_namei E path s) (\<lambda>(r, d, s).
       if r < 0 then Some (r, out, s)
       else if d = 0 \<or> dinode (dentry_of s d) = 0 then Some (- ENOENT, out, s)
       else Some (vfs_getattr E (dinode (dentry_of s d)) out s))"

text \<open>Opening: the resolution, with creation if the flags ask for it, and the file.\<close>

definition resolve_or_create :: "'x fsenv \<Rightarrow> u8 list option \<Rightarrow> u32 \<Rightarrow> u64 \<Rightarrow> 'x vfs \<Rightarrow> (int \<times> nat \<times> 'x vfs) option" where
  "resolve_or_create E path flags mode s =
     Option.bind (vfs_namei E path s) (\<lambda>(r, d, s).
       if r = - ENOENT \<and> flags AND O_CREAT \<noteq> 0 then
         Option.bind (vfs_create_path E path mode s) (\<lambda>(r, s). if r < 0 then Some (r, 0, s) else vfs_namei E path s)
       else Some (r, d, s))"

definition vfs_open_path :: "'x fsenv \<Rightarrow> u8 list option \<Rightarrow> u32 \<Rightarrow> u64 \<Rightarrow> 'x vfs \<Rightarrow> (int \<times> nat \<times> 'x vfs) option" where
  "vfs_open_path E path flags mode s =
     Option.bind (resolve_or_create E path flags mode s) (\<lambda>(r, d, s).
       if r < 0 then Some (r, 0, s)
       else if d = 0 \<or> dinode (dentry_of s d) = 0 then Some (- ENOENT, 0, s)
       else
         let (f, s) = vfs_file_alloc E s in
         if f = 0 then Some (- ENOMEM, 0, s)
         else
           let (r, s) = vfs_open E (dinode (dentry_of s d)) f flags s in
           if r < 0 then Some (r, 0, s\<lparr>flive := (flive s)(f := False)\<rparr>)
           else
             let s = upd_file f (\<lambda>k. k\<lparr>fflags := flags, fmode := ucast mode\<rparr>) s in
             if flags AND O_TRUNC \<noteq> 0 then
               let (tr, s) = vfs_truncate E f 0 s in
               if tr < 0 then Some (tr, 0, vfs_file_put E f s) else Some (0, f, s)
             else Some (0, f, s))"

end
