(* ===== verification/Vfs_Syscalls.thy ===== *)
theory Vfs_Syscalls
  imports Vfs_Path_Ops
begin

text \<open>
  The descriptor table (\<^verbatim>\<open>interrupts/fd_table.c\<close>) and the file system calls
  (\<^verbatim>\<open>interrupts/vfs_syscalls.c\<close>) of the running task.  A path argument is the pointer and the
  string it points to; a buffer that a call fills is returned as the bytes stored. The
  \<^verbatim>\<open>flags\<close> field of a descriptor slot, which every write sets to 0 and nothing reads, is left out.
\<close>

section \<open>Descriptors\<close>

definition STDERR_FILENO :: nat where "STDERR_FILENO = 2"

definition valid_fd :: "int \<Rightarrow> 'x vfs \<Rightarrow> int" where
  "valid_fd fd s = (if fd \<ge> 0 \<and> fd < int (length (fd_file s)) then 0 else - EBADF)"

fun first_free_fd :: "nat \<Rightarrow> nat list \<Rightarrow> nat option" where
  "first_free_fd i [] = None"
| "first_free_fd i (f # rest) = (if i > STDERR_FILENO \<and> f = 0 then Some i else first_free_fd (Suc i) rest)"

definition fd_alloc :: "nat \<Rightarrow> 'x vfs \<Rightarrow> int \<times> 'x vfs" where
  "fd_alloc f s =
     (if f = 0 then (- EINVAL, s)
      else case first_free_fd 0 (fd_file s) of
        None \<Rightarrow> (- EMFILE, s)
      | Some i \<Rightarrow> (int i, s\<lparr>fd_file := (fd_file s)[i := f]\<rparr>))"

definition fd_lookup :: "int \<Rightarrow> 'x vfs \<Rightarrow> nat" where
  "fd_lookup fd s = (if valid_fd fd s < 0 then 0 else fd_file s ! nat fd)"

definition fd_alloc_at :: "'x fsenv \<Rightarrow> nat \<Rightarrow> int \<Rightarrow> 'x vfs \<Rightarrow> int \<times> 'x vfs" where
  "fd_alloc_at E f fd s =
     (if f = 0 then (- EINVAL, s)
      else if valid_fd fd s < 0 then (- EBADF, s)
      else
        let prev = fd_file s ! nat fd;
            s = (if prev \<noteq> 0 then vfs_file_put E prev (s\<lparr>fd_file := (fd_file s)[nat fd := 0]\<rparr>) else s)
        in (fd, s\<lparr>fd_file := (fd_file s)[nat fd := f]\<rparr>))"

definition fd_release :: "int \<Rightarrow> 'x vfs \<Rightarrow> nat \<times> 'x vfs" where
  "fd_release fd s =
     (if valid_fd fd s < 0 then (0, s)
      else
        let f = fd_file s ! nat fd in
        if f = 0 then (0, s) else (f, s\<lparr>fd_file := (fd_file s)[nat fd := 0]\<rparr>))"

section \<open>Arguments\<close>

record user_str =
  up_ptr :: u64
  up_str :: "u8 list"

definition path_of :: "user_str \<Rightarrow> u8 list option" where
  "path_of u = (if up_ptr u = 0 then None else Some (up_str u))"

definition KERNEL_SPACE :: u64 where "KERNEL_SPACE = 0xFFFF800000000000"

section \<open>Files\<close>

definition SysOpen :: "'x fsenv \<Rightarrow> user_str \<Rightarrow> u32 \<Rightarrow> u64 \<Rightarrow> 'x vfs \<Rightarrow> (int \<times> 'x vfs) option" where
  "SysOpen E path flags mode s =
     (if up_ptr path = 0 then Some (- EINVAL, s)
      else
        Option.bind (vfs_open_path E (path_of path) flags mode s) (\<lambda>(r, fp, s).
          if r < 0 then Some (r, s)
          else
            let (fd, s) = fd_alloc fp s in
            if fd < 0 then Some (fd, vfs_file_put E fp s) else Some (fd, s)))"

definition SysClose :: "'x fsenv \<Rightarrow> int \<Rightarrow> 'x vfs \<Rightarrow> int \<times> 'x vfs" where
  "SysClose E fd s =
     (let (fp, s) = fd_release fd s in if fp = 0 then (- EBADF, s) else (0, vfs_file_put E fp s))"

definition SysFRead :: "'x fsenv \<Rightarrow> int \<Rightarrow> u64 \<Rightarrow> u64 \<Rightarrow> 'x vfs \<Rightarrow> int \<times> 'x vfs" where
  "SysFRead E fd buf sz s =
     (let fp = fd_lookup fd s in
      if fp = 0 then (- EBADF, s)
      else if buf = 0 \<and> sz > 0 then (- EINVAL, s)
      else vfs_read E fp buf sz s)"

definition SysFWrite :: "'x fsenv \<Rightarrow> int \<Rightarrow> u64 \<Rightarrow> u64 \<Rightarrow> 'x vfs \<Rightarrow> int \<times> 'x vfs" where
  "SysFWrite E fd buf sz s =
     (let fp = fd_lookup fd s in
      if fp = 0 then (- EBADF, s)
      else if buf = 0 \<and> sz > 0 then (- EINVAL, s)
      else vfs_write E fp buf sz s)"

definition SysLseek :: "'x fsenv \<Rightarrow> int \<Rightarrow> int \<Rightarrow> int \<Rightarrow> 'x vfs \<Rightarrow> int \<times> 'x vfs" where
  "SysLseek E fd off whence s =
     (let fp = fd_lookup fd s in if fp = 0 then (- EBADF, s) else vfs_seek E fp off whence s)"

definition SysTruncate :: "'x fsenv \<Rightarrow> int \<Rightarrow> u64 \<Rightarrow> 'x vfs \<Rightarrow> int \<times> 'x vfs" where
  "SysTruncate E fd new_size s =
     (let fp = fd_lookup fd s in if fp = 0 then (- EBADF, s) else vfs_truncate E fp new_size s)"

definition SysIoctl :: "'x fsenv \<Rightarrow> int \<Rightarrow> u64 \<Rightarrow> u64 \<Rightarrow> 'x vfs \<Rightarrow> int \<times> 'x vfs" where
  "SysIoctl E fd cmd arg s =
     (let fp = fd_lookup fd s in if fp = 0 then (- EBADF, s) else vfs_ioctl E fp cmd arg s)"

definition SysGetdents :: "'x fsenv \<Rightarrow> int \<Rightarrow> u64 \<Rightarrow> u64 \<Rightarrow> 'x vfs \<Rightarrow> (int + u8 list) \<times> 'x vfs" where
  "SysGetdents E fd buf sz s =
     (if buf = 0 \<or> sz = 0 then (Inl (- EINVAL), s)
      else if buf \<ge> KERNEL_SPACE then (Inl (- EINVAL), s)
      else
        let fp = fd_lookup fd s in
        if fp = 0 then (Inl (- EBADF), s) else vfs_getdents E fp buf sz s)"

section \<open>Paths\<close>

definition SysUnlink :: "'x fsenv \<Rightarrow> user_str \<Rightarrow> 'x vfs \<Rightarrow> (int \<times> 'x vfs) option" where
  "SysUnlink E path s = (if up_ptr path = 0 then Some (- EINVAL, s) else vfs_unlink_path E (path_of path) s)"

definition SysMkdir :: "'x fsenv \<Rightarrow> user_str \<Rightarrow> u64 \<Rightarrow> 'x vfs \<Rightarrow> (int \<times> 'x vfs) option" where
  "SysMkdir E path perm s = (if up_ptr path = 0 then Some (- EINVAL, s) else vfs_mkdir_path E (path_of path) perm s)"

definition SysRmdir :: "'x fsenv \<Rightarrow> user_str \<Rightarrow> 'x vfs \<Rightarrow> (int \<times> 'x vfs) option" where
  "SysRmdir E path s = (if up_ptr path = 0 then Some (- EINVAL, s) else vfs_rmdir_path E (path_of path) s)"

definition SysRename :: "'x fsenv \<Rightarrow> user_str \<Rightarrow> user_str \<Rightarrow> 'x vfs \<Rightarrow> (int \<times> 'x vfs) option" where
  "SysRename E old_path new_path s =
     (if up_ptr old_path = 0 \<or> up_ptr new_path = 0 then Some (- EINVAL, s)
      else vfs_rename_path E (path_of old_path) (path_of new_path) s)"

definition SysSymlink :: "'x fsenv \<Rightarrow> user_str \<Rightarrow> user_str \<Rightarrow> 'x vfs \<Rightarrow> (int \<times> 'x vfs) option" where
  "SysSymlink E tgt linkpath s =
     (if up_ptr tgt = 0 \<or> up_ptr linkpath = 0 then Some (- EINVAL, s)
      else vfs_symlink_path E (path_of tgt) (path_of linkpath) s)"

definition SysReadlink :: "'x fsenv \<Rightarrow> user_str \<Rightarrow> u64 \<Rightarrow> u64 \<Rightarrow> 'x vfs \<Rightarrow> ((int + u8 list) \<times> 'x vfs) option" where
  "SysReadlink E path buf sz s =
     (if up_ptr path = 0 \<or> buf = 0 \<or> sz = 0 then Some (Inl (- EINVAL), s)
      else vfs_readlink_path E (path_of path) buf sz s)"

definition SysStat :: "'x fsenv \<Rightarrow> user_str \<Rightarrow> fs_inode_stat option \<Rightarrow> 'x vfs \<Rightarrow> (int \<times> fs_inode_stat option \<times> 'x vfs) option" where
  "SysStat E path out s =
     (if up_ptr path = 0 \<or> out = None then Some (- EINVAL, out, s) else vfs_stat_path E (path_of path) out s)"

definition SysSync :: "'x fsenv \<Rightarrow> 'x vfs \<Rightarrow> int \<times> 'x vfs" where
  "SysSync E s =
     (if vfs_root s = 0 \<or> dinode (dentry_of s (vfs_root s)) = 0 then (- EINVAL, s)
      else vfs_sync E (isb (inode_of s (dinode (dentry_of s (vfs_root s))))) s)"

definition SysMknod :: "'x fsenv \<Rightarrow> user_str \<Rightarrow> u64 \<Rightarrow> u64 \<Rightarrow> u32 \<Rightarrow> 'x vfs \<Rightarrow> (int \<times> 'x vfs) option" where
  "SysMknod E path ty perm dev s =
     (if up_ptr path = 0 then Some (- EINVAL, s) else vfs_mknod_path E (path_of path) ty perm dev s)"

section \<open>The current directory\<close>

definition SysChdir :: "'x fsenv \<Rightarrow> user_str \<Rightarrow> 'x vfs \<Rightarrow> (int \<times> 'x vfs) option" where
  "SysChdir E path s =
     (if up_ptr path = 0 then Some (- EINVAL, s)
      else if up_ptr path \<ge> KERNEL_SPACE then Some (- EINVAL, s)
      else
        Option.bind (vfs_namei E (path_of path) s) (\<lambda>(r, d, s).
          if r < 0 then Some (r, s)
          else if d = 0 \<or> dinode (dentry_of s d) = 0 then Some (- ENOENT, s)
          else if itype (inode_of s (dinode (dentry_of s d))) \<noteq> VFS_TYPE_DIR then Some (- ENOTDIR, s)
          else Some (0, s\<lparr>cwd := d\<rparr>)))"

definition MAX_DEPTH :: nat where "MAX_DEPTH = 128"

text \<open>
  The walk towards the root, with \<open>n\<close> places of the stack left: the dentries from the root side,
  \<open>None\<close> when the stack is full.
\<close>

fun collect_parents :: "nat \<Rightarrow> nat \<Rightarrow> nat list \<Rightarrow> 'x vfs \<Rightarrow> nat list option" where
  "collect_parents n d acc s =
     (if d = vfs_root s \<or> d = 0 then Some acc
      else case n of 0 \<Rightarrow> None | Suc n \<Rightarrow> collect_parents n (dparent (dentry_of s d)) (d # acc) s)"

text \<open>Appending \<^verbatim>\<open>/name\<close> for each dentry, with room for the terminator.\<close>

fun compose_path :: "nat \<Rightarrow> u8 list \<Rightarrow> nat list \<Rightarrow> 'x vfs \<Rightarrow> u8 list option" where
  "compose_path sz acc [] s = Some (acc @ [0])"
| "compose_path sz acc (d # ds) s =
     (let nm = dname (dentry_of s d) in
      if length acc + 1 + length nm + 1 > sz then None else compose_path sz (acc @ slash # nm) ds s)"

definition SysGetcwd :: "u64 \<Rightarrow> u64 \<Rightarrow> 'x vfs \<Rightarrow> int + u8 list" where
  "SysGetcwd user_buf sz s =
     (if user_buf = 0 \<or> sz = 0 then Inl (- EINVAL)
      else if user_buf \<ge> KERNEL_SPACE then Inl (- EINVAL)
      else
        let start = (if cwd s \<noteq> 0 then cwd s else vfs_root s) in
        if start = 0 then Inl (- ENOENT)
        else case collect_parents MAX_DEPTH start [] s of
          None \<Rightarrow> Inl (- ENAMETOOLONG)
        | Some [] \<Rightarrow> if sz < 2 then Inl (- ERANGE) else Inr [slash, 0]
        | Some ds \<Rightarrow>
            (case compose_path (unat sz) [] ds s of None \<Rightarrow> Inl (- ERANGE) | Some bs \<Rightarrow> Inr bs))"

end
