(* ===== verification/Vfs_Path_Inv.thy ===== *)
theory Vfs_Path_Inv
  imports Vfs_Path
begin

text \<open>
  The shape of the dentry tree that path resolution needs and keeps: parents, mounted roots and
  the root are not symbolic links, mounts do not form a cycle, cached dentries are allocated.
  Under it every path walk returns.
\<close>

section \<open>What a file system may do\<close>

text \<open>An operation leaves the allocated inodes allocated and of the same type.\<close>

definition keeps :: "'x fsys \<Rightarrow> 'x fsys \<Rightarrow> bool" where
  "keeps a b \<longleftrightarrow> (\<forall>j. ilive a j \<longrightarrow> ilive b j \<and> itype (inodes b j) = itype (inodes a j))"

lemma keeps_refl [simp]: "keeps a a"
  by (simp add: keeps_def)

lemma keeps_trans: "keeps a b \<Longrightarrow> keeps b c \<Longrightarrow> keeps a c"
  by (simp add: keeps_def)

text \<open>A lookup delivers an allocated inode, or none; reading a link changes no type.\<close>

definition lookups_ok :: "'x fsenv \<Rightarrow> bool" where
  "lookups_ok E \<longleftrightarrow>
     (\<forall>p f dir nm a r i b. io_lookup (iops_of E p) = Some f \<longrightarrow> f dir (nm, 0) a = (r, i, b) \<longrightarrow>
        keeps a b \<and> (i \<noteq> 0 \<longrightarrow> ilive b i)) \<and>
     (\<forall>p f i n a r b. io_readlink (iops_of E p) = Some f \<longrightarrow> f i n a = (r, b) \<longrightarrow> keeps a b)"

text \<open>There is memory, and \<^verbatim>\<open>kmalloc\<close> never returns an address that is in use.\<close>

definition fresh_memory :: "'x fsenv \<Rightarrow> 'x vfs \<Rightarrow> bool" where
  "fresh_memory E s \<longleftrightarrow>
     (\<forall>n \<ge> nalloc s. kaddr E n \<noteq> 0 \<and> \<not> dlive s (kaddr E n) \<and> (\<forall>m \<ge> nalloc s. kaddr E m = kaddr E n \<longrightarrow> m = n))"

section \<open>The tree\<close>

definition good_dentry :: "'x vfs \<Rightarrow> nat \<Rightarrow> bool" where
  "good_dentry s d \<longleftrightarrow> d \<noteq> 0 \<and> dlive s d \<and> \<not> is_symlink s d"

definition mount_rel :: "'x vfs \<Rightarrow> (nat \<times> nat) set" where
  "mount_rel s = {(m, d). dlive s d \<and> mounted_on s d \<and> m = mount_dentry (dentry_of s d)}"

definition dentry_ok :: "'x vfs \<Rightarrow> nat \<Rightarrow> bool" where
  "dentry_ok s d \<longleftrightarrow> d \<noteq> 0 \<and> (dinode (dentry_of s d) \<noteq> 0 \<longrightarrow> ilive (fs s) (dinode (dentry_of s d))) \<and>
     (dparent (dentry_of s d) \<noteq> 0 \<longrightarrow> good_dentry s (dparent (dentry_of s d))) \<and>
     (mount_dentry (dentry_of s d) \<noteq> 0 \<longrightarrow> good_dentry s (mount_dentry (dentry_of s d)))"

definition tree_inv :: "'x vfs \<Rightarrow> bool" where
  "tree_inv s \<longleftrightarrow> (\<forall>d. dlive s d \<longrightarrow> dentry_ok s d) \<and> (\<forall>b. \<forall>d \<in> set (dtable s b). dlive s d) \<and> dcache_inv s \<and>
     (vfs_root s \<noteq> 0 \<longrightarrow> good_dentry s (vfs_root s)) \<and> (cwd s \<noteq> 0 \<longrightarrow> good_dentry s (cwd s)) \<and> wf (mount_rel s)"

text \<open>What a walk does to the state: it adds dentries and inodes.\<close>

definition grows :: "'x vfs \<Rightarrow> 'x vfs \<Rightarrow> bool" where
  "grows s s' \<longleftrightarrow> vfs_root s' = vfs_root s \<and> cwd s' = cwd s \<and> keeps (fs s) (fs s') \<and>
     (\<forall>d. dlive s d \<longrightarrow> dlive s' d \<and> dentry_of s' d = dentry_of s d)"

lemma grows_refl [simp]: "grows s s"
  by (simp add: grows_def)

lemma grows_trans: "grows a b \<Longrightarrow> grows b c \<Longrightarrow> grows a c"
  by (auto simp: grows_def intro: keeps_trans)

lemma grows_symlink:
  assumes "tree_inv s" and "grows s s'" and "dlive s d"
  shows "is_symlink s' d = is_symlink s d"
proof -
  have "dentry_of s' d = dentry_of s d" "keeps (fs s) (fs s')" using assms(2,3) by (auto simp: grows_def)
  moreover have "dinode (dentry_of s d) \<noteq> 0 \<longrightarrow> ilive (fs s) (dinode (dentry_of s d))"
    using assms(1,3) by (simp add: tree_inv_def dentry_ok_def)
  ultimately show ?thesis by (auto simp: is_symlink_def keeps_def)
qed

lemma grows_good: "tree_inv s \<Longrightarrow> grows s s' \<Longrightarrow> good_dentry s d \<Longrightarrow> good_dentry s' d"
  using grows_symlink [of s s' d] by (simp add: good_dentry_def grows_def)

lemma tree_invD:
  assumes "tree_inv s" and "dlive s d"
  shows "d \<noteq> 0" and "dparent (dentry_of s d) \<noteq> 0 \<Longrightarrow> good_dentry s (dparent (dentry_of s d))"
    and "mount_dentry (dentry_of s d) \<noteq> 0 \<Longrightarrow> good_dentry s (mount_dentry (dentry_of s d))"
proof -
  have "dentry_ok s d" using assms by (simp add: tree_inv_def)
  then show "d \<noteq> 0" and "dparent (dentry_of s d) \<noteq> 0 \<Longrightarrow> good_dentry s (dparent (dentry_of s d))"
    and "mount_dentry (dentry_of s d) \<noteq> 0 \<Longrightarrow> good_dentry s (mount_dentry (dentry_of s d))"
    by (simp_all add: dentry_ok_def)
qed

section \<open>Mounts\<close>

lemma traverse_unmounted: "\<not> mounted_on s d \<Longrightarrow> vfs_traverse_mount d s = Some d"
  by (subst vfs_traverse_mount.simps) (rule if_not_P)

lemma traverse_returns:
  assumes "tree_inv s" and "good_dentry s d"
  shows "\<exists>m. vfs_traverse_mount d s = Some m \<and> good_dentry s m"
proof -
  have "wf (mount_rel s)" using assms(1) by (simp add: tree_inv_def)
  then show ?thesis using assms(2)
  proof (induction d rule: wf_induct_rule)
    case (less d)
    show ?case
    proof (cases "mounted_on s d")
      case True
      let ?m = "mount_dentry (dentry_of s d)"
      have "dlive s d" using less.prems by (simp add: good_dentry_def)
      then have "good_dentry s ?m" "(?m, d) \<in> mount_rel s"
        using tree_invD(3) [OF assms(1)] True by (auto simp: mount_rel_def)
      then show ?thesis using less.IH True by (subst vfs_traverse_mount.simps) simp
    qed (use less.prems in \<open>simp add: traverse_unmounted\<close>)
  qed
qed

section \<open>Adding a dentry\<close>

lemma dcache_inv_frame:
  assumes "dcache_inv s" and "dtable s' = dtable s" and "\<And>b d. d \<in> set (dtable s b) \<Longrightarrow> dentry_of s' d = dentry_of s d"
  shows "dcache_inv s'"
  using assms by (auto simp: dcache_inv_def dkey_def)

lemma grows_tree_inv:
  assumes inv: "tree_inv s" and g: "grows s s'" and tab: "dtable s' = dtable s"
    and new: "\<And>d. dlive s' d \<Longrightarrow> \<not> dlive s d \<Longrightarrow> dentry_ok s' d \<and> mount_dentry (dentry_of s' d) = 0"
  shows "tree_inv s'"
proof -
  have old: "dentry_of s' d = dentry_of s d" "dlive s' d" if "dlive s d" for d
    using g that unfolding grows_def by blast+
  have cached: "dlive s d" if "d \<in> set (dtable s b)" for b d using inv that unfolding tree_inv_def by blast
  have gd: "good_dentry s d \<Longrightarrow> good_dentry s' d" for d by (rule grows_good [OF inv g])
  have ok: "dentry_ok s' d" if d: "dlive s' d" for d
  proof (cases "dlive s d")
    case True
    then have "dentry_ok s d" using inv by (simp add: tree_inv_def)
    then have a: "d \<noteq> 0" "dinode (dentry_of s d) \<noteq> 0 \<longrightarrow> ilive (fs s) (dinode (dentry_of s d))"
      "dparent (dentry_of s d) \<noteq> 0 \<longrightarrow> good_dentry s (dparent (dentry_of s d))"
      "mount_dentry (dentry_of s d) \<noteq> 0 \<longrightarrow> good_dentry s (mount_dentry (dentry_of s d))"
      by (simp_all add: dentry_ok_def)
    have "keeps (fs s) (fs s')" using g by (simp add: grows_def)
    then show ?thesis unfolding dentry_ok_def old(1) [OF True] using a gd by (simp add: keeps_def)
  qed (rule conjunct1 [OF new [OF d]])
  have "mount_rel s' \<subseteq> mount_rel s"
  proof
    fix x assume "x \<in> mount_rel s'"
    then obtain m d where x: "x = (m, d)" "dlive s' d" "mounted_on s' d" "m = mount_dentry (dentry_of s' d)"
      by (auto simp: mount_rel_def)
    have "dlive s d"
    proof (rule ccontr)
      assume "\<not> dlive s d"
      then have "mount_dentry (dentry_of s' d) = 0" using new [OF x(2)] by simp
      then show False using x(3) by simp
    qed
    then show "x \<in> mount_rel s" using x(3,4) unfolding x(1) mount_rel_def old(1) [OF \<open>dlive s d\<close>] by simp
  qed
  moreover have "wf (mount_rel s)" using inv by (simp add: tree_inv_def)
  ultimately have m: "wf (mount_rel s')" by (rule wf_subset [rotated])
  have c: "dcache_inv s'"
  proof (rule dcache_inv_frame [OF _ tab])
    show "dcache_inv s" using inv by (simp add: tree_inv_def)
    show "dentry_of s' d = dentry_of s d" if "d \<in> set (dtable s b)" for b d by (rule old(1) [OF cached [OF that]])
  qed
  have r: "vfs_root s' \<noteq> 0 \<longrightarrow> good_dentry s' (vfs_root s')" "cwd s' \<noteq> 0 \<longrightarrow> good_dentry s' (cwd s')"
  proof -
    have e: "vfs_root s' = vfs_root s" "cwd s' = cwd s" using g by (simp_all add: grows_def)
    have "vfs_root s \<noteq> 0 \<longrightarrow> good_dentry s (vfs_root s)" "cwd s \<noteq> 0 \<longrightarrow> good_dentry s (cwd s)"
      using inv by (simp_all add: tree_inv_def)
    then show "vfs_root s' \<noteq> 0 \<longrightarrow> good_dentry s' (vfs_root s')" "cwd s' \<noteq> 0 \<longrightarrow> good_dentry s' (cwd s')"
      unfolding e using gd by blast+
  qed
  have t: "dlive s' d" if "d \<in> set (dtable s' b)" for b d using old(2) [OF cached] that unfolding tab .
  show ?thesis unfolding tree_inv_def
    by (intro conjI allI impI ballI) (rule ok, assumption, erule t, rule c, erule r(1) [rule_format], erule r(2) [rule_format], rule m)
qed

lemma fresh_memoryD:
  assumes "fresh_memory E s" and "nalloc s \<le> n"
  shows "kaddr E n \<noteq> 0" and "\<not> dlive s (kaddr E n)"
  using assms by (simp_all add: fresh_memory_def)

text \<open>Taking one or two allocations, the first of which becomes a dentry.\<close>

lemma fresh_memory_alloc:
  assumes "fresh_memory E s" and "nalloc s < nalloc s'"
    and "\<And>d. dlive s' d \<Longrightarrow> dlive s d \<or> d = kaddr E (nalloc s)"
  shows "fresh_memory E s'"
proof -
  have f: "kaddr E n \<noteq> 0" "\<not> dlive s (kaddr E n)" "\<And>m. nalloc s \<le> m \<Longrightarrow> kaddr E m = kaddr E n \<Longrightarrow> m = n" if "nalloc s \<le> n" for n
    using assms(1) that by (auto simp: fresh_memory_def)
  have "\<not> dlive s' (kaddr E n)" if "nalloc s' \<le> n" for n
  proof
    assume "dlive s' (kaddr E n)"
    then have "kaddr E n = kaddr E (nalloc s)" using assms(3) f(2) [of n] that assms(2) by force
    then show False using f(3) [of "nalloc s" n] that assms(2) by simp
  qed
  then show ?thesis using f assms(2) by (auto simp: fresh_memory_def)
qed

text \<open>The state of a walk.\<close>

definition walk_ok :: "'x fsenv \<Rightarrow> 'x vfs \<Rightarrow> bool" where
  "walk_ok E s \<longleftrightarrow> tree_inv s \<and> fresh_memory E s \<and> lookups_ok E"

lemma alloc_spec:
  assumes ok: "walk_ok E s" and p: "good_dentry s parent" and e: "vfs_dentry_alloc E parent nm s = (d, s')"
  shows "d = 0 \<and> s' = s \<or>
    d = kaddr E (nalloc s) \<and> d \<noteq> 0 \<and> \<not> dlive s d \<and>
    s' = s\<lparr>dentries := (dentries s)(d := zero_dentry\<lparr>dname := nm, dparent := parent\<rparr>), dlive := (dlive s)(d := True), nalloc := nalloc s + 2\<rparr>"
proof -
  have "kaddr E (nalloc s) \<noteq> 0" "kaddr E (nalloc s + 1) \<noteq> 0" "\<not> dlive s (kaddr E (nalloc s))"
    using ok fresh_memoryD [of E s] by (simp_all add: walk_ok_def)
  then show ?thesis using e
    by (auto simp: vfs_dentry_alloc_def kmalloc_def vfs_strdup_def Let_def split: if_splits)
qed

lemma lookup_spec:
  assumes ok: "lookups_ok E" and e: "vfs_lookup E i d s = (r, s')" and z: "dinode (dentry_of s d) = 0"
  shows "\<exists>fs' j. s' = s\<lparr>fs := fs', dentries := (dentries s)(d := (dentries s d)\<lparr>dinode := j\<rparr>)\<rparr> \<and> keeps (fs s) fs' \<and> (j \<noteq> 0 \<longrightarrow> ilive fs' j)"
proof (cases "check_dir_dentry i d s < 0 \<or> io_lookup (ops_of_inode E s i) = None")
  case True
  then have "s' = s" using e by (auto simp: vfs_lookup_def VFS_CALL_def Let_def split: if_splits)
  moreover have "(dentries s)(d := (dentries s d)\<lparr>dinode := 0\<rparr>) = dentries s" using z by (simp add: fun_eq_iff)
  ultimately show ?thesis by (intro exI [of _ "fs s"] exI [of _ 0]) simp
next
  case False
  then obtain f where f: "io_lookup (ops_of_inode E s i) = Some f" by auto
  obtain r' j b where c: "f i (dname (dentry_of s d), 0) (fs s) = (r', j, b)" by (metis prod_cases3)
  have "keeps (fs s) b \<and> (j \<noteq> 0 \<longrightarrow> ilive b j)" using ok f c by (auto simp: lookups_ok_def)
  moreover have "s' = s\<lparr>fs := b, dentries := (dentries s)(d := (dentries s d)\<lparr>dinode := j\<rparr>)\<rparr>"
    using e False f c z by (auto simp: vfs_lookup_def VFS_CALL_def Let_def call_dentry_op_def upd_dentry_def)
  ultimately show ?thesis by blast
qed

section \<open>A step\<close>

lemma walk_okD: "walk_ok E s \<Longrightarrow> tree_inv s" "walk_ok E s \<Longrightarrow> fresh_memory E s" "walk_ok E s \<Longrightarrow> lookups_ok E"
  by (simp_all add: walk_ok_def)

lemma dcache_hit:
  assumes "tree_inv s" and "dCacheLookup p nm s \<noteq> 0"
  shows "dlive s (dCacheLookup p nm s)"
proof -
  obtain d where f: "dcache_find (p, nm) s = Some d" "dCacheLookup p nm s = d"
    using assms(2) by (auto simp: dCacheLookup_find split: option.splits)
  then have "d \<in> set (dtable s (hash_dentry p nm))" by (auto simp: dcache_find_def find_Some_iff)
  then show ?thesis using assms(1) f(2) unfolding tree_inv_def by blast
qed

lemma new_dentry_inv:
  assumes ok: "walk_ok E s" and p: "good_dentry s parent" and d: "d = kaddr E (nalloc s)" "\<not> dlive s d" "d \<noteq> 0"
    and k: "keeps (fs s) fs'" "j \<noteq> 0 \<longrightarrow> ilive fs' j"
    and s': "s' = s\<lparr>fs := fs', dentries := (dentries s)(d := zero_dentry\<lparr>dname := nm, dparent := parent, dinode := j\<rparr>),
                   dlive := (dlive s)(d := True), nalloc := nalloc s + 2\<rparr>"
  shows "walk_ok E s'" and "grows s s'" and "dlive s' d"
proof -
  show g: "grows s s'" using k(1) d(2) by (auto simp: grows_def s')
  show "dlive s' d" by (simp add: s')
  have good: "good_dentry s' parent" by (rule grows_good [OF walk_okD(1) [OF ok] g p])
  have "tree_inv s'"
  proof (rule grows_tree_inv [OF walk_okD(1) [OF ok] g])
    show "dtable s' = dtable s" by (simp add: s')
    fix e assume e: "dlive s' e" "\<not> dlive s e"
    then have "e = d" by (auto simp: s' split: if_splits)
    then show "dentry_ok s' e \<and> mount_dentry (dentry_of s' e) = 0"
      using good k(2) d(3) by (simp add: dentry_ok_def s' zero_dentry_def)
  qed
  moreover have "fresh_memory E s'"
    by (rule fresh_memory_alloc [OF walk_okD(2) [OF ok]]) (auto simp: s' d(1) split: if_splits)
  ultimately show "walk_ok E s'" using walk_okD(3) [OF ok] by (simp add: walk_ok_def)
qed

lemma dcache_link_frame [simp]:
  "fs (dcache_link d s) = fs s" "dentries (dcache_link d s) = dentries s" "dlive (dcache_link d s) = dlive s"
  "vfs_root (dcache_link d s) = vfs_root s" "cwd (dcache_link d s) = cwd s"
  by (simp_all add: dcache_link_def Let_def)

lemma put_inv:
  assumes ok: "walk_ok E s" and d: "dlive s d"
  shows "\<exists>s'. dCachePut E d s = Some s' \<and> walk_ok E s' \<and> grows s s'"
proof -
  let ?s = "(dcache_link d s)\<lparr>nalloc := nalloc s + 1\<rparr>"
  have "kaddr E (nalloc s) \<noteq> 0" using fresh_memoryD(1) [OF walk_okD(2) [OF ok]] by simp
  then have p: "dCachePut E d s = Some ?s" by (simp add: dCachePut_eq)
  have same: "fs ?s = fs s" "dentries ?s = dentries s" "dlive ?s = dlive s" "vfs_root ?s = vfs_root s" "cwd ?s = cwd s"
    by simp_all
  have g: "grows s ?s" by (simp add: grows_def same)
  have "dlive s e" if "e \<in> set (dtable ?s b)" for e b
    using that d walk_okD(1) [OF ok] by (auto simp: tree_inv_def dcache_link_def Let_def split: if_splits)
  moreover have "dcache_inv ?s" using cache.inv_put [of s d] walk_okD(1) [OF ok] by (simp add: tree_inv_def)
  ultimately have "tree_inv ?s" using walk_okD(1) [OF ok]
    unfolding tree_inv_def dentry_ok_def good_dentry_def is_symlink_def mount_rel_def same by simp
  moreover have "fresh_memory E ?s"
    by (rule fresh_memory_alloc [OF walk_okD(2) [OF ok]]) (simp_all add: same)
  ultimately have "walk_ok E ?s" using walk_okD(3) [OF ok] by (simp add: walk_ok_def)
  then show ?thesis using p g by blast
qed

lemma free_inv:
  assumes ok: "walk_ok E s" and d: "d = kaddr E (nalloc s)" "\<not> dlive s d" "d \<noteq> 0"
    and k: "keeps (fs s) fs'"
    and s': "s' = s\<lparr>fs := fs', dentries := (dentries s)(d := x), dlive := (dlive s)(d := True), nalloc := nalloc s + 2\<rparr>"
  shows "walk_ok E (vfs_dentry_free d s')" and "grows s (vfs_dentry_free d s')"
proof -
  let ?s = "vfs_dentry_free d s'"
  have notin: "d \<notin> set (dtable s b)" for b using walk_okD(1) [OF ok] d(2) by (auto simp: tree_inv_def)
  have same: "dtable ?s = dtable s" "dlive ?s = dlive s" "fs ?s = fs'" "dentries ?s = (dentries s)(d := x)"
    "vfs_root ?s = vfs_root s" "cwd ?s = cwd s" "nalloc ?s = nalloc s + 2"
    using notin d(2,3) by (auto simp: vfs_dentry_free_def dCacheRemove_def Let_def s' chain_remove_remove1 remove1_idem fun_eq_iff)
  show g: "grows s ?s" using k d(2) by (auto simp: grows_def same)
  have "tree_inv ?s" by (rule grows_tree_inv [OF walk_okD(1) [OF ok] g]) (simp_all add: same)
  moreover have "fresh_memory E ?s"
    by (rule fresh_memory_alloc [OF walk_okD(2) [OF ok]]) (simp_all add: same)
  ultimately show "walk_ok E ?s" using walk_okD(3) [OF ok] by (simp add: walk_ok_def)
qed

lemma dentry_get_returns:
  assumes ok: "walk_ok E s" and p: "good_dentry s parent"
  shows "\<exists>d s'. vfs_dentry_get E parent nm s = Some (d, s') \<and> walk_ok E s' \<and> grows s s' \<and> (d \<noteq> 0 \<longrightarrow> dlive s' d)"
proof (cases "dinode (dentry_of s parent) = 0 \<or> dCacheLookup parent nm s \<noteq> 0")
  case True
  then show ?thesis using ok p dcache_hit [OF walk_okD(1) [OF ok], of parent nm]
    by (auto simp: vfs_dentry_get_def good_dentry_def)
next
  case False
  obtain d s1 where a: "vfs_dentry_alloc E parent nm s = (d, s1)" by fastforce
  from alloc_spec [OF ok p a] show ?thesis
  proof
    assume "d = 0 \<and> s1 = s"
    then show ?thesis using a ok False p by (auto simp: vfs_dentry_get_def good_dentry_def)
  next
    assume d: "d = kaddr E (nalloc s) \<and> d \<noteq> 0 \<and> \<not> dlive s d \<and>
      s1 = s\<lparr>dentries := (dentries s)(d := zero_dentry\<lparr>dname := nm, dparent := parent\<rparr>), dlive := (dlive s)(d := True), nalloc := nalloc s + 2\<rparr>"
    obtain r s2 where l: "vfs_lookup E (dinode (dentry_of s1 parent)) d s1 = (r, s2)" by fastforce
    have z: "dinode (dentry_of s1 d) = 0" using d by (simp add: zero_dentry_def)
    obtain fs' j where s2: "s2 = s1\<lparr>fs := fs', dentries := (dentries s1)(d := (dentries s1 d)\<lparr>dinode := j\<rparr>)\<rparr>"
      "keeps (fs s1) fs'" "j \<noteq> 0 \<longrightarrow> ilive fs' j"
      using lookup_spec [OF walk_okD(3) [OF ok] l z] by blast
    have k: "keeps (fs s) fs'" using s2(2) d by simp
    let ?x = "zero_dentry\<lparr>dname := nm, dparent := parent, dinode := j\<rparr>"
    have e: "s2 = s\<lparr>fs := fs', dentries := (dentries s)(d := ?x), dlive := (dlive s)(d := True), nalloc := nalloc s + 2\<rparr>"
      using s2(1) d by (simp add: zero_dentry_def)
    have ne: "parent \<noteq> 0" using p by (simp add: good_dentry_def)
    show ?thesis
    proof (cases "r < 0")
      case True
      then have "vfs_dentry_get E parent nm s = Some (0, vfs_dentry_free d s2)"
        using False a l d ne by (simp add: vfs_dentry_get_def)
      then show ?thesis using free_inv [OF ok _ _ _ k e] d by blast
    next
      case False
      note n = new_dentry_inv [OF ok p _ _ _ k s2(3) e]
      have n': "walk_ok E s2" "grows s s2" "dlive s2 d" using n d by blast+
      obtain s3 where s3: "dCachePut E d s2 = Some s3" "walk_ok E s3" "grows s2 s3" using put_inv [OF n'(1,3)] by blast
      have "vfs_dentry_get E parent nm s = Some (d, s3)"
        using False \<open>\<not> (dinode (dentry_of s parent) = 0 \<or> dCacheLookup parent nm s \<noteq> 0)\<close> a l d ne s3(1)
        by (simp add: vfs_dentry_get_def)
      moreover have "dlive s3 d" using s3(3) n'(3) by (simp add: grows_def)
      ultimately show ?thesis using s3(2) grows_trans [OF n'(2) s3(3)] by blast
    qed
  qed
qed

lemma step_returns:
  assumes ok: "walk_ok E s" and p: "good_dentry s d"
  shows "\<exists>d' s'. step E d nm s = Some (d', s') \<and> walk_ok E s' \<and> grows s s' \<and> (d' \<noteq> 0 \<longrightarrow> dlive s' d')"
proof (cases "nm = [46] \<or> nm = [46, 46]")
  case True
  have l: "dlive s d" using p by (simp add: good_dentry_def)
  have "dparent (dentry_of s d) \<noteq> 0 \<Longrightarrow> dlive s (dparent (dentry_of s d))"
    using tree_invD(2) [OF walk_okD(1) [OF ok] l] by (simp add: good_dentry_def)
  then show ?thesis using True l ok by (auto simp: step_def strcmp_zero)
next
  case False
  then show ?thesis using dentry_get_returns [OF ok p, of nm] by (simp add: step_def strcmp_zero)
qed

end
