(* ===== verification/Vfs_Path_Props.thy ===== *)
theory Vfs_Path_Props
  imports Vfs_Path_Inv
begin

text \<open>
  Path resolution returns, keeps the tree in shape and never delivers a symbolic link; on a path
  without links it is the fold of the single steps over the components.
\<close>

section \<open>Components\<close>

lemma skip_slashes: "dropWhile (\<lambda>c. c = slash) p = c # cs \<Longrightarrow> c \<noteq> slash"
  using hd_dropWhile [of "\<lambda>c. c = slash" p] by simp

lemma after_component_shorter:
  assumes "dropWhile (\<lambda>c. c = slash) p \<noteq> []"
  shows "length (dropWhile (\<lambda>c. c \<noteq> slash) (dropWhile (\<lambda>c. c = slash) p)) < length p"
proof -
  obtain c cs where s: "dropWhile (\<lambda>c. c = slash) p = c # cs" using assms by (cases "dropWhile (\<lambda>c. c = slash) p") simp_all
  then have "length (c # cs) \<le> length p" using length_dropWhile_le [of "\<lambda>c. c = slash" p] by simp
  moreover have "length (dropWhile (\<lambda>c. c \<noteq> slash) cs) \<le> length cs" by (rule length_dropWhile_le)
  ultimately show ?thesis using s skip_slashes [OF s] by simp
qed

text \<open>The components of a path: the maximal runs without a slash.\<close>

function components :: "u8 list \<Rightarrow> u8 list list" where
  "components p =
     (let s = dropWhile (\<lambda>c. c = slash) p in
      if s = [] then [] else takeWhile (\<lambda>c. c \<noteq> slash) s # components (dropWhile (\<lambda>c. c \<noteq> slash) s))"
  by pat_completeness auto
termination
  by (relation "measure length") (use after_component_shorter in auto)

declare components.simps [simp del]

lemma copy_component_spec:
  "copy_component cap n s =
     (if s \<noteq> [] \<and> takeWhile (\<lambda>c. c \<noteq> slash) s \<noteq> [] \<and> cap \<le> n + length (takeWhile (\<lambda>c. c \<noteq> slash) s) then Inl (- ENAMETOOLONG)
      else Inr (takeWhile (\<lambda>c. c \<noteq> slash) s, dropWhile (\<lambda>c. c \<noteq> slash) s))"
proof (induction cap n s rule: copy_component.induct)
  case (2 cap n c cs)
  show ?case
  proof (cases "c = slash \<or> n + 1 \<ge> cap")
    case False
    then show ?thesis using 2 by (cases "takeWhile (\<lambda>c. c \<noteq> slash) cs") auto
  qed auto
qed simp

lemma next_component_spec:
  "next_component p cap =
     (case components p of
        [] \<Rightarrow> Inr ([], [])
      | w # _ \<Rightarrow> if cap \<le> length w then Inl (- ENAMETOOLONG)
                 else Inr (w, dropWhile (\<lambda>c. c \<noteq> slash) (dropWhile (\<lambda>c. c = slash) p)))"
proof (cases "dropWhile (\<lambda>c. c = slash) p")
  case (Cons c cs)
  then have "c \<noteq> slash" by (rule skip_slashes)
  then show ?thesis using Cons
    by (subst components.simps) (simp add: next_component_def copy_component_spec)
qed (subst components.simps, simp add: next_component_def)

lemma components_nonempty: "w \<in> set (components p) \<Longrightarrow> w \<noteq> []"
proof (induction p rule: components.induct)
  case (1 p)
  let ?s = "dropWhile (\<lambda>c. c = slash) p"
  show ?case
  proof (cases ?s)
    case (Cons c cs)
    then have "c \<noteq> slash" by (rule skip_slashes)
    then show ?thesis using 1 Cons components.simps [of p] by (auto simp: Let_def)
  qed (use 1 components.simps [of p] in simp)
qed

lemma components_rest:
  assumes "components p = w # ws" and "next_component p cap = Inr (v, rest)"
  shows "v = w \<and> components rest = ws \<and> w \<noteq> [] \<and> length rest < length p"
proof -
  let ?s = "dropWhile (\<lambda>c. c = slash) p"
  have s: "?s \<noteq> []" using assms(1) by (subst (asm) components.simps) (auto simp: Let_def split: if_splits)
  have ws: "w = takeWhile (\<lambda>c. c \<noteq> slash) ?s" "ws = components (dropWhile (\<lambda>c. c \<noteq> slash) ?s)"
    using assms(1) s by (auto simp: components.simps [of p] Let_def split: if_splits)
  have r: "v = w" "rest = dropWhile (\<lambda>c. c \<noteq> slash) ?s" using assms by (auto simp: next_component_spec split: if_splits)
  have "length rest < length p" using after_component_shorter [OF s] r(2) by simp
  then show ?thesis using ws r components_nonempty [of w p] assms(1) by simp
qed

section \<open>Every walk returns\<close>

lemma walk_inner_eq:
  "walk E (WalkInner start path depth) s =
     (case path of
        None \<Rightarrow> Some (- EINVAL, 0, s)
      | Some path \<Rightarrow>
          if depth > VFS_SYMLINK_MAX then Some (- ELOOP, 0, s)
          else if length path \<ge> VFS_PATH_MAX then Some (- ENAMETOOLONG, 0, s)
          else
            let cur = (if absolute path then vfs_root s else start) in
            if cur = 0 then Some (- ENOENT, 0, s) else walk E (WalkLoop cur path depth) s)"
  by (subst walk.simps) simp

lemma walk_loop_eq:
  "walk E (WalkLoop cur p depth) s =
     (case components p of
        [] \<Rightarrow> Option.bind (vfs_traverse_mount cur s) (\<lambda>d. Some (0, d, s))
      | w # _ \<Rightarrow>
          if length w > VFS_NAME_MAX then Some (- ENAMETOOLONG, 0, s)
          else
            Option.bind (vfs_traverse_mount cur s) (\<lambda>d.
            Option.bind (step E d w s) (\<lambda>(d, s).
              if d = 0 then Some (- ENOENT, 0, s)
              else
                Option.bind (walk E (Follow d depth) s) (\<lambda>(_, d, s).
                  if d = 0 then Some (- ELOOP, 0, s)
                  else walk E (WalkLoop d (dropWhile (\<lambda>c. c \<noteq> slash) (dropWhile (\<lambda>c. c = slash) p)) depth) s))))"
proof (cases "components p")
  case Nil
  then show ?thesis by (subst walk.simps) (simp add: next_component_spec)
next
  case (Cons w ws)
  then have "w \<noteq> []" using components_nonempty [of w p] by simp
  then show ?thesis using Cons by (subst walk.simps) (auto simp: next_component_spec)
qed

lemma follow_eq:
  "walk E (Follow cur depth) s =
     (if \<not> is_symlink s cur then Some (0, cur, s)
      else if depth \<ge> VFS_SYMLINK_MAX then Some (0, 0, s)
      else if depth \<ge> link_frames E then None
      else
        (case vfs_readlink E (dinode (dentry_of s cur)) 1 (of_nat VFS_PATH_MAX) s of
           (Inl e, s) \<Rightarrow> Some (0, 0, s)
         | (Inr bs, s) \<Rightarrow>
             let tgt = link_target bs;
                 base = (if absolute tgt then vfs_root s else dparent (dentry_of s cur))
             in Option.bind (walk E (WalkInner base (Some tgt) (depth + 1)) s) (\<lambda>(r, nxt, s).
                  if r < 0 then Some (0, 0, s) else walk E (Follow nxt depth) s)))"
  by (subst walk.simps) simp

text \<open>The environment with another room on the stack; only the walk depends on it.\<close>

abbreviation stack :: "nat \<Rightarrow> 'x fsenv \<Rightarrow> 'x fsenv" where
  "stack n E \<equiv> E\<lparr>link_frames := n\<rparr>"

lemma stack_ops: "vfs_readlink (stack n E) = vfs_readlink E" "vfs_lookup (stack n E) = vfs_lookup E"
  "vfs_dentry_alloc (stack n E) = vfs_dentry_alloc E" "dCachePut (stack n E) = dCachePut E"
proof -
  have k: "kmalloc (stack n E) = kmalloc E" by (intro ext) (simp add: kmalloc_def)
  have o: "ops_of_inode (stack n E) s i = ops_of_inode E s i" for s i by simp
  show "vfs_readlink (stack n E) = vfs_readlink E" by (intro ext) (simp only: vfs_readlink_def o)
  show "vfs_lookup (stack n E) = vfs_lookup E" by (intro ext) (simp only: vfs_lookup_def o)
  show "dCachePut (stack n E) = dCachePut E" by (intro ext) (simp only: dCachePut_def k)
  have "vfs_strdup (stack n E) = vfs_strdup E" by (intro ext) (simp only: vfs_strdup_def k)
  then show "vfs_dentry_alloc (stack n E) = vfs_dentry_alloc E" by (intro ext) (simp only: vfs_dentry_alloc_def k)
qed

lemma stack_step: "step (stack n E) = step E"
  by (intro ext) (simp only: step_def vfs_dentry_get_def stack_ops)

declare stack_step [simp] stack_ops(1) [simp]

text \<open>
  \<open>walk_result E s x\<close>, for a call \<open>x n\<close> with room \<open>n\<close> on the stack: there is a need of at most
  40 link buffers such that the call overruns a smaller stack and returns on any other, always
  with the same result; then the tree is in shape, and a dentry that was delivered is allocated
  and no link.
\<close>

definition walk_result :: "'x fsenv \<Rightarrow> 'x vfs \<Rightarrow> (nat \<Rightarrow> (int \<times> nat \<times> 'x vfs) option) \<Rightarrow> bool" where
  "walk_result E s x \<longleftrightarrow>
     (\<exists>need r d s'. need \<le> VFS_SYMLINK_MAX \<and> (\<forall>n. x n = (if need \<le> n then Some (r, d, s') else None)) \<and>
        walk_ok E s' \<and> grows s s' \<and> (d \<noteq> 0 \<longrightarrow> good_dentry s' d))"

lemma walk_resultI:
  assumes "need \<le> VFS_SYMLINK_MAX" and "\<And>n. x n = (if need \<le> n then Some (r, d, s') else None)"
    and "walk_ok E s'" and "grows s s'" and "d \<noteq> 0 \<Longrightarrow> good_dentry s' d"
  shows "walk_result E s x"
  using assms unfolding walk_result_def by blast

lemma walk_resultE:
  assumes "walk_result E s x"
  obtains need r d s' where "need \<le> VFS_SYMLINK_MAX" "\<And>n. x n = (if need \<le> n then Some (r, d, s') else None)"
    "walk_ok E s'" "grows s s'" "d \<noteq> 0 \<Longrightarrow> good_dentry s' d"
  using assms unfolding walk_result_def by blast

lemma walk_result_now: "walk_ok E s \<Longrightarrow> d = 0 \<or> good_dentry s d \<Longrightarrow> walk_result E s (\<lambda>n. Some (r, d, s))"
  by (rule walk_resultI [where need = 0]) auto

lemma walk_result_trans: "grows s s1 \<Longrightarrow> walk_result E s1 x \<Longrightarrow> walk_result E s x"
  unfolding walk_result_def by (blast intro: grows_trans)

text \<open>A call that needs \<open>k\<close> buffers and then makes another one needs the larger of the two.\<close>

lemma walk_result_after:
  assumes "walk_result E s x" and "k \<le> VFS_SYMLINK_MAX" and "\<And>n. y n = (if k \<le> n then x n else None)"
  shows "walk_result E s y"
  using assms(1)
proof (rule walk_resultE)
  fix need r d s'
  assume w: "need \<le> VFS_SYMLINK_MAX" "\<And>n. x n = (if need \<le> n then Some (r, d, s') else None)"
    "walk_ok E s'" "grows s s'" "d \<noteq> 0 \<Longrightarrow> good_dentry s' d"
  show ?thesis by (rule walk_resultI [where need = "max k need"]) (use w assms in auto)
qed

text \<open>A walk that succeeds delivers a dentry.\<close>

definition walk_found :: "(nat \<Rightarrow> (int \<times> nat \<times> 'x vfs) option) \<Rightarrow> bool" where
  "walk_found x \<longleftrightarrow> (\<forall>n r d s. x n = Some (r, d, s) \<longrightarrow> r = 0 \<and> d \<noteq> 0 \<or> r < 0 \<and> d = 0)"

lemma walk_found_simps [simp]:
  "walk_found (\<lambda>n. Some (- ELOOP, 0, s))" "walk_found (\<lambda>n. Some (- ENOENT, 0, s))" "walk_found (\<lambda>n. Some (- ENAMETOOLONG, 0, s))"
  "walk_found (\<lambda>n. Some (- EINVAL, 0, s))" "d \<noteq> 0 \<Longrightarrow> walk_found (\<lambda>n. Some (0, d, s))"
  by (auto simp: walk_found_def errno_defs)

lemma walk_found_after: "walk_found x \<Longrightarrow> (\<And>n. y n = (if k \<le> n then x n else None)) \<Longrightarrow> walk_found y"
  by (auto simp: walk_found_def split: if_splits)

lemma readlink_keeps:
  assumes "walk_ok E s" and "vfs_readlink E i buf sz s = (r, s')"
  shows "walk_ok E s' \<and> grows s s' \<and> dentries s' = dentries s"
proof -
  obtain b where b: "s' = s\<lparr>fs := b\<rparr>" "keeps (fs s) b"
  proof (cases "io_readlink (ops_of_inode E s i)")
    case None
    then have "s' = s" using assms(2) by (auto simp: vfs_readlink_def Let_def split: if_splits)
    then show ?thesis using that [of "fs s"] by simp
  next
    case (Some f)
    obtain x b where f: "f i sz (fs s) = (x, b)" by fastforce
    have "keeps (fs s) b" using walk_okD(3) [OF assms(1)] Some f unfolding lookups_ok_def by blast
    then show ?thesis using that [of "fs s"] that [of b] assms(2) Some f
      by (auto simp: vfs_readlink_def Let_def split: if_splits)
  qed
  have g: "grows s s'" using b by (simp add: grows_def)
  have "tree_inv s'" by (rule grows_tree_inv [OF walk_okD(1) [OF assms(1)] g]) (simp_all add: b(1))
  then show ?thesis using g walk_okD [OF assms(1)] by (simp add: walk_ok_def fresh_memory_def b(1))
qed

lemma follow_returns:
  assumes inner: "\<And>start path s. walk_ok E s \<Longrightarrow> start = 0 \<or> good_dentry s start \<Longrightarrow>
      walk_result E s (\<lambda>n. walk (stack n E) (WalkInner start path (Suc depth)) s)"
    and ok: "walk_ok E s" and d: "dlive s d"
  shows "walk_result E s (\<lambda>n. walk (stack n E) (Follow d depth) s)"
proof (cases "is_symlink s d \<and> \<not> depth \<ge> VFS_SYMLINK_MAX")
  case False
  then show ?thesis using walk_result_now [OF ok, of d 0] walk_result_now [OF ok, of 0 0] d tree_invD(1) [OF walk_okD(1) [OF ok] d]
    by (cases "is_symlink s d") (auto simp: follow_eq [of _ d] good_dentry_def)
next
  case True
  then have k: "Suc depth \<le> VFS_SYMLINK_MAX" by simp
  obtain r s1 where rl: "vfs_readlink E (dinode (dentry_of s d)) 1 (of_nat VFS_PATH_MAX) s = (r, s1)" by fastforce
  note rk = readlink_keeps [OF ok rl]
  then have ok1: "walk_ok E s1" and g1: "grows s s1" and e1: "dentries s1 = dentries s" by blast+
  show ?thesis
  proof (cases r)
    case (Inl e)
    show ?thesis by (rule walk_result_after [OF walk_result_trans [OF g1 walk_result_now [OF ok1, of 0 0]] k])
        (use True rl Inl in \<open>auto simp: follow_eq [of _ d]\<close>)
  next
    case (Inr bs)
    let ?base = "if absolute (link_target bs) then vfs_root s1 else dparent (dentry_of s1 d)"
    have d1: "dlive s1 d" using g1 d by (simp add: grows_def)
    have "?base = 0 \<or> good_dentry s1 ?base"
      using walk_okD(1) [OF ok1] tree_invD(2) [OF walk_okD(1) [OF ok1] d1] by (auto simp: tree_inv_def)
    from inner [OF ok1 this, of "Some (link_target bs)"] obtain need q m s2
      where w: "need \<le> VFS_SYMLINK_MAX" "\<And>n. walk (stack n E) (WalkInner ?base (Some (link_target bs)) (Suc depth)) s1 =
          (if need \<le> n then Some (q, m, s2) else None)" "walk_ok E s2" "grows s1 s2" "m \<noteq> 0 \<Longrightarrow> good_dentry s2 m"
      by (rule walk_resultE) (rule that)
    have nl: "\<not> is_symlink s2 m" using w(5) by (cases "m = 0") (auto simp: good_dentry_def is_symlink_def)
    show ?thesis
      by (rule walk_resultI [where need = "max (Suc depth) need" and r = 0 and d = "if q < 0 then 0 else m" and s' = s2])
        (use True rl Inr w nl e1 k grows_trans [OF g1 w(4)] in \<open>auto simp: follow_eq [of _ d] follow_eq [of _ m] Let_def\<close>)
  qed
qed

lemma loop_returns:
  assumes follow: "\<And>d s. walk_ok E s \<Longrightarrow> dlive s d \<Longrightarrow> walk_result E s (\<lambda>n. walk (stack n E) (Follow d depth) s)"
  shows "walk_ok E s \<Longrightarrow> good_dentry s cur \<Longrightarrow>
    walk_result E s (\<lambda>n. walk (stack n E) (WalkLoop cur p depth) s) \<and> walk_found (\<lambda>n. walk (stack n E) (WalkLoop cur p depth) s)"
proof (induction "length p" arbitrary: p cur s rule: less_induct)
  case less
  obtain m where m: "vfs_traverse_mount cur s = Some m" "good_dentry s m"
    using traverse_returns [OF walk_okD(1) [OF less.prems(1)] less.prems(2)] by blast
  show ?case
  proof (cases "components p")
    case Nil
    then show ?thesis using m walk_result_now [OF less.prems(1)] by (simp add: walk_loop_eq good_dentry_def)
  next
    case (Cons w ws)
    let ?rest = "dropWhile (\<lambda>c. c \<noteq> slash) (dropWhile (\<lambda>c. c = slash) p)"
    obtain d s1 where st: "step E m w s = Some (d, s1)" "walk_ok E s1" "grows s s1" "d \<noteq> 0 \<longrightarrow> dlive s1 d"
      using step_returns [OF less.prems(1) m(2)] by blast
    show ?thesis
    proof (cases "length w > VFS_NAME_MAX \<or> d = 0")
      case True
      then show ?thesis using Cons m st walk_result_now [OF less.prems(1), of 0] walk_result_trans [OF st(3) walk_result_now [OF st(2), of 0]]
        by (cases "length w > VFS_NAME_MAX") (simp_all add: walk_loop_eq)
    next
      case False
      have "dlive s1 d" using st(4) False by simp
      from follow [OF st(2) this] obtain need q e s2 where f: "need \<le> VFS_SYMLINK_MAX"
        "\<And>n. walk (stack n E) (Follow d depth) s1 = (if need \<le> n then Some (q, e, s2) else None)" "walk_ok E s2" "grows s1 s2"
        "e \<noteq> 0 \<Longrightarrow> good_dentry s2 e" by (rule walk_resultE) (rule that)
      have lt: "length ?rest < length p" using components_rest [OF Cons, of "Suc (length w)"] Cons by (simp add: next_component_spec)
      let ?x = "\<lambda>n. if e = 0 then Some (- ELOOP, 0, s2) else walk (stack n E) (WalkLoop e ?rest depth) s2"
      have x: "walk_result E s2 ?x \<and> walk_found ?x"
        using less.hyps [OF lt f(3), of e] f(5) walk_result_now [OF f(3), of 0] by (cases "e = 0") simp_all
      have y: "walk (stack n E) (WalkLoop cur p depth) s = (if need \<le> n then ?x n else None)" for n
        using Cons m(1) st(1) f(2) False by (simp add: walk_loop_eq [of _ cur p])
      have x1: "walk_result E s ?x" by (rule walk_result_trans [OF grows_trans [OF st(3) f(4)] conjunct1 [OF x]])
      show ?thesis using walk_result_after [OF x1 f(1), of "\<lambda>n. walk (stack n E) (WalkLoop cur p depth) s"]
          walk_found_after [OF conjunct2 [OF x], of "\<lambda>n. walk (stack n E) (WalkLoop cur p depth) s" need] y by blast
    qed
  qed
qed

lemma inner_returns:
  assumes "walk_ok E s" and "start = 0 \<or> good_dentry s start"
  shows "walk_result E s (\<lambda>n. walk (stack n E) (WalkInner start path depth) s) \<and>
    walk_found (\<lambda>n. walk (stack n E) (WalkInner start path depth) s)"
  using assms
proof (induction "Suc VFS_SYMLINK_MAX - depth" arbitrary: depth s start path)
  case 0
  then show ?case using walk_result_now [OF 0(2), of 0] by (cases path) (simp_all add: walk_inner_eq)
next
  case (Suc n)
  have n: "n = Suc VFS_SYMLINK_MAX - Suc depth" using Suc.hyps(2) by simp
  have follow: "walk_result E s (\<lambda>n. walk (stack n E) (Follow d depth) s)" if "walk_ok E s" "dlive s d" for d s
    by (rule follow_returns [OF conjunct1 [OF Suc.hyps(1) [OF n]] that])
  have loop: "walk_result E s (\<lambda>n. walk (stack n E) (WalkLoop cur p depth) s) \<and> walk_found (\<lambda>n. walk (stack n E) (WalkLoop cur p depth) s)"
    if "good_dentry s cur" for cur p by (rule loop_returns [OF follow Suc.prems(1) that])
  have root: "vfs_root s = 0 \<or> good_dentry s (vfs_root s)"
    using walk_okD(1) [OF Suc.prems(1)] by (auto simp: tree_inv_def)
  show ?case
  proof (cases path)
    case None
    then show ?thesis using walk_result_now [OF Suc.prems(1), of 0] by (simp add: walk_inner_eq)
  next
    case (Some p)
    let ?cur = "if absolute p then vfs_root s else start"
    have cur: "?cur = 0 \<or> good_dentry s ?cur" using root Suc.prems(2) by simp
    consider "VFS_SYMLINK_MAX < depth \<or> VFS_PATH_MAX \<le> length p \<or> ?cur = 0"
      | "\<not> VFS_SYMLINK_MAX < depth" "\<not> VFS_PATH_MAX \<le> length p" "?cur \<noteq> 0" "good_dentry s ?cur"
      using cur by argo
    then show ?thesis
    proof cases
      case 1
      then show ?thesis using Some walk_result_now [OF Suc.prems(1), of 0]
        by (cases "VFS_SYMLINK_MAX < depth"; cases "VFS_PATH_MAX \<le> length p") (simp_all add: walk_inner_eq)
    next
      case 2
      then show ?thesis using Some loop [OF 2(4)] by (simp add: walk_inner_eq)
    qed
  qed
qed

lemma anchor_good: "walk_ok E s \<Longrightarrow> path_anchor path s = 0 \<or> good_dentry s (path_anchor path s)"
  by (auto simp: path_anchor_def dest!: walk_okD(1)) (auto simp: tree_inv_def)

lemma namei_returns:
  assumes "walk_ok E s"
  obtains need r d s' where "need \<le> VFS_SYMLINK_MAX"
    "\<And>n. vfs_namei (stack n E) path s = (if need \<le> n then Some (r, d, s') else None)"
    "walk_ok E s'" "grows s s'" "r = 0 \<and> good_dentry s' d \<or> r < 0 \<and> d = 0"
proof (cases "vfs_root s = 0")
  case True
  show ?thesis by (rule that [of 0 "- ENOENT" 0 s]) (use True assms in \<open>auto simp: vfs_namei_def ENOENT_def\<close>)
next
  case False
  note i = inner_returns [OF assms anchor_good [OF assms, of path], of path 0]
  from conjunct1 [OF i] obtain need r d s' where w: "need \<le> VFS_SYMLINK_MAX"
    "\<And>n. walk (stack n E) (WalkInner (path_anchor path s) path 0) s = (if need \<le> n then Some (r, d, s') else None)"
    "walk_ok E s'" "grows s s'" "d \<noteq> 0 \<Longrightarrow> good_dentry s' d" by (rule walk_resultE) (rule that)
  have "r = 0 \<and> d \<noteq> 0 \<or> r < 0 \<and> d = 0" using conjunct2 [OF i] w(2) [of need] by (auto simp: walk_found_def)
  then have "r = 0 \<and> good_dentry s' d \<or> r < 0 \<and> d = 0" using w(5) by blast
  then show ?thesis using w(2) False by (intro that [OF w(1) _ w(3,4)]) (simp_all add: vfs_namei_def walk_inner_def)
qed

text \<open>
  C29. Path resolution terminates.  Assume a tree that is in shape, a file system whose lookups
  leave existing inodes alone, and a \<^verbatim>\<open>kmalloc\<close> that does not fail and does not hand out memory
  in use: the addresses it returns from now on are not NULL, not those of live dentries and all
  distinct.  (A walk frees nothing before its last step, so it never depends on an address coming
  back; where memory runs out the dentry cache faults on the NULL it is given.)  Then, whatever the
  path and the symbolic links on it, including links that lead back to themselves, there is a
  number of nested links, at most 40, such that \<^verbatim>\<open>vfs_namei\<close> returns on every kernel stack with
  room for that many link buffers, always with the same result, and overruns a smaller one.  When it
  returns, the tree is in shape and all existing dentries are as they were; the result is 0
  with an allocated dentry that is not a symbolic link, or an error with no dentry.
\<close>

theorem vfs_namei_terminates:
  assumes "tree_inv s" and "fresh_memory E s" and "lookups_ok E"
  shows "\<exists>need \<le> VFS_SYMLINK_MAX. \<exists>r d s'.
    (\<forall>n. vfs_namei (E\<lparr>link_frames := n\<rparr>) path s = (if need \<le> n then Some (r, d, s') else None)) \<and>
    tree_inv s' \<and> fresh_memory E s' \<and> grows s s' \<and>
    (r = 0 \<and> d \<noteq> 0 \<and> dlive s' d \<and> \<not> is_symlink s' d \<or> r < 0 \<and> d = 0)"
proof -
  have "walk_ok E s" using assms by (simp add: walk_ok_def)
  then obtain need r d s' where w: "need \<le> VFS_SYMLINK_MAX"
    "\<And>n. vfs_namei (stack n E) path s = (if need \<le> n then Some (r, d, s') else None)"
    "walk_ok E s'" "grows s s'" "r = 0 \<and> good_dentry s' d \<or> r < 0 \<and> d = 0" by (rule namei_returns) (rule that)
  show ?thesis
    by (rule exI [of _ need], rule conjI [OF w(1)], rule exI [of _ r], rule exI [of _ d], rule exI [of _ s'])
      (use w(2-5) in \<open>auto simp: walk_ok_def good_dentry_def\<close>)
qed

text \<open>A tree with one entry, a link to the root.\<close>

definition link_env :: "unit fsenv" where
  "link_env = bare_env\<lparr>iops_of := \<lambda>_. no_iops\<lparr>io_readlink := Some (\<lambda>i n a. (Inr [47], a))\<rparr>\<rparr>"

definition link_vfs :: "unit vfs" where
  "link_vfs = dcache_link 2 ((empty_vfs ())
     \<lparr>fs := \<lparr>inodes = (\<lambda>_. null_inode)(3 := null_inode\<lparr>itype := VFS_TYPE_DIR, isb := 1, iops := 1\<rparr>,
                                     2 := null_inode\<lparr>itype := VFS_TYPE_SYMLINK, isb := 1, iops := 1\<rparr>),
            ilive = (\<lambda>i. i = 3 \<or> i = 2), sbs = \<lambda>_. null_sb, fsx = ()\<rparr>,
      dentries := (\<lambda>_. zero_dentry)(3 := zero_dentry\<lparr>dname := [47], dparent := 3, dinode := 3\<rparr>,
                                   2 := zero_dentry\<lparr>dname := [97], dparent := 3, dinode := 2\<rparr>),
      dlive := (\<lambda>d. d = 3 \<or> d = 2), vfs_root := 3\<rparr>)"

lemma link_vfs_simps:
  "dlive link_vfs = (\<lambda>d. d = 3 \<or> d = 2)" "vfs_root link_vfs = 3" "cwd link_vfs = 0" "nalloc link_vfs = 0"
  "dentry_of link_vfs 3 = zero_dentry\<lparr>dname := [47], dparent := 3, dinode := 3\<rparr>"
  "dentry_of link_vfs 2 = zero_dentry\<lparr>dname := [97], dparent := 3, dinode := 2\<rparr>"
  "itype (inode_of link_vfs 3) = VFS_TYPE_DIR" "ilive (fs link_vfs) = (\<lambda>i. i = 3 \<or> i = 2)"
  by (simp_all add: link_vfs_def empty_vfs_def)

lemma link_vfs_ok: "tree_inv link_vfs" "fresh_memory link_env link_vfs" "lookups_ok link_env"
proof -
  have g: "good_dentry link_vfs 3"
    by (simp add: good_dentry_def link_vfs_simps is_symlink_def vfs_type_defs)
  have "dentry_ok link_vfs d" if "dlive link_vfs d" for d
  proof -
    have "d = 3 \<or> d = 2" using that by (simp add: link_vfs_simps)
    then show ?thesis using g by (elim disjE) (simp_all only: dentry_ok_def link_vfs_simps, simp_all add: zero_dentry_def)
  qed
  moreover have "dlive link_vfs d" if "d \<in> set (dtable link_vfs b)" for d b
    using that by (auto simp: link_vfs_def dcache_link_def empty_vfs_def Let_def split: if_splits)
  moreover have "dcache_inv link_vfs"
    unfolding link_vfs_def by (rule cache.inv_put) (simp add: dcache_inv_def empty_vfs_def)
  moreover have "mount_rel link_vfs = {}"
  proof -
    have "mount_dentry (dentry_of link_vfs d) = 0" if "dlive link_vfs d" for d
    proof -
      have "d = 3 \<or> d = 2" using that by (simp add: link_vfs_simps)
      then show ?thesis by (elim disjE) (simp_all only: link_vfs_simps, simp_all add: zero_dentry_def)
    qed
    then show ?thesis by (auto simp: mount_rel_def)
  qed
  ultimately show "tree_inv link_vfs" using g unfolding tree_inv_def by (simp add: link_vfs_simps(2,3))
  show "fresh_memory link_env link_vfs" by (auto simp: fresh_memory_def link_vfs_simps link_env_def bare_env_def)
  show "lookups_ok link_env" by (auto simp: lookups_ok_def link_env_def bare_env_def no_iops_def)
qed

lemma link_vfs_walk: "vfs_namei (link_env\<lparr>link_frames := 1\<rparr>) (Some [47, 97]) link_vfs = Some (0, 3, link_vfs)"
proof -
  let ?E = "link_env\<lparr>link_frames := 1\<rparr>"
  have c: "components [47, 97] = [[97]]" "components [47] = []" "components [] = []"
    by (simp_all add: components.simps [of "[47, 97]"] components.simps [of "[47]"] components.simps [of "[]"])
  have hit: "dCacheLookup 3 [97] link_vfs = 2"
  proof -
    have "dcache_find (3, [97]) link_vfs = Some 2"
      unfolding link_vfs_def by (subst cache.find_put) (simp_all add: dcache_inv_def dkey_def empty_vfs_def)
    then show ?thesis by (simp add: dCacheLookup_find)
  qed
  have tr: "vfs_traverse_mount 3 link_vfs = Some 3" by (rule traverse_unmounted) (simp add: link_vfs_simps zero_dentry_def)
  have st: "step ?E 3 [97] link_vfs = Some (2, link_vfs)"
    using hit by (simp add: step_def strcmp_zero vfs_dentry_get_def link_vfs_simps)
  have l: "is_symlink link_vfs 2" "\<not> is_symlink link_vfs 3"
    by (simp_all add: is_symlink_def link_vfs_simps link_vfs_def empty_vfs_def vfs_type_defs zero_dentry_def)
  have rl: "vfs_readlink ?E (dinode (dentry_of link_vfs 2)) 1 (of_nat VFS_PATH_MAX) link_vfs = (Inr [47], link_vfs)"
    by (simp add: vfs_readlink_def vfs_check_inode_def link_vfs_simps link_env_def link_vfs_def empty_vfs_def VFS_PATH_MAX_def)
  have f: "walk ?E (Follow 2 0) link_vfs = Some (0, 3, link_vfs)"
    using l rl c tr by (simp add: follow_eq [of _ 2] follow_eq [of _ 3] walk_inner_eq walk_loop_eq [of _ 3] link_target_def absolute_def
        link_vfs_simps VFS_SYMLINK_MAX_def VFS_PATH_MAX_def)
  show ?thesis using c tr st f
    by (simp add: vfs_namei_def walk_inner_def walk_inner_eq walk_loop_eq [of _ 3 "[47, 97]"] walk_loop_eq [of _ 3 "[]"] absolute_def path_anchor_def
        link_vfs_simps VFS_SYMLINK_MAX_def VFS_PATH_MAX_def VFS_NAME_MAX_def)
qed

text \<open>One link on the path: the kernel's stack, with room for three link buffers, is enough.\<close>

theorem vfs_namei_terminates_witness:
  "\<exists>need \<le> 1. \<forall>n. vfs_namei (link_env\<lparr>link_frames := n\<rparr>) (Some [47, 97]) link_vfs = (if need \<le> n then Some (0, 3, link_vfs) else None)"
proof -
  obtain need r d s' where w: "\<forall>n. vfs_namei (link_env\<lparr>link_frames := n\<rparr>) (Some [47, 97]) link_vfs = (if need \<le> n then Some (r, d, s') else None)"
    using vfs_namei_terminates [OF link_vfs_ok, of "Some [47, 97]"] by blast
  then have "(if need \<le> 1 then Some (r, d, s') else None) = Some (0, 3, link_vfs)" using link_vfs_walk by simp
  then show ?thesis using w by (auto split: if_splits)
qed

section \<open>Splitting off the last component\<close>

lemma components_slash: "components (a @ slash # b) = components a @ components b"
proof (induction a rule: components.induct)
  case (1 a)
  let ?s = "dropWhile (\<lambda>c. c = slash) a"
  show ?case
  proof (cases "?s = []")
    case True
    then have al: "(\<forall>x \<in> set a. x = slash) = True" unfolding dropWhile_eq_Nil_conv by blast
    have "dropWhile (\<lambda>c. c = slash) (a @ slash # b) = dropWhile (\<lambda>c. c = slash) b"
      unfolding dropWhile_append al by simp
    then have "components (a @ slash # b) = components b"
      by (simp only: components.simps [of "a @ slash # b"] components.simps [of b])
    moreover have "components a = []" by (simp only: components.simps [of a] Let_def True simp_thms if_True)
    ultimately show ?thesis by simp
  next
    case False
    have x: "(\<forall>x \<in> set a. x = slash) = False" using False unfolding dropWhile_eq_Nil_conv by blast
    have e: "dropWhile (\<lambda>c. c = slash) (a @ slash # b) = ?s @ slash # b" unfolding dropWhile_append x by (rule if_False)
    have tw: "takeWhile (\<lambda>c. c \<noteq> slash) (?s @ slash # b) = takeWhile (\<lambda>c. c \<noteq> slash) ?s"
    proof (cases "slash \<in> set ?s")
      case True
      then show ?thesis by (rule takeWhile_append1) simp
    next
      case False
      then show ?thesis by (metis (mono_tags, lifting) append.right_neutral takeWhile.simps(2) takeWhile_append2 takeWhile_eq_all_conv)
    qed
    have dw: "dropWhile (\<lambda>c. c \<noteq> slash) (?s @ slash # b) = dropWhile (\<lambda>c. c \<noteq> slash) ?s @ slash # b"
    proof (cases "slash \<in> set ?s")
      case True
      then show ?thesis by (rule dropWhile_append1) simp
    next
      case False
      then show ?thesis by (metis (mono_tags, lifting) append_Nil dropWhile.simps(2) dropWhile_append2 dropWhile_eq_Nil_conv)
    qed
    have "components (a @ slash # b) = takeWhile (\<lambda>c. c \<noteq> slash) (?s @ slash # b) # components (dropWhile (\<lambda>c. c \<noteq> slash) (?s @ slash # b))"
      by (simp only: components.simps [of "a @ slash # b"] e Let_def append_is_Nil_conv list.distinct simp_thms if_False)
    moreover have "components a = takeWhile (\<lambda>c. c \<noteq> slash) ?s # components (dropWhile (\<lambda>c. c \<noteq> slash) ?s)"
      by (simp only: components.simps [of a] Let_def False if_False)
    ultimately show ?thesis by (simp only: tw dw 1 [OF refl False] append_Cons)
  qed
qed

lemma components_Nil [simp]: "components [] = []"
  by (simp add: components.simps)

lemma components_plain:
  assumes "slash \<notin> set w"
  shows "components w = (if w = [] then [] else [w])"
proof -
  have e: "dropWhile (\<lambda>c. c = slash) w = w" using assms by (cases w) auto
  have "takeWhile (\<lambda>c. c \<noteq> slash) w = w" "dropWhile (\<lambda>c. c \<noteq> slash) w = []"
    using assms by (auto simp: takeWhile_eq_all_conv)
  then show ?thesis by (simp only: components.simps [of w] e Let_def components_Nil)
qed

lemma components_trailing: "components (a @ replicate n slash) = components a"
proof (induction n)
  case (Suc n)
  have "components (a @ replicate (Suc n) slash) = components ((a @ replicate n slash) @ [slash])"
    by (simp add: replicate_append_same)
  then show ?case using Suc components_slash [of "a @ replicate n slash" "[]"] components_plain [of "[]"] by simp
qed simp

lemma strip_end_spec:
  assumes "n \<le> length path"
  shows "strip_end path n \<le> n \<and> take n path = take (strip_end path n) path @ replicate (n - strip_end path n) slash \<and>
    (strip_end path n \<noteq> 0 \<longrightarrow> path ! (strip_end path n - 1) \<noteq> slash)"
  using assms
proof (induction n)
  case (Suc n)
  then show ?case
    by (auto simp: take_Suc_conv_app_nth Suc_diff_le replicate_append_same [symmetric])
qed simp

lemma find_last_slash_spec:
  assumes "n \<le> length path"
  shows "case find_last_slash path n of
      None \<Rightarrow> slash \<notin> set (take n path)
    | Some i \<Rightarrow> i < n \<and> path ! i = slash \<and> slash \<notin> set (take (n - (i + 1)) (drop (i + 1) path))"
  using assms
proof (induction n)
  case (Suc n)
  then have "n < length path" by simp
  show ?case
  proof (cases "path ! n = slash")
    case False
    then show ?thesis
    proof (cases "find_last_slash path n")
      case None
      then show ?thesis using Suc False by (auto simp: take_Suc_conv_app_nth)
    next
      case (Some i)
      then have i: "i < n" "path ! i = slash" "slash \<notin> set (take (n - (i + 1)) (drop (i + 1) path))" using Suc by simp_all
      have "Suc n - (i + 1) = Suc (n - (i + 1))" using i(1) by simp
      moreover have "drop (i + 1) path ! (n - (i + 1)) = path ! n" "n - (i + 1) < length (drop (i + 1) path)"
        using i(1) \<open>n < length path\<close> by simp_all
      ultimately have "take (Suc n - (i + 1)) (drop (i + 1) path) = take (n - (i + 1)) (drop (i + 1) path) @ [path ! n]"
        by (metis take_Suc_conv_app_nth)
      then show ?thesis using i False Some by simp
    qed
  qed simp
qed simp

lemma split_path:
  assumes "strip_end path (length path) = e" and "e \<noteq> 0"
  shows "case find_last_slash path e of
      None \<Rightarrow> components path = [take e path]
    | Some i \<Rightarrow> components path = components (take i path) @ [take (e - (i + 1)) (drop (i + 1) path)] \<and> i + 1 < e"
proof -
  note st = strip_end_spec [of "length path" path, unfolded assms(1), OF order_refl]
  then have le: "e \<le> length path" and lastc: "path ! (e - 1) \<noteq> slash" and
    all: "path = take e path @ replicate (length path - e) slash" using assms(2) by simp_all
  have c: "components path = components (take e path)" by (subst all) (rule components_trailing)
  note fs = find_last_slash_spec [OF le]
  show ?thesis
  proof (cases "find_last_slash path e")
    case None
    then have "slash \<notin> set (take e path)" using fs by simp
    moreover have "take e path \<noteq> []" using le assms(2) by (metis length_greater_0_conv less_le_trans neq0_conv take_eq_Nil not_less)
    ultimately show ?thesis using None c components_plain [of "take e path"] by simp
  next
    case (Some i)
    then have i: "i < e" "path ! i = slash" "slash \<notin> set (take (e - (i + 1)) (drop (i + 1) path))" using fs by simp_all
    have ne: "i + 1 < e"
    proof (rule ccontr)
      assume "\<not> i + 1 < e"
      then have "i = e - 1" using i(1) by simp
      then show False using i(2) lastc by simp
    qed
    have "take e path = take i path @ slash # take (e - (i + 1)) (drop (i + 1) path)"
    proof -
      have "take e path = take i path @ take (e - i) (drop i path)" using i(1) by (metis le_add_diff_inverse less_imp_le take_add)
      moreover have "drop i path = slash # drop (i + 1) path" using i le by (metis Cons_nth_drop_Suc Suc_eq_plus1 order.strict_trans2)
      moreover have "e - i = Suc (e - (i + 1))" using i(1) by simp
      ultimately show ?thesis by simp
    qed
    then have "components path = components (take i path) @ components (take (e - (i + 1)) (drop (i + 1) path))"
      using c components_slash by simp
    moreover have "take (e - (i + 1)) (drop (i + 1) path) \<noteq> []" using ne le by simp
    ultimately show ?thesis using Some ne components_plain [OF i(3)] by simp
  qed
qed

text \<open>A walk over a path that is there never fails with EINVAL.\<close>

lemma walk_not_EINVAL:
  assumes "walk E call s = Some (r, d, s')" and "\<And>start depth. call \<noteq> WalkInner start None depth"
  shows "r \<noteq> - EINVAL"
proof -
  have "(\<exists>start depth. call = WalkInner start None depth) \<or> r \<noteq> - EINVAL"
  proof (rule walk.raw_induct [where P = "\<lambda>E call s x. (\<exists>start depth. call = WalkInner start None depth) \<or> fst x \<noteq> - EINVAL",
        OF _ assms(1), unfolded fst_conv], goal_cases)
    case (1 f E call s x)
    obtain r d s' where x: "x = (r, d, s')" by (metis prod_cases3)
    note ih = 1(1) and eq = 1(2) [unfolded x]
    show ?case
    proof (cases call)
      case (WalkInner start path depth)
      show ?thesis
      proof (cases path)
        case (Some p)
        note e = eq [unfolded WalkInner Some walk_call.case option.case Let_def]
        then show ?thesis using ih [of E _ s "(r, d, s')"] by (auto simp: x errno_defs split: if_splits)
      qed (simp add: WalkInner)
    next
      case (WalkLoop cur p depth)
      show ?thesis
      proof (cases "components p")
        case Nil
        then show ?thesis using eq WalkLoop by (auto simp: x next_component_spec errno_defs bind_eq_Some_conv)
      next
        case (Cons w ws)
        then have "w \<noteq> []" using components_nonempty [of w p] by simp
        then show ?thesis using eq ih [of E "WalkLoop _ _ depth" _ "(r, d, s')"] WalkLoop Cons
          by (auto simp: x next_component_spec errno_defs bind_eq_Some_conv split: if_splits)
      qed
    next
      case (Follow cur depth)
      then show ?thesis using eq ih [of E "Follow _ depth" _ "(r, d, s')"]
        by (auto simp: x Let_def errno_defs bind_eq_Some_conv split: if_splits prod.splits sum.splits)
    qed
  qed
  then show ?thesis using assms(2) by blast
qed

lemma namei_not_EINVAL: "vfs_namei E (Some path) s = Some (r, d, s') \<Longrightarrow> r \<noteq> - EINVAL"
  using walk_not_EINVAL [of E "WalkInner (path_anchor (Some path) s) (Some path) 0" s r d s']
  by (auto simp: vfs_namei_def walk_inner_def errno_defs split: if_splits)

text \<open>The paths that have no parent and last component.\<close>

definition no_leaf :: "u8 list option \<Rightarrow> bool" where
  "no_leaf path \<longleftrightarrow> (case path of None \<Rightarrow> True | Some p \<Rightarrow> length p \<ge> VFS_PATH_MAX \<or> components p = [])"

lemma no_leaf_strip: "no_leaf (Some p) \<longleftrightarrow> p = [] \<or> length p \<ge> VFS_PATH_MAX \<or> strip_end p (length p) = 0"
proof (cases "strip_end p (length p) = 0")
  case True
  then have "p = replicate (length p) slash" using strip_end_spec [of "length p" p] by simp
  then have "components p = []" using components_trailing [of "[]" "length p"] by simp
  then show ?thesis using True by (simp add: no_leaf_def)
next
  case False
  then have "components p \<noteq> []" using split_path [OF refl False] by (auto split: option.splits)
  then show ?thesis using False by (auto simp: no_leaf_def)
qed

lemma parent_EINVAL:
  assumes "vfs_namei_parent E path leaf_cap s = Some (r, parent, leaf, s')"
  shows "r = - EINVAL \<longleftrightarrow> leaf_cap = 0 \<or> no_leaf path"
proof (cases path)
  case (Some p)
  show ?thesis
  proof (cases "leaf_cap = 0 \<or> no_leaf path")
    case True
    then have "r = - EINVAL" using assms Some by (auto simp: vfs_namei_parent_def no_leaf_strip Let_def split: if_splits)
    then show ?thesis using True by simp
  next
    case False
    then show ?thesis using assms Some namei_not_EINVAL [of E _ s]
      by (auto simp: vfs_namei_parent_def no_leaf_strip Let_def errno_defs split: if_splits option.splits)
  qed
qed (use assms in \<open>simp add: vfs_namei_parent_def no_leaf_def\<close>)



section \<open>Walking over cached directories\<close>

text \<open>A name that is not one of the two special ones and fits a component.\<close>

definition plain_name :: "u8 list \<Rightarrow> bool" where
  "plain_name w \<longleftrightarrow> w \<noteq> [] \<and> slash \<notin> set w \<and> w \<noteq> [46] \<and> w \<noteq> [46, 46] \<and> length w \<le> VFS_NAME_MAX"

text \<open>
  \<open>named s d ws\<close>: the names \<open>ws\<close> lead from the root to \<open>d\<close> through cached dentries that are not
  links, each name being the one its dentry carries, with mounts passed on the way.
\<close>

inductive named :: "'x vfs \<Rightarrow> nat \<Rightarrow> u8 list list \<Rightarrow> bool" where
  named_root: "vfs_root s \<noteq> 0 \<Longrightarrow> \<not> mounted_on s (vfs_root s) \<Longrightarrow> named s (vfs_root s) []"
| named_child: "named s p ws \<Longrightarrow> plain_name w \<Longrightarrow> dinode (dentry_of s p) \<noteq> 0 \<Longrightarrow> dCacheLookup p w s = c \<Longrightarrow> c \<noteq> 0 \<Longrightarrow>
    \<not> is_symlink s c \<Longrightarrow> vfs_traverse_mount c s = Some d \<Longrightarrow> d \<noteq> vfs_root s \<Longrightarrow> dparent (dentry_of s d) = p \<Longrightarrow>
    dname (dentry_of s d) = w \<Longrightarrow> named s d (ws @ [w])"

lemma traverse_final:
  assumes "vfs_traverse_mount d s = Some m"
  shows "\<not> mounted_on s m"
proof (rule vfs_traverse_mount.raw_induct [where P = "\<lambda>d s m. \<not> mounted_on s m", OF _ assms], goal_cases)
  case (1 f d s m)
  then show ?case by (cases "mounted_on s d") auto
qed

lemma traverse_nonzero:
  assumes "vfs_traverse_mount d s = Some m" and "d \<noteq> 0"
  shows "m \<noteq> 0"
proof -
  have "d \<noteq> 0 \<longrightarrow> m \<noteq> 0"
  proof (rule vfs_traverse_mount.raw_induct [where P = "\<lambda>d s m. d \<noteq> 0 \<longrightarrow> m \<noteq> 0", OF _ assms(1)], goal_cases)
    case (1 f d s m)
    then show ?case by (cases "mounted_on s d") auto
  qed
  then show ?thesis using assms(2) by simp
qed

lemma named_unmounted: "named s d ws \<Longrightarrow> \<not> mounted_on s d"
  by (induction rule: named.induct) (blast, rule traverse_final)

lemma named_nonzero: "named s d ws \<Longrightarrow> d \<noteq> 0"
  by (induction rule: named.induct) (auto dest: traverse_nonzero)

lemma named_names: "named s d ws \<Longrightarrow> w \<in> set ws \<Longrightarrow> plain_name w"
  by (induction rule: named.induct) auto

text \<open>The path that the names spell.\<close>

definition spell :: "u8 list list \<Rightarrow> u8 list" where
  "spell ws = concat (map (\<lambda>w. slash # w) ws)"

lemma components_spell: "(\<And>w. w \<in> set ws \<Longrightarrow> plain_name w) \<Longrightarrow> components (spell ws) = ws"
proof (induction ws rule: rev_induct)
  case (snoc w ws)
  have w: "w \<noteq> []" "slash \<notin> set w" using snoc.prems [of w] by (simp_all add: plain_name_def)
  have "components (spell (ws @ [w])) = components (spell ws) @ components w"
    by (simp add: spell_def components_slash)
  then show ?case using snoc w components_plain [OF w(2)] by simp
qed (simp add: spell_def)

lemma step_cached:
  assumes "plain_name w" and "p \<noteq> 0" and "dinode (dentry_of s p) \<noteq> 0" and "dCacheLookup p w s \<noteq> 0"
  shows "step E p w s = Some (dCacheLookup p w s, s)"
  using assms by (simp add: step_def strcmp_zero plain_name_def vfs_dentry_get_def)

lemma follow_plain: "\<not> is_symlink s d \<Longrightarrow> walk E (Follow d depth) s = Some (0, d, s)"
  by (simp add: follow_eq)

text \<open>
  The loop over a path whose first components are cached names: it arrives at the dentry they
  name, up to mounts, without touching the state.
\<close>

lemma walk_named:
  assumes "named s d ws" and "components p = ws @ vs"
  shows "\<exists>c q. vfs_traverse_mount c s = Some d \<and> components q = vs \<and>
    walk E (WalkLoop (vfs_root s) p depth) s = walk E (WalkLoop c q depth) s"
  using assms
proof (induction arbitrary: vs rule: named.induct)
  case (named_root s)
  then show ?case using traverse_unmounted [where s = s and d = "vfs_root s"] by (metis append_Nil)
next
  case (named_child s p' ws w c d)
  have "components p = ws @ (w # vs)" using named_child.prems by simp
  from named_child.IH [OF this] obtain e q where e: "vfs_traverse_mount e s = Some p'" "components q = w # vs"
    "walk E (WalkLoop (vfs_root s) p depth) s = walk E (WalkLoop e q depth) s" by blast
  let ?rest = "dropWhile (\<lambda>c. c \<noteq> slash) (dropWhile (\<lambda>c. c = slash) q)"
  have len: "\<not> length w > VFS_NAME_MAX" using named_child.hyps(2) by (simp add: plain_name_def)
  have st: "step E p' w s = Some (c, s)"
    using step_cached [OF named_child.hyps(2) named_nonzero [OF named_child.hyps(1)] named_child.hyps(3)] named_child.hyps(4,5) by simp
  have "walk E (WalkLoop e q depth) s = walk E (WalkLoop c ?rest depth) s"
    using e(1,2) len st named_child.hyps(5) follow_plain [OF named_child.hyps(6)] by (simp add: walk_loop_eq [of E e q])
  moreover have "components ?rest = vs" using components_rest [OF e(2), of "Suc (length w)"] e(2) by (simp add: next_component_spec)
  ultimately show ?case using e(3) named_child.hyps(7) by metis
qed

lemma namei_spell:
  assumes n: "named s d ws" and len: "length (spell ws) < VFS_PATH_MAX" and ne: "ws \<noteq> []"
  shows "vfs_namei E (Some (spell ws)) s = Some (0, d, s)"
proof -
  have c: "components (spell ws) = ws @ []" using components_spell [OF named_names [OF n]] by simp
  obtain e q where e: "vfs_traverse_mount e s = Some d" "components q = []"
    "walk E (WalkLoop (vfs_root s) (spell ws) 0) s = walk E (WalkLoop e q 0) s" using walk_named [OF n c] by blast
  have r: "vfs_root s \<noteq> 0" using n by (induction rule: named.induct) simp_all
  have ab: "absolute (spell ws)" using ne by (cases ws) (simp_all add: spell_def absolute_def)
  show ?thesis using e r ab len
    by (simp add: vfs_namei_def walk_inner_def walk_inner_eq walk_loop_eq [of E e q] path_anchor_def)
qed

end
