(* ===== verification/Vfs_Cwd.thy ===== *)
theory Vfs_Cwd
  imports Vfs_Syscalls Vfs_Path_Props
begin

text \<open>
  The current directory: what \<^verbatim>\<open>getcwd\<close> prints is a path that \<^verbatim>\<open>chdir\<close> takes back to the same
  dentry.  Two consequences of the resolution rules are at the end: \<^verbatim>\<open>readlink\<close> never sees a link,
  and a current directory can be removed under a task.
\<close>

section \<open>The path of a directory\<close>

lemma named_not_root:
  assumes "named s d ws" and "ws \<noteq> []"
  shows "d \<noteq> vfs_root s"
  using assms by (cases rule: named.cases) auto

lemma collect_named:
  assumes "named s d ws" and "length ws \<le> n"
  shows "\<exists>ds. collect_parents n d acc s = Some (ds @ acc) \<and> map (\<lambda>d. dname (dentry_of s d)) ds = ws"
  using assms
proof (induction arbitrary: n acc rule: named.induct)
  case (named_root s)
  then show ?case by (intro exI [of _ "[]"]) (simp add: collect_parents.simps)
next
  case (named_child s p ws w c d)
  obtain m where n: "n = Suc m" "length ws \<le> m" using named_child.prems by (cases n) auto
  obtain ds where ds: "collect_parents m p (d # acc) s = Some (ds @ d # acc)" "map (\<lambda>d. dname (dentry_of s d)) ds = ws"
    using named_child.IH [OF n(2)] by blast
  have "d \<noteq> 0" using traverse_nonzero named_child.hyps(5,7) by blast
  then have "collect_parents n d acc s = Some ((ds @ [d]) @ acc)"
    using n(1) ds(1) named_child.hyps(8,9) by (simp add: collect_parents.simps [of n])
  then show ?case using ds(2) named_child.hyps(10) by (intro exI [of _ "ds @ [d]"]) simp
qed

lemma collect_deep:
  assumes "named s d ws" and "n < length ws"
  shows "collect_parents n d acc s = None"
  using assms
proof (induction arbitrary: n acc rule: named.induct)
  case (named_child s p ws w c d)
  have d: "d \<noteq> 0" using traverse_nonzero named_child.hyps(5,7) by blast
  show ?case
  proof (cases n)
    case 0
    then show ?thesis using d named_child.hyps(8) by (simp add: collect_parents.simps [of n])
  next
    case (Suc m)
    then have "collect_parents m p (d # acc) s = None" using named_child by simp
    then show ?thesis using d Suc named_child.hyps(8,9) by (simp add: collect_parents.simps [of n])
  qed
qed simp

lemma spell_Cons: "spell (w # ws) = slash # w @ spell ws"
  by (simp add: spell_def)

lemma compose_spell:
  assumes "length acc + 1 \<le> sz"
  shows "compose_path sz acc ds s =
    (if length acc + length (spell (map (\<lambda>d. dname (dentry_of s d)) ds)) + 1 \<le> sz
     then Some (acc @ spell (map (\<lambda>d. dname (dentry_of s d)) ds) @ [0]) else None)"
  using assms
proof (induction ds arbitrary: acc)
  case (Cons d ds)
  then show ?case using Cons.IH [of "acc @ slash # dname (dentry_of s d)"] by (auto simp: spell_Cons Let_def)
qed (simp add: spell_def)

text \<open>The text that names a directory: a single slash for the root.\<close>

definition cwd_text :: "u8 list list \<Rightarrow> u8 list" where
  "cwd_text ws = (if ws = [] then [slash] else spell ws)"

lemma getcwd_named:
  assumes n: "named s d ws" and c: "cwd s = d" and buf: "buf \<noteq> 0" "buf < KERNEL_SPACE" and z: "sz \<noteq> 0"
  shows "SysGetcwd buf sz s =
    (if length ws > MAX_DEPTH then Inl (- ENAMETOOLONG)
     else if length (cwd_text ws) < unat sz then Inr (cwd_text ws @ [0]) else Inl (- ERANGE))"
proof (cases "length ws > MAX_DEPTH")
  case True
  have "\<not> buf \<ge> KERNEL_SPACE" using buf(2) by (simp add: not_le)
  then show ?thesis using collect_deep [OF n True] c named_nonzero [OF n] buf(1) z True
    by (simp add: SysGetcwd_def del: collect_parents.simps)
next
  case False
  obtain ds where ds: "collect_parents MAX_DEPTH d [] s = Some ds" "map (\<lambda>d. dname (dentry_of s d)) ds = ws"
    using collect_named [OF n, of MAX_DEPTH "[]"] False by auto
  have d0: "d \<noteq> 0" by (rule named_nonzero [OF n])
  have u: "1 \<le> unat sz" using z by (simp add: Suc_le_eq unat_gt_0)
  have b: "\<not> buf \<ge> KERNEL_SPACE" using buf(2) by (simp add: not_le)
  show ?thesis
  proof (cases ds)
    case Nil
    then have "ws = []" using ds(2) by simp
    moreover have "sz < 2 \<longleftrightarrow> \<not> 1 < unat sz" by (simp add: word_less_nat_alt not_less Suc_le_eq less_2_cases_iff, auto)
    ultimately show ?thesis using Nil False ds(1) c d0 z buf(1) b by (simp add: SysGetcwd_def cwd_text_def del: collect_parents.simps)
  next
    case (Cons e es)
    then have ne: "ws \<noteq> []" using ds(2) by auto
    have "compose_path (unat sz) [] ds s = (if length (spell ws) < unat sz then Some (spell ws @ [0]) else None)"
      using compose_spell [of "[]" "unat sz" ds s] ds(2) u by (auto simp: Suc_le_eq)
    then show ?thesis using Cons ne False ds(1) c d0 z buf(1) b
      by (simp add: SysGetcwd_def cwd_text_def del: collect_parents.simps compose_path.simps)
  qed
qed

lemma namei_long_text:
  assumes n: "named s d ws" and len: "length (cwd_text ws) \<ge> VFS_PATH_MAX"
  shows "vfs_namei E (Some (cwd_text ws)) s = Some (- ENAMETOOLONG, 0, s)"
proof -
  have "vfs_root s \<noteq> 0" using n by (induction rule: named.induct) simp_all
  then show ?thesis using len by (simp add: vfs_namei_def walk_inner_def walk_inner_eq)
qed

lemma namei_cwd_text:
  assumes n: "named s d ws" and len: "length (cwd_text ws) < VFS_PATH_MAX"
  shows "vfs_namei E (Some (cwd_text ws)) s = Some (0, d, s)"
proof (cases "ws = []")
  case True
  then have d: "d = vfs_root s" "vfs_root s \<noteq> 0" "\<not> mounted_on s (vfs_root s)" using n by (auto elim: named.cases)
  have "components [slash] = []" by (simp add: components.simps)
  then show ?thesis using True d(1,2) traverse_unmounted [OF d(3)]
    by (simp add: vfs_namei_def walk_inner_def walk_inner_eq walk_loop_eq [of E "vfs_root s" "[slash]"] cwd_text_def path_anchor_def
        absolute_def VFS_PATH_MAX_def)
next
  case False
  then show ?thesis using namei_spell [OF n _ False] len by (simp add: cwd_text_def)
qed

lemma traverse_cwd [simp]: "vfs_traverse_mount d (s\<lparr>cwd := c\<rparr>) = vfs_traverse_mount d s"
proof -
  have "vfs_traverse_mount d s = Some m \<Longrightarrow> vfs_traverse_mount d (s\<lparr>cwd := c\<rparr>) = Some m" for m and s :: "'a vfs" and c
  proof (rule vfs_traverse_mount.raw_induct [where P = "\<lambda>d s m. vfs_traverse_mount d (s\<lparr>cwd := c\<rparr>) = Some m"], goal_cases)
    case (1 f d s m)
    then show ?case by (cases "mounted_on s d") (auto simp: vfs_traverse_mount.simps [of d "s\<lparr>cwd := c\<rparr>"])
  qed
  from this [of s _ c] this [of "s\<lparr>cwd := c\<rparr>" _ "cwd s"] show ?thesis
    by (cases "vfs_traverse_mount d s"; cases "vfs_traverse_mount d (s\<lparr>cwd := c\<rparr>)") auto
qed

lemma named_cwd:
  assumes "named s d ws"
  shows "named (s\<lparr>cwd := c\<rparr>) d ws"
  using assms
proof (induction rule: named.induct)
  case (named_root s)
  then show ?case using named.named_root [of "s\<lparr>cwd := c\<rparr>"] by simp
next
  case (named_child s p ws w e d)
  have "dCacheLookup p w (s\<lparr>cwd := c\<rparr>) = e" using named_child.hyps(4) by (simp add: dCacheLookup_def)
  moreover have "\<not> is_symlink (s\<lparr>cwd := c\<rparr>) e" using named_child.hyps(6) by (simp add: is_symlink_def)
  ultimately show ?case using named.named_child [OF named_child.IH, of w e d] named_child.hyps by simp
qed

text \<open>
  C31. \<^verbatim>\<open>getcwd\<close> and \<^verbatim>\<open>chdir\<close> are a round trip.  Take a task whose current directory is reached from
  the root through cached directories whose dentries carry the names they are cached under, over
  whatever mounts; a current directory that was removed is not one of these.  \<^verbatim>\<open>getcwd\<close> into a
  user buffer of non-zero size fails with ENAMETOOLONG exactly below 128 levels and otherwise with
  ERANGE exactly when the text and its terminator do not fit; else it stores the absolute path
  with its terminator.  A \<^verbatim>\<open>chdir\<close> to that path, from any other current directory, succeeds and
  leads back to exactly the same state if the path is shorter than \<^verbatim>\<open>VFS_PATH_MAX\<close> (4096); a longer
  one, which \<^verbatim>\<open>getcwd\<close> can deliver, is refused with ENAMETOOLONG and nothing changes.
\<close>

theorem getcwd_chdir_roundtrip:
  assumes "named s (cwd s) ws" and "buf \<noteq> 0" and "buf < KERNEL_SPACE" and "sz \<noteq> 0"
    and "dinode (dentry_of s (cwd s)) \<noteq> 0" and "itype (inode_of s (dinode (dentry_of s (cwd s)))) = VFS_TYPE_DIR"
  shows "SysGetcwd buf sz s =
      (if length ws > MAX_DEPTH then Inl (- ENAMETOOLONG)
       else if length (cwd_text ws) < unat sz then Inr (cwd_text ws @ [0]) else Inl (- ERANGE)) \<and>
    SysChdir E \<lparr>up_ptr = buf, up_str = cwd_text ws\<rparr> (s\<lparr>cwd := other\<rparr>) =
      (if length (cwd_text ws) < VFS_PATH_MAX then Some (0, s) else Some (- ENAMETOOLONG, s\<lparr>cwd := other\<rparr>))"
proof (rule conjI)
  show "SysGetcwd buf sz s =
      (if length ws > MAX_DEPTH then Inl (- ENAMETOOLONG)
       else if length (cwd_text ws) < unat sz then Inr (cwd_text ws @ [0]) else Inl (- ERANGE))"
    by (rule getcwd_named [OF assms(1) refl assms(2-4)])
  have "vfs_namei E (Some (cwd_text ws)) (s\<lparr>cwd := other\<rparr>) =
      (if length (cwd_text ws) < VFS_PATH_MAX then Some (0, cwd s, s\<lparr>cwd := other\<rparr>) else Some (- ENAMETOOLONG, 0, s\<lparr>cwd := other\<rparr>))"
    using namei_cwd_text [OF named_cwd [OF assms(1)]] namei_long_text [OF named_cwd [OF assms(1)]] by simp
  moreover have "\<not> buf \<ge> KERNEL_SPACE" using assms(3) by (simp add: not_le)
  moreover have "cwd s \<noteq> 0" by (rule named_nonzero [OF assms(1)])
  ultimately show "SysChdir E \<lparr>up_ptr = buf, up_str = cwd_text ws\<rparr> (s\<lparr>cwd := other\<rparr>) =
      (if length (cwd_text ws) < VFS_PATH_MAX then Some (0, s) else Some (- ENAMETOOLONG, s\<lparr>cwd := other\<rparr>))"
    using assms(2,5,6) by (simp add: SysChdir_def path_of_def ENAMETOOLONG_def)
qed

text \<open>A root with one directory, the current one.\<close>

definition dir_vfs :: "unit vfs" where
  "dir_vfs = dcache_link 2 ((empty_vfs ())
     \<lparr>fs := \<lparr>inodes = (\<lambda>_. null_inode\<lparr>itype := VFS_TYPE_DIR, isb := 1, iops := 1\<rparr>), ilive = (\<lambda>i. True), sbs = \<lambda>_. null_sb, fsx = ()\<rparr>,
      dentries := (\<lambda>_. zero_dentry)(3 := zero_dentry\<lparr>dname := [47], dparent := 3, dinode := 3\<rparr>,
                                   2 := zero_dentry\<lparr>dname := [97], dparent := 3, dinode := 2\<rparr>),
      dlive := (\<lambda>d. d = 3 \<or> d = 2), vfs_root := 3, cwd := 2\<rparr>)"

lemma dir_vfs_simps:
  "vfs_root dir_vfs = 3" "cwd dir_vfs = 2" "inode_of dir_vfs i = null_inode\<lparr>itype := VFS_TYPE_DIR, isb := 1, iops := 1\<rparr>"
  "dentry_of dir_vfs 3 = zero_dentry\<lparr>dname := [47], dparent := 3, dinode := 3\<rparr>"
  "dentry_of dir_vfs 2 = zero_dentry\<lparr>dname := [97], dparent := 3, dinode := 2\<rparr>"
  by (simp_all add: dir_vfs_def)

lemma dir_vfs_named: "named dir_vfs 2 [[97]]"
proof -
  have "named dir_vfs (vfs_root dir_vfs) []"
    by (rule named_root) (simp_all add: dir_vfs_simps zero_dentry_def)
  then have r: "named dir_vfs 3 []" by (simp only: dir_vfs_simps)
  have c: "dCacheLookup 3 [97] dir_vfs = 2"
  proof -
    have "dcache_find (3, [97]) dir_vfs = Some 2"
      unfolding dir_vfs_def by (subst cache.find_put) (simp_all add: dcache_inv_def dkey_def empty_vfs_def)
    then show ?thesis by (simp add: dCacheLookup_find)
  qed
  have "\<not> mounted_on dir_vfs 2" by (simp add: dir_vfs_simps zero_dentry_def)
  then have tr: "vfs_traverse_mount 2 dir_vfs = Some 2" by (rule traverse_unmounted)
  have pl: "plain_name [97]" by (simp add: plain_name_def VFS_NAME_MAX_def)
  have nl: "\<not> is_symlink dir_vfs 2" by (simp add: is_symlink_def dir_vfs_simps vfs_type_defs)
  from named_child [OF r pl _ c _ nl tr] show ?thesis by (simp add: dir_vfs_simps)
qed

theorem getcwd_chdir_roundtrip_witness:
  "SysGetcwd 4096 64 dir_vfs = Inr [47, 97, 0] \<and>
   SysChdir bare_env \<lparr>up_ptr = 4096, up_str = [47, 97]\<rparr> (dir_vfs\<lparr>cwd := 3\<rparr>) = Some (0, dir_vfs)"
proof -
  have n: "named dir_vfs (cwd dir_vfs) [[97]]" using dir_vfs_named by (simp add: dir_vfs_simps)
  have t: "cwd_text [[97]] = [47, 97]" by (simp add: cwd_text_def spell_def)
  show ?thesis using getcwd_chdir_roundtrip [OF n, of 4096 64 bare_env 3, unfolded t]
    by (simp add: MAX_DEPTH_def VFS_PATH_MAX_def KERNEL_SPACE_def dir_vfs_simps)
qed

section \<open>Consequences of the resolution rules\<close>

text \<open>Reading a link by its path never succeeds: the resolution has followed it already.\<close>

lemma readlink_path_fails:
  assumes "walk_ok E s"
  shows "vfs_readlink_path E path buf sz s \<noteq> Some (Inr bs, s1)"
proof -
  obtain need r d s' where n: "\<And>n. vfs_namei (stack n E) path s = (if need \<le> n then Some (r, d, s') else None)"
    "r = 0 \<and> good_dentry s' d \<or> r < 0 \<and> d = 0" by (rule namei_returns [OF assms]) (rule that)
  have "vfs_namei E path s = (if need \<le> link_frames E then Some (r, d, s') else None)"
    using n(1) [of "link_frames E"] by simp
  moreover have "r < 0 \<or> d \<noteq> 0 \<and> (dinode (dentry_of s' d) \<noteq> 0 \<longrightarrow> itype (inode_of s' (dinode (dentry_of s' d))) \<noteq> VFS_TYPE_SYMLINK)"
    using n(2) by (auto simp: good_dentry_def is_symlink_def)
  ultimately show ?thesis by (auto simp: vfs_readlink_path_def vfs_readlink_def Let_def split: if_splits)
qed

text \<open>
  Removing the current directory frees its dentry although the task still points to it: nothing
  compares the two.
\<close>

lemma rmdir_of_cwd_dangles:
  assumes "vfs_namei_parent E path (VFS_NAME_MAX + 1) s = Some (0, parent, leaf, s1)"
    and "parent \<noteq> 0" "dinode (dentry_of s1 parent) \<noteq> 0"
    and "vfs_dentry_get E parent leaf s1 = Some (d, s2)" "d \<noteq> 0"
    and "vfs_rmdir E (dinode (dentry_of s2 parent)) d s2 = (0, s3)" and "cwd s3 = d"
  shows "\<exists>s'. vfs_rmdir_path E path s = Some (0, s') \<and> cwd s' = d \<and> \<not> dlive s' d"
  using assms by (simp add: vfs_rmdir_path_def with_existing_child_def vfs_dentry_free_def dCacheRemove_def Let_def)

end
