(* ===== verification/Vfs_Dirents.thy ===== *)
theory Vfs_Dirents
  imports Vfs_File
begin

text \<open>
  Reading a directory through \<^verbatim>\<open>vfs_getdents\<close>: over any number of calls the records come out
  whole, each once and in the order of the directory, with the one that did not fit kept back
  for the next call.
\<close>

section \<open>Records\<close>

type_synonym dir_entry = "u8 list \<times> u64 \<times> u8"

definition dirent_bytes :: "dir_entry \<Rightarrow> u8 list" where
  "dirent_bytes e = (let (nm, ino, ty) = e in the (encode_dirent (dirent_len nm) nm ino ty))"

lemma encode_dirent_eq:
  "encode_dirent n nm ino ty = (if dirent_len nm \<le> n then Some (dirent_bytes (nm, ino, ty)) else None)"
  by (simp add: encode_dirent_def dirent_bytes_def Let_def)

lemma length_dirent_bytes: "length (dirent_bytes (nm, ino, ty)) = dirent_len nm"
  using encode_dirent_length [of "dirent_len nm" nm ino ty] by (simp add: encode_dirent_eq)

text \<open>The reader's side: the fields of a record at the front of a buffer, and what follows it.\<close>

definition read_le :: "u8 list \<Rightarrow> u64" where
  "read_le bs = foldr (\<lambda>b w. push_bit 8 w OR ucast b) bs 0"

definition decode_dirent :: "u8 list \<Rightarrow> dir_entry \<times> u8 list" where
  "decode_dirent bs =
     (let reclen = unat (read_le (take 2 (drop 16 bs)))
      in ((takeWhile (\<lambda>c. c \<noteq> 0) (drop 19 bs), read_le (take 8 bs), bs ! 18), drop reclen bs))"

lemma read_le_bytes:
  assumes "n \<le> 8"
  shows "read_le (le_bytes n w) = take_bit (8 * n) w"
  using assms
proof (induction n arbitrary: w)
  case (Suc n)
  have "le_bytes (Suc n) w = ucast w # le_bytes n (drop_bit 8 w)"
    by (simp add: le_bytes_def upt_conv_Cons map_Suc_upt [symmetric] comp_def drop_bit_drop_bit algebra_simps del: upt_Suc)
  then have "read_le (le_bytes (Suc n) w) = push_bit 8 (take_bit (8 * n) (drop_bit 8 w)) OR ucast (ucast w :: u8)"
    using Suc by (simp add: read_le_def)
  also have "\<dots> = take_bit (8 * Suc n) w"
  proof (rule bit_word_eqI)
    fix m assume "m < LENGTH(64)"
    then show "bit (push_bit 8 (take_bit (8 * n) (drop_bit 8 w)) OR ucast (ucast w :: u8)) m = bit (take_bit (8 * Suc n) w) m"
      by (auto simp: bit_or_iff bit_push_bit_iff bit_take_bit_iff bit_drop_bit_eq bit_unsigned_iff)
  qed
  finally show ?case .
qed (simp add: read_le_def le_bytes_def)

lemma dirent_bytes_eq:
  "dirent_bytes (nm, ino, ty) = le_bytes 8 ino @ le_bytes 8 (of_nat (dirent_len nm)) @ le_bytes 2 (of_nat (dirent_len nm)) @
     [ty] @ nm @ [0] @ replicate (dirent_len nm - (19 + length nm + 1)) 0"
  by (simp add: dirent_bytes_def encode_dirent_def Let_def)

lemma length_le_bytes [simp]: "length (le_bytes n w) = n"
  by (simp add: le_bytes_def)

lemma decode_dirent_bytes:
  assumes "0 \<notin> set nm" and "dirent_len nm < 2 ^ 16"
  shows "decode_dirent (dirent_bytes (nm, ino, ty) @ rest) = ((nm, ino, ty), rest)"
proof -
  let ?l = "of_nat (dirent_len nm) :: u64"
  let ?t = "replicate (dirent_len nm - (19 + length nm + 1)) 0 @ rest"
  have a: "dirent_bytes (nm, ino, ty) @ rest = le_bytes 8 ino @ le_bytes 8 ?l @ le_bytes 2 ?l @ ty # nm @ 0 # ?t"
    by (simp add: dirent_bytes_eq)
  have l: "unat ?l = dirent_len nm" using assms(2) by (simp add: unat_of_nat)
  have "unat (take_bit 16 ?l) = dirent_len nm" using l assms(2) by (simp add: unsigned_take_bit_eq take_bit_nat_eq_self)
  then have r: "unat (read_le (le_bytes 2 ?l)) = dirent_len nm" using read_le_bytes [of 2 ?l] by simp
  have i: "read_le (le_bytes 8 ino) = ino" using read_le_bytes [of 8 ino] by (simp add: take_bit_word_eq_self)
  have n: "takeWhile (\<lambda>c. c \<noteq> 0) (nm @ 0 # ?t) = nm" using assms(1)
    by (metis (mono_tags, lifting) append.right_neutral takeWhile.simps(2) takeWhile_append2)
  have d: "drop (dirent_len nm) (dirent_bytes (nm, ino, ty) @ rest) = rest" by (simp add: length_dirent_bytes)
  have "decode_dirent (dirent_bytes (nm, ino, ty) @ rest) =
      ((takeWhile (\<lambda>c. c \<noteq> 0) (nm @ 0 # ?t), read_le (le_bytes 8 ino), ty), drop (unat (read_le (le_bytes 2 ?l))) (dirent_bytes (nm, ino, ty) @ rest))"
    unfolding decode_dirent_def a by (simp add: nth_append Let_def)
  then show ?thesis unfolding n i r d .
qed

section \<open>A directory as a list of entries\<close>

definition iput_fs :: "'x fsenv \<Rightarrow> nat \<Rightarrow> 'x fsys \<Rightarrow> 'x fsys" where
  "iput_fs E i a =
     (if i = 0 \<or> isb (inodes a i) = 0 \<or> iops (inodes a i) = 0 then a
      else case so_free_inode (sops_of E (sops (sbs a (isb (inodes a i))))) of None \<Rightarrow> a | Some g \<Rightarrow> snd (g i a))"

lemma vfs_iput_eq: "vfs_iput E i s = s\<lparr>fs := iput_fs E i (fs s)\<rparr>"
  by (auto simp: vfs_iput_def iput_fs_def vfs_free_inode_def vfs_check_inode_def Let_def VFS_CALL_def call_fs_def EINVAL_def
      split: option.splits prod.splits)

text \<open>
  One call of the readdir of an open file \<open>k\<close> in the file-system state \<open>a\<close>: its result, the
  entry, the new position of the file and the new state.  The call does not look at the record
  kept back, and moves only the position of the file.
\<close>

definition readdir_gives :: "'x fsenv \<Rightarrow> file_t \<Rightarrow> 'x fsys \<Rightarrow> int \<Rightarrow> u8 list \<times> nat \<Rightarrow> u64 \<Rightarrow> 'x fsys \<Rightarrow> bool" where
  "readdir_gives E k a r e p b \<longleftrightarrow>
     (\<exists>g. fo_readdir (fops_of E (fops k)) = Some g \<and>
       (\<forall>x. g (k\<lparr>fstash := x\<rparr>) a = (r, e, k\<lparr>fposition := p, fstash := x\<rparr>, b)))"

definition is_dir :: "file_t \<Rightarrow> 'x fsys \<Rightarrow> bool" where
  "is_dir k a \<longleftrightarrow> itype (inodes a (finode k)) = VFS_TYPE_DIR"

text \<open>At the end of the directory: the next \<open>n\<close> calls report it.\<close>

primrec at_end :: "nat \<Rightarrow> 'x fsenv \<Rightarrow> file_t \<Rightarrow> 'x fsys \<Rightarrow> bool" where
  "at_end 0 E k a \<longleftrightarrow> is_dir k a"
| "at_end (Suc n) E k a \<longleftrightarrow> is_dir k a \<and> (\<exists>e p b. readdir_gives E k a 0 e p b \<and> at_end n E (k\<lparr>fposition := p\<rparr>) b)"

text \<open>
  \<open>dir_yields E es k a\<close>: calls of readdir on the open file \<open>k\<close>, starting in the state \<open>a\<close> and with
  the inode of each entry released before the next call, succeed and hand out the entries \<open>es\<close>, and
  from then on report the end.  Nothing is asked of other files, other states or other runs.
\<close>

fun dir_yields :: "'x fsenv \<Rightarrow> dir_entry list \<Rightarrow> file_t \<Rightarrow> 'x fsys \<Rightarrow> bool" where
  "dir_yields E [] k a \<longleftrightarrow> (\<forall>n. at_end n E k a)"
| "dir_yields E (e # es) k a \<longleftrightarrow> is_dir k a \<and>
     (\<exists>r nm i p b. readdir_gives E k a r (nm, i) p b \<and> r > 0 \<and>
        e = (nm, if i \<noteq> 0 \<and> ifs_specific (inodes b i) \<noteq> 0 then ucast (ifs_word (inodes b i)) else 0,
             if i \<noteq> 0 then vfs_type_to_dt (itype (inodes b i)) else 0) \<and>
        dir_yields E es (k\<lparr>fposition := p\<rparr>) (iput_fs E i b))"

lemma stash_position: "k\<lparr>fstash := x, fposition := p\<rparr> = k\<lparr>fposition := p, fstash := x\<rparr>" for k :: file_t
  by (cases k) simp

lemma readdir_stash: "readdir_gives E (k\<lparr>fstash := x\<rparr>) a r e p b \<longleftrightarrow> readdir_gives E k a r e p b"
  by (simp add: readdir_gives_def)

lemma at_end_stash: "at_end n E (k\<lparr>fstash := x\<rparr>) a \<longleftrightarrow> at_end n E k a"
proof (induction n arbitrary: k a)
  case (Suc n)
  have "at_end n E (k\<lparr>fstash := x, fposition := p\<rparr>) b \<longleftrightarrow> at_end n E (k\<lparr>fposition := p\<rparr>) b" for p b
    using Suc [of "k\<lparr>fposition := p\<rparr>" b] by (simp add: stash_position)
  then show ?case by (simp add: is_dir_def readdir_stash)
qed (simp add: is_dir_def)

lemma dir_yields_stash: "dir_yields E es (k\<lparr>fstash := x\<rparr>) a \<longleftrightarrow> dir_yields E es k a"
proof (induction es arbitrary: k a)
  case (Cons e es)
  have "dir_yields E es (k\<lparr>fstash := x, fposition := p\<rparr>) b \<longleftrightarrow> dir_yields E es (k\<lparr>fposition := p\<rparr>) b" for p b
    using Cons [of "k\<lparr>fposition := p\<rparr>" b] by (simp add: stash_position)
  then show ?case by (simp add: is_dir_def readdir_stash)
qed (simp add: at_end_stash)

lemma at_end_is_dir: "at_end n E k a \<Longrightarrow> is_dir k a"
  by (cases n) simp_all

lemma dir_yields_is_dir: "dir_yields E es k a \<Longrightarrow> is_dir k a"
  using at_end_is_dir [of 0 E k a] by (cases es) auto

lemma at_end_step:
  assumes "\<And>n. at_end n E k a"
  obtains e p b where "readdir_gives E k a 0 e p b" and "\<And>n. at_end n E (k\<lparr>fposition := p\<rparr>) b"
proof -
  obtain e p b where s: "readdir_gives E k a 0 e p b" using assms [of 1] by auto
  have "at_end n E (k\<lparr>fposition := p\<rparr>) b" for n
  proof -
    obtain e' p' b' where s': "readdir_gives E k a 0 e' p' b'" "at_end n E (k\<lparr>fposition := p'\<rparr>) b'" using assms [of "Suc n"] by auto
    obtain g where g: "fo_readdir (fops_of E (fops k)) = Some g"
        "\<And>x. g (k\<lparr>fstash := x\<rparr>) a = (0, e, k\<lparr>fposition := p, fstash := x\<rparr>, b)" using s unfolding readdir_gives_def by blast
    obtain g' where g': "fo_readdir (fops_of E (fops k)) = Some g'"
        "\<And>x. g' (k\<lparr>fstash := x\<rparr>) a = (0, e', k\<lparr>fposition := p', fstash := x\<rparr>, b')" using s'(1) unfolding readdir_gives_def by blast
    have "g' = g" using g(1) g'(1) by simp
    then have "k\<lparr>fposition := p, fstash := None\<rparr> = k\<lparr>fposition := p', fstash := None\<rparr>" "b = b'"
      using g(2) [of None] g'(2) [of None] by simp_all
    from arg_cong [OF this(1), of fposition] this(2) s'(2) show ?thesis by simp
  qed
  with s show ?thesis by (rule that)
qed

text \<open>The records still to come: the one kept back, then those of the entries that remain.\<close>

definition pending :: "dir_entry list \<Rightarrow> nat \<Rightarrow> 'x vfs \<Rightarrow> u8 list list" where
  "pending es f s = (case fstash (files s f) of None \<Rightarrow> [] | Some b \<Rightarrow> [b]) @ map dirent_bytes es"

definition dir_open :: "'x fsenv \<Rightarrow> dir_entry list \<Rightarrow> nat \<Rightarrow> 'x vfs \<Rightarrow> bool" where
  "dir_open E es f s \<longleftrightarrow> vfs_check_file f s = 0 \<and> dir_yields E es (files s f) (fs s) \<and> has_memory E s"

lemma dir_open_type: "dir_open E es f s \<Longrightarrow> itype (inode_of s (finode (files s f))) = VFS_TYPE_DIR"
  using dir_yields_is_dir by (auto simp: dir_open_def is_dir_def)

text \<open>What a call of readdir does to the whole state.\<close>

definition moved :: "nat \<Rightarrow> u64 \<Rightarrow> 'x fsys \<Rightarrow> 'x vfs \<Rightarrow> 'x vfs" where
  "moved f p b s = s\<lparr>files := (files s)(f := (files s f)\<lparr>fposition := p\<rparr>), fs := b\<rparr>"

lemma call_readdir_moved:
  assumes "readdir_gives E (files s f) (fs s) r e p b"
  shows "call_readdir E f s = (r, e, moved f p b s)"
proof -
  obtain g where g: "fo_readdir (fops_of E (fops (files s f))) = Some g"
      "g ((files s f)\<lparr>fstash := fstash (files s f)\<rparr>) (fs s) = (r, e, (files s f)\<lparr>fposition := p, fstash := fstash (files s f)\<rparr>, b)"
    using assms unfolding readdir_gives_def by blast
  moreover have "(files s f)\<lparr>fposition := p, fstash := fstash (files s f)\<rparr> = (files s f)\<lparr>fposition := p\<rparr>" by (cases "files s f") simp
  ultimately show ?thesis by (simp add: call_readdir_def moved_def)
qed

lemma moved_open:
  assumes "vfs_check_file f s = 0" and "has_memory E s" and "dir_yields E es ((files s f)\<lparr>fposition := p\<rparr>) b"
  shows "dir_open E es f (moved f p b s)"
  using assms by (simp add: dir_open_def moved_def vfs_check_file_def has_memory_def)

lemma dir_open_end:
  assumes "dir_open E [] f s"
  obtains e s' where "call_readdir E f s = (0, e, s')" "dir_open E [] f s'" "fstash (files s' f) = fstash (files s f)"
proof -
  have o: "vfs_check_file f s = 0" "has_memory E s" "\<And>n. at_end n E (files s f) (fs s)" using assms by (simp_all add: dir_open_def)
  from o(3) obtain e p b where r: "readdir_gives E (files s f) (fs s) 0 e p b" "\<And>n. at_end n E ((files s f)\<lparr>fposition := p\<rparr>) b"
    by (rule at_end_step) (rule that)
  show ?thesis by (rule that [OF call_readdir_moved [OF r(1)] moved_open [OF o(1,2)]]) (use r(2) in \<open>simp_all add: moved_def\<close>)
qed

lemma dir_open_next:
  assumes "dir_open E (e # es) f s"
  obtains r i s' where "call_readdir E f s = (r, (fst e, i), s')" "r > 0" "e = (fst e, dirent_ino i s', dirent_type i s')"
    "dir_open E es f (vfs_iput E i s')" "fstash (files s' f) = fstash (files s f)" "has_memory E s'"
proof -
  have o: "vfs_check_file f s = 0" "has_memory E s" using assms by (simp_all add: dir_open_def)
  obtain r nm i p b where g: "readdir_gives E (files s f) (fs s) r (nm, i) p b" "r > 0"
    "e = (nm, if i \<noteq> 0 \<and> ifs_specific (inodes b i) \<noteq> 0 then ucast (ifs_word (inodes b i)) else 0,
             if i \<noteq> 0 then vfs_type_to_dt (itype (inodes b i)) else 0)"
    "dir_yields E es ((files s f)\<lparr>fposition := p\<rparr>) (iput_fs E i b)" using assms by (auto simp: dir_open_def)
  have nm: "fst e = nm" by (simp add: g(3))
  have "vfs_iput E i (moved f p b s) = moved f p (iput_fs E i b) s" by (simp add: vfs_iput_eq moved_def)
  then have "dir_open E es f (vfs_iput E i (moved f p b s))" using moved_open [OF o g(4)] by simp
  then show ?thesis using call_readdir_moved [OF g(1)] g(2,3) o(2) unfolding nm
    by (intro that [of r i "moved f p b s"]) (simp_all add: nm moved_def dirent_ino_def dirent_type_def has_memory_def)
qed

section \<open>One call\<close>

lemma if_iput:
  "(if i \<noteq> 0 then vfs_iput E i s else s) = vfs_iput E i s" "(if 0 < i then vfs_iput E i s else s) = vfs_iput E i s"
  "(if i = 0 then s else vfs_iput E i s) = vfs_iput E i s"
  by (simp_all add: vfs_iput_def)

lemma stash_open: "dir_open E es f (upd_file f (\<lambda>k. k\<lparr>fstash := x\<rparr>) s) \<longleftrightarrow> dir_open E es f s"
  by (simp add: dir_open_def vfs_check_file_def upd_file_def has_memory_def dir_yields_stash)

lemma getdents_loop_spec:
  assumes "dir_open E es f s" and "fstash (files s f) = None"
    and "out \<noteq> 0 \<or> es = [] \<or> length (dirent_bytes (hd es)) \<le> n"
  shows "\<exists>m fs s'. getdents_loop E f n out s = (Inr (concat (take m (map dirent_bytes es))), s') \<and> dir_open E fs f s' \<and>
    pending fs f s' = drop m (map dirent_bytes es) \<and> length (concat (take m (map dirent_bytes es))) \<le> n \<and>
    (es \<noteq> [] \<and> length (dirent_bytes (hd es)) \<le> n \<longrightarrow> 0 < m)"
  using assms
proof (induction es arbitrary: n out s)
  case Nil
  obtain e s' where r: "call_readdir E f s = (0, e, s')" "dir_open E [] f s'" "fstash (files s' f) = fstash (files s f)"
    by (rule dir_open_end [OF Nil(1)])
  then show ?case using Nil(2) by (intro exI [of _ 0] exI [of _ "[]"] exI [of _ s']) (simp add: getdents_loop.simps [of E f n] pending_def split: prod.splits)
next
  case (Cons e es)
  obtain nm ino ty where e: "e = (nm, ino, ty)" by (cases e)
  obtain r i s1 where r0: "call_readdir E f s = (r, (fst e, i), s1)" "r > 0" "e = (fst e, dirent_ino i s1, dirent_type i s1)"
    "dir_open E es f (vfs_iput E i s1)" "fstash (files s1 f) = fstash (files s f)" "has_memory E s1"
    by (rule dir_open_next [OF Cons.prems(1)])
  then have r: "call_readdir E f s = (r, (nm, i), s1)" "r > 0" "ino = dirent_ino i s1" "ty = dirent_type i s1"
    "dir_open E es f (vfs_iput E i s1)" "fstash (files s1 f) = None" using Cons.prems(2) e by simp_all
  let ?s2 = "vfs_iput E i s1"
  have f2: "files ?s2 = files s1" by (simp add: vfs_iput_eq)
  have len: "length (dirent_bytes e) = dirent_len nm" by (simp add: e length_dirent_bytes)
  show ?case
  proof (cases "dirent_len nm \<le> n")
    case True
    let ?b = "dirent_bytes (nm, ino, ty)"
    have o: "out + length ?b \<noteq> 0" using dirent_len_pos [of nm] by (simp add: length_dirent_bytes)
    obtain m fs s' where IH: "getdents_loop E f (n - length ?b) (out + length ?b) ?s2 = (Inr (concat (take m (map dirent_bytes es))), s')"
      "dir_open E fs f s'" "pending fs f s' = drop m (map dirent_bytes es)" "length (concat (take m (map dirent_bytes es))) \<le> n - length ?b"
      using Cons.IH [OF r(5), of "out + length ?b" "n - length ?b"] r(6) o f2 by auto
    have "getdents_loop E f n out s = (Inr (?b @ concat (take m (map dirent_bytes es))), s')"
      using r(1-4) True IH(1) by (simp add: getdents_loop.simps [of E f n] encode_dirent_eq if_iput Let_def)
    then show ?thesis using IH True by (intro exI [of _ "Suc m"] exI [of _ fs] exI [of _ s']) (simp add: e length_dirent_bytes)
  next
    case False
    then have out: "out \<noteq> 0" using Cons.prems(3) len by simp
    let ?s3 = "s1\<lparr>nalloc := nalloc s1 + 1\<rparr>"
    let ?s4 = "vfs_iput E i (upd_file f (\<lambda>k. k\<lparr>fstash := Some (dirent_bytes (nm, ino, ty))\<rparr>) ?s3)"
    have mem: "kaddr E (nalloc s1) \<noteq> 0" using r0(6) by (simp add: has_memory_def)
    have "getdents_loop E f n out s = (Inr [], ?s4)"
      using r(1-4) False out mem by (simp add: getdents_loop.simps [of E f n] encode_dirent_eq if_iput Let_def kmalloc_def)
    moreover have "?s4 = upd_file f (\<lambda>k. k\<lparr>fstash := Some (dirent_bytes (nm, ino, ty))\<rparr>) (?s2\<lparr>nalloc := nalloc s1 + 1\<rparr>)"
      by (simp add: vfs_iput_eq upd_file_def)
    then have "dir_open E es f ?s4" "pending es f ?s4 = dirent_bytes (nm, ino, ty) # map dirent_bytes es"
      using r(5) stash_open [of E es f "Some (dirent_bytes (nm, ino, ty))" "?s2\<lparr>nalloc := nalloc s1 + 1\<rparr>"]
      by (simp_all add: pending_def upd_file_def dir_open_def vfs_check_file_def has_memory_def vfs_iput_eq)
    ultimately show ?thesis using False len by (intro exI [of _ 0] exI [of _ es] exI [of _ ?s4]) (simp add: e)
  qed
qed

text \<open>A buffer that holds every record gets a run of whole records, at least one if there is one.\<close>

lemma getdents_spec:
  assumes o: "dir_open E es f s" and fit: "\<And>b. b \<in> set (pending es f s) \<Longrightarrow> length b \<le> unat sz"
    and buf: "buf \<noteq> 0" "sz \<noteq> 0" and st: "fstash (files s f) \<noteq> Some []"
  shows "\<exists>m fs s'. vfs_getdents E f buf sz s = (Inr (concat (take m (pending es f s))), s') \<and> dir_open E fs f s' \<and>
    pending fs f s' = drop m (pending es f s) \<and> length (concat (take m (pending es f s))) \<le> unat sz \<and>
    (pending es f s \<noteq> [] \<longrightarrow> 0 < m)"
proof (cases "fstash (files s f)")
  case None
  have p: "pending es f s = map dirent_bytes es" using None by (simp add: pending_def)
  have "es \<noteq> [] \<longrightarrow> length (dirent_bytes (hd es)) \<le> unat sz" using fit [of "dirent_bytes (hd es)"] p by simp
  with getdents_loop_spec [OF o None, of 0 "unat sz"] obtain m fs s' where l:
    "getdents_loop E f (unat sz) 0 s = (Inr (concat (take m (map dirent_bytes es))), s')" "dir_open E fs f s'"
    "pending fs f s' = drop m (map dirent_bytes es)" "length (concat (take m (map dirent_bytes es))) \<le> unat sz" "es \<noteq> [] \<longrightarrow> 0 < m"
    by blast
  then show ?thesis using None o buf p dir_open_type [OF o]
    by (intro exI [of _ m] exI [of _ fs] exI [of _ s']) (auto simp: vfs_getdents_def dir_open_def)
next
  case (Some b)
  let ?s1 = "upd_file f (\<lambda>k. k\<lparr>fstash := None\<rparr>) s"
  have p: "pending es f s = b # map dirent_bytes es" using Some by (simp add: pending_def)
  have b: "length b \<le> unat sz" "length b \<noteq> 0" using fit [of b] p st Some by auto
  have o1: "dir_open E es f ?s1" using stash_open o by blast
  have n1: "fstash (files ?s1 f) = None" by (simp add: upd_file_def)
  obtain m fs s' where l: "getdents_loop E f (unat sz - length b) (length b) ?s1 = (Inr (concat (take m (map dirent_bytes es))), s')"
    "dir_open E fs f s'" "pending fs f s' = drop m (map dirent_bytes es)"
    "length (concat (take m (map dirent_bytes es))) \<le> unat sz - length b"
    using getdents_loop_spec [OF o1 n1, of "length b" "unat sz - length b"] b(2) by blast
  have "vfs_getdents E f buf sz s = (Inr (b @ concat (take m (map dirent_bytes es))), s')"
    using Some o buf b(1) l(1) dir_open_type [OF o] by (simp add: vfs_getdents_def dir_open_def Let_def)
  then show ?thesis using l b p by (intro exI [of _ "Suc m"] exI [of _ fs] exI [of _ s']) simp
qed

section \<open>Reading to the end\<close>

text \<open>A program that calls \<^verbatim>\<open>getdents\<close> until it returns nothing.\<close>

fun read_dir :: "nat \<Rightarrow> 'x fsenv \<Rightarrow> nat \<Rightarrow> u64 \<Rightarrow> u64 \<Rightarrow> 'x vfs \<Rightarrow> (int + u8 list) \<times> 'x vfs" where
  "read_dir 0 E f buf sz s = (Inr [], s)"
| "read_dir (Suc n) E f buf sz s =
     (case vfs_getdents E f buf sz s of
        (Inl e, s) \<Rightarrow> (Inl e, s)
      | (Inr bs, s) \<Rightarrow>
          if bs = [] then (Inr [], s)
          else let (r, s) = read_dir n E f buf sz s in (map_sum id (\<lambda>cs. bs @ cs) r, s))"

fun decode_all :: "nat \<Rightarrow> u8 list \<Rightarrow> dir_entry list" where
  "decode_all 0 bs = []"
| "decode_all (Suc n) bs = (if bs = [] then [] else let (e, rest) = decode_dirent bs in e # decode_all n rest)"

lemma decode_all_bytes:
  assumes "\<And>nm ino ty. (nm, ino, ty) \<in> set es \<Longrightarrow> 0 \<notin> set nm \<and> dirent_len nm < 2 ^ 16"
  shows "decode_all (length es) (concat (map dirent_bytes es)) = es"
  using assms
proof (induction es)
  case (Cons e es)
  obtain nm ino ty where e: "e = (nm, ino, ty)" by (cases e)
  have h: "0 \<notin> set nm" "dirent_len nm < 2 ^ 16" using Cons.prems [of nm ino ty] e by auto
  have ne: "dirent_bytes e \<noteq> []" using dirent_len_pos [of nm] length_dirent_bytes [of nm ino ty] e by auto
  have "decode_dirent (dirent_bytes e @ concat (map dirent_bytes es)) = (e, concat (map dirent_bytes es))"
    using decode_dirent_bytes [OF h] e by simp
  moreover have "decode_all (length es) (concat (map dirent_bytes es)) = es"
    by (rule Cons.IH) (use Cons.prems in auto)
  ultimately show ?case using ne by simp
qed simp

lemma read_dir_pending:
  assumes "dir_open E es f s" and "\<And>b. b \<in> set (pending es f s) \<Longrightarrow> length b \<le> unat sz \<and> b \<noteq> []"
    and "buf \<noteq> 0" "sz \<noteq> 0" and "length (pending es f s) < n"
  shows "\<exists>s'. read_dir n E f buf sz s = (Inr (concat (pending es f s)), s')"
  using assms
proof (induction n arbitrary: s es)
  case (Suc n)
  have st: "fstash (files s f) \<noteq> Some []" using Suc.prems(2) [of "[]"] by (auto simp: pending_def)
  obtain m fs s1 where g: "vfs_getdents E f buf sz s = (Inr (concat (take m (pending es f s))), s1)" "dir_open E fs f s1"
    "pending fs f s1 = drop m (pending es f s)" "pending es f s \<noteq> [] \<longrightarrow> 0 < m"
    using getdents_spec [OF Suc.prems(1) _ Suc.prems(3,4) st] Suc.prems(2) by blast
  show ?case
  proof (cases "pending es f s")
    case Nil
    then show ?thesis using g by simp
  next
    case (Cons b bs)
    then have m: "0 < m" using g(4) by simp
    have ne: "concat (take m (pending es f s)) \<noteq> []" using Suc.prems(2) [of b] Cons m by (cases m) auto
    have len: "length (pending fs f s1) < n" using g(3) Suc.prems(5) Cons m by simp
    have sub: "c \<in> set (pending es f s)" if "c \<in> set (pending fs f s1)" for c
      using that unfolding g(3) by (rule in_set_dropD)
    obtain s' where r: "read_dir n E f buf sz s1 = (Inr (concat (pending fs f s1)), s')"
      using Suc.IH [OF g(2) Suc.prems(2) [OF sub] Suc.prems(3,4) len] by blast
    have "concat (take m (pending es f s)) @ concat (pending fs f s1) = concat (pending es f s)"
      unfolding g(3) by (metis append_take_drop_id concat_append)
    then show ?thesis using g(1) ne r by (simp add: Let_def del: concat_eq_Nil_conv)
  qed
qed simp


text \<open>
  A directory with two entries whose readdir refuses other files, and a buffer with room for one
  record at a time: the second one is kept back between the calls.
\<close>

definition two_env :: "unit fsenv" where
  "two_env = bare_env\<lparr>fops_of := \<lambda>_. no_fops\<lparr>fo_readdir :=
     Some (\<lambda>k a. if finode k \<noteq> 7 then (- EBUSY, ([], 0), k, a)
                 else if fposition k = 0 then (1, ([97], 0), k\<lparr>fposition := 1\<rparr>, a)
                 else if fposition k = 1 then (1, ([98], 0), k\<lparr>fposition := 2\<rparr>, a)
                 else (0, ([], 0), k, a))\<rparr>\<rparr>"

definition two_dir :: "unit vfs" where
  "two_dir = (empty_vfs ())
     \<lparr>fs := \<lparr>inodes = \<lambda>_. null_inode\<lparr>itype := VFS_TYPE_DIR\<rparr>, ilive = (\<lambda>i. True), sbs = \<lambda>_. null_sb, fsx = ()\<rparr>,
      files := \<lambda>_. zero_file\<lparr>finode := 7, fops := TtyFops\<rparr>\<rparr>"

lemma two_dir_yields: "dir_yields two_env [([97], 0, 0), ([98], 0, 0)] (files two_dir 4) (fs two_dir)"
proof -
  let ?k = "zero_file\<lparr>finode := 7, fops := TtyFops\<rparr>" and ?a = "fs two_dir"
  have d: "is_dir k ?a" for k by (simp add: is_dir_def two_dir_def)
  have e: "readdir_gives two_env (?k\<lparr>fposition := 2\<rparr>) ?a 0 ([], 0) 2 ?a"
    by (simp add: readdir_gives_def two_env_def)
  have "at_end n two_env (?k\<lparr>fposition := 2\<rparr>) ?a" for n
  proof (induction n)
    case (Suc n)
    have "?k\<lparr>fposition := 2, fposition := 2\<rparr> = ?k\<lparr>fposition := 2\<rparr>" by simp
    then have "at_end n two_env (?k\<lparr>fposition := 2, fposition := 2\<rparr>) ?a" using Suc by simp
    then show ?case using e d unfolding at_end.simps by blast
  qed (simp add: d)
  then have y2: "dir_yields two_env [] (?k\<lparr>fposition := 1, fposition := 2\<rparr>) (iput_fs two_env 0 ?a)" by (simp add: iput_fs_def)
  have "readdir_gives two_env (?k\<lparr>fposition := 1\<rparr>) ?a 1 ([98], 0) 2 ?a" by (simp add: readdir_gives_def two_env_def)
  with y2 d have y1: "dir_yields two_env [([98], 0, 0)] (?k\<lparr>fposition := 1\<rparr>) (iput_fs two_env 0 ?a)"
    unfolding dir_yields.simps(2) by (intro conjI exI [of _ 1] exI [of _ "[98]"] exI [of _ 0] exI [of _ 2] exI [of _ ?a]) (simp_all add: iput_fs_def)
  have "readdir_gives two_env ?k ?a 1 ([97], 0) 1 ?a" by (simp add: readdir_gives_def two_env_def zero_file_def)
  with y1 d have "dir_yields two_env [([97], 0, 0), ([98], 0, 0)] ?k ?a"
    unfolding dir_yields.simps(2) [of _ "([97], 0, 0)"]
    by (intro conjI exI [of _ 1] exI [of _ "[97]"] exI [of _ 0] exI [of _ 1] exI [of _ ?a]) simp_all
  then show ?thesis by (simp add: two_dir_def)
qed


text \<open>
  With a buffer too small for the next record and nothing kept back the call fails, and the
  entry is gone: the next call goes on behind it.
\<close>

lemma getdents_small_buffer_loses_entry:
  assumes o: "dir_open E (e # es) f s" and st: "fstash (files s f) = None"
    and sz: "unat sz < length (dirent_bytes e)" "sz \<noteq> 0" "buf \<noteq> 0"
  shows "\<exists>s'. vfs_getdents E f buf sz s = (Inl (- EINVAL), s') \<and> dir_open E es f s' \<and> pending es f s' = map dirent_bytes es"
proof -
  obtain nm ino ty where e: "e = (nm, ino, ty)" by (cases e)
  obtain q i s1 where q: "call_readdir E f s = (q, (fst e, i), s1)" "q > 0" "e = (fst e, dirent_ino i s1, dirent_type i s1)"
    "dir_open E es f (vfs_iput E i s1)" "fstash (files s1 f) = fstash (files s f)" by (rule dir_open_next [OF o]) (rule that)
  have "\<not> dirent_len nm \<le> unat sz" using sz(1) by (simp add: e length_dirent_bytes)
  then have "vfs_getdents E f buf sz s = (Inl (- EINVAL), vfs_iput E i s1)"
    using o st sz q(1-3) e dir_open_type [OF o]
    by (simp add: vfs_getdents_def dir_open_def getdents_loop.simps [of E f] encode_dirent_eq if_iput)
  then show ?thesis using q(4,5) st by (simp add: pending_def vfs_iput_eq)
qed

end
