(* ===== verification/Vfs_Fd.thy ===== *)
theory Vfs_Fd
  imports Vfs_Syscalls
begin

text \<open>
  Duplicating descriptors (\<^verbatim>\<open>DupHandler\<close> and \<^verbatim>\<open>Dup2Handler\<close> of \<^verbatim>\<open>interrupts/syscall_handler.c\<close>) and the
  typing of the descriptor table: the reference count of an open file is the number of slots
  that hold it plus the references held elsewhere, and a file is open exactly while it has one.
\<close>

section \<open>The handlers\<close>

definition DupHandler :: "'x fsenv \<Rightarrow> int \<Rightarrow> 'x vfs \<Rightarrow> int \<times> 'x vfs" where
  "DupHandler E fd s =
     (let f = fd_lookup fd s in
      if f = 0 then (- EBADF, s)
      else
        let s = vfs_file_get f s;
            (newfd, s) = fd_alloc f s
        in if newfd < 0 then (newfd, vfs_file_put E f s) else (newfd, s))"

definition Dup2Handler :: "'x fsenv \<Rightarrow> int \<Rightarrow> int \<Rightarrow> 'x vfs \<Rightarrow> int \<times> 'x vfs" where
  "Dup2Handler E oldfd newfd s =
     (if oldfd < 0 \<or> oldfd \<ge> int (length (fd_file s)) then (- EBADF, s)
      else if newfd < 0 \<or> newfd \<ge> int (length (fd_file s)) then (- EBADF, s)
      else
        let f = fd_lookup oldfd s in
        if f = 0 then (- EBADF, s)
        else if oldfd = newfd then (newfd, s)
        else
          let s = vfs_file_get f s;
              (r, s) = fd_alloc_at E f newfd s
          in if r < 0 then (r, vfs_file_put E f s) else (newfd, s))"

datatype fdop = Dup int | Dup2 int int | Close int

definition fd_step :: "'x fsenv \<Rightarrow> fdop \<Rightarrow> 'x vfs \<Rightarrow> int \<times> 'x vfs" where
  "fd_step E op s =
     (case op of Dup fd \<Rightarrow> DupHandler E fd s | Dup2 a b \<Rightarrow> Dup2Handler E a b s | Close fd \<Rightarrow> SysClose E fd s)"

section \<open>What they promise\<close>

text \<open>The table alone: a list of slots, and the file that loses a reference.\<close>

definition slot_of :: "nat list \<Rightarrow> int \<Rightarrow> nat" where
  "slot_of t fd = (if 0 \<le> fd \<and> fd < int (length t) then t ! nat fd else 0)"

definition fd_spec :: "fdop \<Rightarrow> nat list \<Rightarrow> int \<times> nat list" where
  "fd_spec op t =
     (case op of
        Dup fd \<Rightarrow>
          if slot_of t fd = 0 then (- EBADF, t)
          else (case find (\<lambda>i. t ! i = 0) [3..<length t] of
                  None \<Rightarrow> (- EMFILE, t)
                | Some i \<Rightarrow> (int i, t[i := slot_of t fd]))
      | Dup2 a b \<Rightarrow>
          if slot_of t a = 0 \<or> \<not> (0 \<le> b \<and> b < int (length t)) then (- EBADF, t)
          else (b, t[nat b := slot_of t a])
      | Close fd \<Rightarrow> if slot_of t fd = 0 then (- EBADF, t) else (0, t[nat fd := 0]))"

definition dropped :: "fdop \<Rightarrow> nat list \<Rightarrow> nat" where
  "dropped op t =
     (case op of
        Dup fd \<Rightarrow> 0
      | Dup2 a b \<Rightarrow> if a = b \<or> slot_of t a = 0 then 0 else slot_of t b
      | Close fd \<Rightarrow> slot_of t fd)"

definition refs :: "(nat \<Rightarrow> nat) \<Rightarrow> nat list \<Rightarrow> nat \<Rightarrow> nat" where
  "refs ext t f = count_list t f + ext f"

definition counted :: "(nat \<Rightarrow> nat) \<Rightarrow> 'x vfs \<Rightarrow> bool" where
  "counted R s \<longleftrightarrow>
     (\<forall>f. f \<noteq> 0 \<longrightarrow> (flive s f \<longleftrightarrow> 0 < R f) \<and> (flive s f \<longrightarrow> unat (fref_count (files s f)) = R f))"

definition fd_typed :: "(nat \<Rightarrow> nat) \<Rightarrow> 'x vfs \<Rightarrow> bool" where
  "fd_typed ext s \<longleftrightarrow> length (fd_file s) = 64 \<and> counted (refs ext (fd_file s)) s"

text \<open>The state of the file systems after the last reference to a file is gone.\<close>

definition closed_fs :: "'x fsenv \<Rightarrow> nat \<Rightarrow> 'x vfs \<Rightarrow> 'x fsys" where
  "closed_fs E f s = fs (snd (vfs_close E f (upd_file f (\<lambda>k. k\<lparr>fref_count := 0\<rparr>) s)))"

text \<open>All but the reference counts of the files that stay open is kept.\<close>

definition same_files :: "'x vfs \<Rightarrow> 'x vfs \<Rightarrow> bool" where
  "same_files s s' \<longleftrightarrow> (\<forall>f. flive s' f \<longrightarrow> files s' f = (files s f)\<lparr>fref_count := fref_count (files s' f)\<rparr>)"

section \<open>Counting\<close>

lemma count_list_update:
  "i < length t \<Longrightarrow>
   count_list (t[i := f]) g = (if f = g then 1 else 0) + (count_list t g - (if t ! i = g then 1 else 0))"
proof (induction t arbitrary: i)
  case (Cons x t)
  show ?case
  proof (cases i)
    case (Suc n)
    have "0 < count_list t (t ! n)" using Cons.prems Suc by (metis Suc_less_eq count_list_0_iff gr0I length_Cons nth_mem)
    then show ?thesis using Cons.IH [of n] Cons.prems Suc by auto
  qed simp
qed simp

lemma count_list_nth: "i < length t \<Longrightarrow> 0 < count_list t (t ! i)"
  by (metis count_list_0_iff gr0I nth_mem)

lemma two_slots: "i < length (t :: nat list) \<Longrightarrow> j < length t \<Longrightarrow> i \<noteq> j \<Longrightarrow> t ! i = f \<Longrightarrow> t ! j = f \<Longrightarrow> 2 \<le> count_list t f"
  using count_list_update [of i t "Suc f" f] count_list_nth [of j "t[i := Suc f]"] count_list_nth [of i t] by auto

lemma first_free_find: "first_free_fd i xs = find (\<lambda>k. xs ! (k - i) = 0) [max i 3..<i + length xs]"
proof (induction xs arbitrary: i)
  case (Cons x xs)
  let ?m = "max (Suc i) 3"
  have shift: "find (\<lambda>k. (x # xs) ! (k - i) = 0) [?m..<Suc i + length xs] = find (\<lambda>k. xs ! (k - Suc i) = 0) [?m..<Suc i + length xs]"
    by (rule find_cong) (auto simp: nth_Cons' Suc_diff_le)
  show ?case
  proof (cases "i > 2")
    case True
    then have "[max i 3..<i + length (x # xs)] = i # [?m..<Suc i + length xs]" by (simp add: upt_rec [of i] max_absorb1 Suc_le_eq)
    then show ?thesis using True shift Cons.IH [of "Suc i"] by (simp add: STDERR_FILENO_def)
  next
    case False
    then have "max i 3 = ?m" by simp
    then show ?thesis using False shift Cons.IH [of "Suc i"] by (simp add: STDERR_FILENO_def)
  qed
qed simp

section \<open>References come and go\<close>

lemma vfs_close_frame:
  "flive (snd (vfs_close E f s)) = flive s" "fd_file (snd (vfs_close E f s)) = fd_file s"
  "g \<noteq> f \<Longrightarrow> files (snd (vfs_close E f s)) g = files s g"
  by (auto simp: vfs_close_def Let_def VFS_CALL_def call_file_op_def split: option.splits prod.splits)

lemma vfs_close_local:
  "files s f = files s' f \<Longrightarrow> fs s = fs s' \<Longrightarrow> fs (snd (vfs_close E f s)) = fs (snd (vfs_close E f s'))"
  by (simp add: vfs_close_def vfs_check_file_def Let_def VFS_CALL_def call_file_op_def split: option.splits prod.splits)

lemma unat_one_iff: "unat (w :: u64) = 1 \<longleftrightarrow> w = 1"
  by (simp add: word_unat_eq_iff)

lemma countedD:
  assumes "counted R s" and "f \<noteq> 0" and "0 < R f"
  shows "flive s f" and "unat (fref_count (files s f)) = R f"
  using assms by (auto simp: counted_def)

lemma get_counted:
  assumes c: "counted R s" and f: "f \<noteq> 0" "0 < R f" "R f + 1 < 2 ^ 64"
  shows "counted (R(f := R f + 1)) (vfs_file_get f s)"
proof -
  have "unat (fref_count (files s f) + 1) = R f + 1"
    using countedD [OF c f(1,2)] f(3) by (simp add: unat_word_ariths)
  then show ?thesis using c f by (auto simp: counted_def vfs_file_get_def upd_file_def)
qed

lemma put_counted:
  assumes c: "counted R s" and f: "f \<noteq> 0" "0 < R f"
  shows "counted (R(f := R f - 1)) (vfs_file_put E f s)"
proof -
  let ?k = "fref_count (files s f)"
  note L = countedD [OF c f]
  show ?thesis
  proof (cases "?k = 1")
    case True
    then have "R f = 1" using L(2) by simp
    then show ?thesis using c f True
      by (auto simp: counted_def vfs_file_put_def Let_def upd_file_def vfs_close_frame)
  next
    case False
    have "?k \<noteq> 0" using L(2) f(2) by auto
    then have u: "unat (?k - 1) = R f - 1" using L(2) by (simp add: unat_minus_one)
    have "1 < R f" using L(2) f(2) False by (metis One_nat_def Suc_lessI unat_one_iff)
    then show ?thesis using c f u L(1) False by (auto simp: counted_def vfs_file_put_def Let_def upd_file_def)
  qed
qed

lemma put_effect:
  assumes c: "counted R s" and f: "f \<noteq> 0" "0 < R f"
  shows "fs (vfs_file_put E f s) = (if R f = 1 then closed_fs E f s else fs s)"
    and "same_files s (vfs_file_put E f s)"
proof -
  let ?k = "fref_count (files s f)"
  have k: "?k = 1 \<longleftrightarrow> R f = 1" using countedD [OF c f] by (metis unat_one_iff)
  show "fs (vfs_file_put E f s) = (if R f = 1 then closed_fs E f s else fs s)"
    using f(1) k by (auto simp: vfs_file_put_def closed_fs_def Let_def upd_file_def)
  show "same_files s (vfs_file_put E f s)"
    using f(1) by (auto simp: same_files_def vfs_file_put_def Let_def upd_file_def vfs_close_frame)
qed

lemma fd_file_refs [simp]:
  "fd_file (vfs_file_get f s) = fd_file s" "fd_file (vfs_file_put E f s) = fd_file s"
  by (simp_all add: vfs_file_get_def vfs_file_put_def upd_file_def Let_def vfs_close_frame)

lemma get_effect: "fs (vfs_file_get f s) = fs s" "same_files s (vfs_file_get f s)" "flive (vfs_file_get f s) = flive s"
  by (auto simp: vfs_file_get_def upd_file_def same_files_def)

text \<open>The slots of the table do not matter to the files.\<close>

lemma fd_file_update [simp]:
  "counted R (s\<lparr>fd_file := t\<rparr>) = counted R s" "same_files s (s'\<lparr>fd_file := t\<rparr>) = same_files s s'"
  "same_files (s\<lparr>fd_file := t\<rparr>) s' = same_files s s'" "closed_fs E f (s\<lparr>fd_file := t\<rparr>) = closed_fs E f s"
  by (auto simp: counted_def same_files_def closed_fs_def upd_file_def intro!: vfs_close_local)

lemma closed_fs_get: "f \<noteq> g \<Longrightarrow> closed_fs E f (vfs_file_get g s) = closed_fs E f s"
  unfolding closed_fs_def by (rule vfs_close_local) (auto simp: vfs_file_get_def upd_file_def)

lemma same_files_trans: "same_files s s' \<Longrightarrow> same_files s' s'' \<Longrightarrow> (\<forall>f. flive s'' f \<longrightarrow> flive s' f) \<Longrightarrow> same_files s s''"
  unfolding same_files_def by (metis file_t.select_convs(6) file_t.surjective file_t.update_convs(6))

lemma same_files_refl [simp]: "same_files s s"
  by (simp add: same_files_def)

lemma refs_update:
  "i < length t \<Longrightarrow> refs ext (t[i := f]) = (\<lambda>g. (if f = g then 1 else 0) + (refs ext t g - (if t ! i = g then 1 else 0)))"
  using count_list_nth [of i t] by (auto simp: refs_def count_list_update fun_eq_iff)

section \<open>The operations\<close>

definition fd_outcome :: "'x fsenv \<Rightarrow> (nat \<Rightarrow> nat) \<Rightarrow> fdop \<Rightarrow> 'x vfs \<Rightarrow> int \<Rightarrow> 'x vfs \<Rightarrow> bool" where
  "fd_outcome E ext op s r s' \<longleftrightarrow>
     fd_typed ext s' \<and> (r, fd_file s') = fd_spec op (fd_file s) \<and> same_files s s' \<and>
     (let f = dropped op (fd_file s) in
      fs s' = (if f \<noteq> 0 \<and> refs ext (fd_file s) f = 1 then closed_fs E f s else fs s))"

lemma fd_lookup_slot: "fd_lookup fd s = slot_of (fd_file s) fd"
  by (simp add: fd_lookup_def valid_fd_def slot_of_def EBADF_def)

lemma slot_refs: "slot_of t fd \<noteq> 0 \<Longrightarrow> 0 < refs ext t (slot_of t fd)"
  unfolding slot_of_def refs_def using count_list_nth [of "nat fd" t] by (auto split: if_splits)

lemma slot_bound: "slot_of t fd \<noteq> 0 \<Longrightarrow> nat fd < length t \<and> 0 \<le> fd \<and> fd < int (length t) \<and> t ! nat fd = slot_of t fd"
  by (auto simp: slot_of_def split: if_splits)

lemma refs_le: "length t = 64 \<Longrightarrow> ext f < 2 ^ 32 \<Longrightarrow> refs ext t f + 1 < 2 ^ 64"
  using count_le_length [of t f] by (simp add: refs_def)

lemma put_live: "flive (vfs_file_put E f s) g \<Longrightarrow> flive s g"
  by (auto simp: vfs_file_put_def Let_def upd_file_def vfs_close_frame split: if_splits)

lemma close_ok:
  assumes t: "fd_typed ext s"
  shows "fd_outcome E ext (Close fd) s (fst (SysClose E fd s)) (snd (SysClose E fd s))"
proof (cases "slot_of (fd_file s) fd = 0")
  case True
  then have "SysClose E fd s = (- EBADF, s)"
    by (auto simp: SysClose_def fd_release_def valid_fd_def slot_of_def Let_def EBADF_def)
  then show ?thesis using t True by (simp add: fd_outcome_def fd_spec_def dropped_def)
next
  case False
  let ?t = "fd_file s" and ?f = "slot_of (fd_file s) fd"
  let ?s = "s\<lparr>fd_file := ?t[nat fd := 0]\<rparr>"
  note b = slot_bound [OF False]
  have c: "counted (refs ext ?t) ?s" and len: "length ?t = 64" using t by (simp_all add: fd_typed_def)
  have run: "SysClose E fd s = (0, vfs_file_put E ?f ?s)"
    using b False by (simp add: SysClose_def fd_release_def valid_fd_def Let_def EBADF_def)
  have R: "f \<noteq> 0 \<Longrightarrow> refs ext (?t[nat fd := 0]) f = ((refs ext ?t)(?f := refs ext ?t ?f - 1)) f" for f
    using b by (simp add: refs_update)
  have "counted (refs ext (?t[nat fd := 0])) (vfs_file_put E ?f ?s)"
    using put_counted [OF c False slot_refs [OF False], of E] R unfolding counted_def by simp
  then show ?thesis using put_effect [OF c False slot_refs [OF False], of E] run len False
    by (simp add: fd_outcome_def fd_typed_def fd_spec_def dropped_def)
qed

lemma dup_ok:
  assumes t: "fd_typed ext s" and e: "\<forall>f. ext f < 2 ^ 32"
  shows "fd_outcome E ext (Dup fd) s (fst (DupHandler E fd s)) (snd (DupHandler E fd s))"
proof (cases "slot_of (fd_file s) fd = 0")
  case True
  then show ?thesis using t by (simp add: DupHandler_def fd_lookup_slot fd_outcome_def fd_spec_def dropped_def)
next
  case False
  let ?t = "fd_file s" and ?f = "slot_of (fd_file s) fd"
  let ?s = "vfs_file_get ?f s"
  have c: "counted (refs ext ?t) s" and len: "length ?t = 64" using t by (simp_all add: fd_typed_def)
  have c': "counted ((refs ext ?t)(?f := refs ext ?t ?f + 1)) ?s"
    using get_counted [OF c False slot_refs [OF False]] refs_le [OF len] e by simp
  have ff: "first_free_fd 0 ?t = find (\<lambda>i. ?t ! i = 0) [3..<length ?t]" using first_free_find [of 0 ?t] by simp
  show ?thesis
  proof (cases "first_free_fd 0 ?t")
    case None
    have run: "DupHandler E fd s = (- EMFILE, vfs_file_put E ?f ?s)"
      using None False by (simp add: DupHandler_def fd_lookup_slot fd_alloc_def EMFILE_def Let_def)
    have "counted (refs ext ?t) (vfs_file_put E ?f ?s)"
      using put_counted [OF c' False, of E] by simp
    moreover have "fs (vfs_file_put E ?f ?s) = fs s" "same_files ?s (vfs_file_put E ?f ?s)"
      using put_effect [OF c' False, of E] slot_refs [OF False, of ext] by (simp_all add: get_effect)
    moreover have "same_files s (vfs_file_put E ?f ?s)"
      using same_files_trans [OF get_effect(2) calculation(3)] put_live by blast
    ultimately show ?thesis using run len False None ff
      by (simp add: fd_outcome_def fd_typed_def fd_spec_def dropped_def)
  next
    case (Some i)
    then have i: "i < length ?t" "?t ! i = 0" using ff by (auto simp: find_Some_iff)
    have run: "DupHandler E fd s = (int i, ?s\<lparr>fd_file := ?t[i := ?f]\<rparr>)"
      using Some False by (simp add: DupHandler_def fd_lookup_slot fd_alloc_def Let_def)
    have "g \<noteq> 0 \<Longrightarrow> refs ext (?t[i := ?f]) g = ((refs ext ?t)(?f := refs ext ?t ?f + 1)) g" for g
      using i by (simp add: refs_update)
    then have "counted (refs ext (?t[i := ?f])) ?s" using c' unfolding counted_def by simp
    then show ?thesis using run len False Some ff
      by (simp add: fd_outcome_def fd_typed_def fd_spec_def dropped_def get_effect)
  qed
qed

lemma dup2_ok:
  assumes t: "fd_typed ext s" and e: "\<forall>f. ext f < 2 ^ 32"
  shows "fd_outcome E ext (Dup2 a b) s (fst (Dup2Handler E a b s)) (snd (Dup2Handler E a b s))"
proof (cases "slot_of (fd_file s) a = 0 \<or> \<not> (0 \<le> b \<and> b < int (length (fd_file s))) \<or> a = b")
  case True
  let ?t = "fd_file s"
  have "Dup2Handler E a b s = (fst (fd_spec (Dup2 a b) ?t), s)" and "snd (fd_spec (Dup2 a b) ?t) = ?t"
    using True by (auto simp: Dup2Handler_def fd_spec_def fd_lookup_slot slot_of_def Let_def)
  moreover have "dropped (Dup2 a b) ?t = 0" using True by (auto simp: dropped_def slot_of_def)
  ultimately show ?thesis using t by (simp add: fd_outcome_def) (metis prod.collapse)
next
  case False
  let ?t = "fd_file s" and ?f = "slot_of (fd_file s) a" and ?p = "slot_of (fd_file s) b"
  let ?s = "vfs_file_get ?f s" and ?R = "(refs ext (fd_file s))(slot_of (fd_file s) a := refs ext (fd_file s) (slot_of (fd_file s) a) + 1)"
  let ?e = "if ?p \<noteq> 0 then vfs_file_put E ?p (?s\<lparr>fd_file := ?t[nat b := 0]\<rparr>) else ?s"
  have f0: "?f \<noteq> 0" and b: "0 \<le> b" "nat b < length ?t" "?t ! nat b = ?p" and ab: "a \<noteq> b" using False by (auto simp: slot_of_def)
  have c: "counted (refs ext ?t) s" and len: "length ?t = 64" using t by (simp_all add: fd_typed_def)
  have cs: "counted ?R ?s"
    using get_counted [OF c f0 slot_refs [OF f0]] refs_le [OF len] e by simp
  have run: "Dup2Handler E a b s = (b, ?e\<lparr>fd_file := ?t[nat b := ?f]\<rparr>)"
    using False b slot_bound [OF f0] by (simp add: Dup2Handler_def fd_lookup_slot fd_alloc_at_def valid_fd_def Let_def EBADF_def)
  have R: "g \<noteq> 0 \<Longrightarrow> refs ext (?t[nat b := ?f]) g = (if ?p \<noteq> 0 then ?R(?p := ?R ?p - 1) else ?R) g" for g
    using b slot_refs [of ?t b ext] by (simp add: refs_update) auto
  have p: "?p \<noteq> 0 \<Longrightarrow> 0 < ?R ?p" using slot_refs [of ?t b ext] by simp
  have ce: "counted (refs ext (?t[nat b := ?f])) ?e"
    using R cs put_counted [where R = ?R and f = ?p and E = E and s = "?s\<lparr>fd_file := ?t[nat b := 0]\<rparr>"] p unfolding counted_def by auto
  have two: "?p \<noteq> 0 \<Longrightarrow> ?p = ?f \<Longrightarrow> refs ext ?t ?p \<noteq> 1" using slot_bound [of ?t a] slot_bound [of ?t b] f0 ab two_slots [of "nat a" ?t "nat b" ?f] by (auto simp: refs_def eq_nat_nat_iff)
  have se: "same_files ?s ?e"
    using put_effect(2) [where R = ?R and f = ?p and E = E and s = "?s\<lparr>fd_file := ?t[nat b := 0]\<rparr>"] p cs by auto
  have "\<forall>g. flive ?e g \<longrightarrow> flive ?s g" by (auto dest: put_live)
  then have ss: "same_files s ?e" by (rule same_files_trans [OF get_effect(2) se])
  have "?p \<noteq> 0 \<Longrightarrow> fs ?e = (if ?R ?p = 1 then closed_fs E ?p ?s else fs s)"
    using put_effect(1) [where R = ?R and f = ?p and E = E and s = "?s\<lparr>fd_file := ?t[nat b := 0]\<rparr>"] p cs by (simp add: get_effect)
  moreover have "?p \<noteq> 0 \<Longrightarrow> ?R ?p = 1 \<longleftrightarrow> refs ext ?t ?p = 1" using two slot_refs [OF f0, of ext] by auto
  moreover have "?p \<noteq> 0 \<Longrightarrow> refs ext ?t ?p = 1 \<Longrightarrow> closed_fs E ?p ?s = closed_fs E ?p s"
    using two by (metis closed_fs_get)
  ultimately have fs: "fs ?e = (if ?p \<noteq> 0 \<and> refs ext ?t ?p = 1 then closed_fs E ?p s else fs s)"
    by (simp add: get_effect)
  show ?thesis unfolding run using ce ss fs len False
    by (simp add: fd_outcome_def fd_typed_def fd_spec_def dropped_def)
qed

text \<open>
  C38.  The descriptor table stays typed: after \<^verbatim>\<open>dup\<close>, \<^verbatim>\<open>dup2\<close> and \<^verbatim>\<open>close\<close> with any arguments,
  the reference count of every open file is again the number of slots that hold it plus the
  references held elsewhere, and a file is allocated exactly while it has a reference (no slot
  dangles, no file leaks).  Result and table are those of the specification on plain lists: \<^verbatim>\<open>dup\<close>
  takes the lowest free slot above 2, \<^verbatim>\<open>dup2\<close> replaces the slot named.  The close operation of a
  driver runs exactly when the last reference goes, and nothing else of a file changes but its
  count.  Less than \<open>2^32\<close> references are held outside the table.
\<close>

theorem fd_table_typed:
  assumes "fd_typed ext s" and "\<forall>f. ext f < 2 ^ 32" and "fd_step E op s = (r, s')"
  shows "fd_typed ext s' \<and> (r, fd_file s') = fd_spec op (fd_file s) \<and> same_files s s' \<and>
    (let f = dropped op (fd_file s) in
     fs s' = (if f \<noteq> 0 \<and> refs ext (fd_file s) f = 1 then closed_fs E f s else fs s))"
proof -
  have "fd_outcome E ext op s (fst (fd_step E op s)) (snd (fd_step E op s))"
    using close_ok [OF assms(1)] dup_ok [OF assms(1,2)] dup2_ok [OF assms(1,2)] by (cases op) (simp_all add: fd_step_def)
  then show ?thesis using assms(3) by (simp add: fd_outcome_def)
qed

text \<open>One file in slot 3 whose driver counts its closes.\<close>

definition count_env :: "nat fsenv" where
  "count_env = bare_env\<lparr>fops_of := \<lambda>_. no_fops\<lparr>fo_close := Some (\<lambda>k a. (0, k, a\<lparr>fsx := fsx a + 1\<rparr>))\<rparr>\<rparr>"

definition one_open :: "nat vfs" where
  "one_open = (empty_vfs 0)
     \<lparr>files := \<lambda>_. zero_file\<lparr>finode := 7, fops := TtyFops, fref_count := 1\<rparr>,
      flive := (\<lambda>f. f = 5), fd_file := (replicate 64 0)[3 := 5]\<rparr>"

lemma one_open_typed: "fd_typed (\<lambda>_. 0) one_open"
  by (auto simp: fd_typed_def counted_def refs_def one_open_def count_list_update)

theorem fd_table_typed_witness:
  "\<exists>s'. fd_step count_env (Close 3) one_open = (0, s') \<and> fd_typed (\<lambda>_. 0) s' \<and> fd_file s' = replicate 64 0 \<and>
    \<not> flive s' 5 \<and> fsx (fs s') = 1"
proof -
  obtain r s' where s': "fd_step count_env (Close 3) one_open = (r, s')" by (metis surj_pair)
  note T = fd_table_typed [OF one_open_typed _ s']
  have fd: "fd_file one_open = (replicate 64 0)[3 := 5]" by (simp add: one_open_def)
  have sl: "slot_of (fd_file one_open) 3 = 5" by (simp add: fd slot_of_def)
  have rf: "refs (\<lambda>_. 0) (fd_file one_open) 5 = 1" by (simp add: fd refs_def count_list_update)
  have cl: "fsx (closed_fs count_env 5 one_open) = 1"
    by (simp add: closed_fs_def vfs_close_def vfs_check_file_def VFS_CALL_def call_file_op_def upd_file_def count_env_def one_open_def empty_vfs_def)
  have sp: "fd_spec (Close 3) (fd_file one_open) = (0, replicate 64 0)"
    using sl list_update_id [of "replicate 64 0" 3] by (simp add: fd_spec_def fd)
  have "fd_typed (\<lambda>_. 0) s'" "(r, fd_file s') = (0, replicate 64 0)" "fsx (fs s') = 1"
    using T sl rf cl by (simp_all add: sp dropped_def)
  moreover from this have "\<not> flive s' 5" by (simp add: fd_typed_def counted_def refs_def)
  ultimately show ?thesis using s' by simp
qed

end
