(* ===== verification/Paging.thy ===== *)
theory Paging
  imports Buddy_Kernel
begin

text \<open>
  The page tables of \<^verbatim>\<open>paging/paging.c\<close>.  Tables live in the very memory the page pool
  hands out, so the state is the pool's state \<open>kbuddy\<close> and a table entry is the machine word at
  \<open>table + 8 * index\<close> of its memory \<open>slot\<close>; the kernel reaches that memory at
  \<^verbatim>\<open>phys + KERNEL_VIRTUAL\<close>, an alias of the same word.  The bit fields of
  \<^verbatim>\<open>page_entry_t\<close> are written out on the 64-bit word.  The critical sections run under
  \<^verbatim>\<open>paging_lock\<close> with interrupts off and are atomic steps.  A result \<open>None\<close> stands for a pool
  operation that does not return.  Where the code asks for a TLB shootdown after the critical
  section, the model returns the address.
\<close>

section \<open>Entries\<close>

definition pe_present :: "u64 \<Rightarrow> bool" where "pe_present e = bit e 0"
definition pe_user :: "u64 \<Rightarrow> bool" where "pe_user e = bit e 2"
definition pe_pcd :: "u64 \<Rightarrow> bool" where "pe_pcd e = bit e 4"
definition pe_page_size :: "u64 \<Rightarrow> bool" where "pe_page_size e = bit e 7"

definition pe_address :: "u64 \<Rightarrow> u64" where
  "pe_address e = take_bit 40 (drop_bit 12 e)"

definition put_flag :: "nat \<Rightarrow> bool \<Rightarrow> u64 \<Rightarrow> u64" where
  "put_flag n b e = (if b then e OR 2 ^ n else e AND NOT (2 ^ n))"

definition put_address :: "u64 \<Rightarrow> u64 \<Rightarrow> u64" where
  "put_address a e = (e AND NOT (push_bit 12 (mask 40))) OR push_bit 12 (take_bit 40 a)"

text \<open>\<^verbatim>\<open>address << 12\<close>: the physical address an entry points to.\<close>

definition frame_of :: "u64 \<Rightarrow> u64" where
  "frame_of e = push_bit 12 (pe_address e)"

definition ent :: "kbuddy \<Rightarrow> u64 \<Rightarrow> u64 \<Rightarrow> u64" where
  "ent s t i = slot s (t + 8 * i)"

definition set_ent :: "u64 \<Rightarrow> u64 \<Rightarrow> u64 \<Rightarrow> kbuddy \<Rightarrow> kbuddy" where
  "set_ent t i e s = s\<lparr>slot := (slot s)(t + 8 * i := e)\<rparr>"

text \<open>\<^verbatim>\<open>memset(page, 0, PAGE_SIZE)\<close> and \<^verbatim>\<open>memcpy(dst, src, PAGE_SIZE)\<close> on whole pages.\<close>

definition zero_page :: "u64 \<Rightarrow> kbuddy \<Rightarrow> kbuddy" where
  "zero_page p s = s\<lparr>slot := (\<lambda>x. if pfn x = pfn p then 0 else slot s x)\<rparr>"

definition copy_page :: "u64 \<Rightarrow> u64 \<Rightarrow> kbuddy \<Rightarrow> kbuddy" where
  "copy_page dst src s = s\<lparr>slot := (\<lambda>x. if pfn x = pfn dst then slot s (src + (x - dst)) else slot s x)\<rparr>"

section \<open>Addresses and flags (paging_defs.h)\<close>

definition KERNEL_VIRTUAL :: u64 where "KERNEL_VIRTUAL = 0xFFFFFFFF80000000"
definition TABLE_SIZE :: u64 where "TABLE_SIZE = PAGE_SIZE * 512"
definition USER_VIRTUAL :: u64 where "USER_VIRTUAL = 0x40000000"
definition MMIO_OFFSET :: u64 where "MMIO_OFFSET = 0xFFFFFFFFC0000000 - 0x7FFDF000"
definition PCI_OFFSET :: u64 where "PCI_OFFSET = 0xFFFFFFFFD0000000 - 0xB0000000"
definition STACK_PAGES :: nat where "STACK_PAGES = 4"

definition KERNEL_VIRT_TO_PHYS :: "u64 \<Rightarrow> u64" where "KERNEL_VIRT_TO_PHYS a = a - KERNEL_VIRTUAL"

definition PML4_IDX :: "u64 \<Rightarrow> u64" where "PML4_IDX a = drop_bit 39 a AND 0x1FF"
definition PDPT_IDX :: "u64 \<Rightarrow> u64" where "PDPT_IDX a = drop_bit 30 a AND 0x1FF"
definition PD_IDX :: "u64 \<Rightarrow> u64" where "PD_IDX a = drop_bit 21 a AND 0x1FF"
definition PT_IDX :: "u64 \<Rightarrow> u64" where "PT_IDX a = drop_bit 12 a AND 0x1FF"

definition PRESENT_PAGE :: u64 where "PRESENT_PAGE = 0x1"
definition RW_PAGE :: u64 where "RW_PAGE = 0x2"
definition USER_PAGE :: u64 where "USER_PAGE = 0x4"
definition WRITE_THROUGH_PAGE :: u64 where "WRITE_THROUGH_PAGE = 0x8"
definition CACHE_DIS_PAGE :: u64 where "CACHE_DIS_PAGE = 0x10"
definition GLOBAL_PAGE :: u64 where "GLOBAL_PAGE = 0x100"
definition NX_PAGE :: u64 where "NX_PAGE = 0x8000000000000000"

definition RW_KERNEL :: u64 where "RW_KERNEL = PRESENT_PAGE OR RW_PAGE OR GLOBAL_PAGE OR NX_PAGE"
definition RW_USER :: u64 where "RW_USER = PRESENT_PAGE OR RW_PAGE OR USER_PAGE OR NX_PAGE"
definition RW_MMIO :: u64 where
  "RW_MMIO = PRESENT_PAGE OR RW_PAGE OR WRITE_THROUGH_PAGE OR CACHE_DIS_PAGE OR GLOBAL_PAGE OR NX_PAGE"

section \<open>Mapping a page\<close>

text \<open>
  One level of the descent, the same three times in the source: an absent entry gets a fresh
  cleared table, a user mapping sets the user bit.  The result is the next table with the
  information whether it is new, or \<open>None\<close> when the pool is exhausted.
\<close>

definition next_table :: "bool \<Rightarrow> u64 \<Rightarrow> u64 \<Rightarrow> kbuddy \<Rightarrow> ((u64 \<times> bool) option \<times> kbuddy) option" where
  "next_table is_user t i s =
     (let user = (\<lambda>s. if is_user then set_ent t i (put_flag 2 True (ent s t i)) s else s) in
      if \<not> pe_present (ent s t i) then
        (case kernel_request_buddy PAGE_SIZE s of
           None \<Rightarrow> None
         | Some (phys, s) \<Rightarrow>
             if phys = 0 then Some (None, s)
             else
               let s = zero_page phys s;
                   e = put_address (drop_bit 12 phys) (put_flag 1 True (put_flag 0 True (ent s t i)));
                   s = user (set_ent t i e s)
               in Some (Some (frame_of (ent s t i), True), s))
      else let s = user s in Some (Some (frame_of (ent s t i), False), s))"

text \<open>The fields of a mapping entry; the accessed, dirty and available bits keep their values.\<close>

definition leaf_entry :: "u64 \<Rightarrow> u64 \<Rightarrow> u64 \<Rightarrow> u64" where
  "leaf_entry phy flags e =
     put_flag 8 (flags AND GLOBAL_PAGE \<noteq> 0) (put_flag 3 (flags AND WRITE_THROUGH_PAGE \<noteq> 0)
       (put_flag 4 (flags AND CACHE_DIS_PAGE \<noteq> 0) (put_flag 63 (flags AND NX_PAGE \<noteq> 0)
         (put_address (drop_bit 12 phy) (put_flag 2 (flags AND USER_PAGE \<noteq> 0)
           (put_flag 1 (flags AND RW_PAGE \<noteq> 0) (put_flag 0 True e)))))))"

definition map_big :: "u64 \<Rightarrow> bool \<Rightarrow> u64 \<Rightarrow> u64 \<Rightarrow> u64 \<Rightarrow> kbuddy \<Rightarrow> int \<times> kbuddy" where
  "map_big pd new_pd virt phy flags s =
     (if \<not> new_pd then (0, s)
      else if PT_IDX virt \<noteq> 0 \<and> PT_IDX phy \<noteq> 0 then (0, s)
      else (0, set_ent pd (PD_IDX virt) (put_flag 7 True (leaf_entry phy flags (ent s pd (PD_IDX virt)))) s))"

definition map_small :: "u64 \<Rightarrow> u64 \<Rightarrow> u64 \<Rightarrow> u64 \<Rightarrow> kbuddy \<Rightarrow> (int \<times> kbuddy) option" where
  "map_small pd virt phy flags s =
     Option.bind (next_table (flags AND USER_PAGE \<noteq> 0) pd (PD_IDX virt) s) (\<lambda>(r, s).
       case r of
         None \<Rightarrow> Some (- ENOMEM, s)
       | Some (pt, _) \<Rightarrow>
           if pe_page_size (ent s pd (PD_IDX virt)) then Some (- EEXIST, s)
           else Some (0, set_ent pt (PT_IDX virt) (leaf_entry phy flags (ent s pt (PT_IDX virt))) s))"

definition map_page_to_virt_in :: "u64 \<Rightarrow> u64 \<Rightarrow> u64 \<Rightarrow> u64 \<Rightarrow> bool \<Rightarrow> kbuddy \<Rightarrow> (int \<times> kbuddy) option" where
  "map_page_to_virt_in pml4_base virt phy flags big_page s =
     (let is_user = (flags AND USER_PAGE \<noteq> 0) in
      Option.bind (next_table is_user pml4_base (PML4_IDX virt) s) (\<lambda>(r, s).
        case r of
          None \<Rightarrow> Some (- ENOMEM, s)
        | Some (pdpt, _) \<Rightarrow>
            Option.bind (next_table is_user pdpt (PDPT_IDX virt) s) (\<lambda>(r, s).
              case r of
                None \<Rightarrow> Some (- ENOMEM, s)
              | Some (pd, new_pd) \<Rightarrow>
                  if big_page then Some (map_big pd new_pd virt phy flags s)
                  else map_small pd virt phy flags s)))"

text \<open>\<open>pml4\<close> is the physical address of the kernel's static top-level table.\<close>

definition map_page_to_virt :: "u64 \<Rightarrow> u64 \<Rightarrow> u64 \<Rightarrow> u64 \<Rightarrow> bool \<Rightarrow> kbuddy \<Rightarrow> kbuddy option" where
  "map_page_to_virt pml4 virt phy flags big_page s =
     map_option snd (map_page_to_virt_in pml4 virt phy flags big_page s)"

section \<open>Unmapping\<close>

definition unmap_page_in :: "u64 \<Rightarrow> u64 \<Rightarrow> kbuddy \<Rightarrow> int \<times> u64 option \<times> kbuddy" where
  "unmap_page_in pml4_base virt s =
     (let e4 = ent s pml4_base (PML4_IDX virt);
          e3 = ent s (frame_of e4) (PDPT_IDX virt);
          e2 = ent s (frame_of e3) (PD_IDX virt);
          p1 = frame_of e2;
          e1 = ent s p1 (PT_IDX virt)
      in if \<not> pe_present e4 \<or> \<not> pe_present e3 \<or> \<not> pe_present e2 \<or> pe_page_size e2 \<or> \<not> pe_present e1
         then (- ENOENT, None, s)
         else (0, Some virt, set_ent p1 (PT_IDX virt) (put_flag 0 False e1) s))"

definition RemovePage :: "u64 \<Rightarrow> u64 \<Rightarrow> bool \<Rightarrow> kbuddy \<Rightarrow> u64 option \<times> kbuddy" where
  "RemovePage pml4 addr big_page s =
     (let e4 = ent s pml4 (PML4_IDX addr);
          e3 = ent s (frame_of e4) (PDPT_IDX addr);
          pd = frame_of e3;
          e2 = ent s pd (PD_IDX addr);
          e1 = ent s (frame_of e2) (PT_IDX addr)
      in if \<not> pe_present e4 \<or> \<not> pe_present e3 \<or> \<not> pe_present e2 then (None, s)
         else if big_page then (Some addr, set_ent pd (PD_IDX addr) (put_flag 0 False e2) s)
         else if pe_page_size e2 \<or> \<not> pe_present e1 then (None, s)
         else (Some addr, set_ent (frame_of e2) (PT_IDX addr) (put_flag 0 False e1) s))"

fun RemovePages :: "u64 \<Rightarrow> u64 \<Rightarrow> nat \<Rightarrow> bool \<Rightarrow> kbuddy \<Rightarrow> u64 list \<times> kbuddy" where
  "RemovePages pml4 addr 0 big_pages s = ([], s)"
| "RemovePages pml4 addr (Suc n) big_pages s =
     (let (fl, s) = RemovePage pml4 addr big_pages s;
          (fls, s) = RemovePages pml4 (addr + (if big_pages then TABLE_SIZE else PAGE_SIZE)) n big_pages s
      in ((case fl of None \<Rightarrow> [] | Some a \<Rightarrow> [a]) @ fls, s))"

text \<open>
  The two routines that clear whole tables; they flush only the local TLB, and the result lists
  the addresses they invalidate there.
\<close>

fun RemoveTables_inner :: "u64 \<Rightarrow> u64 \<Rightarrow> nat \<Rightarrow> kbuddy \<Rightarrow> u64 list \<times> kbuddy" where
  "RemoveTables_inner base pt 0 s = ([], s)"
| "RemoveTables_inner base pt (Suc n) s =
     (let (fl, s) = RemoveTables_inner base pt n s; j = of_nat n in
      if pe_present (ent s pt j)
      then (fl @ [base + j * PAGE_SIZE], set_ent pt j (put_flag 0 False (ent s pt j)) s) else (fl, s))"

definition RemoveTables_entry :: "u64 \<Rightarrow> u64 \<Rightarrow> u64 \<Rightarrow> kbuddy \<Rightarrow> u64 list \<times> kbuddy" where
  "RemoveTables_entry base pd i s =
     (if \<not> pe_present (ent s pd i) then ([], s)
      else
        let (fl, s) = RemoveTables_inner (i * 512 * PAGE_SIZE + base) (frame_of (ent s pd i)) 512 s
        in (fl @ [i * TABLE_SIZE + base], set_ent pd i (put_flag 0 False (ent s pd i)) s))"

definition RemoveTables :: "u64 \<Rightarrow> u64 \<Rightarrow> u64 \<Rightarrow> nat \<Rightarrow> nat \<Rightarrow> kbuddy \<Rightarrow> u64 list \<times> kbuddy" where
  "RemoveTables pml4 pml4_idx pdpt_idx start_table end_table s =
     (let pd = frame_of (ent s (frame_of (ent s pml4 pml4_idx)) pdpt_idx);
          base = push_bit 39 pml4_idx + push_bit 30 pdpt_idx
      in fold (\<lambda>i (fl, s). let (fl', s) = RemoveTables_entry base pd (of_nat i) s in (fl @ fl', s))
           [start_table..<end_table] ([], s))"

definition RemovePDs :: "u64 \<Rightarrow> u64 \<Rightarrow> u64 \<Rightarrow> nat \<Rightarrow> nat \<Rightarrow> kbuddy \<Rightarrow> u64 list \<times> kbuddy" where
  "RemovePDs pml4 pml4_idx pdpt_idx start_pd end_pd s =
     (let pdpt = frame_of (ent s pml4 pml4_idx);
          base = push_bit 39 pml4_idx + push_bit 30 pdpt_idx
      in fold (\<lambda>i (fl, s).
             let i = of_nat i in
             if pe_present (ent s pdpt i)
             then (fl @ [i * TABLE_SIZE + base], set_ent pdpt i (put_flag 0 False (ent s pdpt i)) s)
             else (fl, s))
           [start_pd..<end_pd] ([], s))"

section \<open>Ranges\<close>

fun map_range :: "u64 \<Rightarrow> u64 \<Rightarrow> u64 \<Rightarrow> u64 \<Rightarrow> u64 \<Rightarrow> bool \<Rightarrow> nat \<Rightarrow> kbuddy \<Rightarrow> kbuddy option" where
  "map_range pml4 sz virt phy flags big_page 0 s = Some s"
| "map_range pml4 sz virt phy flags big_page (Suc n) s =
     Option.bind (map_page_to_virt pml4 virt phy flags big_page s)
       (map_range pml4 sz (virt + sz) (phy + sz) flags big_page n)"

definition FillPageDirectoryGeneral :: "u64 \<Rightarrow> u64 \<Rightarrow> u64 \<Rightarrow> u64 \<Rightarrow> u64 \<Rightarrow> kbuddy \<Rightarrow> kbuddy option" where
  "FillPageDirectoryGeneral pml4 virt phy sz flags s =
     (let num_big_pages = sz div TABLE_SIZE;
          remaining_size = sz mod TABLE_SIZE;
          num_small_pages = (if remaining_size \<noteq> 0 then (remaining_size + PAGE_SIZE - 1) div PAGE_SIZE else 0);
          small_only = (PT_IDX phy \<noteq> 0 \<or> PT_IDX virt \<noteq> 0);
          num_big_pages = (if small_only then 0 else num_big_pages);
          num_small_pages = (if small_only then (sz + PAGE_SIZE - 1) div PAGE_SIZE else num_small_pages)
      in Option.bind (map_range pml4 TABLE_SIZE virt phy flags True (unat num_big_pages) s)
           (map_range pml4 PAGE_SIZE (virt + num_big_pages * TABLE_SIZE) (phy + num_big_pages * TABLE_SIZE)
              flags False (unat num_small_pages)))"

definition FillPageDirectoryUser :: "u64 \<Rightarrow> u64 \<Rightarrow> u64 \<Rightarrow> kbuddy \<Rightarrow> kbuddy option" where
  "FillPageDirectoryUser pml4 addr sz = FillPageDirectoryGeneral pml4 addr (addr - USER_VIRTUAL) sz RW_USER"

definition FillPageDirectoryMMIO :: "u64 \<Rightarrow> u64 \<Rightarrow> u64 \<Rightarrow> kbuddy \<Rightarrow> kbuddy option" where
  "FillPageDirectoryMMIO pml4 addr sz = FillPageDirectoryGeneral pml4 (addr + MMIO_OFFSET) addr sz RW_MMIO"

definition FillPageDirectoryPCI :: "u64 \<Rightarrow> u64 \<Rightarrow> u64 \<Rightarrow> kbuddy \<Rightarrow> kbuddy option" where
  "FillPageDirectoryPCI pml4 addr sz = FillPageDirectoryGeneral pml4 (addr + PCI_OFFSET) addr sz RW_MMIO"

definition FillPageDirectoryIdentityMapping :: "u64 \<Rightarrow> u64 \<Rightarrow> u64 \<Rightarrow> kbuddy \<Rightarrow> kbuddy option" where
  "FillPageDirectoryIdentityMapping pml4 addr sz = FillPageDirectoryGeneral pml4 addr addr sz RW_KERNEL"

section \<open>Kernel pages\<close>

text \<open>
  \<open>curr\<close> is \<^verbatim>\<open>curr_addr_prim\<close>, the bump pointer of the boot-time allocator, handed through.
\<close>

fun AddKernelPagesPrimitive_loop :: "u64 \<Rightarrow> nat \<Rightarrow> u64 \<Rightarrow> kbuddy \<Rightarrow> (u64 \<times> kbuddy) option" where
  "AddKernelPagesPrimitive_loop pml4 0 addr s = Some (addr, s)"
| "AddKernelPagesPrimitive_loop pml4 (Suc n) addr s =
     Option.bind (map_page_to_virt pml4 addr (KERNEL_VIRT_TO_PHYS addr) RW_KERNEL False s)
       (AddKernelPagesPrimitive_loop pml4 n (addr + PAGE_SIZE))"

definition AddKernelPagesPrimitive :: "u64 \<Rightarrow> u64 \<Rightarrow> u64 \<Rightarrow> kbuddy \<Rightarrow> (u64 \<times> u64 \<times> kbuddy) option" where
  "AddKernelPagesPrimitive pml4 num_pages addr s =
     map_option (\<lambda>(addr', s). (addr, addr', s)) (AddKernelPagesPrimitive_loop pml4 (unat num_pages) addr s)"

text \<open>The two \<^verbatim>\<open>while\<close> loops that walk a range first in 2 MiB and then in 4 KiB steps.\<close>

lemma unat_sub_less: "k \<le> (n::u64) \<Longrightarrow> k \<noteq> 0 \<Longrightarrow> unat (n - k) < unat n"
  by (simp add: unat_sub word_le_nat_alt) (metis diff_less gr_zeroI le_zero_eq unat_eq_zero)

function kernel_pages_loop :: "u64 \<Rightarrow> u64 \<Rightarrow> u64 \<Rightarrow> u64 \<Rightarrow> kbuddy \<Rightarrow> kbuddy option" where
  "kernel_pages_loop pml4 flags addr num_pages s =
     (let map_at = (\<lambda>s. map_page_to_virt pml4 addr (KERNEL_VIRT_TO_PHYS addr) flags True s) in
      if num_pages \<ge> 512 then Option.bind (map_at s) (kernel_pages_loop pml4 flags (addr + TABLE_SIZE) (num_pages - 512))
      else if num_pages > 0 then Option.bind (map_at s) (kernel_pages_loop pml4 flags (addr + PAGE_SIZE) (num_pages - 1))
      else Some s)"
  by pat_completeness auto
termination
  by (relation "measure (\<lambda>(p, f, a, n, s). unat n)") (auto intro!: unat_sub_less simp: word_le_nat_alt word_less_nat_alt)

declare kernel_pages_loop.simps [simp del]

definition AddKernelPages :: "u64 \<Rightarrow> u64 \<Rightarrow> kbuddy \<Rightarrow> (u64 \<times> kbuddy) option" where
  "AddKernelPages pml4 num_pages s =
     Option.bind (kernel_request_buddy (num_pages * PAGE_SIZE) s) (\<lambda>(phys, s).
       let start_addr = phys + KERNEL_VIRTUAL in
       map_option (Pair start_addr) (kernel_pages_loop pml4 RW_KERNEL start_addr num_pages s))"

definition AddNonCachableKernelPages :: "u64 \<Rightarrow> u64 \<Rightarrow> kbuddy \<Rightarrow> (u64 \<times> kbuddy) option" where
  "AddNonCachableKernelPages pml4 num_pages s =
     Option.bind (kernel_request_buddy (num_pages * PAGE_SIZE) s) (\<lambda>(phys, s).
       let start_addr = phys + KERNEL_VIRTUAL in
       if start_addr = KERNEL_VIRTUAL then Some (0, s)
       else map_option (Pair start_addr) (kernel_pages_loop pml4 RW_MMIO start_addr num_pages s))"

definition RemoveKernelPages :: "u64 \<Rightarrow> u64 \<Rightarrow> u64 \<Rightarrow> kbuddy \<Rightarrow> (u64 list \<times> kbuddy) option" where
  "RemoveKernelPages pml4 start num_pages s =
     map_option (\<lambda>s.
         let big = num_pages div 512; small = num_pages mod 512;
             (fl, s) = RemovePages pml4 start (unat big) True s;
             (fl', s) = RemovePages pml4 (start + big * TABLE_SIZE) (unat small) False s
         in (fl @ fl', s))
       (kernel_free_buddy (KERNEL_VIRT_TO_PHYS start) s)"

definition AddStack :: "u64 \<Rightarrow> kbuddy \<Rightarrow> (u64 \<times> kbuddy) option" where
  "AddStack pml4 s = AddKernelPages pml4 (of_nat STACK_PAGES) s"

text \<open>
  \<^verbatim>\<open>DisableIdentityMapping\<close> clears the present bit of the first entry and asks for a full flush
  (address 0).
\<close>

definition DisableIdentityMapping :: "u64 \<Rightarrow> kbuddy \<Rightarrow> u64 option \<times> kbuddy" where
  "DisableIdentityMapping pml4 s = (Some 0, set_ent pml4 0 (put_flag 0 False (ent s pml4 0)) s)"

end
