(* ===== verification/Pml4_Clone.thy ===== *)
theory Pml4_Clone
  imports Paging
begin

text \<open>
  \<^verbatim>\<open>paging/pml4_clone.c\<close>: making a top-level table that shares the kernel half, the deep copy of
  a user address space at \<^verbatim>\<open>fork\<close>, and its release.  The four nested loops of the copy and of the
  release differ only in the level they work on; they are one recursion over the level here:
  level 3 is the top-level table with its 256 user entries, levels 2 and 1 are the two
  intermediate tables, level 0 is a page table whose entries point to data pages.
\<close>

definition user_idxs :: "nat \<Rightarrow> u64 list" where
  "user_idxs n = map of_nat [0..<(if n = 3 then 256 else 512)]"

definition clone_kernel_pml4 :: "u64 \<Rightarrow> kbuddy \<Rightarrow> ((int + u64) \<times> kbuddy) option" where
  "clone_kernel_pml4 pml4 s =
     Option.bind (kernel_request_buddy PAGE_SIZE s) (\<lambda>(phys, s).
       if phys = 0 then Some (Inl (- ENOMEM), s)
       else
         Some (Inr phys, fold (\<lambda>i s. set_ent phys (of_nat i) (ent s pml4 (of_nat i)) s) [256..<512]
                           (zero_page phys s)))"

definition free_cloned_pml4 :: "u64 \<Rightarrow> kbuddy \<Rightarrow> kbuddy option" where
  "free_cloned_pml4 pml4_phys s = kernel_free_buddy pml4_phys s"

section \<open>Release\<close>

fun each :: "('i \<Rightarrow> 's \<Rightarrow> 's option) \<Rightarrow> 'i list \<Rightarrow> 's \<Rightarrow> 's option" where
  "each f [] s = Some s"
| "each f (i # is) s = Option.bind (f i s) (each f is)"

definition free_and_clear :: "u64 \<Rightarrow> u64 \<Rightarrow> u64 \<Rightarrow> kbuddy \<Rightarrow> kbuddy option" where
  "free_and_clear p t i s = map_option (set_ent t i 0) (kernel_free_buddy p s)"

text \<open>The body of the loop at level \<open>n\<close>, for entry \<open>i\<close> of the table \<open>t\<close>.\<close>

primrec free_entry :: "nat \<Rightarrow> u64 \<Rightarrow> u64 \<Rightarrow> kbuddy \<Rightarrow> kbuddy option" where
  "free_entry 0 = (\<lambda>t i s.
     let e = ent s t i in
     if \<not> pe_present e then Some s
     else if pe_pcd e then Some (set_ent t i 0 s)
     else free_and_clear (frame_of e) t i s)"
| "free_entry (Suc n) = (\<lambda>t i s.
     let e = ent s t i in
     if \<not> pe_present e then Some s
     else if Suc n \<noteq> 3 \<and> pe_page_size e then free_and_clear (frame_of e) t i s
     else Option.bind (each (free_entry n (frame_of e)) (user_idxs n) s) (free_and_clear (frame_of e) t i))"

definition free_user_address_space :: "u64 \<Rightarrow> kbuddy \<Rightarrow> kbuddy option" where
  "free_user_address_space pml4_phys s = each (free_entry 3 pml4_phys) (user_idxs 3) s"

section \<open>Copy\<close>

text \<open>A loop over entries that stops at the first negative result.\<close>

fun until_error :: "('i \<Rightarrow> 's \<Rightarrow> (int \<times> 's) option) \<Rightarrow> 'i list \<Rightarrow> 's \<Rightarrow> (int \<times> 's) option" where
  "until_error f [] s = Some (0, s)"
| "until_error f (i # is) s =
     Option.bind (f i s) (\<lambda>(r, s). if r < 0 then Some (r, s) else until_error f is s)"

definition clone_page :: "u64 \<Rightarrow> u64 \<Rightarrow> u64 \<Rightarrow> kbuddy \<Rightarrow> (int \<times> kbuddy) option" where
  "clone_page p1 c1 i s =
     (let e = ent s p1 i in
      if \<not> pe_present e then Some (0, s)
      else if pe_pcd e then Some (0, set_ent c1 i e s)
      else
        Option.bind (kernel_request_buddy PAGE_SIZE s) (\<lambda>(new_page, s).
          if new_page = 0 then Some (- ENOMEM, s)
          else
            let s = copy_page new_page (frame_of (ent s p1 i)) s
            in Some (0, set_ent c1 i (put_address (drop_bit 12 new_page) (ent s p1 i)) s)))"

definition clone_table :: "bool \<Rightarrow> (u64 \<Rightarrow> u64 \<Rightarrow> kbuddy \<Rightarrow> (int \<times> kbuddy) option) \<Rightarrow> u64 \<Rightarrow> u64 \<Rightarrow> u64 \<Rightarrow>
    kbuddy \<Rightarrow> (int \<times> kbuddy) option" where
  "clone_table is_pml4 below p c i s =
     (let e = ent s p i in
      if \<not> pe_present e then Some (0, s)
      else if \<not> is_pml4 \<and> pe_page_size e then Some (- ENOTSUP, s)
      else
        Option.bind (kernel_request_buddy PAGE_SIZE s) (\<lambda>(t, s).
          if t = 0 then Some (- ENOMEM, s)
          else
            let p_below = frame_of (ent s p i);
                s = zero_page t s;
                s = set_ent c i (put_address (drop_bit 12 t) (ent s p i)) s
            in below p_below t s))"

primrec clone_entry :: "nat \<Rightarrow> u64 \<Rightarrow> u64 \<Rightarrow> u64 \<Rightarrow> kbuddy \<Rightarrow> (int \<times> kbuddy) option" where
  "clone_entry 0 = clone_page"
| "clone_entry (Suc n) = clone_table (Suc n = 3) (\<lambda>p c. until_error (clone_entry n p c) (user_idxs n))"

definition clone_user_pml4 :: "u64 \<Rightarrow> u64 \<Rightarrow> kbuddy \<Rightarrow> ((int + u64) \<times> kbuddy) option" where
  "clone_user_pml4 pml4 parent_pml4_phys s =
     Option.bind (clone_kernel_pml4 pml4 s) (\<lambda>(r, s).
       case r of
         Inl e \<Rightarrow> Some (Inl e, s)
       | Inr child_phys \<Rightarrow>
           Option.bind (until_error (clone_entry 3 parent_pml4_phys child_phys) (user_idxs 3) s) (\<lambda>(r, s).
             if r < 0
             then Option.bind (free_user_address_space child_phys s)
                    (\<lambda>s. map_option (Pair (Inl r)) (free_cloned_pml4 child_phys s))
             else Some (Inr child_phys, s)))"

section \<open>Look-up\<close>

definition lookup_user_in_pml4 :: "u64 \<Rightarrow> u64 \<Rightarrow> kbuddy \<Rightarrow> int + u64" where
  "lookup_user_in_pml4 pml4_phys virt s =
     (let e4 = ent s pml4_phys (PML4_IDX virt);
          e3 = ent s (frame_of e4) (PDPT_IDX virt);
          e2 = ent s (frame_of e3) (PD_IDX virt);
          e1 = ent s (frame_of e2) (PT_IDX virt)
      in if \<not> pe_present e4 \<or> \<not> pe_present e3 \<or> \<not> pe_present e2 \<or> \<not> pe_present e1 then Inl (- ENOENT)
         else Inr (frame_of e1))"

end
