(* ===== verification/Page_Pool.thy ===== *)
theory Page_Pool
  imports Buddy_Kernel_Props
begin

text \<open>
  What the page tables rely on of the page pool: a source of single pages with memory.  The
  locale states the contract, with \<open>live s U\<close> saying that \<open>U\<close> are the blocks handed out; the
  kernel page pool is its instance.
\<close>

section \<open>Pages\<close>

abbreviation pages :: "(u64 \<times> nat) set \<Rightarrow> u64 set" where
  "pages U \<equiv> {p. (p, 12) \<in> U}"

abbreviation with_pages :: "(u64 \<times> nat) set \<Rightarrow> u64 set \<Rightarrow> (u64 \<times> nat) set" where
  "with_pages U N \<equiv> U \<union> (\<lambda>p. (p, 12)) ` N"

abbreviation without_pages :: "(u64 \<times> nat) set \<Rightarrow> u64 set \<Rightarrow> (u64 \<times> nat) set" where
  "without_pages U N \<equiv> U - (\<lambda>p. (p, 12)) ` N"

text \<open>Two states have the same memory on a set of pages.\<close>

definition same_on :: "u64 set \<Rightarrow> (u64 \<Rightarrow> u64) \<Rightarrow> (u64 \<Rightarrow> u64) \<Rightarrow> bool" where
  "same_on P m m' \<longleftrightarrow> (\<forall>p\<in>P. \<forall>x\<in>blk p 12. m' x = m x)"

lemma same_onD: "same_on P m m' \<Longrightarrow> p \<in> P \<Longrightarrow> x \<in> blk p 12 \<Longrightarrow> m' x = m x"
  by (auto simp: same_on_def)

lemma same_on_mono: "same_on P m m' \<Longrightarrow> Q \<subseteq> P \<Longrightarrow> same_on Q m m'"
  by (auto simp: same_on_def)

lemma same_on_refl [simp]: "same_on P m m"
  by (simp add: same_on_def)

lemma same_on_trans: "same_on P m m' \<Longrightarrow> same_on P m' m'' \<Longrightarrow> same_on P m m''"
  by (simp add: same_on_def)

lemma page_disjoint:
  assumes "aligned p 12" and "aligned q 12" and "p \<noteq> q"
  shows "blk p 12 \<inter> blk q 12 = {}"
proof (rule ccontr)
  assume "blk p 12 \<inter> blk q 12 \<noteq> {}"
  then obtain x where "x \<in> blk p 12" "x \<in> blk q 12" by blast
  then have "p \<in> blk q 12" by (auto simp: blk_def)
  then show False using aligned_blk_unique [OF assms(1,2)] assms(3) by simp
qed

lemma in_covers: "(a, k) \<in> U \<Longrightarrow> x \<in> blk a k \<Longrightarrow> x \<in> covers U"
  by (auto simp: covers_def)

lemma same_on_covers: "P \<subseteq> pages V \<Longrightarrow> (\<And>x. x \<in> covers V \<Longrightarrow> m' x = m x) \<Longrightarrow> same_on P m m'"
  unfolding same_on_def using in_covers [of _ 12 V] by blast

lemma covers_with_pages: "covers (with_pages U N) = covers U \<union> (\<Union>p\<in>N. blk p 12)"
  by (auto simp: covers_def)

section \<open>The contract\<close>

locale page_pool =
  fixes live :: "'s \<Rightarrow> (u64 \<times> nat) set \<Rightarrow> bool"
    and mem :: "'s \<Rightarrow> u64 \<Rightarrow> u64"
    and request :: "'s \<Rightarrow> (u64 \<times> 's) option"
    and release :: "u64 \<Rightarrow> 's \<Rightarrow> 's option"
    and store :: "(u64 \<Rightarrow> u64) \<Rightarrow> 's \<Rightarrow> 's"
  assumes block_apart: "live s U \<Longrightarrow> (p, j) \<in> U \<Longrightarrow> (q, k) \<in> U \<Longrightarrow> (p, j) \<noteq> (q, k) \<Longrightarrow> blk p j \<inter> blk q k = {}"
    and block_ok: "live s U \<Longrightarrow> (p, k) \<in> U \<Longrightarrow> aligned p 12 \<and> p \<noteq> 0 \<and> unat p < 2 ^ 52"
    and request_ok: "live s U \<Longrightarrow> request s = Some (0, s) \<or>
      (\<exists>p s'. request s = Some (p, s') \<and> p \<noteq> 0 \<and> blk p 12 \<inter> covers U = {} \<and>
         live s' (insert (p, 12) U) \<and> (\<forall>x\<in>covers U. mem s' x = mem s x))"
    and release_ok: "live s U \<Longrightarrow> (p, 12) \<in> U \<Longrightarrow>
      \<exists>s'. release p s = Some s' \<and> live s' (U - {(p, 12)}) \<and> (\<forall>x\<in>covers (U - {(p, 12)}). mem s' x = mem s x)"
    and store_ok: "live s U \<Longrightarrow> \<forall>x. x \<notin> covers U \<longrightarrow> m x = mem s x \<Longrightarrow> live (store m s) U"
    and mem_store: "mem (store m s) = m"
begin

lemma page_ok: "live s U \<Longrightarrow> p \<in> pages U \<Longrightarrow> aligned p 12"
  using block_ok by blast

lemma pages_apart: "live s U \<Longrightarrow> p \<in> pages U \<Longrightarrow> q \<in> pages U \<Longrightarrow> p \<noteq> q \<Longrightarrow> blk p 12 \<inter> blk q 12 = {}"
  using page_disjoint page_ok by blast

text \<open>Writing into an allocated page keeps the pool and every other page.\<close>

lemma store_page:
  assumes l: "live s U" and p: "p \<in> pages U" and m: "\<forall>x. x \<notin> blk p 12 \<longrightarrow> m x = mem s x"
  shows "live (store m s) U" and "same_on (pages U - {p}) (mem s) (mem (store m s))"
proof -
  have "m x = mem s x" if "x \<notin> covers U" for x
    using that m p in_covers [of p 12 U x] by blast
  then show "live (store m s) U" using store_ok [OF l] by blast
  show "same_on (pages U - {p}) (mem s) (mem (store m s))"
    unfolding same_on_def mem_store using pages_apart [OF l _ p] m by blast
qed

text \<open>A request either fails without a trace or adds one page that no live block meets.\<close>

lemma request_cases:
  assumes l: "live s U"
  obtains "request s = Some (0, s)"
  | p s' where "request s = Some (p, s')" "p \<noteq> 0" "p \<notin> pages U" "aligned p 12" "unat p < 2 ^ 52"
      "blk p 12 \<inter> covers U = {}" "live s' (insert (p, 12) U)" "\<forall>x\<in>covers U. mem s' x = mem s x"
proof (cases "request s = Some (0, s)")
  case False
  then obtain p s' where s': "request s = Some (p, s')" "p \<noteq> 0" "blk p 12 \<inter> covers U = {}"
      "live s' (insert (p, 12) U)" "\<forall>x\<in>covers U. mem s' x = mem s x"
    using request_ok [OF l] by blast
  have "p \<notin> pages U" using s'(3) in_covers [of p 12 U p] by blast
  then show thesis using that(2) s' block_ok [OF s'(4) insertI1] by blast
qed (rule that(1))

end

section \<open>The kernel page pool provides it\<close>

definition kpool_live :: "u64 \<Rightarrow> u64 \<Rightarrow> kbuddy \<Rightarrow> (u64 \<times> nat) set \<Rightarrow> bool" where
  "kpool_live st en s U \<longleftrightarrow> kpool_reachable st en s U \<and> pool_range st en \<and> unat en \<le> 2 ^ 52"

lemma fits_page: "fits PAGE_SIZE k \<longleftrightarrow> k = 12"
proof
  have "fits PAGE_SIZE 12" by (simp add: fits_def PAGE_SIZE_def)
  then show "fits PAGE_SIZE k \<Longrightarrow> k = 12" "k = 12 \<Longrightarrow> fits PAGE_SIZE k" using fits_unique by blast+
qed

lemma pool_pages_bound: "x \<in> pool_pages st en \<Longrightarrow> unat x < unat en"
proof -
  assume "x \<in> pool_pages st en"
  moreover have "4096 * ((unat en - unat st) div 4096) \<le> unat en - unat st" by simp
  ultimately show ?thesis unfolding pages_in_def by simp linarith
qed

interpretation kpool: page_pool "kpool_live st en" slot "kernel_request_buddy PAGE_SIZE" kernel_free_buddy
  "\<lambda>m s. s\<lparr>slot := m\<rparr>" for st en
proof
  fix s U
  assume l: "kpool_live st en s U"
  then have r: "kpool_reachable st en s U" "pool_range st en" "unat en \<le> 2 ^ 52" by (auto simp: kpool_live_def)
  obtain F where F: "pool s F U {}" "covers U \<subseteq> pool_pages st en" by (rule reachableE [OF r(1,2)]) (rule that)
  show "aligned p 12 \<and> p \<noteq> 0 \<and> unat p < 2 ^ 52" if p: "(p, k) \<in> U" for p k
  proof -
    have "p \<in> covers U" using p in_covers by blast
    then have "unat p < unat en" using F(2) pool_pages_bound by blast
    then show ?thesis using pool_block(4,6) [OF F(1), of p k] p r(3) by auto
  qed
  show "blk p j \<inter> blk q k = {}" if "(p, j) \<in> U" "(q, k) \<in> U" "(p, j) \<noteq> (q, k)" for p j q k
    using block_familyD(5) [OF poolD(4) [OF F(1)], of p j q k] that by blast
  show "kernel_request_buddy PAGE_SIZE s = Some (0, s) \<or>
      (\<exists>p s'. kernel_request_buddy PAGE_SIZE s = Some (p, s') \<and> p \<noteq> 0 \<and> blk p 12 \<inter> covers U = {} \<and>
         kpool_live st en s' (insert (p, 12) U) \<and> (\<forall>x\<in>covers U. slot s' x = slot s x))"
    using request_spec [OF r(1,2), of PAGE_SIZE] r(2,3) unfolding fits_page kpool_live_def
    by (auto simp: PAGE_SIZE_def)
  show "\<exists>s'. kernel_free_buddy p s = Some s' \<and> kpool_live st en s' (U - {(p, 12)}) \<and>
      (\<forall>x\<in>covers (U - {(p, 12)}). slot s' x = slot s x)" if "(p, 12) \<in> U" for p
    using release_spec [OF r(1,2) that] r(2,3) unfolding kpool_live_def by blast
  show "kpool_live st en (s\<lparr>slot := m\<rparr>) U" if "\<forall>x. x \<notin> covers U \<longrightarrow> m x = slot s x" for m
    using owner_writes [OF r(1) that] r(2,3) by (simp add: kpool_live_def)
qed simp

end
