(* ===== verification/Paging_Inv.thy ===== *)
theory Paging_Inv
  imports Pml4_Clone Page_Pool
begin

text \<open>
  Address spaces as trees of tables: the pages an entry owns (\<open>sub\<close>), when they form a tree
  without sharing (\<open>entry_ok\<close>, \<open>table_ok\<close>), what an address translates to (\<open>trans\<close>), and that
  all of it depends on the owned pages only.
\<close>

section \<open>Bits of entries\<close>

lemma bit_put_flag: "n < 64 \<Longrightarrow> bit (put_flag n b e) i \<longleftrightarrow> (if i = n then b else bit e i)"
  by (auto simp: put_flag_def bit_or_iff bit_and_iff bit_not_iff bit_two_pow dest: bit64)

lemma bit_put_address: "bit (put_address a e) i \<longleftrightarrow> (if 12 \<le> i \<and> i < 52 then bit a (i - 12) else bit e i)"
proof (cases "i < 64")
  case True
  then show ?thesis
    by (auto simp: put_address_def bit_or_iff bit_and_iff bit_not_iff bit_push_bit_iff bit_mask_iff bit_take_bit_iff)
next
  case False
  then show ?thesis using bit64 [of _ i] by auto
qed

lemma bit_frame_of: "bit (frame_of e) i \<longleftrightarrow> 12 \<le> i \<and> i < 52 \<and> bit e i"
  by (auto simp: frame_of_def pe_address_def bit_push_bit_iff bit_take_bit_iff bit_drop_bit_eq dest: bit64)

lemma frame_of_aligned [simp]: "aligned (frame_of e) 12"
  by (simp add: aligned_bits bit_frame_of)

lemma frame_put_address:
  assumes "aligned p 12" and "unat p < 2 ^ 52"
  shows "frame_of (put_address (drop_bit 12 p) e) = p"
proof (rule word64_bits_eqI)
  fix i :: nat assume "i < 64"
  have "take_bit 52 p = p"
    using assms(2) by (simp add: word_unat_eq_iff unsigned_take_bit_eq take_bit_nat_eq_self)
  then have "bit p i \<Longrightarrow> i < 52" by (metis bit_take_bit_iff)
  then show "bit (frame_of (put_address (drop_bit 12 p) e)) i = bit p i"
    using assms(1) by (auto simp: bit_frame_of bit_put_address bit_drop_bit_eq aligned_bits not_less)
qed

lemma put_flag_frame [simp]: "n < 12 \<Longrightarrow> frame_of (put_flag n b e) = frame_of e"
  by (rule word64_bits_eqI) (auto simp: bit_frame_of bit_put_flag)

lemma put_flag_63_frame [simp]: "frame_of (put_flag 63 b e) = frame_of e"
  by (rule word64_bits_eqI) (auto simp: bit_frame_of bit_put_flag)

lemmas entry_bits = pe_present_def pe_pcd_def pe_page_size_def bit_put_flag bit_put_address

lemma zero_entry [simp]: "\<not> pe_present 0"
  by (simp add: pe_present_def)

section \<open>Words of a table\<close>

lemma pfn_eq_blk: "pfn x = pfn p \<longleftrightarrow> x \<in> blk p 12"
  by (simp add: pfn_def blk_def PAGE_SIZE_LOG2_def)

lemma table_word: "aligned t 12 \<Longrightarrow> unat i < 512 \<Longrightarrow> unat (t + 8 * i) = unat t + 8 * unat i \<and> t + 8 * i \<in> blk t 12"
proof -
  assume t: "aligned t 12" and i: "unat i < 512"
  have d: "2 ^ 12 dvd unat t" using t aligned_dvd [of 12 t] by simp
  have "unat t < 2 ^ 64" by (rule unat64_less)
  then have lim: "unat t + 4096 \<le> 2 ^ 64" using d by (auto elim!: dvdE)
  have u8: "unat (8 * i) = 8 * unat i" using i by (simp add: unat_word_ariths)
  then have u: "unat (t + 8 * i) = unat t + 8 * unat i"
    using i lim by (simp add: unat_word_ariths)
  show ?thesis using u i blk_interval [OF _ t, of "t + 8 * i"] by simp
qed

lemma table_word_in: "aligned t 12 \<Longrightarrow> unat i < 512 \<Longrightarrow> t + 8 * i \<in> blk t 12"
  by (simp add: table_word)

lemma table_word_inj: "aligned t 12 \<Longrightarrow> unat i < 512 \<Longrightarrow> unat j < 512 \<Longrightarrow> t + 8 * i = t + 8 * j \<longleftrightarrow> i = j"
  using table_word [of t i] table_word [of t j] by (auto simp: word_unat_eq_iff)

abbreviation idxs :: "nat \<Rightarrow> u64 set" where "idxs n \<equiv> set (user_idxs n)"

lemma idxs_iff: "i \<in> idxs n \<longleftrightarrow> unat i < (if n = 3 then 256 else 512)"
proof -
  have "unat (of_nat k :: u64) = k" if "k < 512" for k
    using that by (simp add: unat_of_nat)
  moreover have "of_nat (unat i) = i" by simp
  ultimately show ?thesis unfolding user_idxs_def
    by (auto simp: image_iff intro!: bexI [of _ "unat i"])
qed

lemma idxs_512 [dest]: "i \<in> idxs n \<Longrightarrow> unat i < 512"
  by (auto simp: idxs_iff split: if_splits)

lemma distinct_user_idxs [simp]: "distinct (user_idxs n)"
proof -
  have "inj_on (of_nat :: nat \<Rightarrow> u64) {0..<m}" if "m \<le> 512" for m
  proof (rule inj_onI)
    fix a b :: nat
    assume ab: "a \<in> {0..<m}" "b \<in> {0..<m}" and eq: "(of_nat a :: u64) = of_nat b"
    from ab have u: "unat (of_nat a :: u64) = a" "unat (of_nat b :: u64) = b" using that by (simp_all add: unat_of_nat)
    have "unat (of_nat a :: u64) = unat (of_nat b :: u64)" by (simp only: eq)
    then show "a = b" unfolding u .
  qed
  then show ?thesis unfolding user_idxs_def by (simp add: distinct_map)
qed

section \<open>The tree below an entry\<close>

fun sub :: "kbuddy \<Rightarrow> nat \<Rightarrow> u64 \<Rightarrow> u64 set" where
  "sub s 0 e = (if pe_present e \<and> \<not> pe_pcd e then {frame_of e} else {})"
| "sub s (Suc n) e =
     (if pe_present e then insert (frame_of e) (\<Union>i\<in>idxs n. sub s n (ent s (frame_of e) i)) else {})"

fun entry_ok :: "kbuddy \<Rightarrow> nat \<Rightarrow> u64 \<Rightarrow> bool" where
  "entry_ok s 0 e = True"
| "entry_ok s (Suc n) e =
     ((Suc n \<noteq> 3 \<longrightarrow> \<not> pe_page_size e) \<and> (pe_present e \<longrightarrow>
        (\<forall>i\<in>idxs n. entry_ok s n (ent s (frame_of e) i) \<and> frame_of e \<notin> sub s n (ent s (frame_of e) i)) \<and>
        (\<forall>i\<in>idxs n. \<forall>j\<in>idxs n. i \<noteq> j \<longrightarrow> sub s n (ent s (frame_of e) i) \<inter> sub s n (ent s (frame_of e) j) = {})))"

definition table_ok :: "kbuddy \<Rightarrow> nat \<Rightarrow> u64 \<Rightarrow> bool" where
  "table_ok s n t \<longleftrightarrow>
     (\<forall>i\<in>idxs n. entry_ok s n (ent s t i) \<and> t \<notin> sub s n (ent s t i)) \<and>
     (\<forall>i\<in>idxs n. \<forall>j\<in>idxs n. i \<noteq> j \<longrightarrow> sub s n (ent s t i) \<inter> sub s n (ent s t j) = {})"

definition owned :: "kbuddy \<Rightarrow> nat \<Rightarrow> u64 \<Rightarrow> u64 set" where
  "owned s n t = (\<Union>i\<in>idxs n. sub s n (ent s t i))"

lemma sub_Suc: "sub s (Suc n) e = (if pe_present e then insert (frame_of e) (owned s n (frame_of e)) else {})"
  by (simp add: owned_def)

lemma entry_ok_Suc:
  "entry_ok s (Suc n) e \<longleftrightarrow> (Suc n \<noteq> 3 \<longrightarrow> \<not> pe_page_size e) \<and> (pe_present e \<longrightarrow> table_ok s n (frame_of e))"
  by (simp add: table_ok_def)

declare sub.simps(2) [simp del] entry_ok.simps(2) [simp del]

lemma sub_absent [simp]: "\<not> pe_present e \<Longrightarrow> sub s n e = {}"
  by (cases n) (simp_all add: sub_Suc)

lemma entry_ok_zero [simp]: "entry_ok s n 0"
  by (cases n) (simp_all add: entry_ok_Suc pe_page_size_def)

lemma table_okD:
  assumes "table_ok s n t" and "i \<in> idxs n"
  shows "entry_ok s n (ent s t i)" and "t \<notin> sub s n (ent s t i)"
    and "j \<in> idxs n \<Longrightarrow> i \<noteq> j \<Longrightarrow> sub s n (ent s t i) \<inter> sub s n (ent s t j) = {}"
  using assms by (auto simp: table_ok_def)

lemma sub_in_owned: "i \<in> idxs n \<Longrightarrow> sub s n (ent s t i) \<subseteq> owned s n t"
  by (auto simp: owned_def)

lemma sub_aligned: "p \<in> sub s n e \<Longrightarrow> aligned p 12"
proof (induction n arbitrary: e)
  case (Suc n)
  then show ?case by (auto simp: sub_Suc owned_def split: if_splits)
qed (auto split: if_splits)

text \<open>What is below an entry depends on the memory of the pages below it only.\<close>

lemma ent_cong: "same_on P (slot s) (slot s') \<Longrightarrow> t \<in> P \<Longrightarrow> aligned t 12 \<Longrightarrow> unat i < 512 \<Longrightarrow> ent s' t i = ent s t i"
  unfolding ent_def by (rule same_onD [OF _ _ table_word_in])

lemma sub_cong: "same_on (sub s n e) (slot s) (slot s') \<Longrightarrow> sub s' n e = sub s n e \<and> entry_ok s' n e = entry_ok s n e"
proof (induction n arbitrary: e)
  case (Suc n)
  show ?case
  proof (cases "pe_present e")
    case True
    let ?t = "frame_of e"
    have sub: "sub s (Suc n) e = insert ?t (owned s n ?t)" using True by (simp add: sub_Suc)
    have e: "ent s' ?t i = ent s ?t i" if "i \<in> idxs n" for i
      by (rule ent_cong [OF Suc.prems]) (use that sub in auto)
    have "sub s' n (ent s ?t i) = sub s n (ent s ?t i) \<and> entry_ok s' n (ent s ?t i) = entry_ok s n (ent s ?t i)"
      if "i \<in> idxs n" for i
      by (rule Suc.IH, rule same_on_mono [OF Suc.prems]) (use that sub sub_in_owned in blast)
    then show ?thesis using True e
      by (simp add: sub_Suc entry_ok_Suc owned_def table_ok_def)
  qed (simp add: entry_ok_Suc)
qed simp

lemma owned_cong:
  assumes "same_on (insert t (owned s n t)) (slot s) (slot s')" and "aligned t 12"
  shows "owned s' n t = owned s n t" and "table_ok s' n t = table_ok s n t"
proof -
  have e: "ent s' t i = ent s t i" if "i \<in> idxs n" for i
    by (rule ent_cong [OF assms(1)]) (use that assms(2) in auto)
  have "sub s' n (ent s t i) = sub s n (ent s t i) \<and> entry_ok s' n (ent s t i) = entry_ok s n (ent s t i)"
    if "i \<in> idxs n" for i
    by (rule sub_cong, rule same_on_mono [OF assms(1)]) (use that sub_in_owned in blast)
  then show "owned s' n t = owned s n t" "table_ok s' n t = table_ok s n t"
    using e by (simp_all add: owned_def table_ok_def)
qed

text \<open>The tables among the pages of the tree.\<close>

fun tabs :: "kbuddy \<Rightarrow> nat \<Rightarrow> u64 \<Rightarrow> u64 set" where
  "tabs s 0 e = {}"
| "tabs s (Suc n) e =
     (if pe_present e then insert (frame_of e) (\<Union>i\<in>idxs n. tabs s n (ent s (frame_of e) i)) else {})"

definition tables :: "kbuddy \<Rightarrow> nat \<Rightarrow> u64 \<Rightarrow> u64 set" where
  "tables s n t = insert t (\<Union>i\<in>idxs n. tabs s n (ent s t i))"

lemma tabs_Suc: "tabs s (Suc n) e = (if pe_present e then tables s n (frame_of e) else {})"
  by (simp add: tables_def)

declare tabs.simps(2) [simp del]

lemma tabs_absent [simp]: "\<not> pe_present e \<Longrightarrow> tabs s n e = {}"
  by (cases n) (simp_all add: tabs_Suc)

lemma tabs_sub: "tabs s n e \<subseteq> sub s n e"
proof (induction n arbitrary: e)
  case (Suc n)
  have "(\<Union>i\<in>idxs n. tabs s n (ent s t i)) \<subseteq> owned s n t" for t
    unfolding owned_def by (rule UN_mono [OF subset_refl Suc.IH])
  then show ?case unfolding tabs_Suc sub_Suc tables_def by auto
qed simp

lemma tables_owned: "tables s n t \<subseteq> insert t (owned s n t)"
  unfolding tables_def owned_def by (rule insert_mono [OF UN_mono [OF subset_refl tabs_sub]])

lemma tabs_in_tables: "i \<in> idxs n \<Longrightarrow> tabs s n (ent s t i) \<subseteq> tables s n t"
  by (auto simp: tables_def)

lemma tabs_cong: "same_on (sub s n e) (slot s) (slot s') \<Longrightarrow> tabs s' n e = tabs s n e"
proof (induction n arbitrary: e)
  case (Suc n)
  show ?case
  proof (cases "pe_present e")
    case True
    let ?t = "frame_of e"
    have sub: "sub s (Suc n) e = insert ?t (owned s n ?t)" using True by (simp add: sub_Suc)
    have e: "ent s' ?t i = ent s ?t i" if "i \<in> idxs n" for i
      by (rule ent_cong [OF Suc.prems]) (use that sub in auto)
    have "tabs s' n (ent s ?t i) = tabs s n (ent s ?t i)" if "i \<in> idxs n" for i
      by (rule Suc.IH, rule same_on_mono [OF Suc.prems]) (use that sub sub_in_owned in blast)
    then show ?thesis using True e by (simp add: tabs_Suc tables_def)
  qed simp
qed simp

section \<open>Translation\<close>

definition vidx :: "nat \<Rightarrow> u64 \<Rightarrow> u64" where
  "vidx n v = drop_bit (12 + 9 * n) v AND 0x1FF"

lemma vidx_IDX: "vidx 3 v = PML4_IDX v" "vidx (Suc (Suc 0)) v = PDPT_IDX v" "vidx (Suc 0) v = PD_IDX v" "vidx 0 v = PT_IDX v"
  by (simp_all add: vidx_def PML4_IDX_def PDPT_IDX_def PD_IDX_def PT_IDX_def)

lemma vidx_less: "unat (vidx n v) < 512"
proof -
  have "vidx n v \<le> 0x1FF" unfolding vidx_def by (rule word_and_le1)
  then have "unat (vidx n v) \<le> unat (0x1FF :: u64)" by (simp only: word_le_nat_alt)
  then show ?thesis by simp
qed

fun trans :: "kbuddy \<Rightarrow> nat \<Rightarrow> u64 \<Rightarrow> u64 \<Rightarrow> u64 option" where
  "trans s 0 e v = (if pe_present e then Some e else None)"
| "trans s (Suc n) e v = (if pe_present e then trans s n (ent s (frame_of e) (vidx n v)) v else None)"

lemma trans_absent [simp]: "\<not> pe_present e \<Longrightarrow> trans s n e v = None"
  by (cases n) simp_all

text \<open>An address of the user half.\<close>

definition user_va :: "u64 \<Rightarrow> bool" where
  "user_va v \<longleftrightarrow> unat (PML4_IDX v) < 256"

lemma vidx_idxs: "n \<noteq> 3 \<or> user_va v \<Longrightarrow> vidx n v \<in> idxs n"
  using vidx_less [of n v] by (auto simp: idxs_iff user_va_def vidx_IDX [symmetric])

lemma trans_cong:
  "same_on (sub s n e) (slot s) (slot s') \<Longrightarrow> n \<le> 3 \<Longrightarrow> trans s' n e v = trans s n e v"
proof (induction n arbitrary: e)
  case (Suc n)
  show ?case
  proof (cases "pe_present e")
    case True
    let ?t = "frame_of e" and ?i = "vidx n v"
    have i: "?i \<in> idxs n" using Suc.prems(2) by (intro vidx_idxs) simp
    have sub: "sub s (Suc n) e = insert ?t (owned s n ?t)" using True by (simp add: sub_Suc)
    have "ent s' ?t ?i = ent s ?t ?i"
      by (rule ent_cong [OF Suc.prems(1)]) (use i sub in auto)
    moreover have "trans s' n (ent s ?t ?i) v = trans s n (ent s ?t ?i) v"
      by (rule Suc.IH, rule same_on_mono [OF Suc.prems(1)]) (use i sub sub_in_owned [OF i, of s ?t] Suc.prems(2) in auto)
    ultimately show ?thesis using True by simp
  qed simp
qed simp

lemma lookup_trans:
  "lookup_user_in_pml4 root v s =
     (case trans s 3 (ent s root (PML4_IDX v)) v of None \<Rightarrow> Inl (- ENOENT) | Some e \<Rightarrow> Inr (frame_of e))"
  by (simp add: lookup_user_in_pml4_def Let_def numeral_3_eq_3 vidx_IDX)

section \<open>Access rights\<close>

text \<open>
  The processor takes a right from all the entries it reads on the way to a page: \<open>allows P\<close> says
  that all of them, from a level down to the mapping entry, are present and satisfy \<open>P\<close>.
\<close>

fun allows :: "(u64 \<Rightarrow> bool) \<Rightarrow> kbuddy \<Rightarrow> nat \<Rightarrow> u64 \<Rightarrow> u64 \<Rightarrow> bool" where
  "allows P s 0 e v \<longleftrightarrow> pe_present e \<and> P e"
| "allows P s (Suc n) e v \<longleftrightarrow> pe_present e \<and> P e \<and> allows P s n (ent s (frame_of e) (vidx n v)) v"

definition user_access :: "kbuddy \<Rightarrow> u64 \<Rightarrow> u64 \<Rightarrow> bool" where
  "user_access s root v \<longleftrightarrow> allows (\<lambda>e. bit e 2) s 3 (ent s root (PML4_IDX v)) v"

definition write_access :: "kbuddy \<Rightarrow> u64 \<Rightarrow> u64 \<Rightarrow> bool" where
  "write_access s root v \<longleftrightarrow> allows (\<lambda>e. bit e 1) s 3 (ent s root (PML4_IDX v)) v"

definition exec_access :: "kbuddy \<Rightarrow> u64 \<Rightarrow> u64 \<Rightarrow> bool" where
  "exec_access s root v \<longleftrightarrow> allows (\<lambda>e. \<not> bit e 63) s 3 (ent s root (PML4_IDX v)) v"

lemmas access_defs = user_access_def write_access_def exec_access_def

lemma allows_trans: "allows P s n e v \<Longrightarrow> trans s n e v \<noteq> None"
  by (induction n arbitrary: e) auto

lemma allows_cong:
  "same_on (sub s n e) (slot s) (slot s') \<Longrightarrow> n \<le> 3 \<Longrightarrow> allows P s' n e v = allows P s n e v"
proof (induction n arbitrary: e)
  case (Suc n)
  show ?case
  proof (cases "pe_present e")
    case True
    let ?t = "frame_of e" and ?i = "vidx n v"
    have i: "?i \<in> idxs n" using Suc.prems(2) by (intro vidx_idxs) simp
    have sub: "sub s (Suc n) e = insert ?t (owned s n ?t)" using True by (simp add: sub_Suc)
    have "ent s' ?t ?i = ent s ?t ?i"
      by (rule ent_cong [OF Suc.prems(1)]) (use i sub in auto)
    moreover have "allows P s' n (ent s ?t ?i) v = allows P s n (ent s ?t ?i) v"
      by (rule Suc.IH, rule same_on_mono [OF Suc.prems(1)]) (use i sub sub_in_owned [OF i, of s ?t] Suc.prems(2) in auto)
    ultimately show ?thesis using True by simp
  qed simp
qed simp

text \<open>
  \<open>passable\<close>: no table entry on the way forbids execution, and those in use allow writing, so that
  the mapping entry decides about both.
\<close>

fun passable :: "kbuddy \<Rightarrow> nat \<Rightarrow> u64 \<Rightarrow> u64 \<Rightarrow> bool" where
  "passable s 0 e v \<longleftrightarrow> True"
| "passable s (Suc n) e v \<longleftrightarrow> \<not> bit e 63 \<and> (pe_present e \<longrightarrow> bit e 1 \<and> passable s n (ent s (frame_of e) (vidx n v)) v)"

definition open_way :: "kbuddy \<Rightarrow> u64 \<Rightarrow> u64 \<Rightarrow> bool" where
  "open_way s root v \<longleftrightarrow> passable s 3 (ent s root (PML4_IDX v)) v"

lemma passable_decides:
  assumes "passable s n e v" and "trans s n e v = Some l"
  shows "allows (\<lambda>e. bit e 1) s n e v \<longleftrightarrow> bit l 1" and "allows (\<lambda>e. \<not> bit e 63) s n e v \<longleftrightarrow> \<not> bit l 63"
  using assms by (induction n arbitrary: e) (auto split: if_splits)

text \<open>
  What a change of the address space does to the entries on the way to an address, above the
  mapping entry: those in use keep everything but the user bit, which may be set; an unused one
  stays, or becomes the way to new tables, writable and no less executable.
\<close>

fun way :: "kbuddy \<Rightarrow> kbuddy \<Rightarrow> nat \<Rightarrow> u64 \<Rightarrow> u64 \<Rightarrow> u64 \<Rightarrow> bool" where
  "way s s' 0 e e' v \<longleftrightarrow> True"
| "way s s' (Suc n) e e' v \<longleftrightarrow>
     (if pe_present e
      then (e' = e \<or> e' = put_flag 2 True e) \<and> way s s' n (ent s (frame_of e) (vidx n v)) (ent s' (frame_of e) (vidx n v)) v
      else e' = e \<or> pe_present e' \<and> bit e' 63 = bit e 63 \<and> bit e' 1 \<and> passable s' n (ent s' (frame_of e') (vidx n v)) v)"

definition ways :: "kbuddy \<Rightarrow> kbuddy \<Rightarrow> u64 \<Rightarrow> bool" where
  "ways s s' root \<longleftrightarrow> (\<forall>w. user_va w \<longrightarrow> way s s' 3 (ent s root (PML4_IDX w)) (ent s' root (PML4_IDX w)) w)"

lemma user_bit_set:
  "pe_present (put_flag 2 True e) = pe_present e" "frame_of (put_flag 2 True e) = frame_of e"
  "bit (put_flag 2 True e) (Suc 0) = bit e (Suc 0)" "bit (put_flag 2 True e) 63 = bit e 63" "bit (put_flag 2 True e) 2"
  "put_flag 2 True (put_flag 2 True e) = put_flag 2 True e"
  by (simp_all add: entry_bits) (rule word64_bits_eqI, simp add: bit_put_flag)

lemma way_passable: "way s s' n e e' v \<Longrightarrow> passable s n e v \<Longrightarrow> passable s' n e' v"
  by (induction n arbitrary: e e') (auto simp: user_bit_set split: if_splits)

lemma way_trans: "way s s1 n e e1 v \<Longrightarrow> way s1 s2 n e1 e2 v \<Longrightarrow> way s s2 n e e2 v"
proof (induction n arbitrary: e e1 e2)
  case (Suc n)
  show ?case
  proof (cases "pe_present e")
    case True
    then have "pe_present e1" "frame_of e1 = frame_of e" using Suc.prems(1) by (auto simp: user_bit_set)
    then show ?thesis using Suc True by (auto simp: user_bit_set)
  next
    case False
    then consider "e1 = e" | "pe_present e1" "bit e1 63 = bit e 63" "bit e1 1" "passable s1 n (ent s1 (frame_of e1) (vidx n v)) v"
      using Suc.prems(1) by auto
    then show ?thesis
    proof cases
      case 1
      then show ?thesis using Suc.prems(2) False by simp
    next
      case 2
      then show ?thesis using Suc.prems(2) False way_passable [OF _ 2(4)] by (auto simp: user_bit_set)
    qed
  qed
qed simp

lemma way_same: "same_on (sub s n e) (slot s) (slot s') \<Longrightarrow> n \<le> 3 \<Longrightarrow> way s s' n e e v"
proof (induction n arbitrary: e)
  case (Suc n)
  show ?case
  proof (cases "pe_present e")
    case True
    let ?t = "frame_of e" and ?i = "vidx n v"
    have i: "?i \<in> idxs n" using Suc.prems(2) by (intro vidx_idxs) simp
    have sub: "sub s (Suc n) e = insert ?t (owned s n ?t)" using True by (simp add: sub_Suc)
    have "ent s' ?t ?i = ent s ?t ?i"
      by (rule ent_cong [OF Suc.prems(1)]) (use i sub in auto)
    moreover have "way s s' n (ent s ?t ?i) (ent s ?t ?i) v"
      by (rule Suc.IH, rule same_on_mono [OF Suc.prems(1)]) (use i sub sub_in_owned [OF i, of s ?t] Suc.prems(2) in auto)
    ultimately show ?thesis using True by simp
  qed simp
qed simp

text \<open>Below an entry of a cleared table everything is new.\<close>

lemma way_from_zero: "way s s' n 0 e' v \<Longrightarrow> passable s' n e' v"
  by (cases n) auto

lemma way_keeps:
  assumes "way s s' n e e' v" and "trans s n e v = Some l" and "trans s' n e' v = Some l"
    and P: "\<And>e. P (put_flag 2 True e) \<longleftrightarrow> P e"
  shows "allows P s' n e' v \<longleftrightarrow> allows P s n e v"
  using assms(1-3)
proof (induction n arbitrary: e e')
  case (Suc n)
  then have e: "pe_present e" "pe_present e'" "frame_of e' = frame_of e" "P e' = P e"
    using P by (auto simp: user_bit_set split: if_splits)
  then show ?case using Suc by auto
qed (auto split: if_splits)

lemma way_user:
  assumes "way s s' n e e' v" and "trans s n e v = Some l" and "trans s' n e' v = Some l" and "allows (\<lambda>e. bit e 2) s n e v"
  shows "allows (\<lambda>e. bit e 2) s' n e' v"
  using assms
proof (induction n arbitrary: e e')
  case (Suc n)
  then have e: "pe_present e" "pe_present e'" "frame_of e' = frame_of e" "bit e' 2"
    by (auto simp: user_bit_set split: if_splits)
  then show ?case using Suc by auto
qed (auto split: if_splits)

text \<open>The user bit is set all the way.\<close>

fun user_way :: "kbuddy \<Rightarrow> nat \<Rightarrow> u64 \<Rightarrow> u64 \<Rightarrow> bool" where
  "user_way s 0 e v \<longleftrightarrow> True"
| "user_way s (Suc n) e v \<longleftrightarrow> bit e 2 \<and> user_way s n (ent s (frame_of e) (vidx n v)) v"

lemma user_way_decides: "user_way s n e v \<Longrightarrow> trans s n e v = Some l \<Longrightarrow> bit l 2 \<Longrightarrow> allows (\<lambda>e. bit e 2) s n e v"
  by (induction n arbitrary: e) (auto split: if_splits)

lemma allows_leaf: "allows P s n e v \<Longrightarrow> trans s n e v = Some l \<Longrightarrow> P l"
  by (induction n arbitrary: e) (auto split: if_splits)

section \<open>Address spaces\<close>

definition aspace :: "kbuddy \<Rightarrow> (u64 \<times> nat) set \<Rightarrow> u64 \<Rightarrow> bool" where
  "aspace s U root \<longleftrightarrow> root \<in> pages U \<and> owned s 3 root \<subseteq> pages U \<and> table_ok s 3 root"

text \<open>Memory operations of the page-table code, as writes into one page.\<close>

lemma set_ent_slot: "slot (set_ent t i e s) = (slot s)(t + 8 * i := e)"
  by (simp add: set_ent_def)

lemma set_ent_store: "set_ent t i e s = s\<lparr>slot := (slot s)(t + 8 * i := e)\<rparr>"
  by (simp add: set_ent_def)

lemma set_ent_live:
  assumes "kpool_live st en s U" and "t \<in> pages U" and "unat i < 512"
  shows "kpool_live st en (set_ent t i e s) U"
  unfolding set_ent_def by (rule kpool.store_page(1) [OF assms(1,2)])
    (use table_word_in [OF kpool.page_ok [OF assms(1,2)] assms(3)] in auto)

lemma ent_set_ent:
  assumes "aligned t 12" and "unat i < 512" and "unat j < 512"
  shows "ent (set_ent t i e s) t j = (if j = i then e else ent s t j)"
  using table_word_inj [OF assms(1,3,2)] by (simp add: ent_def set_ent_def)

lemma set_ent_same:
  assumes "t \<notin> P" and "aligned t 12" and "unat i < 512" and "\<And>p. p \<in> P \<Longrightarrow> aligned p 12"
  shows "same_on P (slot s) (slot (set_ent t i e s))"
proof -
  have "t + 8 * i \<notin> blk p 12" if "p \<in> P" for p
    using page_disjoint [OF assms(2) assms(4) [OF that]] assms(1) that table_word_in [OF assms(2,3)] by blast
  then show ?thesis by (auto simp: same_on_def set_ent_def)
qed

lemma zero_page_live:
  assumes "kpool_live st en s U" and "p \<in> pages U"
  shows "kpool_live st en (zero_page p s) U"
  unfolding zero_page_def by (rule kpool.store_page(1) [OF assms]) (auto simp: pfn_eq_blk)

lemma zero_page_slot: "slot (zero_page p s) x = (if x \<in> blk p 12 then 0 else slot s x)"
  by (simp add: zero_page_def pfn_eq_blk)

lemma ent_zero_page [simp]: "aligned p 12 \<Longrightarrow> unat i < 512 \<Longrightarrow> ent (zero_page p s) p i = 0"
  by (simp add: ent_def zero_page_slot table_word_in)

lemma copy_page_live:
  assumes "kpool_live st en s U" and "p \<in> pages U"
  shows "kpool_live st en (copy_page p q s) U"
  unfolding copy_page_def by (rule kpool.store_page(1) [OF assms]) (auto simp: pfn_eq_blk)

lemma copy_page_slot: "slot (copy_page p q s) x = (if x \<in> blk p 12 then slot s (q + (x - p)) else slot s x)"
  by (simp add: copy_page_def pfn_eq_blk)

end
