(* ===== verification/Paging_Free.thy ===== *)
theory Paging_Free
  imports Paging_Inv
begin

text \<open>
  The release of an address space: the loops return, give back exactly the pages of the tree and
  change no other allocated memory.
\<close>

text \<open>The release of one page followed by clearing the entry that led to it.\<close>

lemma free_and_clear_ok:
  assumes l: "kpool_live st en s U" and p: "p \<in> pages U" and t: "t \<in> pages U" "t \<noteq> p" and i: "unat i < 512"
  shows "\<exists>s'. free_and_clear p t i s = Some s' \<and> kpool_live st en s' (without_pages U {p}) \<and>
    (\<forall>x\<in>covers (without_pages U {p}). x \<noteq> t + 8 * i \<longrightarrow> slot s' x = slot s x) \<and> \<not> pe_present (ent s' t i)"
proof -
  obtain s1 where s1: "kernel_free_buddy p s = Some s1" "kpool_live st en s1 (U - {(p, 12)})"
      "\<forall>x\<in>covers (U - {(p, 12)}). slot s1 x = slot s x"
    using kpool.release_ok [OF l, of p] p by auto
  have "kpool_live st en (set_ent t i 0 s1) (U - {(p, 12)})" by (rule set_ent_live [OF s1(2) _ i]) (use t in auto)
  then show ?thesis using s1 by (simp add: free_and_clear_def set_ent_slot ent_def)
qed

text \<open>What the body of the loop does to entry \<open>i\<close> of table \<open>t\<close>, for a list of entries.\<close>

definition frees :: "u64 \<Rightarrow> u64 \<Rightarrow> nat \<Rightarrow> u64 \<Rightarrow> u64 list \<Rightarrow> bool" where
  "frees st en n t is \<longleftrightarrow> (\<forall>s U.
     kpool_live st en s U \<longrightarrow> t \<in> pages U \<longrightarrow>
     (\<forall>i\<in>set is. entry_ok s n (ent s t i) \<and> t \<notin> sub s n (ent s t i) \<and> sub s n (ent s t i) \<subseteq> pages U) \<longrightarrow>
     (\<forall>i\<in>set is. \<forall>j\<in>set is. i \<noteq> j \<longrightarrow> sub s n (ent s t i) \<inter> sub s n (ent s t j) = {}) \<longrightarrow>
     (\<exists>s'. each (free_entry n t) is s = Some s' \<and>
        kpool_live st en s' (without_pages U (\<Union>i\<in>set is. sub s n (ent s t i))) \<and>
        (\<forall>x\<in>covers (without_pages U (\<Union>i\<in>set is. sub s n (ent s t i))).
           x \<notin> (\<lambda>i. t + 8 * i) ` set is \<longrightarrow> slot s' x = slot s x) \<and>
        (\<forall>i\<in>set is. \<not> pe_present (ent s' t i))))"

lemma freesD:
  assumes "frees st en n t is" and "kpool_live st en s U" and "t \<in> pages U"
    and "\<And>i. i \<in> set is \<Longrightarrow> entry_ok s n (ent s t i) \<and> t \<notin> sub s n (ent s t i) \<and> sub s n (ent s t i) \<subseteq> pages U"
    and "\<And>i j. i \<in> set is \<Longrightarrow> j \<in> set is \<Longrightarrow> i \<noteq> j \<Longrightarrow> sub s n (ent s t i) \<inter> sub s n (ent s t j) = {}"
  obtains s' where "each (free_entry n t) is s = Some s'"
    "kpool_live st en s' (without_pages U (\<Union>i\<in>set is. sub s n (ent s t i)))"
    "\<And>x. x \<in> covers (without_pages U (\<Union>i\<in>set is. sub s n (ent s t i))) \<Longrightarrow>
       x \<notin> (\<lambda>i. t + 8 * i) ` set is \<Longrightarrow> slot s' x = slot s x"
    "\<And>i. i \<in> set is \<Longrightarrow> \<not> pe_present (ent s' t i)"
proof -
  have "\<exists>s'. each (free_entry n t) is s = Some s' \<and>
      kpool_live st en s' (without_pages U (\<Union>i\<in>set is. sub s n (ent s t i))) \<and>
      (\<forall>x\<in>covers (without_pages U (\<Union>i\<in>set is. sub s n (ent s t i))).
         x \<notin> (\<lambda>i. t + 8 * i) ` set is \<longrightarrow> slot s' x = slot s x) \<and>
      (\<forall>i\<in>set is. \<not> pe_present (ent s' t i))"
    using assms(1) [unfolded frees_def, rule_format, OF assms(2,3)] assms(4,5) by blast
  then show thesis using that by blast
qed

text \<open>
  Pages that stay allocated and do not contain one of the cleared entries keep their memory.
\<close>

lemma same_on_frame:
  assumes l: "kpool_live st en s U" and t: "t \<in> pages U" "t \<notin> P" and P: "P \<subseteq> pages V" "P \<subseteq> pages U"
    and i: "\<And>i. i \<in> I \<Longrightarrow> unat i < 512"
    and same: "\<And>x. x \<in> covers V \<Longrightarrow> x \<notin> (\<lambda>i. t + 8 * i) ` I \<Longrightarrow> m x = slot s x"
  shows "same_on P (slot s) m"
  unfolding same_on_def
proof (intro ballI)
  fix p x assume p: "p \<in> P" "x \<in> blk p 12"
  then have "x \<in> covers V" using P(1) in_covers [of p 12 V x] by blast
  moreover have "x \<notin> blk t 12" using kpool.pages_apart [OF l t(1), of p] P(2) p t(2) by blast
  then have "x \<notin> (\<lambda>i. t + 8 * i) ` I" using table_word_in [OF kpool.page_ok [OF l t(1)] i] by blast
  ultimately show "m x = slot s x" by (rule same)
qed

text \<open>A table none of whose entries is touched by the loop over other entries.\<close>

lemma frees_loop:
  assumes one: "\<And>i. i \<in> idxs n \<Longrightarrow> frees st en n t [i]"
  shows "distinct is \<Longrightarrow> set is \<subseteq> idxs n \<Longrightarrow> frees st en n t is"
proof (induction "is")
  case Nil
  show ?case by (simp add: frees_def)
next
  case (Cons i "is")
  have i: "i \<in> idxs n" and is_sub: "set is \<subseteq> idxs n" and i_new: "i \<notin> set is" using Cons.prems by auto
  have IH: "frees st en n t is" using Cons by simp
  show ?case
    unfolding frees_def
  proof (intro allI impI)
    fix s U
    let ?S = "\<lambda>i. sub s n (ent s t i)"
    assume l: "kpool_live st en s U" and t: "t \<in> pages U"
      and ok: "\<forall>i\<in>set (i # is). entry_ok s n (ent s t i) \<and> t \<notin> ?S i \<and> ?S i \<subseteq> pages U"
      and dis: "\<forall>k\<in>set (i # is). \<forall>j\<in>set (i # is). k \<noteq> j \<longrightarrow> ?S k \<inter> ?S j = {}"
    let ?U1 = "without_pages U (?S i)"
    have at: "aligned t 12" by (rule kpool.page_ok [OF l t])
    obtain s1 where s1: "each (free_entry n t) [i] s = Some s1" "kpool_live st en s1 ?U1"
        "\<And>x. x \<in> covers ?U1 \<Longrightarrow> x \<noteq> t + 8 * i \<Longrightarrow> slot s1 x = slot s x" "\<not> pe_present (ent s1 t i)"
    proof (rule freesD [OF one [OF i] l t])
      fix s' assume *: "each (free_entry n t) [i] s = Some s'"
        "kpool_live st en s' (without_pages U (\<Union>i\<in>set [i]. ?S i))"
        "\<And>x. x \<in> covers (without_pages U (\<Union>i\<in>set [i]. ?S i)) \<Longrightarrow>
           x \<notin> (\<lambda>i. t + 8 * i) ` set [i] \<Longrightarrow> slot s' x = slot s x"
        "\<And>j. j \<in> set [i] \<Longrightarrow> \<not> pe_present (ent s' t j)"
      show thesis by (rule that [OF *(1)]) (use *(2,3,4) in simp_all)
    qed (use ok in auto)
    have t1: "t \<in> pages ?U1" using t ok by auto
    have ent1: "ent s1 t j = ent s t j" if "j \<in> set is" for j
    proof -
      have j: "unat j < 512" "unat i < 512" "j \<noteq> i" using that is_sub i i_new by auto
      have "t + 8 * j \<in> covers ?U1" using t1 in_covers [OF _ table_word_in [OF at j(1)]] by blast
      then show ?thesis using s1(3) table_word_inj [OF at j(1,2)] j(3) by (simp add: ent_def)
    qed
    have S1: "sub s1 n (ent s1 t j) = ?S j \<and> entry_ok s1 n (ent s1 t j) = entry_ok s n (ent s t j)" if "j \<in> set is" for j
      unfolding ent1 [OF that]
    proof (rule sub_cong, rule same_on_frame [OF l t, where V = ?U1 and I = "{i}"])
      show "t \<notin> ?S j" "?S j \<subseteq> pages U" using ok that by auto
      have "?S i \<inter> ?S j = {}" using dis that i_new by force
      then show "?S j \<subseteq> pages ?U1" using ok that by auto
      show "unat k < 512" if "k \<in> {i}" for k using that i by auto
      show "slot s1 x = slot s x" if "x \<in> covers ?U1" "x \<notin> (\<lambda>i. t + 8 * i) ` {i}" for x using s1(3) that by simp
    qed
    have un: "without_pages ?U1 (\<Union>j\<in>set is. sub s1 n (ent s1 t j)) = without_pages U (\<Union>j\<in>set (i # is). ?S j)"
      using S1 by auto
    obtain s2 where s2: "each (free_entry n t) is s1 = Some s2"
        "kpool_live st en s2 (without_pages U (\<Union>j\<in>set (i # is). ?S j))"
        "\<And>x. x \<in> covers (without_pages U (\<Union>j\<in>set (i # is). ?S j)) \<Longrightarrow> x \<notin> (\<lambda>i. t + 8 * i) ` set is \<Longrightarrow> slot s2 x = slot s1 x"
        "\<And>j. j \<in> set is \<Longrightarrow> \<not> pe_present (ent s2 t j)"
    proof (rule freesD [OF IH s1(2) t1, unfolded un])
      fix j assume j: "j \<in> set is"
      have "?S i \<inter> ?S j = {}" using dis j i_new by force
      then show "entry_ok s1 n (ent s1 t j) \<and> t \<notin> sub s1 n (ent s1 t j) \<and> sub s1 n (ent s1 t j) \<subseteq> pages ?U1"
        using S1 [OF j] ok j by auto
      show "sub s1 n (ent s1 t j) \<inter> sub s1 n (ent s1 t k) = {}" if "k \<in> set is" "j \<noteq> k" for k
        using S1 j that dis by simp
    qed (rule that)
    have "slot s2 x = slot s x" if "x \<in> covers (without_pages U (\<Union>j\<in>set (i # is). ?S j))" "x \<notin> (\<lambda>i. t + 8 * i) ` set (i # is)" for x
    proof -
      have "covers (without_pages U (\<Union>j\<in>set (i # is). ?S j)) \<subseteq> covers ?U1" unfolding covers_def by auto
      then show ?thesis using s2(3) [of x] s1(3) [of x] that by auto
    qed
    moreover have "\<not> pe_present (ent s2 t j)" if "j \<in> set (i # is)" for j
    proof (cases "j \<in> set is")
      case False
      then have j: "j = i" using that by simp
      have u: "unat i < 512" using i by auto
      have "t \<in> pages (without_pages U (\<Union>j\<in>set (i # is). ?S j))" using t ok by auto
      then have "t + 8 * i \<in> covers (without_pages U (\<Union>j\<in>set (i # is). ?S j))"
        using in_covers [OF _ table_word_in [OF at u]] by blast
      moreover have "t + 8 * i \<notin> (\<lambda>i. t + 8 * i) ` set is"
        using table_word_inj [OF at u] is_sub i_new by (auto dest!: subsetD)
      ultimately show ?thesis using s2(3) s1(4) by (simp add: ent_def j)
    qed (rule s2(4))
    ultimately show "\<exists>s'. each (free_entry n t) (i # is) s = Some s' \<and>
        kpool_live st en s' (without_pages U (\<Union>i\<in>set (i # is). ?S i)) \<and>
        (\<forall>x\<in>covers (without_pages U (\<Union>i\<in>set (i # is). ?S i)).
           x \<notin> (\<lambda>i. t + 8 * i) ` set (i # is) \<longrightarrow> slot s' x = slot s x) \<and>
        (\<forall>i\<in>set (i # is). \<not> pe_present (ent s' t i))"
      using s1(1) s2(1,2) by (intro exI [of _ s2] conjI) (auto simp: bind_eq_Some_conv)
  qed
qed

lemma frees_single:
  assumes "\<And>s U. kpool_live st en s U \<Longrightarrow> t \<in> pages U \<Longrightarrow> entry_ok s n (ent s t i) \<Longrightarrow>
      t \<notin> sub s n (ent s t i) \<Longrightarrow> sub s n (ent s t i) \<subseteq> pages U \<Longrightarrow>
      \<exists>s'. free_entry n t i s = Some s' \<and> kpool_live st en s' (without_pages U (sub s n (ent s t i))) \<and>
        (\<forall>x\<in>covers (without_pages U (sub s n (ent s t i))). x \<noteq> t + 8 * i \<longrightarrow> slot s' x = slot s x) \<and>
        \<not> pe_present (ent s' t i)"
  shows "frees st en n t [i]"
  unfolding frees_def
proof (intro allI impI)
  fix s U
  assume "kpool_live st en s U" "t \<in> pages U"
    "\<forall>i\<in>set [i]. entry_ok s n (ent s t i) \<and> t \<notin> sub s n (ent s t i) \<and> sub s n (ent s t i) \<subseteq> pages U"
  then obtain s' where "free_entry n t i s = Some s'" "kpool_live st en s' (without_pages U (sub s n (ent s t i)))"
      "\<forall>x\<in>covers (without_pages U (sub s n (ent s t i))). x \<noteq> t + 8 * i \<longrightarrow> slot s' x = slot s x"
      "\<not> pe_present (ent s' t i)"
    using assms [of s U] by auto
  then show "\<exists>s'. each (free_entry n t) [i] s = Some s' \<and>
      kpool_live st en s' (without_pages U (\<Union>i\<in>set [i]. sub s n (ent s t i))) \<and>
      (\<forall>x\<in>covers (without_pages U (\<Union>i\<in>set [i]. sub s n (ent s t i))).
         x \<notin> (\<lambda>i. t + 8 * i) ` set [i] \<longrightarrow> slot s' x = slot s x) \<and>
      (\<forall>i\<in>set [i]. \<not> pe_present (ent s' t i))"
    by simp
qed

lemma frees_entry: "i \<in> idxs n \<Longrightarrow> frees st en n t [i]"
proof (induction n arbitrary: t i)
  case 0
  then have i: "unat i < 512" by auto
  show ?case
  proof (rule frees_single)
    fix s U
    let ?e = "ent s t i"
    assume l: "kpool_live st en s U" and t: "t \<in> pages U" "t \<notin> sub s 0 ?e" "sub s 0 ?e \<subseteq> pages U"
    show "\<exists>s'. free_entry 0 t i s = Some s' \<and> kpool_live st en s' (without_pages U (sub s 0 ?e)) \<and>
      (\<forall>x\<in>covers (without_pages U (sub s 0 ?e)). x \<noteq> t + 8 * i \<longrightarrow> slot s' x = slot s x) \<and> \<not> pe_present (ent s' t i)"
      using free_and_clear_ok [OF l _ t(1) _ i, of "frame_of ?e"] t(2,3) set_ent_live [OF l t(1) i, of 0] l
      by (auto simp: Let_def set_ent_slot ent_set_ent [OF kpool.page_ok [OF l t(1)] i i])
  qed
next
  case (Suc n)
  then have i: "unat i < 512" by auto
  show ?case
  proof (rule frees_single)
    fix s U
    let ?e = "ent s t i"
    let ?c = "frame_of ?e"
    assume l: "kpool_live st en s U" and t: "t \<in> pages U" and ok: "entry_ok s (Suc n) ?e"
      and sub: "t \<notin> sub s (Suc n) ?e" "sub s (Suc n) ?e \<subseteq> pages U"
    show "\<exists>s'. free_entry (Suc n) t i s = Some s' \<and> kpool_live st en s' (without_pages U (sub s (Suc n) ?e)) \<and>
      (\<forall>x\<in>covers (without_pages U (sub s (Suc n) ?e)). x \<noteq> t + 8 * i \<longrightarrow> slot s' x = slot s x) \<and> \<not> pe_present (ent s' t i)"
    proof (cases "pe_present ?e")
      case True
      have S: "sub s (Suc n) ?e = insert ?c (owned s n ?c)" using True by (simp add: sub_Suc)
      have tab: "table_ok s n ?c" and small: "\<not> (Suc n \<noteq> 3 \<and> pe_page_size ?e)"
        using ok True by (auto simp: entry_ok_Suc)
      have c: "?c \<in> pages U" "?c \<notin> owned s n ?c" "t \<noteq> ?c" "t \<notin> owned s n ?c"
        using S sub table_okD(2) [OF tab] by (auto simp: owned_def)
      let ?U1 = "without_pages U (owned s n ?c)"
      obtain s1 where s1: "each (free_entry n ?c) (user_idxs n) s = Some s1" "kpool_live st en s1 ?U1"
          "\<And>x. x \<in> covers ?U1 \<Longrightarrow> x \<notin> (\<lambda>i. ?c + 8 * i) ` idxs n \<Longrightarrow> slot s1 x = slot s x"
      proof (rule freesD [OF frees_loop [OF Suc.IH distinct_user_idxs order_refl] l c(1), folded owned_def])
        fix j assume j: "j \<in> idxs n"
        show "entry_ok s n (ent s ?c j) \<and> ?c \<notin> sub s n (ent s ?c j) \<and> sub s n (ent s ?c j) \<subseteq> pages U"
          using table_okD [OF tab j] sub_in_owned [OF j, of s ?c] S sub(2) by blast
        show "sub s n (ent s ?c j) \<inter> sub s n (ent s ?c k) = {}" if "k \<in> idxs n" "j \<noteq> k" for k
          by (rule table_okD(3) [OF tab j that])
      qed (assumption, rule that)
      have "?c \<in> pages ?U1" "t \<in> pages ?U1" using c t by auto
      then obtain s2 where s2: "free_and_clear ?c t i s1 = Some s2" "kpool_live st en s2 (without_pages ?U1 {?c})"
          "\<forall>x\<in>covers (without_pages ?U1 {?c}). x \<noteq> t + 8 * i \<longrightarrow> slot s2 x = slot s1 x"
          "\<not> pe_present (ent s2 t i)"
        using free_and_clear_ok [OF s1(2) _ _ c(3) i] by blast
      have U2: "without_pages ?U1 {?c} = without_pages U (sub s (Suc n) ?e)" unfolding S by auto
      have "slot s2 x = slot s x" if x: "x \<in> covers (without_pages U (sub s (Suc n) ?e))" "x \<noteq> t + 8 * i" for x
      proof -
        obtain a k where a: "(a, k) \<in> without_pages ?U1 {?c}" "x \<in> blk a k"
          using x(1) unfolding U2 [symmetric] by (rule coversE)
        have c1: "x \<in> covers ?U1" using a by (auto intro: coversI)
        have "x \<notin> blk ?c 12"
          using kpool.block_apart [OF s1(2), of a k ?c 12] a c(1,2) by auto
        then have "x \<notin> (\<lambda>i. ?c + 8 * i) ` idxs n"
          using table_word_in [of ?c] idxs_512 by fastforce
        then show ?thesis using s1(3) [OF c1] s2(3) x U2 by simp
      qed
      moreover have "free_entry (Suc n) t i s = Some s2"
        using True small s1(1) s2(1) by (auto simp: Let_def)
      ultimately show ?thesis using s2(2,4) unfolding U2 by blast
    qed (use l in simp)
  qed
qed

lemma free_table_ok:
  assumes l: "kpool_live st en s U" and t: "t \<in> pages U" and ok: "table_ok s n t" "owned s n t \<subseteq> pages U"
  obtains s' where "each (free_entry n t) (user_idxs n) s = Some s'"
    "kpool_live st en s' (without_pages U (owned s n t))"
    "\<And>x. x \<in> covers (without_pages U (owned s n t)) \<Longrightarrow> x \<notin> blk t 12 \<Longrightarrow> slot s' x = slot s x"
    "\<And>i. i \<in> idxs n \<Longrightarrow> \<not> pe_present (ent s' t i)"
proof (rule freesD [OF frees_loop [OF frees_entry distinct_user_idxs order_refl] l t, folded owned_def])
  fix j assume j: "j \<in> idxs n"
  show "entry_ok s n (ent s t j) \<and> t \<notin> sub s n (ent s t j) \<and> sub s n (ent s t j) \<subseteq> pages U"
    using table_okD [OF ok(1) j] sub_in_owned [OF j, of s t] ok(2) by blast
  show "sub s n (ent s t j) \<inter> sub s n (ent s t k) = {}" if "k \<in> idxs n" "j \<noteq> k" for k
    by (rule table_okD(3) [OF ok(1) j that])
next
  fix s'
  assume *: "each (free_entry n t) (user_idxs n) s = Some s'" "kpool_live st en s' (without_pages U (owned s n t))"
    "\<And>x. x \<in> covers (without_pages U (owned s n t)) \<Longrightarrow> x \<notin> (\<lambda>i. t + 8 * i) ` idxs n \<Longrightarrow> slot s' x = slot s x"
    "\<And>i. i \<in> idxs n \<Longrightarrow> \<not> pe_present (ent s' t i)"
  have "x \<notin> (\<lambda>i. t + 8 * i) ` idxs n" if "x \<notin> blk t 12" for x
    using that table_word_in [OF kpool.page_ok [OF l t]] idxs_512 by fastforce
  then show thesis using that [OF *(1,2)] *(3,4) by blast
qed assumption

end
