(* ===== verification/Paging_Clone.thy ===== *)
theory Paging_Clone
  imports Paging_Free
begin

text \<open>
  The copy of an address space: the loops return, the parent is left as it was, and the child is
  a tree of fresh pages with the parent's entries and contents.
\<close>

section \<open>Copies\<close>

fun copy_of :: "kbuddy \<Rightarrow> nat \<Rightarrow> u64 \<Rightarrow> u64 \<Rightarrow> bool" where
  "copy_of s 0 e d =
     (if \<not> pe_present e then \<not> pe_present d
      else if pe_pcd e then d = e
      else d = put_address (pe_address d) e \<and>
        (\<forall>k. unat k < 4096 \<longrightarrow> slot s (frame_of d + k) = slot s (frame_of e + k)))"
| "copy_of s (Suc n) e d =
     (if \<not> pe_present e then \<not> pe_present d
      else d = put_address (pe_address d) e \<and>
        (\<forall>i\<in>idxs n. copy_of s n (ent s (frame_of e) i) (ent s (frame_of d) i)))"

lemma put_address_flags [simp]:
  "pe_present (put_address a e) = pe_present e" "pe_pcd (put_address a e) = pe_pcd e"
  "pe_page_size (put_address a e) = pe_page_size e"
  by (simp_all add: entry_bits)

lemma put_address_self [simp]: "put_address (pe_address (put_address a e)) e = put_address a e"
  by (rule word64_bits_eqI) (auto simp: bit_put_address pe_address_def bit_take_bit_iff bit_drop_bit_eq)

lemma page_word: "aligned p 12 \<Longrightarrow> unat k < 4096 \<Longrightarrow> p + k \<in> blk p 12"
proof -
  assume p: "aligned p 12" and k: "unat k < 4096"
  have d: "2 ^ 12 dvd unat p" using p aligned_dvd [of 12 p] by simp
  have "unat p < 2 ^ 64" by (rule unat64_less)
  then have "unat p + 4096 \<le> 2 ^ 64" using d by (auto elim!: dvdE)
  then have "unat (p + k) = unat p + unat k" using k by (simp add: unat_word_ariths)
  then show ?thesis using blk_interval [OF _ p, of "p + k"] k by simp
qed

lemma copy_of_cong:
  "copy_of s n e d \<Longrightarrow> same_on (sub s n e \<union> sub s n d) (slot s) (slot s') \<Longrightarrow> copy_of s' n e d"
proof (induction n arbitrary: e d)
  case 0
  show ?case
  proof (cases "pe_present e \<and> \<not> pe_pcd e")
    case True
    then have d: "d = put_address (pe_address d) e"
      and eq: "\<forall>k. unat k < 4096 \<longrightarrow> slot s (frame_of d + k) = slot s (frame_of e + k)" using 0(1) by auto
    have "pe_present d \<and> \<not> pe_pcd d" using True by (subst (1 2) d) simp
    then have "frame_of e \<in> sub s 0 e \<union> sub s 0 d" "frame_of d \<in> sub s 0 e \<union> sub s 0 d" using True by auto
    then have "slot s' (frame_of d + k) = slot s' (frame_of e + k)" if "unat k < 4096" for k
      using same_onD [OF 0(2) _ page_word [OF _ that]] eq that by simp
    then show ?thesis using True d by simp
  qed (use 0 in auto)
next
  case (Suc n)
  show ?case
  proof (cases "pe_present e")
    case True
    let ?p = "frame_of e" and ?c = "frame_of d"
    have d: "d = put_address (pe_address d) e"
      and cp: "\<forall>i\<in>idxs n. copy_of s n (ent s ?p i) (ent s ?c i)" using Suc.prems(1) True by auto
    have "pe_present d" using True by (subst d) simp
    then have S: "sub s (Suc n) e = insert ?p (owned s n ?p)" "sub s (Suc n) d = insert ?c (owned s n ?c)"
      using True by (simp_all add: sub_Suc)
    have "copy_of s' n (ent s' ?p i) (ent s' ?c i)" if i: "i \<in> idxs n" for i
    proof -
      have "ent s' ?p i = ent s ?p i" "ent s' ?c i = ent s ?c i"
        by (rule ent_cong [OF Suc.prems(2)]; use S i in auto)+
      moreover have "copy_of s' n (ent s ?p i) (ent s ?c i)"
        by (rule Suc.IH [OF cp [rule_format, OF i]], rule same_on_mono [OF Suc.prems(2)])
          (use S sub_in_owned [OF i, of s] in blast)
      ultimately show ?thesis by simp
    qed
    then show ?thesis using True d by simp
  qed (use Suc in auto)
qed

section \<open>The loops of the copy\<close>

definition fresh :: "u64 set \<Rightarrow> (u64 \<times> nat) set \<Rightarrow> bool" where
  "fresh N U \<longleftrightarrow> (\<forall>q\<in>N. blk q 12 \<inter> covers U = {})"

lemma fresh_pages: "fresh N U \<Longrightarrow> q \<in> N \<Longrightarrow> q \<notin> pages U"
  using in_covers [of q 12 U q] by (auto simp: fresh_def)

lemma fresh_empty [simp]: "fresh {} U"
  by (simp add: fresh_def)

lemma fresh_union: "fresh N U \<Longrightarrow> fresh M (with_pages U N) \<Longrightarrow> fresh (N \<union> M) U"
  by (auto simp: fresh_def covers_with_pages)

definition clone_ready :: "kbuddy \<Rightarrow> (u64 \<times> nat) set \<Rightarrow> nat \<Rightarrow> u64 \<Rightarrow> u64 \<Rightarrow> u64 \<Rightarrow> bool" where
  "clone_ready s U n p c i \<longleftrightarrow>
     entry_ok s n (ent s p i) \<and> p \<notin> sub s n (ent s p i) \<and> c \<notin> sub s n (ent s p i) \<and>
     sub s n (ent s p i) \<subseteq> pages U \<and> ent s c i = 0"

definition clone_result :: "u64 \<Rightarrow> u64 \<Rightarrow> kbuddy \<Rightarrow> (u64 \<times> nat) set \<Rightarrow> nat \<Rightarrow> u64 \<Rightarrow> u64 \<Rightarrow> u64 set \<Rightarrow>
    int \<Rightarrow> kbuddy \<Rightarrow> u64 set \<Rightarrow> bool" where
  "clone_result st en s U n p c I r s' N \<longleftrightarrow>
     kpool_live st en s' (with_pages U N) \<and> fresh N U \<and>
     (\<forall>x\<in>covers U. x \<notin> (\<lambda>i. c + 8 * i) ` I \<longrightarrow> slot s' x = slot s x) \<and>
     (r = 0 \<and> (\<forall>i\<in>I. copy_of s' n (ent s p i) (ent s' c i)) \<or> r = - ENOMEM) \<and>
     N = (\<Union>i\<in>I. sub s' n (ent s' c i)) \<and> (\<forall>i\<in>I. entry_ok s' n (ent s' c i)) \<and>
     (\<forall>i\<in>I. \<forall>j\<in>I. i \<noteq> j \<longrightarrow> sub s' n (ent s' c i) \<inter> sub s' n (ent s' c j) = {})"

definition clones :: "u64 \<Rightarrow> u64 \<Rightarrow> nat \<Rightarrow> u64 \<Rightarrow> u64 \<Rightarrow> u64 list \<Rightarrow> bool" where
  "clones st en n p c is \<longleftrightarrow> (\<forall>s U.
     kpool_live st en s U \<longrightarrow> p \<in> pages U \<longrightarrow> c \<in> pages U \<longrightarrow> p \<noteq> c \<longrightarrow>
     (\<forall>i\<in>set is. clone_ready s U n p c i) \<longrightarrow>
     (\<exists>r s' N. until_error (clone_entry n p c) is s = Some (r, s') \<and>
        clone_result st en s U n p c (set is) r s' N))"

lemma clonesD:
  assumes "clones st en n p c is" and "kpool_live st en s U" and "p \<in> pages U" and "c \<in> pages U" and "p \<noteq> c"
    and "\<And>i. i \<in> set is \<Longrightarrow> clone_ready s U n p c i"
  obtains r s' N where "until_error (clone_entry n p c) is s = Some (r, s')"
    "clone_result st en s U n p c (set is) r s' N"
  using assms unfolding clones_def by blast

lemma clone_resultD:
  assumes "clone_result st en s U n p c I r s' N"
  shows "kpool_live st en s' (with_pages U N)" and "fresh N U"
    and "x \<in> covers U \<Longrightarrow> x \<notin> (\<lambda>i. c + 8 * i) ` I \<Longrightarrow> slot s' x = slot s x"
    and "r = 0 \<or> r = - ENOMEM" and "r = 0 \<Longrightarrow> i \<in> I \<Longrightarrow> copy_of s' n (ent s p i) (ent s' c i)"
    and "N = (\<Union>i\<in>I. sub s' n (ent s' c i))" and "i \<in> I \<Longrightarrow> entry_ok s' n (ent s' c i)"
    and "i \<in> I \<Longrightarrow> j \<in> I \<Longrightarrow> i \<noteq> j \<Longrightarrow> sub s' n (ent s' c i) \<inter> sub s' n (ent s' c j) = {}"
  using assms unfolding clone_result_def by (auto simp: ENOMEM_def)

lemma clone_word:
  assumes r: "\<And>x. x \<in> covers U \<Longrightarrow> x \<notin> (\<lambda>i. c + 8 * i) ` I \<Longrightarrow> slot s' x = slot s x"
    and l: "kpool_live st en s U" and t: "t \<in> pages U" and c: "c \<in> pages U"
    and i: "unat i < 512" and I: "I \<subseteq> idxs n" and ne: "t = c \<Longrightarrow> i \<notin> I"
  shows "ent s' t i = ent s t i"
  unfolding ent_def
proof (rule r)
  have at: "aligned t 12" and ac: "aligned c 12" using kpool.page_ok [OF l] t c by auto
  show "t + 8 * i \<in> covers U" using t in_covers [OF _ table_word_in [OF at i]] by blast
  show "t + 8 * i \<notin> (\<lambda>i. c + 8 * i) ` I"
  proof
    assume "t + 8 * i \<in> (\<lambda>i. c + 8 * i) ` I"
    then obtain j where j: "j \<in> I" "t + 8 * i = c + 8 * j" by blast
    then have u: "unat j < 512" using I by auto
    have "t = c" using kpool.pages_apart [OF l t c] table_word_in [OF at i] table_word_in [OF ac u] j(2) by auto
    then show False using ne j table_word_inj [OF at i u] by auto
  qed
qed

lemma clones_loop:
  assumes one: "\<And>i. i \<in> idxs n \<Longrightarrow> clones st en n p c [i]"
  shows "distinct is \<Longrightarrow> set is \<subseteq> idxs n \<Longrightarrow> clones st en n p c is"
proof (induction "is")
  case Nil
  show ?case by (simp add: clones_def clone_result_def)
next
  case (Cons i "is")
  have i: "i \<in> idxs n" "{i} \<subseteq> idxs n" and is_sub: "set is \<subseteq> idxs n" and i_new: "i \<notin> set is" using Cons.prems by auto
  have IH: "clones st en n p c is" using Cons by simp
  show ?case
    unfolding clones_def
  proof (intro allI impI)
    fix s U
    assume l: "kpool_live st en s U" and p: "p \<in> pages U" and c: "c \<in> pages U" and pc: "p \<noteq> c"
      and ready: "\<forall>i\<in>set (i # is). clone_ready s U n p c i"
    obtain r s1 N1 where s1: "until_error (clone_entry n p c) [i] s = Some (r, s1)"
        and R1: "clone_result st en s U n p c {i} r s1 N1"
      by (rule clonesD [OF one [OF i(1)] l p c pc]) (use ready in auto)
    note R1D = clone_resultD [OF R1]
    let ?U1 = "with_pages U N1"
    have N1: "N1 = sub s1 n (ent s1 c i)" using R1D(6) by simp
    obtain a where e1: "clone_entry n p c i s = Some (a, s1)" "r = (if a < 0 then a else 0)"
      using s1 by (auto simp: bind_eq_Some_conv split: if_splits)
    have zero1: "ent s1 c j = 0" if "j \<in> set is" for j
      using clone_word [OF R1D(3) l c c, where i = j and n = n] that i is_sub i_new ready by (auto simp: clone_ready_def)
    have p1: "ent s1 p j = ent s p j" if "j \<in> idxs n" for j
      using clone_word [OF R1D(3) l p c, where i = j and n = n] that i pc by auto
    have same1: "same_on (sub s n (ent s p j)) (slot s) (slot s1)" if "j \<in> set (i # is)" for j
      using ready that i by (intro same_on_frame [OF l c, where V = U and I = "{i}"] R1D(3)) (auto simp: clone_ready_def)
    show "\<exists>r s' N. until_error (clone_entry n p c) (i # is) s = Some (r, s') \<and>
        clone_result st en s U n p c (set (i # is)) r s' N"
    proof (cases "r < 0")
      case True
      then have "r = - ENOMEM" using R1D(4) by auto
      then have "clone_result st en s U n p c (set (i # is)) r s1 N1"
        using R1D(1,2,3,7) zero1 N1 unfolding clone_result_def by auto
      then show ?thesis using e1 True by (auto split: if_splits)
    next
      case False
      then have r0: "r = 0" using R1D(4) by (auto simp: ENOMEM_def)
      have ready1: "clone_ready s1 ?U1 n p c j" if "j \<in> set is" for j
      proof -
        have pj: "ent s1 p j = ent s p j" by (rule p1) (use that is_sub in blast)
        have "clone_ready s U n p c j" using ready that by simp
        then show ?thesis
          using sub_cong [OF same1, of j] zero1 [of j] that unfolding clone_ready_def pj by auto
      qed
      obtain r2 s2 N2 where s2: "until_error (clone_entry n p c) is s1 = Some (r2, s2)"
          and R2: "clone_result st en s1 ?U1 n p c (set is) r2 s2 N2"
        by (rule clonesD [OF IH R1D(1) _ _ pc ready1]) (use p c in auto)
      note R2D = clone_resultD [OF R2]
      have c1: "c \<in> pages ?U1" and cN: "c \<notin> N1" using c fresh_pages [OF R1D(2)] by auto
      have ci: "ent s2 c i = ent s1 c i"
        by (rule clone_word [OF R2D(3) R1D(1) c1 c1 _ is_sub]) (use i i_new in auto)
      have same2: "same_on (sub s n (ent s p i) \<union> N1) (slot s1) (slot s2)"
        by (rule same_on_frame [OF R1D(1) c1, where V = ?U1 and I = "set is"])
          (use ready cN is_sub R2D(3) in \<open>auto simp: clone_ready_def\<close>)
      have Si: "sub s2 n (ent s2 c i) = N1" "entry_ok s2 n (ent s2 c i)"
        using sub_cong [of s1 n "ent s1 c i" s2] same_on_mono [OF same2, of N1] N1 R1D(7) [of i] ci by auto
      have cp: "copy_of s2 n (ent s p i) (ent s2 c i)"
      proof -
        have "sub s1 n (ent s p i) = sub s n (ent s p i)" using sub_cong [OF same1 [of i]] by simp
        then show ?thesis unfolding ci using copy_of_cong [OF R1D(5) [OF r0, of i]] same2 N1 by simp
      qed
      have U2: "with_pages ?U1 N2 = with_pages U (N1 \<union> N2)" by auto
      have dis: "N1 \<inter> N2 = {}" using fresh_pages [OF R2D(2)] by auto
      have j_dis: "N1 \<inter> sub s2 n (ent s2 c j) = {}" if "j \<in> set is" for j using dis that R2D(6) by auto
      have "clone_result st en s U n p c (set (i # is)) r2 s2 (N1 \<union> N2)"
        unfolding clone_result_def
      proof (intro conjI)
        show "kpool_live st en s2 (with_pages U (N1 \<union> N2))" using R2D(1) unfolding U2 .
        show "fresh (N1 \<union> N2) U" by (rule fresh_union [OF R1D(2) R2D(2)])
        show "\<forall>x\<in>covers U. x \<notin> (\<lambda>i. c + 8 * i) ` set (i # is) \<longrightarrow> slot s2 x = slot s x"
          using R1D(3) R2D(3) covers_with_pages [of U N1] by auto
        show "r2 = 0 \<and> (\<forall>k\<in>set (i # is). copy_of s2 n (ent s p k) (ent s2 c k)) \<or> r2 = - ENOMEM"
          using R2D(4) R2D(5) cp p1 is_sub by (metis set_ConsD subsetD)
        show "N1 \<union> N2 = (\<Union>i\<in>set (i # is). sub s2 n (ent s2 c i))" using R2D(6) Si(1) by auto
        show "\<forall>i\<in>set (i # is). entry_ok s2 n (ent s2 c i)" using R2D(7) Si(2) by auto
        show "\<forall>k\<in>set (i # is). \<forall>j\<in>set (i # is). k \<noteq> j \<longrightarrow> sub s2 n (ent s2 c k) \<inter> sub s2 n (ent s2 c j) = {}"
          using R2D(8) j_dis Si(1) by (metis Int_commute set_ConsD)
      qed
      then show ?thesis using e1 s2 r0 by (auto split: if_splits)
    qed
  qed
qed

section \<open>One entry\<close>

lemma clones_single:
  assumes "\<And>s U. kpool_live st en s U \<Longrightarrow> p \<in> pages U \<Longrightarrow> c \<in> pages U \<Longrightarrow> p \<noteq> c \<Longrightarrow>
      clone_ready s U n p c i \<Longrightarrow>
      \<exists>r s' N. clone_entry n p c i s = Some (r, s') \<and> clone_result st en s U n p c {i} r s' N"
  shows "clones st en n p c [i]"
  unfolding clones_def
proof (intro allI impI)
  fix s U
  assume "kpool_live st en s U" "p \<in> pages U" "c \<in> pages U" "p \<noteq> c" "\<forall>i\<in>set [i]. clone_ready s U n p c i"
  then obtain r s' N where r: "clone_entry n p c i s = Some (r, s')" "clone_result st en s U n p c {i} r s' N"
    using assms by (metis list.set_intros(1))
  then have "r = 0 \<or> r < 0" using clone_resultD(4) [OF r(2)] by (auto simp: ENOMEM_def)
  then show "\<exists>r s' N. until_error (clone_entry n p c) [i] s = Some (r, s') \<and>
      clone_result st en s U n p c (set [i]) r s' N"
    using r by auto
qed

text \<open>The result of a copy that leaves the memory as it is.\<close>

lemma clone_result_same:
  assumes "kpool_live st en s U" and "ent s c i = 0" and "r = - ENOMEM \<or> r = 0 \<and> \<not> pe_present (ent s p i)"
  shows "clone_result st en s U n p c {i} r s {}"
proof -
  have "copy_of s n (ent s p i) 0" if "\<not> pe_present (ent s p i)" using that by (cases n) auto
  then show ?thesis using assms by (auto simp: clone_result_def)
qed

lemma clone_page_ok:
  assumes l: "kpool_live st en s U" and p: "p \<in> pages U" and c: "c \<in> pages U" and pc: "p \<noteq> c"
    and i: "i \<in> idxs 0" and ready: "clone_ready s U 0 p c i"
  shows "\<exists>r s' N. clone_page p c i s = Some (r, s') \<and> clone_result st en s U 0 p c {i} r s' N"
proof -
  let ?e = "ent s p i"
  have u: "unat i < 512" using i by auto
  have z: "ent s c i = 0" using ready by (simp add: clone_ready_def)
  have ap: "aligned p 12" and ac: "aligned c 12" using kpool.page_ok [OF l] p c by auto
  consider (absent) "\<not> pe_present ?e" | (device) "pe_present ?e" "pe_pcd ?e" | (page) "pe_present ?e" "\<not> pe_pcd ?e" by blast
  then show ?thesis
  proof cases
    case absent
    then show ?thesis using clone_result_same [where n = 0, OF l z, of 0] by (auto simp: clone_page_def)
  next
    case device
    have "clone_result st en s U 0 p c {i} 0 (set_ent c i ?e s) {}"
      using set_ent_live [OF l c u] device by (auto simp: clone_result_def set_ent_slot ent_set_ent [OF ac u u])
    then show ?thesis using device by (auto simp: clone_page_def)
  next
    case page
    show ?thesis
    proof (cases rule: kpool.request_cases [OF l])
      case 1
      then show ?thesis using clone_result_same [where n = 0, OF l z, of "- ENOMEM"] page
        by (auto simp: clone_page_def)
    next
      case (2 q s1)
      let ?f = "frame_of ?e" and ?d = "put_address (drop_bit 12 q) ?e" and ?U1 = "insert (q, 12) U"
      define s2 where "s2 = copy_page q ?f s1"
      define s3 where "s3 = set_ent c i ?d s2"
      have cov: "slot s2 x = slot s x" if "x \<in> covers U" for x
        using that 2(6,8) by (auto simp: s2_def copy_page_slot)
      have e1: "ent s1 p i = ?e" and e2: "ent s2 p i = ?e"
        using 2(8) cov p in_covers [OF _ table_word_in [OF ap u], of U] by (auto simp: ent_def)
      have fd: "frame_of ?d = q" by (rule frame_put_address [OF 2(4,5)])
      have live3: "kpool_live st en s3 ?U1"
        unfolding s3_def s2_def by (rule set_ent_live [OF copy_page_live [OF 2(7)]]) (use c u in auto)
      have f: "?f \<in> pages U" "?f \<noteq> c" "?f \<noteq> q" using ready page 2(3) by (auto simp: clone_ready_def)
      have "slot s3 (q + k) = slot s3 (?f + k)" if k: "unat k < 4096" for k
      proof -
        have "q + k \<in> blk q 12" "?f + k \<in> blk ?f 12" using page_word k 2(4) by auto
        moreover have "c + 8 * i \<in> blk c 12" by (rule table_word_in [OF ac u])
        moreover have "blk q 12 \<inter> blk c 12 = {}" "blk ?f 12 \<inter> blk c 12 = {}" "blk ?f 12 \<inter> blk q 12 = {}"
          using page_disjoint ac 2(3,4) c f by auto
        ultimately show ?thesis by (auto simp: s3_def s2_def set_ent_slot copy_page_slot)
      qed
      then have "copy_of s3 0 ?e ?d" using page fd by simp
      moreover have "ent s3 c i = ?d" unfolding s3_def by (simp add: ent_set_ent [OF ac u u])
      moreover have "with_pages U {q} = ?U1" by auto
      ultimately have "clone_result st en s U 0 p c {i} 0 s3 {q}"
        unfolding clone_result_def using live3 2(6) cov fd page by (auto simp: s3_def set_ent_slot fresh_def)
      then show ?thesis using 2(1,2) page e1 e2 by (auto simp: clone_page_def Let_def s3_def s2_def)
    qed
  qed
qed

text \<open>
  The table level: a fresh table is linked into the child, and the loop one level down fills it.
\<close>

lemma clone_link:
  fixes d :: u64
  assumes l: "kpool_live st en s1 (insert (q, 12) U)" and new: "q \<notin> pages U" "blk q 12 \<inter> covers U = {}"
    and cov: "\<forall>x\<in>covers U. slot s1 x = slot s x"
    and c: "c \<in> pages U" and u: "unat i < 512"
  defines "s3 \<equiv> set_ent c i d (zero_page q s1)"
  shows "kpool_live st en s3 (insert (q, 12) U)"
    and "\<And>j. unat j < 512 \<Longrightarrow> ent s3 q j = 0" and "ent s3 c i = d"
    and "\<And>x. x \<in> covers U \<Longrightarrow> x \<noteq> c + 8 * i \<Longrightarrow> slot s3 x = slot s x"
    and "\<And>P. P \<subseteq> pages U \<Longrightarrow> c \<notin> P \<Longrightarrow> same_on P (slot s) (slot s3)"
proof -
  have aq: "aligned q 12" and ac: "aligned c 12" using kpool.page_ok [OF l] c by auto
  have qc: "blk q 12 \<inter> blk c 12 = {}" by (rule page_disjoint [OF aq ac]) (use new c in auto)
  have w: "c + 8 * i \<in> blk c 12" by (rule table_word_in [OF ac u])
  show "kpool_live st en s3 (insert (q, 12) U)"
    unfolding s3_def by (rule set_ent_live [OF zero_page_live [OF l]]) (use c u in auto)
  show "ent s3 q j = 0" if "unat j < 512" for j
    using table_word_in [OF aq that] w qc by (auto simp: s3_def ent_def set_ent_slot zero_page_slot)
  show "ent s3 c i = d" unfolding s3_def by (simp add: ent_set_ent [OF ac u u])
  show slot: "slot s3 x = slot s x" if "x \<in> covers U" "x \<noteq> c + 8 * i" for x
    using that new(2) cov by (auto simp: s3_def set_ent_slot zero_page_slot)
  show "same_on P (slot s) (slot s3)" if P: "P \<subseteq> pages U" "c \<notin> P" for P
    unfolding same_on_def
  proof (intro ballI)
    fix p x assume p: "p \<in> P" "x \<in> blk p 12"
    have "blk p 12 \<inter> blk c 12 = {}"
      using kpool.pages_apart [OF l, of p c] p P c by auto
    then show "slot s3 x = slot s x" using slot [of x] in_covers [of p 12 U x] p P(1) w by blast
  qed
qed

lemma clone_table_ok:
  assumes IH: "\<And>p c. clones st en n p c (user_idxs n)"
    and l: "kpool_live st en s U" and p: "p \<in> pages U" and c: "c \<in> pages U" and pc: "p \<noteq> c"
    and i: "i \<in> idxs (Suc n)" and ready: "clone_ready s U (Suc n) p c i"
  shows "\<exists>r s' N. clone_entry (Suc n) p c i s = Some (r, s') \<and> clone_result st en s U (Suc n) p c {i} r s' N"
proof -
  let ?e = "ent s p i"
  let ?f = "frame_of ?e"
  have u: "unat i < 512" using i by auto
  have z: "ent s c i = 0" using ready by (simp add: clone_ready_def)
  have ap: "aligned p 12" and ac: "aligned c 12" using kpool.page_ok [OF l] p c by auto
  show ?thesis
  proof (cases "pe_present ?e")
    case False
    then show ?thesis using clone_result_same [where n = "Suc n", OF l z, of 0] by (auto simp: clone_table_def)
  next
    case True
    have S: "sub s (Suc n) ?e = insert ?f (owned s n ?f)" using True by (simp add: sub_Suc)
    have tab: "table_ok s n ?f" and small: "\<not> (Suc n \<noteq> 3 \<and> pe_page_size ?e)"
      using ready True by (auto simp: clone_ready_def entry_ok_Suc)
    have f: "?f \<in> pages U" "owned s n ?f \<subseteq> pages U" "c \<notin> insert ?f (owned s n ?f)"
      using ready S by (auto simp: clone_ready_def)
    show ?thesis
    proof (cases rule: kpool.request_cases [OF l])
      case 1
      then show ?thesis using clone_result_same [where n = "Suc n", OF l z, of "- ENOMEM"] True small
        by (auto simp: clone_table_def)
    next
      case (2 q s1)
      let ?d = "put_address (drop_bit 12 q) ?e" and ?U1 = "insert (q, 12) U"
      define s3 where "s3 = set_ent c i ?d (zero_page q s1)"
      note link = clone_link [OF 2(7,3,6,8) c u, where d = ?d, folded s3_def]
      have fd: "frame_of ?d = q" by (rule frame_put_address [OF 2(4,5)])
      have cf: "p + 8 * i \<in> covers U" using p in_covers [OF _ table_word_in [OF ap u]] by blast
      have e1: "ent s1 p i = ?e" "ent (zero_page q s1) p i = ?e"
        using 2(6,8) cf by (auto simp: ent_def zero_page_slot)
      have same3: "same_on (insert ?f (owned s n ?f)) (slot s) (slot s3)"
        by (rule link(5)) (use f in auto)
      have ef: "ent s3 ?f j = ent s ?f j" if "j \<in> idxs n" for j
        by (rule ent_cong [OF same3]) (use that in auto)
      have ready3: "clone_ready s3 ?U1 n ?f q j" if j: "j \<in> idxs n" for j
      proof -
        have "same_on (sub s n (ent s ?f j)) (slot s) (slot s3)"
          by (rule same_on_mono [OF same3]) (use sub_in_owned [OF j] in blast)
        from sub_cong [OF this] show ?thesis
          using table_okD [OF tab j] sub_in_owned [OF j, of s ?f] f(2) 2(3) link(2) [OF idxs_512 [OF j]] ef [OF j]
          unfolding clone_ready_def by auto
      qed
      obtain r s4 N where s4: "until_error (clone_entry n ?f q) (user_idxs n) s3 = Some (r, s4)"
          and R: "clone_result st en s3 ?U1 n ?f q (idxs n) r s4 N"
        by (rule clonesD [OF IH link(1) _ _ _ ready3]) (use f(1) 2(3) in auto)
      note RD = clone_resultD [OF R]
      have nq: "x \<notin> (\<lambda>j. q + 8 * j) ` idxs n" if "x \<in> covers U" for x
        using that table_word_in [OF 2(4)] 2(6) by (force dest: idxs_512)
      have cov4: "slot s4 x = slot s x" if "x \<in> covers U" "x \<noteq> c + 8 * i" for x
        using RD(3) [OF _ nq [OF that(1)]] link(4) [OF that] that(1) by simp
      have ci: "ent s4 c i = ?d"
        using clone_word [OF RD(3) link(1), where t = c and i = i and n = n] link(3) c u 2(3) by auto
      have q_new: "q \<notin> N" using fresh_pages [OF RD(2)] by auto
      have N: "N = owned s4 n q" using RD(6) by (simp add: owned_def)
      have sub4: "sub s4 (Suc n) ?d = insert q N" using True fd N by (simp add: sub_Suc)
      have "table_ok s4 n q"
        unfolding table_ok_def using RD(7,8) q_new RD(6) by auto
      then have ok4: "entry_ok s4 (Suc n) ?d" using small fd by (auto simp: entry_ok_Suc)
      have "copy_of s4 (Suc n) ?e ?d" if "r = 0"
      proof -
        have "ent s4 ?f j = ent s3 ?f j" if "j \<in> idxs n" for j
          using clone_word [OF RD(3) link(1), where t = ?f and i = j and n = n] f(1) that 2(3) by auto
        then show ?thesis using RD(5) [OF that] True fd by simp
      qed
      then have "clone_result st en s U (Suc n) p c {i} r s4 (insert q N)"
        unfolding clone_result_def using RD(1,4) RD(2) cov4 2(6) sub4 ok4
        by (auto simp: ci fresh_def)
      moreover have "clone_entry (Suc n) p c i s = Some (r, s4)"
        using 2(1,2) True small e1 s4 by (auto simp: clone_table_def Let_def s3_def)
      ultimately show ?thesis by blast
    qed
  qed
qed

lemma clones_all: "clones st en n p c (user_idxs n)"
proof (induction n arbitrary: p c)
  case 0
  have "clones st en 0 p c [i]" if "i \<in> idxs 0" for i
    by (rule clones_single, unfold clone_entry.simps(1), rule clone_page_ok) (use that in simp_all)
  then show ?case by (rule clones_loop) simp_all
next
  case (Suc n)
  have "clones st en (Suc n) p c [i]" if "i \<in> idxs (Suc n)" for i
    by (rule clones_single, rule clone_table_ok [OF Suc.IH]) (use that in simp_all)
  then show ?case by (rule clones_loop) simp_all
qed

end
