(* ===== verification/Paging_Map.thy ===== *)
theory Paging_Map
  imports Paging_Clone
begin

text \<open>
  Changing one mapping of an address space.  Mapping a page and unmapping one are the same descent
  with another change of the last entry; \<open>update_below\<close> is that descent as a recursion over the
  levels, and the lemmas say what it does to the tree and to the translation of every address.
\<close>

section \<open>The descent\<close>

primrec update_below :: "nat \<Rightarrow> bool \<Rightarrow> (u64 \<Rightarrow> u64) \<Rightarrow> u64 \<Rightarrow> u64 \<Rightarrow> kbuddy \<Rightarrow> (int \<times> kbuddy) option" where
  "update_below 0 = (\<lambda>is_user f v t s. Some (0, set_ent t (vidx 0 v) (f (ent s t (vidx 0 v))) s))"
| "update_below (Suc n) = (\<lambda>is_user f v t s.
     Option.bind (next_table is_user t (vidx (Suc n) v) s) (\<lambda>(r, s).
       case r of
         None \<Rightarrow> Some (- ENOMEM, s)
       | Some (t', _) \<Rightarrow>
           if n = 0 \<and> pe_page_size (ent s t (vidx (Suc n) v)) then Some (- EEXIST, s)
           else update_below n is_user f v t' s))"

lemma map_page_descent:
  "map_page_to_virt_in root v phy flags False s =
     update_below 3 (flags AND USER_PAGE \<noteq> 0) (leaf_entry phy flags) v root s"
  unfolding map_page_to_virt_in_def map_small_def Let_def numeral_3_eq_3
  by (simp add: vidx_IDX vidx_IDX(1) [unfolded numeral_3_eq_3] cong: option.case_cong if_cong)

definition tr :: "kbuddy \<Rightarrow> nat \<Rightarrow> u64 \<Rightarrow> u64 \<Rightarrow> u64 option" where
  "tr s n t v = trans s n (ent s t (vidx n v)) v"

lemma trans_tr: "trans s (Suc n) e v = (if pe_present e then tr s n (frame_of e) v else None)"
  by (simp add: tr_def)

lemma next_table_present:
  "pe_present (ent s t i) \<Longrightarrow> next_table False t i s = Some (Some (frame_of (ent s t i), False), s)"
  by (simp add: next_table_def Let_def)

lemma unmap_page_descent:
  "unmap_page_in root v s =
     (if tr s 3 root v = None \<or> pe_page_size (ent s (frame_of (ent s (frame_of (ent s root (PML4_IDX v))) (PDPT_IDX v))) (PD_IDX v))
      then (- ENOENT, None, s)
      else (0, Some v, snd (the (update_below 3 False (put_flag 0 False) v root s))))"
  unfolding unmap_page_in_def Let_def tr_def numeral_3_eq_3
  by (auto simp: vidx_IDX vidx_IDX(1) [unfolded numeral_3_eq_3] next_table_present)

section \<open>One level\<close>

text \<open>
  What the descent finds one level down: a table \<open>t'\<close>, new (\<open>M\<close> is its page) or already there,
  reached through the entry, with everything the entry led to before unchanged.
\<close>

definition descended :: "bool \<Rightarrow> u64 \<Rightarrow> u64 \<Rightarrow> kbuddy \<Rightarrow> (u64 \<times> nat) set \<Rightarrow> nat \<Rightarrow> u64 \<Rightarrow> u64 \<Rightarrow> u64 \<Rightarrow> kbuddy \<Rightarrow> u64 set \<Rightarrow> bool" where
  "descended is_user st en s U n t i t' s' M \<longleftrightarrow>
     kpool_live st en s' (with_pages U M) \<and> fresh M U \<and> t' \<in> pages (with_pages U M) \<and>
     pe_present (ent s' t i) \<and> frame_of (ent s' t i) = t' \<and> entry_ok s' (Suc n) (ent s' t i) \<and>
     sub s' (Suc n) (ent s' t i) = sub s (Suc n) (ent s t i) \<union> M \<and>
     tabs s' (Suc n) (ent s' t i) = tabs s (Suc n) (ent s t i) \<union> M \<and>
     (\<forall>w. n < 3 \<longrightarrow> trans s' (Suc n) (ent s' t i) w = trans s (Suc n) (ent s t i) w) \<and>
     (pe_present (ent s t i) \<longrightarrow> M = {}) \<and>
     (\<forall>x\<in>covers U. x \<noteq> t + 8 * i \<longrightarrow> slot s' x = slot s x) \<and>
     (pe_present (ent s t i) \<longrightarrow> ent s' t i = ent s t i \<or> ent s' t i = put_flag 2 True (ent s t i)) \<and>
     (\<not> pe_present (ent s t i) \<longrightarrow> bit (ent s' t i) 1 \<and> bit (ent s' t i) 63 = bit (ent s t i) 63 \<and>
        (\<forall>j. unat j < 512 \<longrightarrow> ent s' t' j = 0)) \<and>
     (is_user \<longrightarrow> bit (ent s' t i) 2)"

lemma present_flags [simp]:
  "pe_present (put_flag 2 b e) = pe_present e" "pe_page_size (put_flag 2 b e) = pe_page_size e"
  "pe_page_size (put_flag (Suc 0) b e) = pe_page_size e" "pe_page_size (put_flag 0 b e) = pe_page_size e"
  "pe_present (put_flag (Suc 0) b e) = pe_present e" "pe_present (put_flag 0 b e) = b"
  by (simp_all add: entry_bits)

lemma alike_entry:
  assumes "pe_present e' = pe_present e" and "frame_of e' = frame_of e" and "pe_page_size e' = pe_page_size e"
  shows "sub s (Suc n) e' = sub s (Suc n) e" and "entry_ok s (Suc n) e' = entry_ok s (Suc n) e"
    and "trans s (Suc n) e' w = trans s (Suc n) e w" and "tabs s (Suc n) e' = tabs s (Suc n) e"
  using assms by (simp_all add: sub_Suc entry_ok_Suc tabs_Suc)

lemma next_table_old:
  assumes l: "kpool_live st en s U" and t: "t \<in> pages U" and i: "unat i < 512"
    and ok: "entry_ok s (Suc n) (ent s t i)" and sub: "t \<notin> sub s (Suc n) (ent s t i)" "sub s (Suc n) (ent s t i) \<subseteq> pages U"
    and pres: "pe_present (ent s t i)"
  shows "\<exists>s'. next_table is_user t i s = Some (Some (frame_of (ent s t i), False), s') \<and>
    descended is_user st en s U n t i (frame_of (ent s t i)) s' {}"
proof -
  let ?e = "ent s t i"
  let ?e' = "if is_user then put_flag 2 True ?e else ?e"
  let ?s = "set_ent t i ?e' s"
  have at: "aligned t 12" by (rule kpool.page_ok [OF l t])
  have same: "same_on (sub s (Suc n) ?e) (slot s) (slot ?s)"
    by (rule set_ent_same [OF sub(1) at i]) (rule sub_aligned)
  have e': "ent ?s t i = ?e'" using ent_set_ent [OF at i i] by simp
  have nop: "set_ent t i ?e s = s" by (simp add: set_ent_def ent_def)
  have nxt: "next_table is_user t i s = Some (Some (frame_of ?e, False), ?s)"
    using pres nop ent_set_ent [OF at i i, of "put_flag 2 True ?e" s] by (auto simp: next_table_def Let_def)
  have alike: "pe_present ?e' = pe_present ?e" "frame_of ?e' = frame_of ?e" "pe_page_size ?e' = pe_page_size ?e" by simp_all
  have "frame_of ?e \<in> pages U" using pres sub(2) by (simp add: sub_Suc)
  moreover have "sub ?s (Suc n) ?e' = sub s (Suc n) ?e" "entry_ok ?s (Suc n) ?e'" "tabs ?s (Suc n) ?e' = tabs s (Suc n) ?e"
    unfolding alike_entry [OF alike] using sub_cong [OF same] tabs_cong [OF same] ok by simp_all
  moreover have "trans ?s (Suc n) ?e' w = trans s (Suc n) ?e w" if "n < 3" for w
    unfolding alike_entry(3) [OF alike] by (rule trans_cong [OF same]) (use that in simp)
  ultimately have "descended is_user st en s U n t i (frame_of ?e) ?s {}"
    unfolding descended_def e' using set_ent_live [OF l t i] alike(1,2) pres by (simp add: set_ent_slot user_bit_set(5))
  then show ?thesis using nxt by blast
qed

lemma next_table_new:
  assumes l: "kpool_live st en s U" and t: "t \<in> pages U" and i: "unat i < 512" and abs: "\<not> pe_present (ent s t i)"
    and ok: "entry_ok s (Suc n) (ent s t i)"
  shows "next_table is_user t i s = Some (None, s) \<or>
    (\<exists>q s'. next_table is_user t i s = Some (Some (q, True), s') \<and> descended is_user st en s U n t i q s' {q})"
proof (cases rule: kpool.request_cases [OF l])
  case 1
  then show ?thesis using abs by (simp add: next_table_def Let_def)
next
  case (2 q s1)
  have at: "aligned t 12" by (rule kpool.page_ok [OF l t])
  have tc: "t + 8 * i \<in> covers U" using t in_covers [OF _ table_word_in [OF at i]] by blast
  let ?e = "put_address (drop_bit 12 q) (put_flag 1 True (put_flag 0 True (ent s t i)))"
  let ?e' = "if is_user then put_flag 2 True ?e else ?e"
  define s3 where "s3 = set_ent t i ?e' (zero_page q s1)"
  note link = clone_link [OF 2(7,3,6,8) t i, where d = ?e', folded s3_def]
  have e0: "ent (zero_page q s1) t i = ent s t i" using 2(6,8) tc by (auto simp: ent_def zero_page_slot)
  have fe: "frame_of ?e' = q" using frame_put_address [OF 2(4,5)] by simp
  have twice: "set_ent t i d (set_ent t i d' s) = set_ent t i d s" for d d' s by (simp add: set_ent_def)
  have nxt: "next_table is_user t i s = Some (Some (q, True), s3)"
    using abs 2(1,2) frame_put_address [OF 2(4,5)] e0 ent_set_ent [OF at i i] unfolding next_table_def Let_def s3_def by (auto simp: twice)
  have zero: "ent s3 q j = 0" if "j \<in> idxs m" for j m using link(2) that by auto
  have zeros: "\<forall>j. unat j < 512 \<longrightarrow> ent s3 q j = 0" using zero [where m = 0] by (simp add: idxs_iff)
  have bits: "bit ?e' (Suc 0)" "bit ?e' 63 = bit (ent s t i) 63" "is_user \<longrightarrow> bit ?e' 2" by (simp_all add: bit_put_flag bit_put_address)
  have p: "pe_present ?e'" "pe_page_size ?e' = pe_page_size (ent s t i)" by simp_all
  have "owned s3 n q = {}" "table_ok s3 n q" "tables s3 n q = {q}"
    using zero by (auto simp: owned_def table_ok_def tables_def)
  then have "sub s3 (Suc n) ?e' = {q}" "entry_ok s3 (Suc n) ?e'" "tabs s3 (Suc n) ?e' = {q}"
    using p fe ok by (auto simp: sub_Suc entry_ok_Suc tabs_Suc)
  moreover have "trans s3 (Suc n) ?e' w = None" if "n < 3" for w
    using fe zero [OF vidx_idxs, of n w] that by simp
  moreover have "with_pages U {q} = insert (q, 12) U" by auto
  ultimately have "descended is_user st en s U n t i q s3 {q}"
    unfolding descended_def link(3) using link(1,4) p(1) fe abs 2(6) zeros bits by (simp add: fresh_def)
  then show ?thesis using nxt by blast
qed

section \<open>The whole descent\<close>

definition old_page :: "kbuddy \<Rightarrow> nat \<Rightarrow> u64 \<Rightarrow> u64 \<Rightarrow> u64 set" where
  "old_page s n t v = (case tr s n t v of None \<Rightarrow> {} | Some e \<Rightarrow> sub s 0 e)"

definition updated :: "bool \<Rightarrow> u64 \<Rightarrow> u64 \<Rightarrow> kbuddy \<Rightarrow> (u64 \<times> nat) set \<Rightarrow> nat \<Rightarrow> u64 \<Rightarrow> u64 \<Rightarrow> (u64 \<Rightarrow> u64) \<Rightarrow> u64 set \<Rightarrow>
    int \<Rightarrow> kbuddy \<Rightarrow> u64 set \<Rightarrow> bool" where
  "updated is_user st en s U n t v f L r s' N \<longleftrightarrow>
     kpool_live st en s' (with_pages U N) \<and> fresh N U \<and> table_ok s' n t \<and>
     (\<forall>x\<in>covers U. (\<forall>q\<in>tables s n t. x \<notin> blk q 12) \<longrightarrow> slot s' x = slot s x) \<and>
     (\<forall>j. unat j < 512 \<longrightarrow> j \<noteq> vidx n v \<longrightarrow> ent s' t j = ent s t j) \<and>
     (\<forall>w. (n = 3 \<longrightarrow> user_va w) \<longrightarrow> (\<exists>k\<le>n. vidx k w \<noteq> vidx k v) \<longrightarrow> tr s' n t w = tr s n t w) \<and>
     (r = 0 \<and> owned s' n t = (owned s n t - old_page s n t v) \<union> N \<union> L \<and> (\<exists>e. tr s' n t v = trans s' 0 (f e) v) \<or>
      r = - ENOMEM \<and> tr s n t v = None \<and> owned s' n t = owned s n t \<union> N \<and> tr s' n t v = None) \<and>
     (tr s n t v \<noteq> None \<longrightarrow> N = {}) \<and>
     (\<forall>w. (n = 3 \<longrightarrow> user_va w) \<longrightarrow> way s s' n (ent s t (vidx n w)) (ent s' t (vidx n w)) w) \<and>
     (r = 0 \<and> is_user \<longrightarrow> user_way s' n (ent s' t (vidx n v)) v)"

text \<open>
  The table after the change, from what is known of the changed entry: the other entries of the
  table, and all below them, are as before.
\<close>

lemma table_after:
  assumes l: "kpool_live st en s U" and t: "t \<in> pages U" and tab: "table_ok s n t" and own: "owned s n t \<subseteq> pages U"
    and i: "i \<in> idxs n"
    and ents: "\<And>j. unat j < 512 \<Longrightarrow> j \<noteq> i \<Longrightarrow> ent s' t j = ent s t j"
    and others: "\<And>j. j \<in> idxs n \<Longrightarrow> j \<noteq> i \<Longrightarrow> same_on (sub s n (ent s t j)) (slot s) (slot s')"
    and e': "entry_ok s' n (ent s' t i)" "sub s' n (ent s' t i) = X" "t \<notin> X"
    and X: "\<And>j. j \<in> idxs n \<Longrightarrow> j \<noteq> i \<Longrightarrow> X \<inter> sub s n (ent s t j) = {}"
  shows "table_ok s' n t" and "owned s' n t = X \<union> (owned s n t - sub s n (ent s t i))"
    and "n \<le> 3 \<Longrightarrow> vidx n w \<in> idxs n \<Longrightarrow> vidx n w \<noteq> i \<Longrightarrow> tr s' n t w = tr s n t w"
proof -
  have j: "ent s' t j = ent s t j" "sub s' n (ent s t j) = sub s n (ent s t j)" "entry_ok s' n (ent s t j)"
    if "j \<in> idxs n" "j \<noteq> i" for j
    using ents [OF idxs_512 [OF that(1)] that(2)] sub_cong [OF others [OF that]] table_okD(1) [OF tab that(1)] by simp_all
  have dis: "sub s n (ent s t i) \<inter> sub s n (ent s t j) = {}" if "j \<in> idxs n" "j \<noteq> i" for j
    using table_okD(3) [OF tab i that(1)] that(2) by blast
  show "table_ok s' n t"
    unfolding table_ok_def
  proof (intro conjI ballI impI)
    fix k assume k: "k \<in> idxs n"
    show "entry_ok s' n (ent s' t k)" "t \<notin> sub s' n (ent s' t k)"
      using e' j [OF k] table_okD(2) [OF tab k] by (cases "k = i"; simp)+
    fix m assume m: "m \<in> idxs n" "k \<noteq> m"
    show "sub s' n (ent s' t k) \<inter> sub s' n (ent s' t m) = {}"
      using e'(2) j [OF k] j [OF m(1)] X [OF k] X [OF m(1)] table_okD(3) [OF tab k m] m(2)
      by (cases "k = i"; cases "m = i") auto
  qed
  have split: "owned s n t = sub s n (ent s t i) \<union> (\<Union>j\<in>idxs n - {i}. sub s n (ent s t j))" for s
    unfolding owned_def using i by auto
  have "(\<Union>j\<in>idxs n - {i}. sub s' n (ent s' t j)) = (\<Union>j\<in>idxs n - {i}. sub s n (ent s t j))"
    using j by auto
  moreover have "(\<Union>j\<in>idxs n - {i}. sub s n (ent s t j)) = owned s n t - sub s n (ent s t i)"
    unfolding split [of s] using dis by auto
  ultimately show "owned s' n t = X \<union> (owned s n t - sub s n (ent s t i))"
    unfolding split [of s'] e'(2) by simp
  show "tr s' n t w = tr s n t w" if "n \<le> 3" "vidx n w \<in> idxs n" "vidx n w \<noteq> i" for w
    unfolding tr_def using ents [OF vidx_less that(3)] trans_cong [OF others [OF that(2,3)] that(1)] by simp
qed

lemma update_leaf_ok:
  assumes l: "kpool_live st en s U" and t: "t \<in> pages U" and tab: "table_ok s 0 t" and own: "owned s 0 t \<subseteq> pages U"
    and L: "\<And>e. sub s 0 (f e) = L" "L \<subseteq> pages U" "L \<inter> insert t (owned s 0 t) = {}"
  shows "\<exists>r s' N. update_below 0 is_user f v t s = Some (r, s') \<and> updated is_user st en s U 0 t v f L r s' N"
proof -
  let ?i = "vidx 0 v"
  let ?e = "ent s t ?i"
  let ?s = "set_ent t ?i (f ?e) s"
  have i: "?i \<in> idxs 0" by (rule vidx_idxs) simp
  have u: "unat ?i < 512" by (rule vidx_less)
  have at: "aligned t 12" by (rule kpool.page_ok [OF l t])
  have e': "ent ?s t ?i = f ?e" by (simp add: ent_set_ent [OF at u u])
  have sub': "sub ?s 0 (f ?e) = L" using L(1) [of ?e] by simp
  have X: "L \<inter> sub s 0 (ent s t j) = {}" if "j \<in> idxs 0" for j
    using L(3) sub_in_owned [OF that, of s t] by auto
  note after = table_after [OF l t tab own i, of ?s L]
  have ents: "ent ?s t j = ent s t j" if "unat j < 512" "j \<noteq> ?i" for j
    using that by (simp add: ent_set_ent [OF at u])
  have same: "same_on (sub s 0 (ent s t j)) (slot s) (slot ?s)" if "j \<in> idxs 0" for j
    by (rule set_ent_same [OF table_okD(2) [OF tab that] at u]) (rule sub_aligned)
  have tab': "table_ok ?s 0 t" by (rule after(1)) (use ents same e' sub' X L(3) in auto)
  have own': "owned ?s 0 t = L \<union> (owned s 0 t - sub s 0 ?e)" by (rule after(2)) (use ents same e' sub' X L(3) in auto)
  have "tr ?s 0 t w = tr s 0 t w" if "vidx 0 w \<noteq> ?i" for w
    by (rule after(3)) (use ents same e' sub' X L(3) that vidx_idxs [of 0 w] in auto)
  moreover have "old_page s 0 t v = sub s 0 ?e" by (simp add: old_page_def tr_def)
  moreover have "tr ?s 0 t v = trans ?s 0 (f ?e) v" unfolding tr_def e' ..
  moreover have "slot ?s x = slot s x" if "x \<notin> blk t 12" for x
    using table_word_in [OF at u] that by (auto simp: set_ent_slot)
  ultimately have "updated is_user st en s U 0 t v f L 0 ?s {}"
    unfolding updated_def using set_ent_live [OF l t u] tab' own' ents by (auto simp: tables_def)
  then show ?thesis by auto
qed

lemma descendedD:
  assumes "descended is_user st en s U n t i t' s' M"
  shows "kpool_live st en s' (with_pages U M)" and "fresh M U" and "t' \<in> pages (with_pages U M)"
    and "pe_present (ent s' t i)" and "frame_of (ent s' t i) = t'" and "entry_ok s' (Suc n) (ent s' t i)"
    and "sub s' (Suc n) (ent s' t i) = sub s (Suc n) (ent s t i) \<union> M"
    and "n < 3 \<Longrightarrow> trans s' (Suc n) (ent s' t i) w = trans s (Suc n) (ent s t i) w"
    and "pe_present (ent s t i) \<Longrightarrow> M = {}"
    and "x \<in> covers U \<Longrightarrow> x \<noteq> t + 8 * i \<Longrightarrow> slot s' x = slot s x"
    and "tabs s' (Suc n) (ent s' t i) = tabs s (Suc n) (ent s t i) \<union> M"
    and "pe_present (ent s t i) \<Longrightarrow> ent s' t i = ent s t i \<or> ent s' t i = put_flag 2 True (ent s t i)"
    and "\<not> pe_present (ent s t i) \<Longrightarrow> bit (ent s' t i) 1 \<and> bit (ent s' t i) 63 = bit (ent s t i) 63"
    and "\<not> pe_present (ent s t i) \<Longrightarrow> unat j < 512 \<Longrightarrow> ent s' t' j = 0"
    and "is_user \<Longrightarrow> bit (ent s' t i) 2"
  using assms unfolding descended_def by auto

lemma updatedD:
  assumes "updated is_user st en s U n t v f L r s' N"
  shows "kpool_live st en s' (with_pages U N)" and "fresh N U" and "table_ok s' n t"
    and "x \<in> covers U \<Longrightarrow> (\<And>q. q \<in> tables s n t \<Longrightarrow> x \<notin> blk q 12) \<Longrightarrow> slot s' x = slot s x"
    and "unat j < 512 \<Longrightarrow> j \<noteq> vidx n v \<Longrightarrow> ent s' t j = ent s t j"
    and "(n = 3 \<Longrightarrow> user_va w) \<Longrightarrow> k \<le> n \<Longrightarrow> vidx k w \<noteq> vidx k v \<Longrightarrow> tr s' n t w = tr s n t w"
    and "r = 0 \<and> owned s' n t = (owned s n t - old_page s n t v) \<union> N \<union> L \<and> (\<exists>e. tr s' n t v = trans s' 0 (f e) v) \<or>
      r = - ENOMEM \<and> tr s n t v = None \<and> owned s' n t = owned s n t \<union> N \<and> tr s' n t v = None"
    and "tr s n t v \<noteq> None \<Longrightarrow> N = {}"
    and "(n = 3 \<Longrightarrow> user_va w) \<Longrightarrow> way s s' n (ent s t (vidx n w)) (ent s' t (vidx n w)) w"
    and "r = 0 \<Longrightarrow> is_user \<Longrightarrow> user_way s' n (ent s' t (vidx n v)) v"
  using assms unfolding updated_def by auto

lemma old_page_owned: "n \<le> 3 \<Longrightarrow> (n = 3 \<Longrightarrow> user_va v) \<Longrightarrow> old_page s n t v \<subseteq> owned s n t"
proof (induction n arbitrary: t)
  case 0
  have "vidx 0 v \<in> idxs 0" by (rule vidx_idxs) simp
  then show ?case using sub_in_owned [of "vidx 0 v" 0 s t] by (auto simp: old_page_def tr_def)
next
  case (Suc n)
  let ?e = "ent s t (vidx (Suc n) v)"
  have i: "vidx (Suc n) v \<in> idxs (Suc n)" by (rule vidx_idxs) (use Suc.prems in auto)
  have "old_page s (Suc n) t v = (if pe_present ?e then old_page s n (frame_of ?e) v else {})"
    by (simp add: old_page_def tr_def)
  also have "\<dots> \<subseteq> sub s (Suc n) ?e" using Suc.IH [of "frame_of ?e"] Suc.prems(1) by (auto simp: sub_Suc)
  finally show ?case using sub_in_owned [OF i, of s t] by blast
qed

text \<open>The step from the table below to the table itself.\<close>

lemma update_step:
  assumes n: "n < 3" and l: "kpool_live st en s U" and t: "t \<in> pages U" and tab: "table_ok s (Suc n) t"
    and own: "owned s (Suc n) t \<subseteq> pages U" and L: "L \<subseteq> pages U" "L \<inter> insert t (owned s (Suc n) t) = {}"
    and v: "Suc n = 3 \<Longrightarrow> user_va v" and i_def: "i = vidx (Suc n) v"
    and de: "descended is_user st en s U n t i t' s1 M" and R: "updated is_user st en s1 (with_pages U M) n t' v f L r s2 N"
  shows "updated is_user st en s U (Suc n) t v f L r s2 (M \<union> N)"
proof -
  let ?e = "ent s t i" and ?U1 = "with_pages U M" and ?e1 = "ent s1 t i" and ?Se = "sub s (Suc n) (ent s t i)"
    and ?O = "old_page s1 n t' v"
  have i: "i \<in> idxs (Suc n)" unfolding i_def by (rule vidx_idxs) (use v in auto)
  have u: "unat i < 512" using i by auto
  have at: "aligned t 12" by (rule kpool.page_ok [OF l t])
  note D = descendedD [OF de] and RD = updatedD [OF R]
  have SM: "insert t' (owned s1 n t') = ?Se \<union> M" using D(4,5,7) by (simp add: sub_Suc)
  have tab1: "table_ok s1 n t'" and ps: "Suc n \<noteq> 3 \<Longrightarrow> \<not> pe_page_size ?e1" using D(4,5,6) by (auto simp: entry_ok_Suc)
  have Se: "?Se \<subseteq> owned s (Suc n) t" by (rule sub_in_owned [OF i])
  have tM: "t \<notin> ?Se \<union> M" using table_okD(2) [OF tab i] fresh_pages [OF D(2)] t by auto
  have M: "M \<inter> pages U = {}" using fresh_pages [OF D(2)] by auto
  have N: "N \<inter> pages ?U1 = {}" using fresh_pages [OF RD(2)] by auto
  have t'O: "t' \<notin> ?O" using table_okD(2) [OF tab1] old_page_owned [of n v s1 t'] n by (fastforce simp: owned_def)
  have far: "slot s2 x = slot s1 x" if q: "x \<in> blk q 12" "q \<in> pages ?U1" "q \<notin> ?Se \<union> M" for x q
  proof (rule RD(4))
    show "x \<in> covers ?U1" using q in_covers [of q 12 ?U1 x] by blast
    show "x \<notin> blk p 12" if "p \<in> tables s1 n t'" for p
    proof -
      have p: "p \<in> insert t' (owned s1 n t')" using that tables_owned by blast
      have "p \<in> pages ?U1" "p \<noteq> q" using p Se own q(3) unfolding SM by auto
      then show ?thesis using kpool.pages_apart [OF D(1) _ q(2), of p] q(1) by blast
    qed
  qed
  have ent2: "ent s2 t j = ent s1 t j" if "unat j < 512" for j
    unfolding ent_def by (rule far [OF table_word_in [OF at that]]) (use t tM in auto)
  have ents: "ent s2 t j = ent s t j" if "unat j < 512" "j \<noteq> i" for j
  proof -
    have "t + 8 * j \<in> covers U" using t in_covers [OF _ table_word_in [OF at that(1)]] by blast
    then show ?thesis unfolding ent2 [OF that(1)] unfolding ent_def
      by (rule D(10)) (use table_word_inj [OF at that(1) u] that(2) in simp)
  qed
  have same: "same_on (sub s (Suc n) (ent s t j)) (slot s) (slot s2)" if j: "j \<in> idxs (Suc n)" "j \<noteq> i" for j
  proof -
    let ?P = "sub s (Suc n) (ent s t j)"
    have P: "?P \<subseteq> pages U" "t \<notin> ?P" "?P \<inter> ?Se = {}"
      using sub_in_owned [OF j(1), of s t] own table_okD(2) [OF tab j(1)] table_okD(3) [OF tab j(1) i] j(2) by auto
    have "same_on ?P (slot s) (slot s1)"
      by (rule same_on_frame [OF l t P(2,1,1), of "{i}"]) (use u D(10) in auto)
    moreover have "same_on ?P (slot s1) (slot s2)" unfolding same_on_def using far P M by blast
    ultimately show ?thesis by (rule same_on_trans)
  qed
  have tr1: "tr s (Suc n) t v = tr s1 n t' v"
    unfolding tr_def [of s "Suc n"] i_def [symmetric] using D(8) [OF n, of v] D(4,5) by (simp add: tr_def)
  have old: "old_page s (Suc n) t v = ?O" using tr1 by (simp add: old_page_def split: option.splits)
  have O: "?O \<subseteq> ?Se" "?O \<inter> M = {}"
  proof -
    have "?O \<subseteq> ?Se \<and> ?O \<inter> M = {}"
    proof (cases "pe_present ?e")
      case True
      then show ?thesis using D(9) old_page_owned [of n v s1 t'] n SM by auto
    next
      case False
      then have "tr s1 n t' v = None" using tr1 by (simp add: tr_def i_def)
      then show ?thesis by (simp add: old_page_def)
    qed
    then show "?O \<subseteq> ?Se" "?O \<inter> M = {}" by auto
  qed
  define X where "X = insert t' (owned s2 n t')"
  have X: "X = (if r = 0 then ((?Se \<union> M) - ?O) \<union> N \<union> L else ?Se \<union> M \<union> N)"
    using RD(7) t'O SM unfolding X_def by (auto simp: ENOMEM_def)
  have e2: "ent s2 t i = ?e1" by (rule ent2 [OF u])
  have sub2: "sub s2 (Suc n) (ent s2 t i) = X" unfolding X_def e2 using D(4,5) by (simp add: sub_Suc)
  have ok2: "entry_ok s2 (Suc n) (ent s2 t i)" unfolding e2 using ps D(5) RD(3) by (auto simp: entry_ok_Suc)
  have tX: "t \<notin> X" using tM L(2) N t unfolding X by auto
  have Xd: "X \<inter> sub s (Suc n) (ent s t j) = {}" if "j \<in> idxs (Suc n)" "j \<noteq> i" for j
  proof -
    let ?P = "sub s (Suc n) (ent s t j)"
    have "?Se \<inter> ?P = {}" using table_okD(3) [OF tab i that(1)] that(2) by blast
    moreover have "?P \<subseteq> pages U" "L \<inter> ?P = {}" using sub_in_owned [OF that(1), of s t] own L(2) by blast+
    moreover have "pages U \<subseteq> pages ?U1" by auto
    moreover have "X \<subseteq> ?Se \<union> M \<union> N \<union> L" unfolding X by auto
    ultimately show ?thesis using M N by blast
  qed
  note after = table_after [OF l t tab own i ents same ok2 sub2 tX Xd]
  have own2: "owned s2 (Suc n) t = X \<union> (owned s (Suc n) t - ?Se)" by (rule after(2))
  have tr2: "tr s2 (Suc n) t w = tr s2 n t' w" if "vidx (Suc n) w = i" for w
    unfolding tr_def [of s2 "Suc n"] that e2 using D(4,5) by (simp add: tr_def)
  have trs: "tr s (Suc n) t w = tr s1 n t' w" if "vidx (Suc n) w = i" for w
    unfolding tr_def [of s "Suc n"] that using D(8) [OF n, of w] D(4,5) by (simp add: tr_def)
  have ways: "way s s2 (Suc n) (ent s t (vidx (Suc n) w)) (ent s2 t (vidx (Suc n) w)) w" if w: "Suc n = 3 \<longrightarrow> user_va w" for w
  proof (cases "vidx (Suc n) w = i")
    case False
    have "vidx (Suc n) w \<in> idxs (Suc n)" by (rule vidx_idxs) (use w in auto)
    then show ?thesis using way_same [OF same] ents [OF vidx_less] False n by simp
  next
    case True
    have down: "way s1 s2 n (ent s1 t' (vidx n w)) (ent s2 t' (vidx n w)) w" by (rule RD(9)) (use n in simp)
    show ?thesis
    proof (cases "pe_present ?e")
      case pres: True
      have k: "vidx n w \<in> idxs n" by (rule vidx_idxs) (use n in simp)
      have t': "t' = frame_of ?e" using D(5) D(12) [OF pres] by (auto simp: user_bit_set)
      have sub: "?Se = insert t' (owned s n t')" using pres t' by (simp add: sub_Suc)
      have P: "?Se \<subseteq> pages U" "t \<notin> ?Se" using Se own tM by auto
      have same1: "same_on ?Se (slot s) (slot s1)"
        by (rule same_on_frame [OF l t P(2,1,1), of "{i}"]) (use u D(10) in auto)
      have e1: "ent s1 t' (vidx n w) = ent s t' (vidx n w)" by (rule ent_cong [OF same1]) (use sub vidx_less t' in auto)
      have "way s s1 n (ent s t' (vidx n w)) (ent s1 t' (vidx n w)) w" unfolding e1
        by (rule way_same [OF same_on_mono [OF same1]]) (use sub sub_in_owned [OF k, of s t'] n in auto)
      then have "way s s2 n (ent s t' (vidx n w)) (ent s2 t' (vidx n w)) w" by (rule way_trans [OF _ down])
      then show ?thesis using pres D(12) [OF pres] t' unfolding True e2 by simp
    next
      case abs: False
      have "passable s2 n (ent s2 t' (vidx n w)) w" using down D(14) [OF abs vidx_less] by (intro way_from_zero) simp
      then show ?thesis using abs D(4,5) D(13) [OF abs] unfolding True e2 by simp
    qed
  qed
  show ?thesis
    unfolding updated_def
  proof (intro conjI allI impI ballI)
    show "way s s2 (Suc n) (ent s t (vidx (Suc n) w)) (ent s2 t (vidx (Suc n) w)) w" if "Suc n = 3 \<longrightarrow> user_va w" for w
      by (rule ways [OF that])
    show "user_way s2 (Suc n) (ent s2 t (vidx (Suc n) v)) v" if "r = 0 \<and> is_user"
      using that RD(10) D(15) D(5) e2 by (simp add: i_def [symmetric])
    have "with_pages ?U1 N = with_pages U (M \<union> N)" by auto
    then show "kpool_live st en s2 (with_pages U (M \<union> N))" using RD(1) by simp
    show "fresh (M \<union> N) U" by (rule fresh_union [OF D(2) RD(2)])
    show "table_ok s2 (Suc n) t" by (rule after(1))
    show "ent s2 t j = ent s t j" if "unat j < 512" "j \<noteq> vidx (Suc n) v" for j using ents that i_def by simp
    show "slot s2 x = slot s x" if x: "x \<in> covers U" "\<forall>q\<in>tables s (Suc n) t. x \<notin> blk q 12" for x
    proof -
      have tabs1: "tables s1 n t' = tabs s (Suc n) ?e \<union> M" using D(4,5,11) by (simp add: tabs_Suc)
      have "x \<notin> blk q 12" if "q \<in> tables s1 n t'" for q
        using that x tabs_in_tables [OF i, of s t] D(2) unfolding tabs1 by (auto simp: fresh_def)
      then have "slot s2 x = slot s1 x" using RD(4) [of x] x(1) by (auto simp: covers_with_pages)
      also have "\<dots> = slot s x" by (rule D(10) [OF x(1)]) (use x(2) table_word_in [OF at u] in \<open>auto simp: tables_def\<close>)
      finally show ?thesis .
    qed
    show "tr s2 (Suc n) t w = tr s (Suc n) t w"
      if w: "Suc n = 3 \<longrightarrow> user_va w" "\<exists>k\<le>Suc n. vidx k w \<noteq> vidx k v" for w
    proof (cases "vidx (Suc n) w = i")
      case True
      then obtain k where k: "k \<le> n" "vidx k w \<noteq> vidx k v" using w(2) i_def by (metis le_Suc_eq)
      then show ?thesis using RD(6) [OF _ k] n True tr2 trs by simp
    next
      case False
      then show ?thesis by (intro after(3)) (use n w(1) vidx_idxs [of "Suc n" w] in auto)
    qed
    show "r = 0 \<and> owned s2 (Suc n) t = (owned s (Suc n) t - old_page s (Suc n) t v) \<union> (M \<union> N) \<union> L \<and>
          (\<exists>e. tr s2 (Suc n) t v = trans s2 0 (f e) v) \<or>
        r = - ENOMEM \<and> tr s (Suc n) t v = None \<and> owned s2 (Suc n) t = owned s (Suc n) t \<union> (M \<union> N) \<and> tr s2 (Suc n) t v = None"
    proof (cases "r = 0")
      case True
      have "owned s2 (Suc n) t = (owned s (Suc n) t - ?O) \<union> (M \<union> N) \<union> L"
        unfolding own2 X using True O Se by auto
      then show ?thesis using RD(7) True old tr2 i_def by (auto simp: ENOMEM_def)
    next
      case False
      then have "owned s2 (Suc n) t = owned s (Suc n) t \<union> (M \<union> N)" unfolding own2 X using Se by auto
      then show ?thesis using RD(7) False tr1 tr2 i_def by auto
    qed
    show "M \<union> N = {}" if "tr s (Suc n) t v \<noteq> None"
    proof -
      have "pe_present ?e" using that by (auto simp: tr_def i_def split: if_splits)
      then show ?thesis using D(9) RD(8) tr1 that by auto
    qed
  qed
qed

lemma update_below_ok:
  assumes f: "\<And>e s. sub s 0 (f e) = L"
  shows "n \<le> 3 \<Longrightarrow> (n = 3 \<Longrightarrow> user_va v) \<Longrightarrow> kpool_live st en s U \<Longrightarrow> t \<in> pages U \<Longrightarrow> table_ok s n t \<Longrightarrow>
    owned s n t \<subseteq> pages U \<Longrightarrow> L \<subseteq> pages U \<Longrightarrow> L \<inter> insert t (owned s n t) = {} \<Longrightarrow>
    \<exists>r s' N. update_below n is_user f v t s = Some (r, s') \<and> updated is_user st en s U n t v f L r s' N"
proof (induction n arbitrary: s U t)
  case 0
  show ?case by (rule update_leaf_ok [OF 0(3,4,5,6) f 0(7,8)])
next
  case (Suc n)
  let ?i = "vidx (Suc n) v"
  let ?e = "ent s t ?i"
  have n: "n < 3" using Suc.prems(1) by simp
  have i: "?i \<in> idxs (Suc n)" by (rule vidx_idxs) (use Suc.prems(2) in auto)
  note tab = table_okD [OF Suc.prems(5) i]
  have sub: "sub s (Suc n) ?e \<subseteq> pages U" using sub_in_owned [OF i, of s t] Suc.prems(6) by blast
  consider (full) "\<not> pe_present ?e" "next_table is_user t ?i s = Some (None, s)"
    | (down) t' b s1 M where "next_table is_user t ?i s = Some (Some (t', b), s1)" "descended is_user st en s U n t ?i t' s1 M"
    using next_table_old [OF Suc.prems(3,4) vidx_less tab(1,2) sub, where is_user = is_user]
      next_table_new [OF Suc.prems(3,4) vidx_less _ tab(1), where is_user = is_user] by blast
  then show ?case
  proof cases
    case full
    have none: "tr s (Suc n) t v = None" using full(1) by (simp add: tr_def)
    have refl: "way s s (Suc n) e e w" for e w by (rule way_same) (use n in \<open>simp_all add: same_on_def\<close>)
    have "updated is_user st en s U (Suc n) t v f L (- ENOMEM) s {}"
      unfolding updated_def using Suc.prems(3,5) none refl by (simp add: ENOMEM_def)
    then show ?thesis using full(2) by auto
  next
    case down
    note D = descendedD [OF down(2)]
    have SM: "insert t' (owned s1 n t') = sub s (Suc n) ?e \<union> M" using D(4,5,7) by (simp add: sub_Suc)
    have tab1: "table_ok s1 n t'" and small: "\<not> (n = 0 \<and> pe_page_size (ent s1 t ?i))"
      using D(4,5,6) by (auto simp: entry_ok_Suc)
    have "owned s1 n t' \<subseteq> sub s (Suc n) ?e \<union> M" using SM by blast
    then have "owned s1 n t' \<subseteq> pages (with_pages U M)" using sub by auto
    moreover have "L \<subseteq> pages (with_pages U M)" "L \<inter> insert t' (owned s1 n t') = {}"
      using Suc.prems(7,8) sub_in_owned [OF i, of s t] fresh_pages [OF D(2)] unfolding SM by auto
    ultimately obtain r s2 N where s2: "update_below n is_user f v t' s1 = Some (r, s2)"
        "updated is_user st en s1 (with_pages U M) n t' v f L r s2 N"
      using Suc.IH [OF _ _ D(1,3) tab1] n by auto
    have "updated is_user st en s U (Suc n) t v f L r s2 (M \<union> N)"
      by (rule update_step [OF n Suc.prems(3-8) _ refl down(2) s2(2)]) (rule Suc.prems(2))
    moreover have "update_below (Suc n) is_user f v t s = Some (r, s2)" using down(1) small s2(1) by auto
    ultimately show ?thesis by blast
  qed
qed

section \<open>Address spaces\<close>

text \<open>The translation of an address, and when two addresses lie on the same page.\<close>

definition translate :: "kbuddy \<Rightarrow> u64 \<Rightarrow> u64 \<Rightarrow> u64 option" where
  "translate s root v = tr s 3 root v"

definition same_page :: "u64 \<Rightarrow> u64 \<Rightarrow> bool" where
  "same_page v w \<longleftrightarrow> take_bit 36 (drop_bit 12 v) = take_bit 36 (drop_bit 12 w)"

lemma lookup_translate:
  "lookup_user_in_pml4 root v s =
     (case translate s root v of None \<Rightarrow> Inl (- ENOENT) | Some e \<Rightarrow> Inr (frame_of e))"
  by (simp add: lookup_trans translate_def tr_def vidx_IDX)

lemma bit_vidx: "bit (vidx n v) i \<longleftrightarrow> i < 9 \<and> bit v (12 + 9 * n + i)"
proof -
  have "(0x1FF :: u64) = mask 9" by (simp add: mask_eq_exp_minus_1)
  then have "bit (0x1FF :: u64) i \<longleftrightarrow> i < 9" by (auto simp only: bit_mask_iff) simp
  then show ?thesis by (auto simp: vidx_def bit_and_iff bit_drop_bit_eq)
qed

lemma other_page: "\<not> same_page w v \<Longrightarrow> \<exists>k\<le>3. vidx k w \<noteq> vidx k v"
proof (rule ccontr)
  assume "\<not> same_page w v" and "\<not> (\<exists>k\<le>3. vidx k w \<noteq> vidx k v)"
  then have eq: "vidx k w = vidx k v" if "k \<le> 3" for k using that by blast
  have "bit w (12 + i) = bit v (12 + i)" if "i < 36" for i
  proof -
    have "i div 9 \<le> 3" "9 * (i div 9) + i mod 9 = i" "i mod 9 < 9" using that by auto
    then show ?thesis using bit_vidx [of "i div 9" w "i mod 9"] bit_vidx [of "i div 9" v "i mod 9"] eq [of "i div 9"]
      by (simp add: add.assoc)
  qed
  then have "same_page w v" unfolding same_page_def
    by (intro word64_bits_eqI) (auto simp: bit_take_bit_iff bit_drop_bit_eq)
  then show False using \<open>\<not> same_page w v\<close> by simp
qed

lemma same_page_vidx: "same_page w v \<Longrightarrow> k \<le> 3 \<Longrightarrow> vidx k w = vidx k v"
proof -
  assume sp: "same_page w v" and k: "k \<le> 3"
  have b: "bit w (12 + i) = bit v (12 + i)" if "i < 36" for i
  proof -
    have "bit (take_bit 36 (drop_bit 12 w)) i = bit (take_bit 36 (drop_bit 12 v)) i" using sp by (simp add: same_page_def)
    then show ?thesis using that by (simp add: bit_take_bit_iff bit_drop_bit_eq)
  qed
  have "bit w (12 + 9 * k + i) = bit v (12 + 9 * k + i)" if "i < 9" for i
    using b [of "9 * k + i"] that k by (simp add: add.assoc)
  then show ?thesis by (intro word64_bits_eqI) (auto simp: bit_vidx)
qed

lemma same_page_translate:
  assumes "same_page w v"
  shows "translate s root w = translate s root v"
proof -
  have "trans s n e w = trans s n e v" if "n \<le> 3" for n e
    using that by (induction n arbitrary: e) (simp_all add: same_page_vidx [OF assms])
  then show ?thesis by (simp add: translate_def tr_def same_page_vidx [OF assms])
qed

end
