(* ===== verification/Paging_Props.thy ===== *)
theory Paging_Props
  imports Paging_Map
begin

text \<open>
  The properties of user address spaces: mapping and unmapping a page, the deep copy made by
  \<^verbatim>\<open>fork\<close>, and the release at exit.
\<close>

section \<open>Leaf entries\<close>

lemma leaf_entry_bits:
  "bit (leaf_entry phy flags e) 0" "bit (leaf_entry phy flags e) (Suc 0) \<longleftrightarrow> flags AND RW_PAGE \<noteq> 0"
  "bit (leaf_entry phy flags e) 2 \<longleftrightarrow> flags AND USER_PAGE \<noteq> 0"
  "bit (leaf_entry phy flags e) 4 \<longleftrightarrow> flags AND CACHE_DIS_PAGE \<noteq> 0"
  "bit (leaf_entry phy flags e) 63 \<longleftrightarrow> flags AND NX_PAGE \<noteq> 0"
  by (simp_all add: leaf_entry_def bit_put_flag bit_put_address)

lemma leaf_entry_frame:
  assumes "aligned phy 12" and "unat phy < 2 ^ 52"
  shows "frame_of (leaf_entry phy flags e) = phy"
  using frame_put_address [OF assms] by (simp add: leaf_entry_def)

lemma leaf_entry_sub:
  assumes "aligned phy 12" and "unat phy < 2 ^ 52"
  shows "sub s 0 (leaf_entry phy flags e) = (if flags AND CACHE_DIS_PAGE \<noteq> 0 then {} else {phy})"
  using leaf_entry_bits leaf_entry_frame [OF assms] by (simp add: pe_present_def pe_pcd_def)

section \<open>Rights of the pages that stay\<close>

text \<open>
  A page whose translation stays keeps its rights to be written and executed, and is not taken
  from the user.
\<close>

definition rights_kept :: "kbuddy \<Rightarrow> kbuddy \<Rightarrow> u64 \<Rightarrow> bool" where
  "rights_kept s s' root \<longleftrightarrow> (\<forall>w. user_va w \<and> translate s' root w = translate s root w \<longrightarrow>
     (write_access s' root w \<longleftrightarrow> write_access s root w) \<and> (exec_access s' root w \<longleftrightarrow> exec_access s root w) \<and>
     (user_access s root w \<longrightarrow> user_access s' root w))"

lemma ways_rights:
  assumes "ways s s' root"
  shows "rights_kept s s' root"
  unfolding rights_kept_def
proof (intro allI impI)
  fix w assume w: "user_va w \<and> translate s' root w = translate s root w"
  let ?e = "ent s root (PML4_IDX w)" and ?e' = "ent s' root (PML4_IDX w)"
  have y: "way s s' 3 ?e ?e' w" using assms w by (simp add: ways_def)
  show "(write_access s' root w \<longleftrightarrow> write_access s root w) \<and> (exec_access s' root w \<longleftrightarrow> exec_access s root w) \<and>
     (user_access s root w \<longrightarrow> user_access s' root w)"
  proof (cases "translate s root w")
    case None
    then have "trans s 3 ?e w = None" "trans s' 3 ?e' w = None" using w by (simp_all add: translate_def tr_def vidx_IDX)
    then show ?thesis using allows_trans unfolding access_defs by metis
  next
    case (Some l)
    then have "trans s 3 ?e w = Some l" "trans s' 3 ?e' w = Some l" using w by (simp_all add: translate_def tr_def vidx_IDX)
    then show ?thesis unfolding access_defs using way_keeps [OF y] way_user [OF y] by (simp add: user_bit_set)
  qed
qed

lemma ways_open: "ways s s' root \<Longrightarrow> user_va w \<Longrightarrow> open_way s root w \<Longrightarrow> open_way s' root w"
  unfolding ways_def open_way_def using way_passable by blast

lemma ways_trans: "ways s s1 root \<Longrightarrow> ways s1 s2 root \<Longrightarrow> ways s s2 root"
  unfolding ways_def using way_trans by blast

lemma open_way_decides:
  assumes "open_way s root v" and "translate s root v = Some e"
  shows "write_access s root v \<longleftrightarrow> bit e 1" and "exec_access s root v \<longleftrightarrow> \<not> bit e 63"
  using passable_decides [of s 3 "ent s root (PML4_IDX v)" v e] assms
  by (simp_all add: access_defs open_way_def translate_def tr_def vidx_IDX)

section \<open>An address space to work with\<close>

text \<open>The page the example pool has handed out becomes an empty top-level table.\<close>

definition demo_empty :: kbuddy where
  "demo_empty = zero_page 0x10000 demo_pool"

abbreviation demo_used :: "(u64 \<times> nat) set" where
  "demo_used \<equiv> {(0x10000, 12)}"

lemma demo_live: "kpool_live 0x10000 0x14000 demo_empty demo_used"
proof -
  have "kpool_live 0x10000 0x14000 demo_pool demo_used"
    using demo_reachable demo_range by (simp add: kpool_live_def)
  then show ?thesis unfolding demo_empty_def by (rule zero_page_live) simp
qed

lemma demo_entry: "unat i < 512 \<Longrightarrow> ent demo_empty 0x10000 i = 0"
  unfolding demo_empty_def by (rule ent_zero_page) (simp_all add: aligned_def)

lemma demo_owned: "owned demo_empty 3 0x10000 = {}"
  using demo_entry by (auto simp: owned_def dest!: idxs_512)

lemma demo_aspace: "aspace demo_empty demo_used 0x10000"
proof -
  have "table_ok demo_empty 3 0x10000" using demo_entry by (auto simp: table_ok_def dest!: idxs_512)
  then show ?thesis using demo_owned by (simp add: aspace_def)
qed

lemma demo_translate: "translate demo_empty 0x10000 v = None"
  using demo_entry [OF vidx_less] by (simp add: translate_def tr_def)

section \<open>Mapping a page\<close>

lemma aspaceD:
  assumes "aspace s U root"
  shows "root \<in> pages U" and "table_ok s 3 root" and "owned s 3 root \<subseteq> pages U"
  using assms by (auto simp: aspace_def)

lemma map_page_ok:
  assumes l: "kpool_live st en s U" and a: "aspace s U root" and v: "user_va v" and new: "translate s root v = None"
    and phy: "aligned phy 12" "unat phy < 2 ^ 52"
    and own: "flags AND CACHE_DIS_PAGE \<noteq> 0 \<or> phy \<in> pages U \<and> phy \<noteq> root \<and> phy \<notin> owned s 3 root"
  shows "\<exists>r s' N. map_page_to_virt_in root v phy flags False s = Some (r, s') \<and>
    kpool_live st en s' (with_pages U N) \<and> fresh N U \<and> aspace s' (with_pages U N) root \<and>
    (\<forall>x\<in>covers U. (\<forall>q\<in>tables s 3 root. x \<notin> blk q 12) \<longrightarrow> slot s' x = slot s x) \<and>
    (\<forall>w. user_va w \<and> \<not> same_page w v \<longrightarrow> translate s' root w = translate s root w) \<and>
    (r = 0 \<and> owned s' 3 root = owned s 3 root \<union> N \<union> (if flags AND CACHE_DIS_PAGE \<noteq> 0 then {} else {phy}) \<and>
       (\<exists>e. translate s' root v = Some (leaf_entry phy flags e)) \<or>
     r = - ENOMEM \<and> owned s' 3 root = owned s 3 root \<union> N \<and> translate s' root v = None) \<and>
    ways s s' root \<and> (r = 0 \<longrightarrow> (user_access s' root v \<longleftrightarrow> flags AND USER_PAGE \<noteq> 0))"
proof -
  let ?L = "if flags AND CACHE_DIS_PAGE \<noteq> 0 then {} else {phy}"
  note A = aspaceD [OF a]
  obtain r s' N where s': "update_below 3 (flags AND USER_PAGE \<noteq> 0) (leaf_entry phy flags) v root s = Some (r, s')"
      and R: "updated (flags AND USER_PAGE \<noteq> 0) st en s U 3 root v (leaf_entry phy flags) ?L r s' N"
    using update_below_ok [where f = "leaf_entry phy flags" and L = ?L and is_user = "flags AND USER_PAGE \<noteq> 0",
        OF leaf_entry_sub [OF phy] order_refl v l A] own by (cases "flags AND CACHE_DIS_PAGE = 0") auto
  note RD = updatedD [OF R]
  have old: "old_page s 3 root v = {}" using new by (simp add: old_page_def translate_def)
  have own': "owned s' 3 root \<subseteq> pages (with_pages U N)" using RD(7) old A(3) own by (auto split: if_splits)
  have a': "aspace s' (with_pages U N) root" using A(1) RD(3) own' by (simp add: aspace_def)
  have oth: "\<forall>w. user_va w \<and> \<not> same_page w v \<longrightarrow> translate s' root w = translate s root w"
    using other_page RD(6) unfolding translate_def by blast
  have far: "\<forall>x\<in>covers U. (\<forall>q\<in>tables s 3 root. x \<notin> blk q 12) \<longrightarrow> slot s' x = slot s x"
    using RD(4) by blast
  have res: "r = 0 \<and> owned s' 3 root = owned s 3 root \<union> N \<union> ?L \<and> (\<exists>e. translate s' root v = Some (leaf_entry phy flags e)) \<or>
     r = - ENOMEM \<and> owned s' 3 root = owned s 3 root \<union> N \<and> translate s' root v = None"
    using RD(7) old leaf_entry_bits(1) by (auto simp: translate_def pe_present_def)
  have wy: "ways s s' root" using RD(9) by (simp add: ways_def vidx_IDX)
  have us: "r = 0 \<longrightarrow> (user_access s' root v \<longleftrightarrow> flags AND USER_PAGE \<noteq> 0)"
  proof
    assume r: "r = 0"
    then obtain e where e: "trans s' 3 (ent s' root (PML4_IDX v)) v = Some (leaf_entry phy flags e)"
      using res by (auto simp: translate_def tr_def vidx_IDX ENOMEM_def)
    show "user_access s' root v \<longleftrightarrow> flags AND USER_PAGE \<noteq> 0"
      using user_way_decides [OF _ e] allows_leaf [OF _ e, of "\<lambda>e. bit e 2"] RD(10) [OF r] leaf_entry_bits(3) [of phy flags e]
      by (auto simp: user_access_def vidx_IDX)
  qed
  show ?thesis
    by (intro exI [of _ r] exI [of _ s'] exI [of _ N] conjI RD(1,2) a' oth far res wy us) (use s' map_page_descent in simp)
qed

text \<open>
  The example address space: all four pages of the example pool are the tables that lead from
  \<open>0x500000000000\<close> to the device page \<open>0xB8000\<close>.
\<close>

definition demo_taken :: kbuddy where
  "demo_taken =
     (let s = snd (the (kernel_request_buddy 0x1000 demo_pool));
          s = snd (the (kernel_request_buddy 0x1000 s))
      in snd (the (kernel_request_buddy 0x1000 s)))"

definition demo_space :: kbuddy where
  "demo_space = demo_taken\<lparr>slot := (\<lambda>x.
     if x = 0x10000 + 8 * 0xA0 then 0x11007 else if x = 0x11000 then 0x12007
     else if x = 0x12000 then 0x13007 else if x = 0x13000 then 0xB8017
     else if 0x10000 \<le> x \<and> x < 0x14000 then 0 else slot demo_taken x)\<rparr>"

lemma demo_taken_requests:
  "map_option fst (kernel_request_buddy 0x1000 demo_pool) = Some 0x11000"
  "map_option fst (kernel_request_buddy 0x1000 (snd (the (kernel_request_buddy 0x1000 demo_pool)))) = Some 0x12000"
  "map_option fst (kernel_request_buddy 0x1000
     (snd (the (kernel_request_buddy 0x1000 (snd (the (kernel_request_buddy 0x1000 demo_pool))))))) = Some 0x13000"
  by code_simp+

abbreviation demo_tables :: "(u64 \<times> nat) set" where
  "demo_tables \<equiv> {(0x13000, 12), (0x12000, 12), (0x11000, 12), (0x10000, 12)}"

lemma demo_aligned: "aligned 0x10000 12" "aligned 0x11000 12" "aligned 0x12000 12" "aligned 0x13000 12"
  by (simp_all add: aligned_def)

lemma demo_space_live: "kpool_live 0x10000 0x14000 demo_space demo_tables"
proof -
  obtain s1 where s1: "kernel_request_buddy 0x1000 demo_pool = Some (0x11000, s1)"
    using demo_taken_requests(1) by auto
  obtain s2 where s2: "kernel_request_buddy 0x1000 s1 = Some (0x12000, s2)"
    using demo_taken_requests(2) unfolding s1 by auto
  obtain s3 where s3: "kernel_request_buddy 0x1000 s2 = Some (0x13000, s3)"
    using demo_taken_requests(3) unfolding s1 option.sel prod.sel s2 by auto
  have f: "fits 0x1000 12" by (simp add: fits_def)
  have "kpool_reachable 0x10000 0x14000 s3 demo_tables"
    using request [OF request [OF request [OF demo_reachable _ s1 _ f] _ s2 _ f] _ s3 _ f] by simp
  then have r: "kpool_reachable 0x10000 0x14000 demo_taken demo_tables"
    unfolding demo_taken_def s1 option.sel prod.sel s2 Let_def s3 .
  have cov: "x \<in> covers demo_tables" if "0x10000 \<le> x" "x < 0x14000" for x
    using that demo_aligned by (simp add: blk_interval word_le_nat_alt word_less_nat_alt) linarith
  have "kpool_reachable 0x10000 0x14000 demo_space demo_tables"
    unfolding demo_space_def
  proof (rule owner_writes [OF r], intro allI impI)
    fix x :: u64 assume "x \<notin> covers demo_tables"
    then have "\<not> (0x10000 \<le> x \<and> x < 0x14000)" using cov by blast
    then show "(if x = 0x10000 + 8 * 0xA0 then 0x11007 else if x = 0x11000 then 0x12007
       else if x = 0x12000 then 0x13007 else if x = 0x13000 then 0xB8017
       else if 0x10000 \<le> x \<and> x < 0x14000 then 0 else slot demo_taken x) = slot demo_taken x" by auto
  qed
  then show ?thesis using demo_range by (simp add: kpool_live_def)
qed

lemma demo_ents:
  assumes "unat i < 512"
  shows "ent demo_space 0x10000 i = (if i = 0xA0 then 0x11007 else 0)"
    and "ent demo_space 0x11000 i = (if i = 0 then 0x12007 else 0)"
    and "ent demo_space 0x12000 i = (if i = 0 then 0x13007 else 0)"
    and "ent demo_space 0x13000 i = (if i = 0 then 0xB8017 else 0)"
  using table_word [OF demo_aligned(1) assms] table_word [OF demo_aligned(2) assms]
    table_word [OF demo_aligned(3) assms] table_word [OF demo_aligned(4) assms] assms
  by (simp_all add: ent_def demo_space_def word_unat_eq_iff word_le_nat_alt word_less_nat_alt)

lemma demo_frames:
  "frame_of 0x11007 = 0x11000" "frame_of 0x12007 = 0x12000" "frame_of 0x13007 = 0x13000" "frame_of 0xB8017 = 0xB8000"
  "pe_present 0x11007" "pe_present 0x12007" "pe_present 0x13007" "pe_present 0xB8017" "pe_pcd 0xB8017"
  "\<not> pe_page_size 0x11007" "\<not> pe_page_size 0x12007" "\<not> pe_page_size 0x13007"
  by code_simp+

lemma single_table:
  assumes "\<And>j. j \<in> idxs n \<Longrightarrow> ent s t j = (if j = i then e else 0)" and "i \<in> idxs n"
    and "entry_ok s n e" and "t \<notin> sub s n e"
  shows "table_ok s n t" and "owned s n t = sub s n e"
  using assms by (auto simp: table_ok_def owned_def split: if_splits)

lemma demo_tree:
  "table_ok demo_space 3 0x10000" "owned demo_space 3 0x10000 = {0x11000, 0x12000, 0x13000}"
proof -
  have i: "0 \<in> idxs n" "0xA0 \<in> idxs 3" for n by (simp_all add: idxs_iff)
  have s0: "sub demo_space 0 0xB8017 = {}" using demo_frames by simp
  have t0: "table_ok demo_space 0 0x13000" "owned demo_space 0 0x13000 = {}"
    using single_table [where n = 0 and s = demo_space and t = "0x13000" and i = 0 and e = "0xB8017"] demo_ents(4) i s0 by auto
  have s1: "sub demo_space (Suc 0) 0x13007 = {0x13000}" using demo_frames t0 by (simp add: sub_Suc)
  have t1: "table_ok demo_space (Suc 0) 0x12000" "owned demo_space (Suc 0) 0x12000 = {0x13000}"
    using single_table [where n = "Suc 0" and s = demo_space and t = "0x12000" and i = 0 and e = "0x13007"] demo_ents(3) i s1 t0 demo_frames
    by (auto simp: entry_ok_Suc)
  have s2: "sub demo_space (Suc (Suc 0)) 0x12007 = {0x12000, 0x13000}" using demo_frames t1 by (simp add: sub_Suc)
  have t2: "table_ok demo_space (Suc (Suc 0)) 0x11000" "owned demo_space (Suc (Suc 0)) 0x11000 = {0x12000, 0x13000}"
    using single_table [where n = "Suc (Suc 0)" and s = demo_space and t = "0x11000" and i = 0 and e = "0x12007"] demo_ents(2) i s2 t1 demo_frames
    by (auto simp: entry_ok_Suc)
  have s3: "sub demo_space 3 0x11007 = {0x11000, 0x12000, 0x13000}"
    using demo_frames t2 unfolding numeral_3_eq_3 by (simp add: sub_Suc)
  have e3: "entry_ok demo_space 3 0x11007" using demo_frames t2 unfolding numeral_3_eq_3 by (simp add: entry_ok_Suc)
  show "table_ok demo_space 3 0x10000" "owned demo_space 3 0x10000 = {0x11000, 0x12000, 0x13000}"
    using single_table [where n = 3 and s = demo_space and t = "0x10000" and i = "0xA0" and e = "0x11007"] demo_ents(1) i s3 e3 by auto
qed

lemma demo_space_aspace: "aspace demo_space demo_tables 0x10000"
  using demo_tree by (simp add: aspace_def)

lemma demo_space_translate: "translate demo_space 0x10000 0x500000000000 = Some 0xB8017"
proof -
  have v: "vidx 3 0x500000000000 = 0xA0" "vidx (Suc (Suc 0)) 0x500000000000 = 0" "vidx (Suc 0) 0x500000000000 = 0"
    "vidx 0 0x500000000000 = 0" by code_simp+
  show ?thesis unfolding translate_def tr_def v(1)
    using demo_ents [of 0] demo_ents(1) [of "0xA0"] demo_frames v by (simp add: numeral_3_eq_3)
qed

section \<open>Unmapping, copying and releasing\<close>

lemma aspace_small:
  assumes a: "table_ok s 3 root" and v: "user_va v" and m: "translate s root v \<noteq> None"
  shows "\<not> pe_page_size (ent s (frame_of (ent s (frame_of (ent s root (PML4_IDX v))) (PDPT_IDX v))) (PD_IDX v))"
proof -
  let ?e4 = "ent s root (PML4_IDX v)"
  let ?e3 = "ent s (frame_of ?e4) (PDPT_IDX v)"
  have i: "vidx 3 v \<in> idxs 3" "vidx (Suc (Suc 0)) v \<in> idxs (Suc (Suc 0))" "vidx (Suc 0) v \<in> idxs (Suc 0)"
    by (rule vidx_idxs; use v in simp)+
  have p: "pe_present ?e4" "pe_present ?e3"
    using m by (auto simp: translate_def tr_def numeral_3_eq_3 vidx_IDX vidx_IDX(1) [unfolded numeral_3_eq_3] split: if_splits)
  have "entry_ok s 3 ?e4" using table_okD(1) [OF a i(1)] by (simp add: vidx_IDX)
  then have t: "table_ok s (Suc (Suc 0)) (frame_of ?e4)" using p(1) by (simp add: numeral_3_eq_3 entry_ok_Suc)
  have "entry_ok s (Suc (Suc 0)) ?e3" using table_okD(1) [OF t i(2)] by (simp add: vidx_IDX)
  then have "table_ok s (Suc 0) (frame_of ?e3)" using p(2) by (simp add: entry_ok_Suc)
  from table_okD(1) [OF this i(3)] show ?thesis by (simp add: vidx_IDX entry_ok_Suc)
qed

lemma mapped_present: "tr s n t v = Some e \<Longrightarrow> pe_present e"
proof -
  have "pe_present e" if "trans s n d v = Some e" for n d
    using that by (induction n arbitrary: d) (auto split: if_splits)
  then show "tr s n t v = Some e \<Longrightarrow> pe_present e" unfolding tr_def by blast
qed

lemma unmap_page_ok:
  assumes l: "kpool_live st en s U" and a: "aspace s U root" and v: "user_va v"
    and m: "translate s root v = Some e"
  obtains s' where "unmap_page_in root v s = (0, Some v, s')" "kpool_live st en s' U" "aspace s' U root"
    "translate s' root v = None" "owned s' 3 root = owned s 3 root - (if pe_pcd e then {} else {frame_of e})"
    "\<And>w. user_va w \<Longrightarrow> \<not> same_page w v \<Longrightarrow> translate s' root w = translate s root w"
    "\<And>x. x \<in> covers U \<Longrightarrow> \<forall>q\<in>tables s 3 root. x \<notin> blk q 12 \<Longrightarrow> slot s' x = slot s x" "ways s s' root"
proof -
  note A = aspaceD [OF a]
  have none: "sub s 0 (put_flag 0 False e) = {}" for s e by simp
  obtain r s' N where s': "update_below 3 False (put_flag 0 False) v root s = Some (r, s')"
      and R: "updated False st en s U 3 root v (put_flag 0 False) {} r s' N"
    using update_below_ok [where f = "put_flag 0 False" and is_user = False, OF none order_refl v l A] by auto
  note RD = updatedD [OF R]
  have m': "tr s 3 root v = Some e" using m by (simp add: translate_def)
  have N: "N = {}" using RD(8) m' by simp
  have res: "owned s' 3 root = owned s 3 root - (if pe_pcd e then {} else {frame_of e})" "tr s' 3 root v = None"
    using RD(7) m' N mapped_present [OF m'] by (auto simp: old_page_def)
  show thesis
  proof (rule that)
    show "unmap_page_in root v s = (0, Some v, s')"
      unfolding unmap_page_descent using m' aspace_small [OF A(2) v] m s' by simp
    show "kpool_live st en s' U" using RD(1) N by simp
    show "aspace s' U root" using A RD(3) res(1) by (auto simp: aspace_def)
    show "translate s' root v = None" using res(2) by (simp add: translate_def)
    show "owned s' 3 root = owned s 3 root - (if pe_pcd e then {} else {frame_of e})" by (rule res(1))
    show "translate s' root w = translate s root w" if "user_va w" "\<not> same_page w v" for w
      using other_page [OF that(2)] RD(6) that(1) unfolding translate_def by blast
    show "slot s' x = slot s x" if "x \<in> covers U" "\<forall>q\<in>tables s 3 root. x \<notin> blk q 12" for x
      using RD(4) [of x] that by blast
    show "ways s s' root" using RD(9) by (simp add: ways_def vidx_IDX)
  qed
qed

text \<open>Copies translate every address alike.\<close>

definition page_copy :: "kbuddy \<Rightarrow> kbuddy \<Rightarrow> u64 set \<Rightarrow> u64 option \<Rightarrow> u64 option \<Rightarrow> bool" where
  "page_copy s s' N p c \<longleftrightarrow>
     (case p of
        None \<Rightarrow> c = None
      | Some e \<Rightarrow>
          if pe_pcd e then c = Some e
          else \<exists>d. c = Some d \<and> d = put_address (pe_address d) e \<and> frame_of d \<in> N \<and>
            (\<forall>k. unat k < 4096 \<longrightarrow> slot s' (frame_of d + k) = slot s (frame_of e + k)))"

lemma copy_of_trans:
  "copy_of s n e d \<Longrightarrow> n \<le> 3 \<Longrightarrow> sub s n d \<subseteq> N \<Longrightarrow> page_copy s s N (trans s n e v) (trans s n d v)"
proof (induction n arbitrary: e d)
  case 0
  show ?case
  proof (cases "pe_present e \<and> \<not> pe_pcd e")
    case True
    then have d: "d = put_address (pe_address d) e" using 0(1) by auto
    have "pe_present d \<and> \<not> pe_pcd d" using True by (subst (1 2) d) simp
    then show ?thesis using True 0 d by (simp add: page_copy_def)
  qed (use 0 in \<open>auto simp: page_copy_def\<close>)
next
  case (Suc n)
  show ?case
  proof (cases "pe_present e")
    case True
    have i: "vidx n v \<in> idxs n" by (rule vidx_idxs) (use Suc.prems(2) in simp)
    have d: "d = put_address (pe_address d) e" using Suc.prems(1) True by simp
    have p: "pe_present d" using True by (subst d) simp
    have "sub s n (ent s (frame_of d) (vidx n v)) \<subseteq> N"
      using Suc.prems(3) p sub_in_owned [OF i, of s "frame_of d"] by (auto simp: sub_Suc)
    then show ?thesis using Suc.IH [of "ent s (frame_of e) (vidx n v)" "ent s (frame_of d) (vidx n v)"]
        Suc.prems(1,2) True p i by simp
  qed (use Suc.prems in \<open>simp add: page_copy_def\<close>)
qed

text \<open>A copy of an entry has its bits outside the address, on every level.\<close>

lemma copy_of_allows:
  assumes P: "\<And>a e. P (put_address a e) \<longleftrightarrow> P e"
  shows "copy_of s n e d \<Longrightarrow> n \<le> 3 \<Longrightarrow> allows P s n d v \<longleftrightarrow> allows P s n e v"
proof (induction n arbitrary: e d)
  case 0
  show ?case
  proof (cases "pe_present e \<and> \<not> pe_pcd e")
    case True
    then have d: "d = put_address (pe_address d) e" using 0(1) by auto
    show ?thesis by (subst d) (simp add: P)
  qed (use 0 in \<open>auto split: if_splits\<close>)
next
  case (Suc n)
  show ?case
  proof (cases "pe_present e")
    case True
    have i: "vidx n v \<in> idxs n" by (rule vidx_idxs) (use Suc.prems(2) in simp)
    have d: "d = put_address (pe_address d) e" using Suc.prems(1) True by simp
    have "pe_present d" "P d \<longleftrightarrow> P e" by (subst d, simp add: True, subst d, simp add: P)
    then show ?thesis using Suc.IH [of "ent s (frame_of e) (vidx n v)" "ent s (frame_of d) (vidx n v)"]
        Suc.prems True i by simp
  qed (use Suc.prems in simp)
qed

lemma clone_kernel_ok:
  assumes l: "kpool_live st en s U"
  shows "clone_kernel_pml4 pml4 s = Some (Inl (- ENOMEM), s) \<or>
    (\<exists>q s'. clone_kernel_pml4 pml4 s = Some (Inr q, s') \<and> q \<notin> pages U \<and> blk q 12 \<inter> covers U = {} \<and>
       kpool_live st en s' (insert (q, 12) U) \<and> (\<forall>x\<in>covers U. slot s' x = slot s x) \<and>
       (\<forall>i\<in>idxs 3. ent s' q i = 0))"
proof (cases rule: kpool.request_cases [OF l])
  case 1
  then show ?thesis by (simp add: clone_kernel_pml4_def)
next
  case (2 q s1)
  let ?step = "\<lambda>i s. set_ent q (of_nat i) (ent s pml4 (of_nat i)) s"
  have upper: "kpool_live st en (fold ?step is s0) (insert (q, 12) U) \<and>
      (\<forall>x. x \<notin> blk q 12 \<longrightarrow> slot (fold ?step is s0) x = slot s0 x) \<and>
      (\<forall>j\<in>idxs 3. ent (fold ?step is s0) q j = ent s0 q j)"
    if "kpool_live st en s0 (insert (q, 12) U)" "set is \<subseteq> {256..<512}" for "is" s0
    using that
  proof (induction "is" arbitrary: s0)
    case (Cons i "is")
    have u: "unat (of_nat i :: u64) = i" "i < 512" "256 \<le> i" using Cons.prems(2) by (auto simp: unat_of_nat)
    have l1: "kpool_live st en (?step i s0) (insert (q, 12) U)"
      by (rule set_ent_live [OF Cons.prems(1)]) (use u in auto)
    have "ent (?step i s0) q j = ent s0 q j" if "j \<in> idxs 3" for j
    proof -
      have "unat j < 256" using that by (simp add: idxs_iff)
      then have "j \<noteq> of_nat i" "unat j < 512" using u by auto
      then show ?thesis using ent_set_ent [OF 2(4), of "of_nat i" j] u by simp
    qed
    moreover have "slot (?step i s0) x = slot s0 x" if "x \<notin> blk q 12" for x
      using that table_word_in [OF 2(4), of "of_nat i"] u by (auto simp: set_ent_slot)
    ultimately show ?case using Cons.IH [OF l1] Cons.prems(2) by auto
  qed simp
  define top where "top = [256..<512::nat]"
  let ?s = "fold ?step top (zero_page q s1)"
  have "kpool_live st en (zero_page q s1) (insert (q, 12) U)" by (rule zero_page_live [OF 2(7)]) simp
  then have U: "kpool_live st en ?s (insert (q, 12) U)" "\<forall>x. x \<notin> blk q 12 \<longrightarrow> slot ?s x = slot (zero_page q s1) x"
    "\<forall>j\<in>idxs 3. ent ?s q j = ent (zero_page q s1) q j"
    using upper [of "zero_page q s1" top] by (auto simp: top_def simp del: upt_rec_numeral)
  have "slot ?s x = slot s x" if "x \<in> covers U" for x
  proof -
    have "x \<notin> blk q 12" using that 2(6) by blast
    then show ?thesis using U(2) 2(8) that by (simp add: zero_page_slot)
  qed
  moreover have "ent ?s q i = 0" if "i \<in> idxs 3" for i
    using U(3) that ent_zero_page [OF 2(4) idxs_512 [OF that], of s1] by simp
  ultimately show ?thesis using 2(1-3,6) U(1) unfolding clone_kernel_pml4_def top_def [symmetric]
    by (intro disjI2 exI [of _ q] exI [of _ ?s]) simp
qed

lemma copied_translation:
  assumes l: "kpool_live st en s U" and a: "aspace s U parent"
    and cov: "\<And>x. x \<in> covers U \<Longrightarrow> slot s2 x = slot s x"
    and cp: "copy_of s2 3 (ent s parent (vidx 3 v)) (ent s2 c (vidx 3 v))" and N: "owned s2 3 c = N" and v: "user_va v"
  shows "page_copy s s2 N (translate s parent v) (translate s2 c v)"
proof -
  note A = aspaceD [OF a]
  let ?i = "vidx 3 v"
  have ap: "aligned parent 12" by (rule kpool.page_ok [OF l A(1)])
  have i: "?i \<in> idxs 3" using vidx_idxs v by blast
  have e: "ent s2 parent ?i = ent s parent ?i"
    using cov in_covers [OF _ table_word_in [OF ap vidx_less], of U 3 v] A(1) by (auto simp: ent_def)
  from copy_of_trans [OF cp order_refl, of N v]
  have p: "page_copy s2 s2 N (translate s2 parent v) (translate s2 c v)"
    using sub_in_owned [OF i, of s2 c] N e by (simp add: translate_def tr_def)
  have same2: "same_on (insert parent (owned s 3 parent)) (slot s) (slot s2)"
    unfolding same_on_def using cov A(1,3) in_covers by blast
  have "translate s2 parent v = translate s parent v"
    unfolding translate_def tr_def e
    by (rule trans_cong [OF same_on_mono [OF same2]]) (use sub_in_owned [OF i, of s parent] in auto)
  moreover have "slot s2 (frame_of d + k) = slot s (frame_of d + k)"
    if d: "translate s parent v = Some d" "\<not> pe_pcd d" and k: "unat k < 4096" for d k
  proof -
    have "frame_of d \<in> old_page s 3 parent v"
      using d mapped_present [of s 3 parent v d] by (simp add: old_page_def translate_def)
    then have "frame_of d \<in> pages U" using old_page_owned [of 3 v s parent] v A(3) by auto
    then show ?thesis using cov in_covers [OF _ page_word [OF frame_of_aligned k], of d U] by blast
  qed
  ultimately show ?thesis using p unfolding page_copy_def by (auto split: option.splits)
qed

lemma copied_rights:
  assumes l: "kpool_live st en s U" and a: "aspace s U parent"
    and cov: "\<And>x. x \<in> covers U \<Longrightarrow> slot s2 x = slot s x"
    and cp: "copy_of s2 3 (ent s parent (vidx 3 v)) (ent s2 c (vidx 3 v))" and v: "user_va v"
  shows "user_access s2 c v \<longleftrightarrow> user_access s parent v" "write_access s2 c v \<longleftrightarrow> write_access s parent v"
    "exec_access s2 c v \<longleftrightarrow> exec_access s parent v"
proof -
  note A = aspaceD [OF a]
  let ?e = "ent s parent (vidx 3 v)"
  have i: "vidx 3 v \<in> idxs 3" using vidx_idxs v by blast
  have same: "same_on (insert parent (owned s 3 parent)) (slot s) (slot s2)"
    unfolding same_on_def using cov A(1,3) in_covers by blast
  have "allows P s2 3 ?e v \<longleftrightarrow> allows P s 3 ?e v" for P
    by (rule allows_cong [OF same_on_mono [OF same]]) (use sub_in_owned [OF i, of s parent] in auto)
  then have "allows P s2 3 (ent s2 c (vidx 3 v)) v \<longleftrightarrow> allows P s 3 ?e v" if "\<And>a e. P (put_address a e) \<longleftrightarrow> P e" for P
    using copy_of_allows [OF that cp order_refl] by simp
  then show "user_access s2 c v \<longleftrightarrow> user_access s parent v" "write_access s2 c v \<longleftrightarrow> write_access s parent v"
    "exec_access s2 c v \<longleftrightarrow> exec_access s parent v" unfolding access_defs vidx_IDX(1) [symmetric] by (simp_all add: bit_put_address)
qed

text \<open>The error path gives back what a partial copy has allocated.\<close>

lemma clone_undo:
  assumes l: "kpool_live st en s (with_pages U (insert c N))" and tab: "table_ok s 3 c" and N: "owned s 3 c = N"
    and fr: "fresh (insert c N) U"
  shows "\<exists>s1 s2. free_user_address_space c s = Some s1 \<and> free_cloned_pml4 c s1 = Some s2 \<and>
    kpool_live st en s2 U \<and> (\<forall>x\<in>covers U. slot s2 x = slot s x)"
proof -
  have cN: "c \<notin> N" using table_okD(2) [OF tab] N by (auto simp: owned_def)
  obtain s1 where s1: "each (free_entry 3 c) (user_idxs 3) s = Some s1"
      "kpool_live st en s1 (without_pages (with_pages U (insert c N)) N)"
      "\<And>x. x \<in> covers (without_pages (with_pages U (insert c N)) N) \<Longrightarrow> x \<notin> blk c 12 \<Longrightarrow> slot s1 x = slot s x"
    by (rule free_table_ok [OF l _ tab, unfolded N]) (auto intro: that)
  have U1: "without_pages (with_pages U (insert c N)) N = insert (c, 12) U"
    using fresh_pages [OF fr] cN by auto
  obtain s2 where s2: "kernel_free_buddy c s1 = Some s2" "kpool_live st en s2 (insert (c, 12) U - {(c, 12)})"
      "\<forall>x\<in>covers (insert (c, 12) U - {(c, 12)}). slot s2 x = slot s1 x"
    using kpool.release_ok [OF s1(2) [unfolded U1], of c] by auto
  have U2: "insert (c, 12) U - {(c, 12)} = U" using fresh_pages [OF fr, of c] by auto
  have "slot s2 x = slot s x" if "x \<in> covers U" for x
    using s2(3) s1(3) [of x] that fr unfolding U1 U2 by (auto simp: fresh_def)
  then show ?thesis using s1(1) s2(1,2) unfolding U2
    by (auto simp: free_user_address_space_def free_cloned_pml4_def)
qed

section \<open>Properties\<close>

text \<open>
  C33. Mapping a page into an address space, at a user address that is not mapped: the call
  returns, and either the address now translates to the frame, or the pool was exhausted and the
  address stays unmapped.  The rights are those asked for, taken over all the entries that the
  processor reads on the way: the user may access the page exactly if the user flag was asked for,
  and, if no table that was already on the way forbids it, the page may be written exactly if
  the write flag was, and executed exactly if the no-execute flag was not; no mapping makes a table
  on the way to any address forbid either.  No other page of the user half changes its
  translation or its rights to be written or executed, and none is taken from the user; no
  allocated memory outside the tables is written, the tables added are fresh pages, and the
  address space is again a tree without sharing that owns exactly the old pages, the new tables
  and the frame (a device frame is not owned).
\<close>

theorem map_page_correct:
  assumes "kpool_live st en s U" and "aspace s U root" and "user_va v" and "translate s root v = None"
    and "aligned phy 12" and "unat phy < 2 ^ 52"
    and "flags AND CACHE_DIS_PAGE \<noteq> 0 \<or> phy \<in> pages U \<and> phy \<noteq> root \<and> phy \<notin> owned s 3 root"
  shows "\<exists>r s' N. map_page_to_virt_in root v phy flags False s = Some (r, s') \<and>
    kpool_live st en s' (with_pages U N) \<and> fresh N U \<and> aspace s' (with_pages U N) root \<and>
    (\<forall>x\<in>covers U. (\<forall>q\<in>tables s 3 root. x \<notin> blk q 12) \<longrightarrow> slot s' x = slot s x) \<and>
    (\<forall>w. user_va w \<and> \<not> same_page w v \<longrightarrow> translate s' root w = translate s root w) \<and>
    rights_kept s s' root \<and> (\<forall>w. user_va w \<and> open_way s root w \<longrightarrow> open_way s' root w) \<and>
    (r = 0 \<and> lookup_user_in_pml4 root v s' = Inr phy \<and>
       owned s' 3 root = owned s 3 root \<union> N \<union> (if flags AND CACHE_DIS_PAGE \<noteq> 0 then {} else {phy}) \<and>
       (user_access s' root v \<longleftrightarrow> flags AND USER_PAGE \<noteq> 0) \<and>
       (open_way s root v \<longrightarrow>
          (write_access s' root v \<longleftrightarrow> flags AND RW_PAGE \<noteq> 0) \<and> (exec_access s' root v \<longleftrightarrow> flags AND NX_PAGE = 0)) \<or>
     r = - ENOMEM \<and> lookup_user_in_pml4 root v s' = Inl (- ENOENT) \<and> owned s' 3 root = owned s 3 root \<union> N)"
proof -
  obtain r s' N where R: "map_page_to_virt_in root v phy flags False s = Some (r, s')"
      "kpool_live st en s' (with_pages U N)" "fresh N U" "aspace s' (with_pages U N) root"
      "\<forall>x\<in>covers U. (\<forall>q\<in>tables s 3 root. x \<notin> blk q 12) \<longrightarrow> slot s' x = slot s x"
      "\<forall>w. user_va w \<and> \<not> same_page w v \<longrightarrow> translate s' root w = translate s root w"
      "r = 0 \<and> owned s' 3 root = owned s 3 root \<union> N \<union> (if flags AND CACHE_DIS_PAGE \<noteq> 0 then {} else {phy}) \<and>
         (\<exists>e. translate s' root v = Some (leaf_entry phy flags e)) \<or>
       r = - ENOMEM \<and> owned s' 3 root = owned s 3 root \<union> N \<and> translate s' root v = None"
      "ways s s' root" "r = 0 \<longrightarrow> (user_access s' root v \<longleftrightarrow> flags AND USER_PAGE \<noteq> 0)"
    using map_page_ok [OF assms] by (elim exE conjE) (rule that)
  have open': "\<forall>w. user_va w \<and> open_way s root w \<longrightarrow> open_way s' root w" using ways_open [OF R(8)] by blast
  have ok: "lookup_user_in_pml4 root v s' = Inr phy"
      "open_way s root v \<longrightarrow>
         (write_access s' root v \<longleftrightarrow> flags AND RW_PAGE \<noteq> 0) \<and> (exec_access s' root v \<longleftrightarrow> flags AND NX_PAGE = 0)"
    if e: "translate s' root v = Some (leaf_entry phy flags e)" for e
    using e leaf_entry_frame [OF assms(5,6)] leaf_entry_bits open_way_decides [OF _ e] open' assms(3)
    by (simp_all add: lookup_translate)
  have bad: "lookup_user_in_pml4 root v s' = Inl (- ENOENT)" if "translate s' root v = None"
    using that by (simp add: lookup_translate)
  from R(7,9) have "r = 0 \<and> lookup_user_in_pml4 root v s' = Inr phy \<and>
       owned s' 3 root = owned s 3 root \<union> N \<union> (if flags AND CACHE_DIS_PAGE \<noteq> 0 then {} else {phy}) \<and>
       (user_access s' root v \<longleftrightarrow> flags AND USER_PAGE \<noteq> 0) \<and>
       (open_way s root v \<longrightarrow>
          (write_access s' root v \<longleftrightarrow> flags AND RW_PAGE \<noteq> 0) \<and> (exec_access s' root v \<longleftrightarrow> flags AND NX_PAGE = 0)) \<or>
     r = - ENOMEM \<and> lookup_user_in_pml4 root v s' = Inl (- ENOENT) \<and> owned s' 3 root = owned s 3 root \<union> N"
    using ok bad by blast
  then show ?thesis by (intro exI [of _ r] exI [of _ s'] exI [of _ N] conjI R(1-6) ways_rights [OF R(8)] open')
qed

lemma demo_open: "open_way demo_empty 0x10000 v"
proof -
  have "ent demo_empty 0x10000 (PML4_IDX v) = 0" using demo_entry [OF vidx_less, of 3 v] by (simp add: vidx_IDX)
  moreover have "passable demo_empty n 0 v" for n by (cases n) simp_all
  ultimately show ?thesis by (simp add: open_way_def)
qed

theorem map_page_correct_witness:
  "\<exists>r s' N. map_page_to_virt_in 0x10000 0x500000000000 0xB8000 (RW_USER OR CACHE_DIS_PAGE) False demo_empty = Some (r, s') \<and>
    kpool_live 0x10000 0x14000 s' (with_pages demo_used N) \<and> fresh N demo_used \<and>
    aspace s' (with_pages demo_used N) 0x10000 \<and>
    (r = 0 \<and> lookup_user_in_pml4 0x10000 0x500000000000 s' = Inr 0xB8000 \<and> user_access s' 0x10000 0x500000000000 \<and>
       write_access s' 0x10000 0x500000000000 \<and> \<not> exec_access s' 0x10000 0x500000000000 \<or>
     r = - ENOMEM \<and> lookup_user_in_pml4 0x10000 0x500000000000 s' = Inl (- ENOENT))"
proof -
  have v: "user_va 0x500000000000" by code_simp
  have f: "(RW_USER OR CACHE_DIS_PAGE) AND CACHE_DIS_PAGE \<noteq> 0" "(RW_USER OR CACHE_DIS_PAGE) AND USER_PAGE \<noteq> 0"
    "(RW_USER OR CACHE_DIS_PAGE) AND RW_PAGE \<noteq> 0" "(RW_USER OR CACHE_DIS_PAGE) AND NX_PAGE \<noteq> 0" by code_simp+
  have p: "aligned 0xB8000 12" "unat (0xB8000 :: u64) < 2 ^ 52" by (simp_all add: aligned_def)
  let ?v = "0x500000000000 :: u64" and ?f = "RW_USER OR CACHE_DIS_PAGE"
  obtain r s' N where R: "map_page_to_virt_in 0x10000 ?v 0xB8000 ?f False demo_empty = Some (r, s')"
      "kpool_live 0x10000 0x14000 s' (with_pages demo_used N)" "fresh N demo_used" "aspace s' (with_pages demo_used N) 0x10000"
      "r = 0 \<and> lookup_user_in_pml4 0x10000 ?v s' = Inr 0xB8000 \<and>
       owned s' 3 0x10000 = owned demo_empty 3 0x10000 \<union> N \<union> (if ?f AND CACHE_DIS_PAGE \<noteq> 0 then {} else {0xB8000}) \<and>
       (user_access s' 0x10000 ?v \<longleftrightarrow> ?f AND USER_PAGE \<noteq> 0) \<and>
       (open_way demo_empty 0x10000 ?v \<longrightarrow>
          (write_access s' 0x10000 ?v \<longleftrightarrow> ?f AND RW_PAGE \<noteq> 0) \<and> (exec_access s' 0x10000 ?v \<longleftrightarrow> ?f AND NX_PAGE = 0)) \<or>
     r = - ENOMEM \<and> lookup_user_in_pml4 0x10000 ?v s' = Inl (- ENOENT) \<and> owned s' 3 0x10000 = owned demo_empty 3 0x10000 \<union> N"
    using map_page_correct [OF demo_live demo_aspace v demo_translate p disjI1 [OF f(1)]] by (elim exE conjE) (rule that)
  have "r = 0 \<and> lookup_user_in_pml4 0x10000 ?v s' = Inr 0xB8000 \<and> user_access s' 0x10000 ?v \<and>
       write_access s' 0x10000 ?v \<and> \<not> exec_access s' 0x10000 ?v \<or>
     r = - ENOMEM \<and> lookup_user_in_pml4 0x10000 ?v s' = Inl (- ENOENT)" using R(5) f(2-4) demo_open by blast
  then show ?thesis using R(1-4) by blast
qed

text \<open>
  C34. Unmapping a user page: an address that is not mapped gives \<open>-ENOENT\<close> and nothing changes;
  otherwise the call succeeds, asks for the shootdown of that address, and afterwards exactly
  that page is unmapped: the other translations are kept, nothing is allocated or freed, and the
  address space stops owning the frame, which is still allocated and now the caller's to free.
\<close>

theorem unmap_page_correct:
  assumes "kpool_live st en s U" and "aspace s U root" and "user_va v"
  shows "case translate s root v of
      None \<Rightarrow> unmap_page_in root v s = (- ENOENT, None, s)
    | Some e \<Rightarrow> \<exists>s'. unmap_page_in root v s = (0, Some v, s') \<and> kpool_live st en s' U \<and> aspace s' U root \<and>
        lookup_user_in_pml4 root v s' = Inl (- ENOENT) \<and>
        owned s' 3 root = owned s 3 root - (if pe_pcd e then {} else {frame_of e}) \<and>
        (\<forall>w. user_va w \<and> \<not> same_page w v \<longrightarrow> translate s' root w = translate s root w) \<and>
        (\<forall>x\<in>covers U. (\<forall>q\<in>tables s 3 root. x \<notin> blk q 12) \<longrightarrow> slot s' x = slot s x)"
proof (cases "translate s root v")
  case None
  then show ?thesis by (simp add: unmap_page_descent translate_def)
next
  case (Some e)
  obtain s' where s': "unmap_page_in root v s = (0, Some v, s')" "kpool_live st en s' U" "aspace s' U root"
      "translate s' root v = None" "owned s' 3 root = owned s 3 root - (if pe_pcd e then {} else {frame_of e})"
      "\<And>w. user_va w \<Longrightarrow> \<not> same_page w v \<Longrightarrow> translate s' root w = translate s root w"
      "\<And>x. x \<in> covers U \<Longrightarrow> \<forall>q\<in>tables s 3 root. x \<notin> blk q 12 \<Longrightarrow> slot s' x = slot s x"
    by (rule unmap_page_ok [OF assms Some]) (rule that)
  then have "\<forall>w. user_va w \<and> \<not> same_page w v \<longrightarrow> translate s' root w = translate s root w"
    "\<forall>x\<in>covers U. (\<forall>q\<in>tables s 3 root. x \<notin> blk q 12) \<longrightarrow> slot s' x = slot s x" by blast+
  then show ?thesis using Some s'(1-5) by (simp add: lookup_translate)
qed

theorem unmap_page_correct_witness:
  "\<exists>s'. unmap_page_in 0x10000 0x500000000000 demo_space = (0, Some 0x500000000000, s') \<and>
     aspace s' demo_tables 0x10000 \<and> lookup_user_in_pml4 0x10000 0x500000000000 s' = Inl (- ENOENT)"
proof -
  have v: "user_va 0x500000000000" by code_simp
  show ?thesis
    using unmap_page_correct [OF demo_space_live demo_space_aspace v] unfolding demo_space_translate by auto
qed

text \<open>
  C35. The address space of a forked child.  The copy returns; when memory runs out everything
  allocated on the way is given back and the pool is as before; otherwise the child is a tree of
  fresh pages, disjoint from every allocated block, in which every user address translates as in
  the parent: unmapped addresses stay unmapped, device pages are shared, every other page is a
  private page with the same contents and a mapping entry that differs only in the address; and
  every user address has the same rights as in the parent (user access, writing, execution),
  taken over all the entries the processor reads on the way.  The parent is not written.
\<close>

theorem clone_user_pml4_correct:
  assumes "kpool_live st en s U" and "aspace s U parent"
  shows "(\<exists>s'. clone_user_pml4 pml4 parent s = Some (Inl (- ENOMEM), s') \<and> kpool_live st en s' U \<and>
      (\<forall>x\<in>covers U. slot s' x = slot s x)) \<or>
    (\<exists>child s' N. clone_user_pml4 pml4 parent s = Some (Inr child, s') \<and>
      kpool_live st en s' (with_pages U (insert child N)) \<and> fresh (insert child N) U \<and>
      (\<forall>x\<in>covers U. slot s' x = slot s x) \<and>
      aspace s' (with_pages U (insert child N)) child \<and> owned s' 3 child = N \<and>
      (\<forall>v. user_va v \<longrightarrow> page_copy s s' N (translate s parent v) (translate s' child v) \<and>
        (user_access s' child v \<longleftrightarrow> user_access s parent v) \<and> (write_access s' child v \<longleftrightarrow> write_access s parent v) \<and>
        (exec_access s' child v \<longleftrightarrow> exec_access s parent v)))"
proof (cases rule: disjE [OF clone_kernel_ok [OF assms(1), of pml4], case_names full fresh])
  case full
  then show ?thesis using assms(1) by (simp add: clone_user_pml4_def)
next
  case fresh
  then obtain c s1 where c: "clone_kernel_pml4 pml4 s = Some (Inr c, s1)" "c \<notin> pages U" "blk c 12 \<inter> covers U = {}"
      "kpool_live st en s1 (insert (c, 12) U)" "\<forall>x\<in>covers U. slot s1 x = slot s x" "\<forall>i\<in>idxs 3. ent s1 c i = 0"
    by blast
  note A = aspaceD [OF assms(2)]
  let ?U1 = "insert (c, 12) U"
  have same1: "same_on (insert parent (owned s 3 parent)) (slot s) (slot s1)"
    unfolding same_on_def using c(5) A(1,3) in_covers by blast
  have ap: "aligned parent 12" by (rule kpool.page_ok [OF assms(1) A(1)])
  have tab1: "table_ok s1 3 parent" "owned s1 3 parent = owned s 3 parent"
    using owned_cong [OF same1 ap] A(2) by auto
  have ready: "clone_ready s1 ?U1 3 parent c i" if i: "i \<in> idxs 3" for i
    using table_okD [OF tab1(1) i] sub_in_owned [OF i, of s1 parent] tab1(2) A(3) c(2,6) i
    unfolding clone_ready_def by auto
  obtain r s2 N where s2: "until_error (clone_entry 3 parent c) (user_idxs 3) s1 = Some (r, s2)"
      and R: "clone_result st en s1 ?U1 3 parent c (idxs 3) r s2 N"
    by (rule clonesD [OF clones_all c(4) _ _ _ ready]) (use A(1) c(2) in auto)
  note RD = clone_resultD [OF R]
  have N: "owned s2 3 c = N" using RD(6) by (simp add: owned_def)
  have cN: "c \<notin> N" using fresh_pages [OF RD(2)] by auto
  have tab2: "table_ok s2 3 c" unfolding table_ok_def using RD(7,8) cN RD(6) by auto
  have cw: "x \<notin> (\<lambda>i. c + 8 * i) ` idxs 3" if "x \<in> covers U" for x
    using that c(3) table_word_in [OF kpool.page_ok [OF c(4)], of c] by (force dest: idxs_512)
  have cov: "slot s2 x = slot s x" if "x \<in> covers U" for x
    using RD(3) [OF _ cw [OF that]] that c(5) by simp
  have fr: "fresh (insert c N) U" using RD(2) c(3) by (auto simp: fresh_def)
  have U2: "with_pages ?U1 N = with_pages U (insert c N)" by auto
  show ?thesis
  proof (cases "r = 0")
    case True
    have cp: "copy_of s2 3 (ent s parent (vidx 3 v)) (ent s2 c (vidx 3 v))" if v: "user_va v" for v
    proof -
      have i: "vidx 3 v \<in> idxs 3" using vidx_idxs v by blast
      have "ent s1 parent (vidx 3 v) = ent s parent (vidx 3 v)"
        using c(5) in_covers [OF _ table_word_in [OF ap vidx_less], of U 3 v] A(1) by (auto simp: ent_def)
      then show ?thesis using RD(5) [OF True i] by simp
    qed
    have "page_copy s s2 N (translate s parent v) (translate s2 c v) \<and>
        (user_access s2 c v \<longleftrightarrow> user_access s parent v) \<and> (write_access s2 c v \<longleftrightarrow> write_access s parent v) \<and>
        (exec_access s2 c v \<longleftrightarrow> exec_access s parent v)" if v: "user_va v" for v
      using copied_translation [OF assms cov cp [OF v] N v] copied_rights [OF assms cov cp [OF v] v] by blast
    moreover have "clone_user_pml4 pml4 parent s = Some (Inr c, s2)"
      using c(1) s2 True by (simp add: clone_user_pml4_def)
    moreover have "aspace s2 (with_pages U (insert c N)) c" using tab2 N by (auto simp: aspace_def)
    ultimately show ?thesis using RD(1) fr cov N unfolding U2 by blast
  next
    case False
    then have r: "r = - ENOMEM" "r < 0" using RD(4) by (auto simp: ENOMEM_def)
    obtain s3 s4 where "free_user_address_space c s2 = Some s3" "free_cloned_pml4 c s3 = Some s4"
        "kpool_live st en s4 U" "\<forall>x\<in>covers U. slot s4 x = slot s2 x"
      using clone_undo [OF RD(1) [unfolded U2] tab2 N fr] by blast
    then show ?thesis using c(1) s2 r cov by (auto simp: clone_user_pml4_def)
  qed
qed

theorem clone_user_pml4_correct_witness:
  "(\<exists>s'. clone_user_pml4 0x200000 0x10000 demo_space = Some (Inl (- ENOMEM), s') \<and>
      kpool_live 0x10000 0x14000 s' demo_tables) \<or>
    (\<exists>child s' N. clone_user_pml4 0x200000 0x10000 demo_space = Some (Inr child, s') \<and>
      translate s' child 0x500000000000 = Some 0xB8017)"
proof -
  have v: "user_va 0x500000000000" by code_simp
  show ?thesis using clone_user_pml4_correct [OF demo_space_live demo_space_aspace, of "0x200000"] v demo_frames(9)
    unfolding page_copy_def by (auto simp: demo_space_translate)
qed

text \<open>
  C36. Releasing an address space returns, gives back exactly the tables and pages it owns and
  nothing else (device pages and the top-level table stay), writes no memory that stays allocated
  outside the top-level table, and leaves no user address mapped.
\<close>

theorem free_user_address_space_correct:
  assumes "kpool_live st en s U" and "aspace s U root"
  shows "\<exists>s'. free_user_address_space root s = Some s' \<and> kpool_live st en s' (without_pages U (owned s 3 root)) \<and>
    (\<forall>x\<in>covers (without_pages U (owned s 3 root)). x \<notin> blk root 12 \<longrightarrow> slot s' x = slot s x) \<and>
    (\<forall>v. user_va v \<longrightarrow> lookup_user_in_pml4 root v s' = Inl (- ENOENT))"
proof -
  note A = aspaceD [OF assms(2)]
  obtain s' where s': "each (free_entry 3 root) (user_idxs 3) s = Some s'"
      "kpool_live st en s' (without_pages U (owned s 3 root))"
      "\<And>x. x \<in> covers (without_pages U (owned s 3 root)) \<Longrightarrow> x \<notin> blk root 12 \<Longrightarrow> slot s' x = slot s x"
      "\<And>i. i \<in> idxs 3 \<Longrightarrow> \<not> pe_present (ent s' root i)"
    by (rule free_table_ok [OF assms(1) A]) (rule that)
  have "lookup_user_in_pml4 root v s' = Inl (- ENOENT)" if "user_va v" for v
    using s'(4) [of "vidx 3 v"] vidx_idxs [of 3 v] that by (simp add: lookup_translate translate_def tr_def)
  then show ?thesis using s'(1-3) by (auto simp: free_user_address_space_def)
qed

theorem free_user_address_space_correct_witness:
  "\<exists>s'. free_user_address_space 0x10000 demo_space = Some s' \<and>
     kpool_live 0x10000 0x14000 s' (without_pages demo_tables {0x11000, 0x12000, 0x13000}) \<and>
     lookup_user_in_pml4 0x10000 0x500000000000 s' = Inl (- ENOENT)"
proof -
  have v: "user_va 0x500000000000" by code_simp
  show ?thesis using free_user_address_space_correct [OF demo_space_live demo_space_aspace] v
    unfolding demo_tree(2) by blast
qed

end
