(* ===== verification/Mmap.thy ===== *)
theory Mmap
  imports Paging_Props
begin

text \<open>
  The memory mapping system calls of \<^verbatim>\<open>interrupts/syscall_handler.c\<close>: anonymous memory
  (\<^verbatim>\<open>MmapHandler\<close>), device memory (\<^verbatim>\<open>MmapFileHandler\<close>) and \<^verbatim>\<open>MunmapHandler\<close>.  The state is the page
  pool with its memory and the two fields of the calling task the handlers use.  Registers are
  arguments.  The loops advance an offset by a page up to the size rounded to pages; they are
  recursions over the number of pages.
\<close>

record mm =
  mm_pool :: kbuddy
  mm_cr3 :: u64
  mm_next :: u64

definition USER_MMAP_BASE :: u64 where "USER_MMAP_BASE = 0x0000500000000000"
definition USER_MMAP_END :: u64 where "USER_MMAP_END = 0x0000700000000000"

definition round_pages :: "u64 \<Rightarrow> u64" where
  "round_pages sz = (sz + PAGE_SIZE - 1) AND NOT (PAGE_SIZE - 1)"

definition page_count :: "u64 \<Rightarrow> nat" where
  "page_count sz = unat (drop_bit 12 sz)"

section \<open>Anonymous memory\<close>

text \<open>
  The mapping loop: the number of pages mapped, and whether it reached the end; on failure the
  page at hand has been released.
\<close>

fun mmap_loop :: "u64 \<Rightarrow> u64 \<Rightarrow> nat \<Rightarrow> kbuddy \<Rightarrow> (nat \<times> bool \<times> kbuddy) option" where
  "mmap_loop root va 0 s = Some (0, True, s)"
| "mmap_loop root va (Suc n) s =
     Option.bind (kernel_request_buddy PAGE_SIZE s) (\<lambda>(phys, s).
       if phys = 0 then Some (0, False, s)
       else
         let s = zero_page phys s in
         Option.bind (map_page_to_virt_in root va phys RW_USER False s) (\<lambda>(r, s).
           if r < 0 then map_option (\<lambda>s. (0, False, s)) (kernel_free_buddy phys s)
           else map_option (\<lambda>(k, ok, s). (Suc k, ok, s)) (mmap_loop root (va + PAGE_SIZE) n s)))"

text \<open>One page of the walk back, and of \<^verbatim>\<open>munmap\<close>: look up, unmap, release.\<close>

definition unmap_and_free :: "u64 \<Rightarrow> u64 \<Rightarrow> kbuddy \<Rightarrow> kbuddy option" where
  "unmap_and_free root va s =
     (case lookup_user_in_pml4 root va s of
        Inl _ \<Rightarrow> Some s
      | Inr phys \<Rightarrow> kernel_free_buddy phys (snd (snd (unmap_page_in root va s))))"

fun munmap_loop :: "u64 \<Rightarrow> u64 \<Rightarrow> nat \<Rightarrow> kbuddy \<Rightarrow> kbuddy option" where
  "munmap_loop root va 0 s = Some s"
| "munmap_loop root va (Suc n) s = Option.bind (unmap_and_free root va s) (munmap_loop root (va + PAGE_SIZE) n)"

definition mmap_start :: "mm \<Rightarrow> mm" where
  "mmap_start m = (if mm_next m = 0 then m\<lparr>mm_next := USER_MMAP_BASE\<rparr> else m)"

definition MmapHandler :: "u64 \<Rightarrow> mm \<Rightarrow> ((int + u64) \<times> mm) option" where
  "MmapHandler sz m =
     (if sz = 0 then Some (Inl (- EINVAL), m)
      else
        let sz = round_pages sz; m = mmap_start m in
        if mm_next m + sz > USER_MMAP_END then Some (Inl (- ENOMEM), m)
        else
          let va = mm_next m in
          Option.bind (mmap_loop (mm_cr3 m) va (page_count sz) (mm_pool m)) (\<lambda>(k, ok, s).
            if ok then Some (Inr va, m\<lparr>mm_pool := s, mm_next := mm_next m + sz\<rparr>)
            else map_option (\<lambda>s. (Inl (- ENOMEM), m\<lparr>mm_pool := s\<rparr>)) (munmap_loop (mm_cr3 m) va k s)))"

section \<open>Unmapping\<close>

definition MunmapHandler :: "u64 \<Rightarrow> u64 \<Rightarrow> mm \<Rightarrow> (int \<times> mm) option" where
  "MunmapHandler addr sz m =
     (if addr AND (PAGE_SIZE - 1) \<noteq> 0 then Some (- EINVAL, m)
      else if sz = 0 then Some (- EINVAL, m)
      else
        let sz = round_pages sz in
        if addr < USER_MMAP_BASE \<or> addr + sz > USER_MMAP_END then Some (- EINVAL, m)
        else map_option (\<lambda>s. (0, m\<lparr>mm_pool := s\<rparr>)) (munmap_loop (mm_cr3 m) addr (page_count sz) (mm_pool m)))"

section \<open>Device memory\<close>

text \<open>
  \<open>mmap_phys\<close> is the driver's function: the physical page at an offset, or an error.  The file
  look-up and the test for the operation are the first steps of the handler; \<open>f\<close> is their result.
\<close>

definition MMAP_FILE_FLAGS :: u64 where
  "MMAP_FILE_FLAGS = PRESENT_PAGE OR RW_PAGE OR USER_PAGE OR NX_PAGE OR WRITE_THROUGH_PAGE OR CACHE_DIS_PAGE"

fun mmap_file_loop :: "(u64 \<Rightarrow> int + u64) \<Rightarrow> u64 \<Rightarrow> u64 \<Rightarrow> u64 \<Rightarrow> nat \<Rightarrow> kbuddy \<Rightarrow> (nat \<times> bool \<times> kbuddy) option" where
  "mmap_file_loop mmap_phys root va off 0 s = Some (0, True, s)"
| "mmap_file_loop mmap_phys root va off (Suc n) s =
     (case mmap_phys off of
        Inl _ \<Rightarrow> Some (0, False, s)
      | Inr phys \<Rightarrow>
          Option.bind (map_page_to_virt_in root (va + off) phys MMAP_FILE_FLAGS False s) (\<lambda>(r, s).
            if r < 0 then Some (0, False, s)
            else map_option (\<lambda>(k, ok, s). (Suc k, ok, s)) (mmap_file_loop mmap_phys root va (off + PAGE_SIZE) n s)))"

fun unmap_loop :: "u64 \<Rightarrow> u64 \<Rightarrow> nat \<Rightarrow> kbuddy \<Rightarrow> kbuddy" where
  "unmap_loop root va 0 s = s"
| "unmap_loop root va (Suc n) s = unmap_loop root (va + PAGE_SIZE) n (snd (snd (unmap_page_in root va s)))"

definition MmapFileHandler :: "(u64 \<Rightarrow> int + u64) option option \<Rightarrow> u64 \<Rightarrow> mm \<Rightarrow> ((int + u64) \<times> mm) option" where
  "MmapFileHandler f sz m =
     (if sz = 0 then Some (Inl (- EINVAL), m)
      else
        let sz = round_pages sz in
        case f of
          None \<Rightarrow> Some (Inl (- EBADF), m)
        | Some None \<Rightarrow> Some (Inl (- ENOTSUP), m)
        | Some (Some mmap_phys) \<Rightarrow>
            let m = mmap_start m in
            if mm_next m + sz > USER_MMAP_END then Some (Inl (- ENOMEM), m)
            else
              let va = mm_next m in
              Option.bind (mmap_file_loop mmap_phys (mm_cr3 m) va 0 (page_count sz) (mm_pool m)) (\<lambda>(k, ok, s).
                if ok then Some (Inr va, m\<lparr>mm_pool := s, mm_next := mm_next m + sz\<rparr>)
                else Some (Inl (- ENOMEM), m\<lparr>mm_pool := unmap_loop (mm_cr3 m) va k s\<rparr>)))"

end
