(* ===== verification/Mmap_Props.thy ===== *)
theory Mmap_Props
  imports Mmap
begin

text \<open>
  The memory system calls over the address-space lemmas: what the mapping loop and the unmapping
  loop do to a range of pages, and the property of \<^verbatim>\<open>mmap\<close>.
\<close>

section \<open>Address spaces under changes elsewhere\<close>

lemma leaf_not_table:
  "table_ok s n t \<Longrightarrow> n \<le> 3 \<Longrightarrow> (n = 3 \<Longrightarrow> user_va v) \<Longrightarrow> tr s n t v = Some e \<Longrightarrow> \<not> pe_pcd e \<Longrightarrow>
   frame_of e \<in> owned s n t \<and> frame_of e \<notin> tables s n t"
proof (induction n arbitrary: t)
  case 0
  have i: "vidx 0 v \<in> idxs 0" by (rule vidx_idxs) simp
  have e: "ent s t (vidx 0 v) = e" "pe_present e" using 0(4) by (auto simp: tr_def split: if_splits)
  then show ?case using table_okD(2) [OF 0(1) i] sub_in_owned [OF i, of s t] 0(5) by (auto simp: tables_def)
next
  case (Suc n)
  let ?i = "vidx (Suc n) v"
  let ?e = "ent s t ?i"
  have i: "?i \<in> idxs (Suc n)" by (rule vidx_idxs) (use Suc.prems(3) in auto)
  have p: "pe_present ?e" "tr s n (frame_of ?e) v = Some e" using Suc.prems(4) by (auto simp: tr_def split: if_splits)
  have "table_ok s n (frame_of ?e)" using table_okD(1) [OF Suc.prems(1) i] p(1) by (simp add: entry_ok_Suc)
  from Suc.IH [OF this _ _ p(2) Suc.prems(5)]
  have f: "frame_of e \<in> sub s (Suc n) ?e" "frame_of e \<notin> tabs s (Suc n) ?e"
    using Suc.prems(2) p(1) by (auto simp: sub_Suc tabs_Suc)
  have "frame_of e \<notin> tabs s (Suc n) (ent s t j)" if "j \<in> idxs (Suc n)" for j
    using table_okD(3) [OF Suc.prems(1) i that] f tabs_sub [of s "Suc n" "ent s t j"] by (cases "j = ?i") auto
  moreover have "frame_of e \<noteq> t" using table_okD(2) [OF Suc.prems(1) i] f(1) by blast
  ultimately show ?case using f(1) sub_in_owned [OF i, of s t] by (auto simp: tables_def)
qed

lemma ways_refl: "ways s s root"
  unfolding ways_def by (blast intro: way_same [OF same_on_refl order_refl])

lemma aspace_keep:
  assumes l: "kpool_live st en s U" and a: "aspace s U root"
    and same: "same_on (insert root (owned s 3 root)) (slot s) (slot s')"
    and V: "insert root (owned s 3 root) \<subseteq> pages V"
  shows "aspace s' V root" and "owned s' 3 root = owned s 3 root"
    and "user_va w \<Longrightarrow> translate s' root w = translate s root w" and "ways s s' root"
proof -
  note A = aspaceD [OF a]
  have al: "aligned root 12" by (rule kpool.page_ok [OF l A(1)])
  note c = owned_cong [OF same al]
  show "aspace s' V root" "owned s' 3 root = owned s 3 root" using c A(2) V by (auto simp: aspace_def)
  have e: "ent s' root (vidx 3 w) = ent s root (vidx 3 w)" for w by (rule ent_cong [OF same _ al vidx_less]) simp
  have "way s s' 3 (ent s root (vidx 3 w)) (ent s root (vidx 3 w)) w" if "user_va w" for w
    by (rule way_same [OF same_on_mono [OF same]]) (use sub_in_owned [of "vidx 3 w" 3 s root] vidx_idxs [of 3 w] that in auto)
  then show "ways s s' root" using e by (simp add: ways_def vidx_IDX)
  assume w: "user_va w"
  have i: "vidx 3 w \<in> idxs 3" using w vidx_idxs by blast
  show "translate s' root w = translate s root w" unfolding translate_def tr_def e
    by (rule trans_cong [OF same_on_mono [OF same]]) (use sub_in_owned [OF i, of s root] in auto)
qed

lemma free_unowned:
  assumes l: "kpool_live st en s U" and a: "aspace s U root" and p: "p \<in> pages U" "p \<noteq> root" "p \<notin> owned s 3 root"
  obtains s' where "kernel_free_buddy p s = Some s'" "kpool_live st en s' (U - {(p, 12)})"
    "aspace s' (U - {(p, 12)}) root" "owned s' 3 root = owned s 3 root"
    "\<And>w. user_va w \<Longrightarrow> translate s' root w = translate s root w"
    "\<And>x. x \<in> covers (U - {(p, 12)}) \<Longrightarrow> slot s' x = slot s x" "ways s s' root"
proof -
  obtain s' where s': "kernel_free_buddy p s = Some s'" "kpool_live st en s' (U - {(p, 12)})"
      "\<forall>x\<in>covers (U - {(p, 12)}). slot s' x = slot s x"
    using kpool.release_ok [OF l, of p] p(1) by auto
  have V: "insert root (owned s 3 root) \<subseteq> pages (U - {(p, 12)})" using aspaceD [OF a] p(2,3) by auto
  have "same_on (insert root (owned s 3 root)) (slot s) (slot s')"
    by (rule same_on_covers [OF V]) (use s'(3) in simp)
  note k = aspace_keep [OF l a this V]
  show thesis
  proof (rule that [OF s'(1,2) k(1,2)])
    show "translate s' root w = translate s root w" if "user_va w" for w by (rule k(3) [OF that])
    show "slot s' x = slot s x" if "x \<in> covers (U - {(p, 12)})" for x using s'(3) that by simp
    show "ways s s' root" by (rule k(4))
  qed
qed

section \<open>Ranges of pages\<close>

definition page_no :: "u64 \<Rightarrow> nat \<Rightarrow> u64" where
  "page_no va j = va + of_nat j * PAGE_SIZE"

definition user_range :: "u64 \<Rightarrow> nat \<Rightarrow> bool" where
  "user_range va n \<longleftrightarrow> aligned va 12 \<and> unat va + 4096 * n \<le> 2 ^ 47"

definition in_range :: "u64 \<Rightarrow> nat \<Rightarrow> u64 \<Rightarrow> bool" where
  "in_range va n w \<longleftrightarrow> (\<exists>j<n. same_page w (page_no va j))"

lemma page_no_0 [simp]: "page_no va 0 = va"
  by (simp add: page_no_def)

lemma page_no_Suc: "page_no (va + PAGE_SIZE) j = page_no va (Suc j)"
  by (simp add: page_no_def algebra_simps)

lemma page_no_unat:
  assumes "user_range va n" and "j < n"
  shows "unat (page_no va j) = unat va + 4096 * j"
proof -
  have "unat va + 4096 * j < 2 ^ 47" using assms by (auto simp: user_range_def)
  moreover have "j < 2 ^ 64" using calculation by simp
  ultimately show ?thesis by (simp add: page_no_def PAGE_SIZE_def unat_word_ariths unat_of_nat)
qed

lemma user_va_low: "unat v < 2 ^ 47 \<Longrightarrow> user_va v"
proof -
  assume v: "unat v < 2 ^ 47"
  have "unat (drop_bit 39 v) = unat v div 2 ^ 39" by (simp only: unat_drop_bit_eq drop_bit_eq_div [of 39 "unat v"])
  also have "\<dots> < 256" using v by simp
  finally have d: "unat (drop_bit 39 v) < 256" .
  have "PML4_IDX v \<le> drop_bit 39 v" unfolding PML4_IDX_def by (rule word_and_le2)
  then have "unat (PML4_IDX v) \<le> unat (drop_bit 39 v)" by (simp add: word_le_nat_alt)
  then show ?thesis using d by (simp add: user_va_def)
qed

lemma same_page_low:
  assumes "unat v < 2 ^ 47" and "unat w < 2 ^ 47"
  shows "same_page v w \<longleftrightarrow> unat v div 4096 = unat w div 4096"
proof -
  have d: "unat (take_bit 36 (drop_bit 12 x)) = unat x div 4096" if "unat x < 2 ^ 47" for x :: u64
  proof -
    have "unat (drop_bit 12 x) = unat x div 2 ^ 12" by (simp only: unat_drop_bit_eq drop_bit_eq_div [of 12 "unat x"])
    moreover have "unat x div 2 ^ 12 < 2 ^ 36" using that by simp
    ultimately show ?thesis by (simp add: unsigned_take_bit_eq take_bit_nat_eq_self)
  qed
  show ?thesis unfolding same_page_def using d [OF assms(1)] d [OF assms(2)] by (simp add: word_unat_eq_iff)
qed

lemma range_pages:
  assumes r: "user_range va n" and "i < n"
  shows "user_va (page_no va i)" and "j < n \<Longrightarrow> same_page (page_no va i) (page_no va j) \<longleftrightarrow> i = j"
proof -
  have lim: "unat (page_no va k) < 2 ^ 47" if "k < n" for k
    using page_no_unat [OF r that] r that by (auto simp: user_range_def)
  show "user_va (page_no va i)" by (rule user_va_low [OF lim [OF assms(2)]])
  have "2 ^ 12 dvd unat va" using r aligned_dvd [of 12 va] by (simp add: user_range_def)
  then obtain m where m: "unat va = 4096 * m" by (auto elim: dvdE)
  assume "j < n"
  then show "same_page (page_no va i) (page_no va j) \<longleftrightarrow> i = j"
    using same_page_low [OF lim [OF assms(2)] lim] page_no_unat [OF r] assms(2) m by simp
qed

lemma range_tail: "user_range va (Suc n) \<Longrightarrow> user_range (va + PAGE_SIZE) n"
proof -
  assume r: "user_range va (Suc n)"
  have u: "unat (va + PAGE_SIZE) = unat va + 4096"
    using r by (simp add: user_range_def PAGE_SIZE_def unat_word_ariths)
  have "2 ^ 12 dvd unat va" using r aligned_dvd [of 12 va] by (simp add: user_range_def)
  then have "2 ^ 12 dvd unat (va + PAGE_SIZE)" unfolding u by (simp add: dvd_add)
  then have "aligned (va + PAGE_SIZE) 12" using aligned_dvd [of 12] by simp
  then show ?thesis using r u by (simp add: user_range_def)
qed

lemma in_range_Suc: "in_range va (Suc n) w \<longleftrightarrow> same_page w va \<or> in_range (va + PAGE_SIZE) n w"
  unfolding in_range_def page_no_Suc by (auto simp: less_Suc_eq_0_disj)

section \<open>Unmapping a range\<close>

lemma user_page_owned:
  assumes "aspace s U root" and "user_va v" and "translate s root v = Some e" and "\<not> pe_pcd e"
  shows "frame_of e \<in> pages U" and "frame_of e \<in> owned s 3 root" and "frame_of e \<notin> tables s 3 root" and "frame_of e \<noteq> root"
  using leaf_not_table [OF aspaceD(2) [OF assms(1)] order_refl _ _ assms(4), of v] assms(2,3) aspaceD(3) [OF assms(1)]
  by (auto simp: translate_def tables_def)

lemma page_off_tables:
  assumes "kpool_live st en s U" and "aspace s U root" and "p \<in> pages U" and "p \<notin> tables s 3 root" and "x \<in> blk p 12"
  shows "\<forall>q\<in>tables s 3 root. x \<notin> blk q 12"
proof
  fix q assume q: "q \<in> tables s 3 root"
  then have "q \<in> pages U" using tables_owned [of s 3 root] aspaceD [OF assms(2)] by auto
  then show "x \<notin> blk q 12" using kpool.pages_apart [OF assms(1) assms(3), of q] q assms(4,5) by blast
qed

text \<open>One page: it is unmapped and its frame given back.\<close>

lemma unmap_and_free_ok:
  assumes l: "kpool_live st en s U" and a: "aspace s U root" and v: "user_va v"
    and m: "translate s root v = Some e" "\<not> pe_pcd e"
  obtains s' where "unmap_and_free root v s = Some s'" "kpool_live st en s' (U - {(frame_of e, 12)})"
    "aspace s' (U - {(frame_of e, 12)}) root" "owned s' 3 root = owned s 3 root - {frame_of e}"
    "translate s' root v = None"
    "\<And>w. user_va w \<Longrightarrow> \<not> same_page w v \<Longrightarrow> translate s' root w = translate s root w"
    "\<And>x. x \<in> covers (U - {(frame_of e, 12)}) \<Longrightarrow> (\<forall>q\<in>tables s 3 root. x \<notin> blk q 12) \<Longrightarrow> slot s' x = slot s x"
    "ways s s' root"
proof -
  obtain s1 where s1: "unmap_page_in root v s = (0, Some v, s1)" "kpool_live st en s1 U" "aspace s1 U root"
      "translate s1 root v = None" "owned s1 3 root = owned s 3 root - (if pe_pcd e then {} else {frame_of e})"
      "\<And>w. user_va w \<Longrightarrow> \<not> same_page w v \<Longrightarrow> translate s1 root w = translate s root w"
      "\<And>x. x \<in> covers U \<Longrightarrow> (\<forall>q\<in>tables s 3 root. x \<notin> blk q 12) \<Longrightarrow> slot s1 x = slot s x" "ways s s1 root"
    by (rule unmap_page_ok [OF l a v m(1)]) (rule that)
  note f = user_page_owned [OF a v m]
  obtain s2 where s2: "kernel_free_buddy (frame_of e) s1 = Some s2" "kpool_live st en s2 (U - {(frame_of e, 12)})"
      "aspace s2 (U - {(frame_of e, 12)}) root" "owned s2 3 root = owned s1 3 root"
      "\<And>w. user_va w \<Longrightarrow> translate s2 root w = translate s1 root w"
      "\<And>x. x \<in> covers (U - {(frame_of e, 12)}) \<Longrightarrow> slot s2 x = slot s1 x" "ways s1 s2 root"
    by (rule free_unowned [OF s1(2,3) f(1,4)]) (use s1(5) m(2) that in auto)
  show thesis
  proof (rule that [OF _ s2(2,3)])
    show "ways s s2 root" by (rule ways_trans [OF s1(8) s2(7)])
    show "unmap_and_free root v s = Some s2" using s1(1) s2(1) m(1) by (simp add: unmap_and_free_def lookup_translate)
    show "owned s2 3 root = owned s 3 root - {frame_of e}" using s2(4) s1(5) m(2) by simp
    show "translate s2 root v = None" using s2(5) [OF v] s1(4) by simp
    show "translate s2 root w = translate s root w" if "user_va w" "\<not> same_page w v" for w
      using s2(5) s1(6) that by simp
    show "slot s2 x = slot s x" if x: "x \<in> covers (U - {(frame_of e, 12)})" "\<forall>q\<in>tables s 3 root. x \<notin> blk q 12" for x
    proof -
      have "x \<in> covers U" using x(1) by (auto simp: covers_def)
      then show ?thesis using s2(6) [OF x(1)] s1(7) x(2) by simp
    qed
  qed
qed

text \<open>
  A range whose pages are all mapped and not device memory: every page is unmapped, every frame
  given back, everything else kept.
\<close>

definition anon_mapped :: "kbuddy \<Rightarrow> u64 \<Rightarrow> u64 \<Rightarrow> nat \<Rightarrow> bool" where
  "anon_mapped s root va n \<longleftrightarrow> (\<forall>j<n. \<exists>e. translate s root (page_no va j) = Some e \<and> \<not> pe_pcd e)"

definition range_frames :: "kbuddy \<Rightarrow> u64 \<Rightarrow> u64 \<Rightarrow> nat \<Rightarrow> u64 set" where
  "range_frames s root va n =
     (\<Union>j<n. case translate s root (page_no va j) of None \<Rightarrow> {} | Some e \<Rightarrow> {frame_of e})"

lemma range_frames_Suc:
  "translate s root va = Some e \<Longrightarrow>
   range_frames s root va (Suc n) = insert (frame_of e) (range_frames s root (va + PAGE_SIZE) n)"
  unfolding range_frames_def page_no_Suc lessThan_Suc_eq_insert_0 by simp

lemma range_frames_cong:
  "(\<And>j. j < n \<Longrightarrow> translate s' root (page_no va j) = translate s root (page_no va j)) \<Longrightarrow>
   range_frames s' root va n = range_frames s root va n"
  unfolding range_frames_def by simp

lemma munmap_loop_ok:
  "kpool_live st en s U \<Longrightarrow> aspace s U root \<Longrightarrow> user_range va n \<Longrightarrow> anon_mapped s root va n \<Longrightarrow>
   \<exists>s'. munmap_loop root va n s = Some s' \<and> kpool_live st en s' (without_pages U (range_frames s root va n)) \<and>
     aspace s' (without_pages U (range_frames s root va n)) root \<and>
     owned s' 3 root = owned s 3 root - range_frames s root va n \<and>
     (\<forall>w. user_va w \<longrightarrow> translate s' root w = (if in_range va n w then None else translate s root w)) \<and>
     (\<forall>x\<in>covers (without_pages U (range_frames s root va n)).
        (\<forall>q\<in>insert root (owned s 3 root). x \<notin> blk q 12) \<longrightarrow> slot s' x = slot s x) \<and>
     (\<forall>w e. user_va w \<longrightarrow> \<not> in_range va n w \<longrightarrow> translate s root w = Some e \<longrightarrow> \<not> pe_pcd e \<longrightarrow>
        (\<forall>x\<in>blk (frame_of e) 12. slot s' x = slot s x)) \<and> ways s s' root"
proof (induction n arbitrary: s U va)
  case 0
  then show ?case by (simp add: range_frames_def in_range_def ways_refl)
next
  case (Suc n)
  have v: "user_va va" using range_pages(1) [OF Suc.prems(3), of 0] by simp
  obtain e where e: "translate s root va = Some e" "\<not> pe_pcd e"
    using Suc.prems(4) unfolding anon_mapped_def by (metis page_no_0 zero_less_Suc)
  obtain s1 where s1: "unmap_and_free root va s = Some s1" "kpool_live st en s1 (U - {(frame_of e, 12)})"
    "aspace s1 (U - {(frame_of e, 12)}) root" "owned s1 3 root = owned s 3 root - {frame_of e}"
    "translate s1 root va = None"
    "\<And>w. user_va w \<Longrightarrow> \<not> same_page w va \<Longrightarrow> translate s1 root w = translate s root w"
    "\<And>x. x \<in> covers (U - {(frame_of e, 12)}) \<Longrightarrow> (\<forall>q\<in>tables s 3 root. x \<notin> blk q 12) \<Longrightarrow> slot s1 x = slot s x"
    "ways s s1 root"
    by (rule unmap_and_free_ok [OF Suc.prems(1,2) v e]) (rule that)
  have later: "translate s1 root (page_no va (Suc j)) = translate s root (page_no va (Suc j))" if "j < n" for j
    using s1(6) range_pages [OF Suc.prems(3), of "Suc j"] that by (metis Suc_mono page_no_0 nat.distinct(1) zero_less_Suc)
  have anon: "anon_mapped s1 root (va + PAGE_SIZE) n"
    using Suc.prems(4) later by (auto simp: anon_mapped_def page_no_Suc)
  let ?F = "range_frames s1 root (va + PAGE_SIZE) n"
  have F: "range_frames s root va (Suc n) = insert (frame_of e) ?F"
    using range_frames_Suc [OF e(1)] range_frames_cong [of n s1 root "va + PAGE_SIZE" s] later by (simp add: page_no_Suc)
  have U1: "without_pages (U - {(frame_of e, 12)}) ?F = without_pages U (range_frames s root va (Suc n))" unfolding F by auto
  obtain s2 where s2: "munmap_loop root (va + PAGE_SIZE) n s1 = Some s2"
      "kpool_live st en s2 (without_pages U (range_frames s root va (Suc n)))"
      "aspace s2 (without_pages U (range_frames s root va (Suc n))) root"
      "owned s2 3 root = owned s1 3 root - ?F"
      "\<forall>w. user_va w \<longrightarrow> translate s2 root w = (if in_range (va + PAGE_SIZE) n w then None else translate s1 root w)"
      "\<forall>x\<in>covers (without_pages U (range_frames s root va (Suc n))).
        (\<forall>q\<in>insert root (owned s1 3 root). x \<notin> blk q 12) \<longrightarrow> slot s2 x = slot s1 x"
      "\<forall>w e. user_va w \<longrightarrow> \<not> in_range (va + PAGE_SIZE) n w \<longrightarrow> translate s1 root w = Some e \<longrightarrow> \<not> pe_pcd e \<longrightarrow>
        (\<forall>x\<in>blk (frame_of e) 12. slot s2 x = slot s1 x)" "ways s1 s2 root"
    using Suc.IH [OF s1(2,3) range_tail [OF Suc.prems(3)] anon] unfolding U1 by blast
  have "translate s2 root w = (if in_range va (Suc n) w then None else translate s root w)" if w: "user_va w" for w
  proof (cases "same_page w va")
    case True
    have "translate s1 root w = None" using s1(5) same_page_translate [OF True] by simp
    then show ?thesis using s2(5) w True by (simp add: in_range_Suc)
  next
    case False
    then show ?thesis using s2(5) s1(6) w by (simp add: in_range_Suc)
  qed
  moreover have "slot s2 x = slot s x"
    if x: "x \<in> covers (without_pages U (range_frames s root va (Suc n)))" "\<forall>q\<in>insert root (owned s 3 root). x \<notin> blk q 12" for x
  proof -
    have "x \<in> covers (U - {(frame_of e, 12)})" using x(1) unfolding F covers_def by auto
    moreover have "\<forall>q\<in>tables s 3 root. x \<notin> blk q 12" using x(2) tables_owned by blast
    ultimately have "slot s1 x = slot s x" by (rule s1(7))
    then show ?thesis using s2(6) x s1(4) by auto
  qed
  moreover have "slot s2 x = slot s x"
    if w: "user_va w" "\<not> in_range va (Suc n) w" "translate s root w = Some d" "\<not> pe_pcd d" and x: "x \<in> blk (frame_of d) 12" for w d x
  proof -
    have t1: "translate s1 root w = Some d" using s1(6) w by (simp add: in_range_Suc)
    note P = user_page_owned [OF s1(3) w(1) t1 w(4)]
    have "x \<in> covers (U - {(frame_of e, 12)})" using P(1) in_covers [OF _ x] by simp
    moreover have "\<forall>q\<in>tables s 3 root. x \<notin> blk q 12"
      by (rule page_off_tables [OF Suc.prems(1,2) _ _ x]) (use user_page_owned [OF Suc.prems(2) w(1,3,4)] in auto)
    ultimately have "slot s1 x = slot s x" by (rule s1(7))
    then show ?thesis using s2(7) w x t1 by (simp add: in_range_Suc)
  qed
  moreover have "ways s s2 root" by (rule ways_trans [OF s1(8) s2(8)])
  ultimately show ?case using s1(1) s2(1-4) s1(4) F by (intro exI [of _ s2]) auto
qed

section \<open>Mapping a range\<close>

text \<open>
  A step that adds the fresh pages \<open>N\<close> to the address space, writes no allocated memory
  outside its tables and pages and keeps the rights on the way to every address; and one that
  keeps the contents of every mapped page.
\<close>

definition grown :: "u64 \<Rightarrow> u64 \<Rightarrow> kbuddy \<Rightarrow> (u64 \<times> nat) set \<Rightarrow> u64 \<Rightarrow> kbuddy \<Rightarrow> u64 set \<Rightarrow> bool" where
  "grown st en s U root s' N \<longleftrightarrow>
     kpool_live st en s' (with_pages U N) \<and> fresh N U \<and> aspace s' (with_pages U N) root \<and>
     owned s' 3 root = owned s 3 root \<union> N \<and>
     (\<forall>x\<in>covers U. (\<forall>q\<in>insert root (owned s 3 root). x \<notin> blk q 12) \<longrightarrow> slot s' x = slot s x) \<and> ways s s' root"

definition contents_kept :: "kbuddy \<Rightarrow> kbuddy \<Rightarrow> u64 \<Rightarrow> bool" where
  "contents_kept s s' root \<longleftrightarrow>
     (\<forall>w e. user_va w \<longrightarrow> translate s root w = Some e \<longrightarrow> \<not> pe_pcd e \<longrightarrow> (\<forall>x\<in>blk (frame_of e) 12. slot s' x = slot s x))"

lemma grown_trans:
  assumes "grown st en s U root s1 N1" and "grown st en s1 (with_pages U N1) root s2 N2"
  shows "grown st en s U root s2 (N1 \<union> N2)"
proof -
  have U: "with_pages (with_pages U N1) N2 = with_pages U (N1 \<union> N2)" by auto
  have fr: "fresh N1 U" "fresh N2 (with_pages U N1)" using assms by (auto simp: grown_def)
  have "slot s2 x = slot s x" if x: "x \<in> covers U" "\<forall>q\<in>insert root (owned s 3 root). x \<notin> blk q 12" for x
  proof -
    have "\<forall>q\<in>insert root (owned s1 3 root). x \<notin> blk q 12" "x \<in> covers (with_pages U N1)"
      using assms(1) x fr(1) by (auto simp: grown_def fresh_def covers_with_pages)
    then show ?thesis using assms x unfolding grown_def by simp
  qed
  moreover have "ways s s2 root" using assms ways_trans [of s s1 root s2] by (simp add: grown_def)
  ultimately show ?thesis using assms fresh_union [OF fr] unfolding grown_def U by auto
qed

lemma rw_user_entry:
  assumes "aligned phy 12" and "unat phy < 2 ^ 52"
  shows "frame_of (leaf_entry phy RW_USER e) = phy" and "\<not> pe_pcd (leaf_entry phy RW_USER e)"
    and "bit (leaf_entry phy RW_USER e) 1 \<and> bit (leaf_entry phy RW_USER e) 2 \<and> bit (leaf_entry phy RW_USER e) 63"
proof -
  have f: "RW_USER AND CACHE_DIS_PAGE = 0" "RW_USER AND RW_PAGE \<noteq> 0" "RW_USER AND USER_PAGE \<noteq> 0" "RW_USER AND NX_PAGE \<noteq> 0"
    by code_simp+
  show "frame_of (leaf_entry phy RW_USER e) = phy" by (rule leaf_entry_frame [OF assms])
  show "\<not> pe_pcd (leaf_entry phy RW_USER e)" "bit (leaf_entry phy RW_USER e) 1 \<and> bit (leaf_entry phy RW_USER e) 2 \<and> bit (leaf_entry phy RW_USER e) 63"
    using f leaf_entry_bits by (simp_all add: pe_pcd_def)
qed

text \<open>A fresh cleared page that is not part of the address space.\<close>

lemma fresh_page_ok:
  assumes l: "kpool_live st en s U" and a: "aspace s U root"
    and q: "q \<notin> pages U" "blk q 12 \<inter> covers U = {}" "kpool_live st en s1 (insert (q, 12) U)"
      "\<forall>x\<in>covers U. slot s1 x = slot s x"
  defines "s2 \<equiv> zero_page q s1"
  shows "kpool_live st en s2 (insert (q, 12) U)" and "aspace s2 (insert (q, 12) U) root"
    and "owned s2 3 root = owned s 3 root" and "\<And>w. user_va w \<Longrightarrow> translate s2 root w = translate s root w"
    and "\<And>x. x \<in> covers U \<Longrightarrow> slot s2 x = slot s x" and "\<And>x. x \<in> blk q 12 \<Longrightarrow> slot s2 x = 0" and "ways s s2 root"
proof -
  show "kpool_live st en s2 (insert (q, 12) U)" unfolding s2_def by (rule zero_page_live [OF q(3)]) simp
  show c: "slot s2 x = slot s x" if "x \<in> covers U" for x
    using that q(2,4) unfolding s2_def by (auto simp: zero_page_slot)
  show "slot s2 x = 0" if "x \<in> blk q 12" for x using that by (simp add: s2_def zero_page_slot)
  have P: "insert root (owned s 3 root) \<subseteq> pages U" using aspaceD [OF a] by auto
  have "same_on (insert root (owned s 3 root)) (slot s) (slot s2)" by (rule same_on_covers [OF P c])
  note k = aspace_keep [OF l a this, of "insert (q, 12) U"]
  show "aspace s2 (insert (q, 12) U) root" "owned s2 3 root = owned s 3 root"
    "\<And>w. user_va w \<Longrightarrow> translate s2 root w = translate s root w" "ways s s2 root" using k P by auto
qed

text \<open>One iteration of the mapping loop.\<close>

lemma mmap_page_ok:
  assumes l: "kpool_live st en s U" and a: "aspace s U root" and v: "user_va va" and new: "translate s root va = None"
  obtains "kernel_request_buddy PAGE_SIZE s = Some (0, s)"
  | (undone) q s1 r s3 s4 N where "kernel_request_buddy PAGE_SIZE s = Some (q, s1)" "q \<noteq> 0"
      "map_page_to_virt_in root va q RW_USER False (zero_page q s1) = Some (r, s3)" "r < 0"
      "kernel_free_buddy q s3 = Some s4" "grown st en s U root s4 N" "contents_kept s s4 root"
      "\<forall>w. user_va w \<longrightarrow> translate s4 root w = translate s root w"
  | (mapped) q s1 s3 N where "kernel_request_buddy PAGE_SIZE s = Some (q, s1)" "q \<noteq> 0"
      "map_page_to_virt_in root va q RW_USER False (zero_page q s1) = Some (0, s3)"
      "grown st en s U root s3 N" "contents_kept s s3 root" "q \<in> N"
      "\<exists>e. translate s3 root va = Some (leaf_entry q RW_USER e)" "\<forall>x\<in>blk q 12. slot s3 x = 0"
      "aligned q 12" "unat q < 2 ^ 52"
      "\<forall>w. user_va w \<and> \<not> same_page w va \<longrightarrow> translate s3 root w = translate s root w" "user_access s3 root va"
proof (cases rule: kpool.request_cases [OF l])
  case 1
  then show thesis by (rule that(1))
next
  case (2 q s1)
  define s2 where "s2 = zero_page q s1"
  let ?U1 = "insert (q, 12) U"
  note F = fresh_page_ok [OF l a 2(3,6,7,8), folded s2_def]
  note A = aspaceD [OF a]
  have q: "q \<noteq> root" "q \<notin> owned s 3 root" using A 2(3) by auto
  have flag: "RW_USER AND CACHE_DIS_PAGE = 0" by code_simp
  have pre: "translate s2 root va = None"
    "RW_USER AND CACHE_DIS_PAGE \<noteq> 0 \<or> q \<in> pages ?U1 \<and> q \<noteq> root \<and> q \<notin> owned s2 3 root"
    using F(3) F(4) [OF v] new q by auto
  obtain r s3 N where R: "map_page_to_virt_in root va q RW_USER False s2 = Some (r, s3)"
      "kpool_live st en s3 (with_pages ?U1 N)" "fresh N ?U1" "aspace s3 (with_pages ?U1 N) root"
      "\<forall>x\<in>covers ?U1. (\<forall>p\<in>tables s2 3 root. x \<notin> blk p 12) \<longrightarrow> slot s3 x = slot s2 x"
      "\<forall>w. user_va w \<and> \<not> same_page w va \<longrightarrow> translate s3 root w = translate s2 root w"
      "r = 0 \<and> owned s3 3 root = owned s2 3 root \<union> N \<union> (if RW_USER AND CACHE_DIS_PAGE \<noteq> 0 then {} else {q}) \<and>
         (\<exists>e. translate s3 root va = Some (leaf_entry q RW_USER e)) \<or>
       r = - ENOMEM \<and> owned s3 3 root = owned s2 3 root \<union> N \<and> translate s3 root va = None"
      "ways s2 s3 root" "r = 0 \<longrightarrow> (user_access s3 root va \<longleftrightarrow> RW_USER AND USER_PAGE \<noteq> 0)"
    using map_page_ok [OF F(1,2) v pre(1) 2(4,5) pre(2)] by (elim exE conjE) (rule that)
  have tab: "tables s2 3 root \<subseteq> insert root (owned s 3 root)" using tables_owned [of s2 3 root] F(3) by simp
  have off: "slot s3 x = slot s2 x" if "p \<in> pages ?U1" "p \<notin> tables s2 3 root" "x \<in> blk p 12" for p x
    using R(5) in_covers [of p 12 ?U1 x] page_off_tables [OF F(1,2) that] that by simp
  have kept: "slot s3 x = slot s x" if "user_va w" "translate s root w = Some e" "\<not> pe_pcd e" "x \<in> blk (frame_of e) 12" for w e x
  proof -
    have "translate s2 root w = Some e" using F(4) that by simp
    note P = user_page_owned [OF F(2) that(1) this that(3)]
    have "frame_of e \<in> pages U" by (rule user_page_owned [OF a that(1-3)])
    then show ?thesis using off [OF P(1,3) that(4)] F(5) in_covers [OF _ that(4)] by auto
  qed
  have frame: "slot s3 x = slot s x" if "x \<in> covers U" "\<forall>p\<in>insert root (owned s 3 root). x \<notin> blk p 12" for x
  proof -
    have "\<forall>p\<in>tables s2 3 root. x \<notin> blk p 12" using that(2) tab by blast
    then show ?thesis using R(5) F(5) [OF that(1)] that(1) by simp
  qed
  have wy: "ways s s3 root" by (rule ways_trans [OF F(7) R(8)])
  have uf: "RW_USER AND USER_PAGE \<noteq> 0" by code_simp
  have qN: "q \<notin> N" using fresh_pages [OF R(3), of q] by auto
  have frN: "fresh N U" using R(3) by (auto simp: fresh_def)
  show thesis
  proof (cases "r = 0")
    case True
    have U: "with_pages ?U1 N = with_pages U (insert q N)" by auto
    have "grown st en s U root s3 (insert q N)"
      unfolding grown_def using R(2,4,7) True flag frN 2(6) frame F(3) wy unfolding U by (auto simp: fresh_def ENOMEM_def)
    moreover have "\<forall>x\<in>blk q 12. slot s3 x = 0" using off [of q] F(6) tab q by auto
    moreover have "contents_kept s s3 root" using kept by (auto simp: contents_kept_def)
    ultimately show thesis
      using that(3) [OF 2(1,2) _ _ _ _ _ _ 2(4,5), of s3 "insert q N"] R(1,6,7,9) True F(4) uf by (auto simp: s2_def ENOMEM_def)
  next
    case False
    then have r: "r = - ENOMEM" "r < 0" "owned s3 3 root = owned s 3 root \<union> N" "translate s3 root va = None"
      using R(7) F(3) by (auto simp: ENOMEM_def)
    obtain s4 where s4: "kernel_free_buddy q s3 = Some s4" "kpool_live st en s4 (with_pages ?U1 N - {(q, 12)})"
        "aspace s4 (with_pages ?U1 N - {(q, 12)}) root" "owned s4 3 root = owned s3 3 root"
        "\<And>w. user_va w \<Longrightarrow> translate s4 root w = translate s3 root w"
        "\<And>x. x \<in> covers (with_pages ?U1 N - {(q, 12)}) \<Longrightarrow> slot s4 x = slot s3 x" "ways s3 s4 root"
      by (rule free_unowned [OF R(2,4)]) (use q qN r(3) that in auto)
    have U: "with_pages ?U1 N - {(q, 12)} = with_pages U N" using 2(3) qN by auto
    have cov: "slot s4 x = slot s3 x" if "x \<in> covers U" for x
      using s4(6) that unfolding U by (auto simp: covers_with_pages)
    have "grown st en s U root s4 N"
      unfolding grown_def using s4(2,3,4) r(3) frN frame cov ways_trans [OF wy s4(7)] unfolding U by auto
    moreover have "contents_kept s s4 root"
      unfolding contents_kept_def
    proof (intro allI impI ballI)
      fix w e x
      assume w: "user_va w" "translate s root w = Some e" "\<not> pe_pcd e" and x: "x \<in> blk (frame_of e) 12"
      have "x \<in> covers U" using user_page_owned(1) [OF a w] in_covers [OF _ x, of U] by simp
      then show "slot s4 x = slot s x" using kept [OF w x] cov by simp
    qed
    moreover have "translate s4 root w = translate s root w" if "user_va w" for w
      using s4(5) [OF that] R(6) F(4) that r(4) new same_page_translate [of w va] by (cases "same_page w va") auto
    ultimately show thesis using that(2) [OF 2(1,2) _ r(2) s4(1)] R(1) by (simp add: s2_def)
  qed
qed

text \<open>
  The first \<open>k\<close> pages of a range are mapped to cleared pages of \<open>N\<close>, open to the user, writable and
  not executable.
\<close>

definition mapped_fresh :: "kbuddy \<Rightarrow> u64 \<Rightarrow> u64 \<Rightarrow> nat \<Rightarrow> u64 set \<Rightarrow> bool" where
  "mapped_fresh s root va k N \<longleftrightarrow>
     (\<forall>j<k. \<exists>e. translate s root (page_no va j) = Some e \<and> \<not> pe_pcd e \<and>
        user_access s root (page_no va j) \<and> write_access s root (page_no va j) \<and> \<not> exec_access s root (page_no va j) \<and>
        frame_of e \<in> N \<and> (\<forall>x\<in>blk (frame_of e) 12. slot s x = 0))"

lemma grownD:
  assumes "grown st en s U root s' N"
  shows "kpool_live st en s' (with_pages U N)" and "aspace s' (with_pages U N) root"
  using assms by (auto simp: grown_def)

lemma grown_refl: "kpool_live st en s U \<Longrightarrow> aspace s U root \<Longrightarrow> grown st en s U root s {}"
  by (simp add: grown_def ways_refl)

lemma mmap_loop_ok:
  "kpool_live st en s U \<Longrightarrow> aspace s U root \<Longrightarrow> user_range va n \<Longrightarrow>
   \<forall>j<n. translate s root (page_no va j) = None \<Longrightarrow> \<forall>w. user_va w \<longrightarrow> open_way s root w \<Longrightarrow>
   \<exists>k ok s' N. mmap_loop root va n s = Some (k, ok, s') \<and> k \<le> n \<and> (ok \<longrightarrow> k = n) \<and>
     grown st en s U root s' N \<and> contents_kept s s' root \<and> mapped_fresh s' root va k N \<and>
     (\<forall>w. user_va w \<and> \<not> in_range va k w \<longrightarrow> translate s' root w = translate s root w)"
proof (induction n arbitrary: s U va)
  case 0
  then show ?case by (auto simp: grown_refl mapped_fresh_def contents_kept_def in_range_def intro!: exI [of _ "{}"])
next
  case (Suc n)
  have v: "user_va va" using range_pages(1) [OF Suc.prems(3), of 0] by simp
  have new: "translate s root va = None" using Suc.prems(4) by (metis page_no_0 zero_less_Suc)
  have apart: "\<not> same_page (page_no va (Suc j)) va" "\<not> same_page va (page_no va (Suc j))" if "j < n" for j
    using range_pages(2) [OF Suc.prems(3), of "Suc j" 0] range_pages(2) [OF Suc.prems(3), of 0 "Suc j"] that by auto
  show ?case
  proof (rule mmap_page_ok [OF Suc.prems(1,2) v new], goal_cases)
    case 1
    then show ?case using Suc.prems(1,2)
      by (auto simp: grown_refl mapped_fresh_def contents_kept_def in_range_def intro!: exI [of _ "{}"])
  next
    case (2 q s1 r s3 s4 N)
    then show ?case
      by (auto simp: mapped_fresh_def in_range_def Let_def intro!: exI [of _ N])
  next
    case (3 q s1 s3 N)
    have open3: "\<forall>w. user_va w \<longrightarrow> open_way s3 root w"
      using 3(4) Suc.prems(5) ways_open by (auto simp: grown_def)
    have new3: "\<forall>j<n. translate s3 root (page_no (va + PAGE_SIZE) j) = None"
      using 3(11) Suc.prems(3,4) range_pages(1) [OF Suc.prems(3)] apart by (simp add: page_no_Suc)
    obtain k ok s' N' where IH: "mmap_loop root (va + PAGE_SIZE) n s3 = Some (k, ok, s')" "k \<le> n" "ok \<longrightarrow> k = n"
        "grown st en s3 (with_pages U N) root s' N'" "contents_kept s3 s' root" "mapped_fresh s' root (va + PAGE_SIZE) k N'"
        "\<forall>w. user_va w \<and> \<not> in_range (va + PAGE_SIZE) k w \<longrightarrow> translate s' root w = translate s3 root w"
      using Suc.IH [OF grownD [OF 3(4)] range_tail [OF Suc.prems(3)] new3] open3 by blast
    obtain e where e: "translate s3 root va = Some (leaf_entry q RW_USER e)" using 3(7) by blast
    let ?e = "leaf_entry q RW_USER e"
    note E = rw_user_entry [OF 3(9,10), of e]
    have "\<not> in_range (va + PAGE_SIZE) k va" using apart(2) IH(2) by (auto simp: in_range_def page_no_Suc)
    then have tva: "translate s' root va = Some ?e" using IH(7) v e by simp
    have "rights_kept s3 s' root" using IH(4) ways_rights by (simp add: grown_def)
    then have acc: "user_access s' root va" "write_access s' root va" "\<not> exec_access s' root va"
      using 3(12) v tva e open_way_decides [OF open3 [rule_format, OF v] e] E(3) unfolding rights_kept_def by auto
    have zero: "slot s' x = 0" if "x \<in> blk q 12" for x
      using IH(5) v e E that 3(8) unfolding contents_kept_def by metis
    have "mapped_fresh s' root va (Suc k) (N \<union> N')"
      unfolding mapped_fresh_def
    proof (intro allI impI)
      fix j assume j: "j < Suc k"
      show "\<exists>e. translate s' root (page_no va j) = Some e \<and> \<not> pe_pcd e \<and>
          user_access s' root (page_no va j) \<and> write_access s' root (page_no va j) \<and> \<not> exec_access s' root (page_no va j) \<and>
          frame_of e \<in> N \<union> N' \<and> (\<forall>x\<in>blk (frame_of e) 12. slot s' x = 0)"
      proof (cases j)
        case 0
        then show ?thesis using tva E zero 3(6) acc by auto
      next
        case (Suc i)
        then show ?thesis using IH(6) j by (auto simp: mapped_fresh_def page_no_Suc)
      qed
    qed
    moreover have "contents_kept s s' root"
      unfolding contents_kept_def
    proof (intro allI impI)
      fix w d assume w: "user_va w" "translate s root w = Some d" "\<not> pe_pcd d"
      have "\<not> same_page w va" using w(2) new same_page_translate [of w va] by auto
      then have "translate s3 root w = Some d" using 3(11) w by simp
      then show "\<forall>x\<in>blk (frame_of d) 12. slot s' x = slot s x"
        using IH(5) 3(5) w unfolding contents_kept_def by simp
    qed
    moreover have "grown st en s U root s' (N \<union> N')" by (rule grown_trans [OF 3(4) IH(4)])
    moreover have "\<forall>w. user_va w \<and> \<not> in_range va (Suc k) w \<longrightarrow> translate s' root w = translate s root w"
      using IH(7) 3(11) by (simp add: in_range_Suc)
    moreover have "mmap_loop root va (Suc n) s = Some (Suc k, ok, s')" using 3(1-3) IH(1) by (simp add: Let_def)
    ultimately show ?case using IH(2,3) by blast
  qed
qed

section \<open>Sizes in pages\<close>

lemma aligned_unat: "aligned z 12 \<Longrightarrow> unat z = 4096 * unat (drop_bit 12 z)"
proof -
  assume "aligned z 12"
  then have "2 ^ 12 dvd unat z" using aligned_dvd [of 12 z] by simp
  moreover have "unat (drop_bit 12 z) = unat z div 2 ^ 12" by (simp only: unat_drop_bit_eq drop_bit_eq_div [of 12 "unat z"])
  ultimately show ?thesis by simp
qed

lemma round_pages_count:
  assumes "unat sz + 4095 < 2 ^ 64"
  shows "page_count (round_pages sz) = (unat sz + 4095) div 4096"
    and "unat (round_pages sz) = 4096 * ((unat sz + 4095) div 4096)" and "aligned (round_pages sz) 12"
proof -
  let ?y = "sz + 4095"
  have m: "(4095 :: u64) = mask 12" by (simp add: mask_eq_exp_minus_1)
  have r: "round_pages sz = ?y AND NOT (mask 12)" unfolding round_pages_def PAGE_SIZE_def m [symmetric] by (simp add: add.commute)
  have b: "bit (round_pages sz) i \<longleftrightarrow> 12 \<le> i \<and> bit ?y i" for i
    unfolding r by (auto simp: bit_and_iff bit_not_iff bit_mask_iff dest: bit64)
  show al: "aligned (round_pages sz) 12" by (simp add: aligned_bits b)
  have "drop_bit 12 (round_pages sz) = drop_bit 12 ?y" by (rule word64_bits_eqI) (simp add: bit_drop_bit_eq b)
  moreover have "unat ?y = unat sz + 4095" using assms by (simp add: unat_word_ariths)
  moreover have "unat (drop_bit 12 ?y) = unat ?y div 2 ^ 12" by (simp only: unat_drop_bit_eq drop_bit_eq_div [of 12 "unat ?y"])
  ultimately show c: "page_count (round_pages sz) = (unat sz + 4095) div 4096" by (simp add: page_count_def)
  show "unat (round_pages sz) = 4096 * ((unat sz + 4095) div 4096)"
    using aligned_unat [OF al] c by (simp add: page_count_def)
qed

lemma in_range_below:
  assumes r: "user_range va n" and w: "in_range va n w" "unat w < 2 ^ 47"
  shows "unat va \<le> unat w" and "unat w < unat va + 4096 * n"
proof -
  obtain j where j: "j < n" "same_page w (page_no va j)" using w(1) by (auto simp: in_range_def)
  have u: "unat (page_no va j) = unat va + 4096 * j" by (rule page_no_unat [OF r j(1)])
  moreover have "unat (page_no va j) < 2 ^ 47" using u r j(1) by (auto simp: user_range_def)
  ultimately have "unat w div 4096 = (unat va + 4096 * j) div 4096" using same_page_low [OF w(2)] j(2) by simp
  moreover obtain m where "unat va = 4096 * m" using r aligned_unat [of va] by (auto simp: user_range_def)
  ultimately have "unat w div 4096 = m + j" "unat va = 4096 * m" by simp_all
  then show "unat va \<le> unat w" "unat w < unat va + 4096 * n" using j(1) by linarith+
qed

section \<open>The state of the mapping region\<close>

definition mmap_inv :: "u64 \<Rightarrow> u64 \<Rightarrow> (u64 \<times> nat) set \<Rightarrow> mm \<Rightarrow> bool" where
  "mmap_inv st en U m \<longleftrightarrow>
     kpool_live st en (mm_pool m) U \<and> aspace (mm_pool m) U (mm_cr3 m) \<and>
     (let va = mm_next (mmap_start m) in
        aligned va 12 \<and> USER_MMAP_BASE \<le> va \<and> va \<le> USER_MMAP_END \<and>
        (\<forall>w. va \<le> w \<and> w < USER_MMAP_END \<longrightarrow> translate (mm_pool m) (mm_cr3 m) w = None)) \<and>
     (\<forall>w. user_va w \<longrightarrow> open_way (mm_pool m) (mm_cr3 m) w)"

lemma mmap_start_simps [simp]:
  "mm_pool (mmap_start m) = mm_pool m" "mm_cr3 (mmap_start m) = mm_cr3 m" "mmap_start (mmap_start m) = mmap_start m"
  by (simp_all add: mmap_start_def USER_MMAP_BASE_def)

lemma mmap_invD:
  assumes "mmap_inv st en U m"
  defines "va \<equiv> mm_next (mmap_start m)"
  shows "kpool_live st en (mm_pool m) U" and "aspace (mm_pool m) U (mm_cr3 m)" and "aligned va 12"
    and "unat USER_MMAP_BASE \<le> unat va" and "unat va \<le> unat USER_MMAP_END"
    and "unat va \<le> unat w \<Longrightarrow> unat w < unat USER_MMAP_END \<Longrightarrow> translate (mm_pool m) (mm_cr3 m) w = None"
    and "\<forall>w. user_va w \<longrightarrow> open_way (mm_pool m) (mm_cr3 m) w"
  using assms by (auto simp: mmap_inv_def Let_def word_le_nat_alt word_less_nat_alt)

lemma mmap_invI:
  assumes "kpool_live st en s U" and "aspace s U root" and "aligned va 12"
    and "unat USER_MMAP_BASE \<le> unat va" and "unat va \<le> unat USER_MMAP_END"
    and "\<And>w. unat va \<le> unat w \<Longrightarrow> unat w < unat USER_MMAP_END \<Longrightarrow> translate s root w = None"
    and "mm_pool m = s" and "mm_cr3 m = root" and "mm_next m = va" and "\<forall>w. user_va w \<longrightarrow> open_way s root w"
  shows "mmap_inv st en U m"
proof -
  have "va \<noteq> 0" using assms(4) by (auto simp: USER_MMAP_BASE_def)
  then have "mmap_start m = m" using assms(9) by (simp add: mmap_start_def)
  then show ?thesis using assms by (auto simp: mmap_inv_def Let_def word_le_nat_alt word_less_nat_alt)
qed

lemma mmap_ends: "unat USER_MMAP_BASE = 87960930222080" "unat USER_MMAP_END = 123145302310912" "(2::nat) ^ 47 = 140737488355328"
  by (simp_all add: USER_MMAP_BASE_def USER_MMAP_END_def)

text \<open>The error path of \<^verbatim>\<open>mmap\<close> undoes the partial mapping.\<close>

lemma mmap_undo_ok:
  assumes a: "aspace s U root" and r: "user_range va k" and g: "grown st en s U root s1 N" and c: "contents_kept s s1 root"
    and f: "mapped_fresh s1 root va k N" and un: "\<forall>j<k. translate s root (page_no va j) = None"
    and oth: "\<forall>w. user_va w \<and> \<not> in_range va k w \<longrightarrow> translate s1 root w = translate s root w"
  shows "\<exists>s2 T. munmap_loop root va k s1 = Some s2 \<and> grown st en s U root s2 T \<and> contents_kept s s2 root \<and>
    (\<forall>w. user_va w \<longrightarrow> translate s2 root w = translate s root w)"
proof -
  let ?F = "range_frames s1 root va k"
  have anon: "anon_mapped s1 root va k" using f by (auto simp: anon_mapped_def mapped_fresh_def)
  have F: "?F \<subseteq> N" using f unfolding range_frames_def mapped_fresh_def by (fastforce split: option.splits)
  have frN: "fresh N U" using g by (simp add: grown_def)
  have U: "without_pages (with_pages U N) ?F = with_pages U (N - ?F)" using fresh_pages [OF frN] F by auto
  obtain s2 where s2: "munmap_loop root va k s1 = Some s2" "kpool_live st en s2 (with_pages U (N - ?F))"
      "aspace s2 (with_pages U (N - ?F)) root" "owned s2 3 root = owned s1 3 root - ?F"
      "\<forall>w. user_va w \<longrightarrow> translate s2 root w = (if in_range va k w then None else translate s1 root w)"
      "\<forall>x\<in>covers (with_pages U (N - ?F)). (\<forall>q\<in>insert root (owned s1 3 root). x \<notin> blk q 12) \<longrightarrow> slot s2 x = slot s1 x"
      "\<forall>w e. user_va w \<longrightarrow> \<not> in_range va k w \<longrightarrow> translate s1 root w = Some e \<longrightarrow> \<not> pe_pcd e \<longrightarrow>
        (\<forall>x\<in>blk (frame_of e) 12. slot s2 x = slot s1 x)" "ways s1 s2 root"
    using munmap_loop_ok [OF grownD [OF g] r anon] unfolding U by blast
  have none: "translate s root w = None" if "in_range va k w" for w
    using that un same_page_translate by (auto simp: in_range_def)
  have owned: "owned s1 3 root = owned s 3 root \<union> N" using g by (simp add: grown_def)
  have "owned s 3 root \<inter> N = {}" using aspaceD(3) [OF a] fresh_pages [OF frN] by blast
  then have "owned s2 3 root = owned s 3 root \<union> (N - ?F)" using s2(4) owned F by blast
  moreover have "slot s2 x = slot s x" if x: "x \<in> covers U" "\<forall>q\<in>insert root (owned s 3 root). x \<notin> blk q 12" for x
  proof -
    have "\<forall>q\<in>insert root (owned s1 3 root). x \<notin> blk q 12" using x frN owned by (auto simp: fresh_def)
    then have "slot s2 x = slot s1 x" using s2(6) x(1) by (simp add: covers_with_pages)
    also have "\<dots> = slot s x" using g x by (simp add: grown_def)
    finally show ?thesis .
  qed
  moreover have "fresh (N - ?F) U" using frN by (auto simp: fresh_def)
  moreover have "ways s s2 root" using g s2(8) ways_trans by (auto simp: grown_def)
  ultimately have "grown st en s U root s2 (N - ?F)" using s2(2,3) by (simp add: grown_def)
  moreover have "contents_kept s s2 root"
    unfolding contents_kept_def
  proof (intro allI impI ballI)
    fix w e x assume w: "user_va w" "translate s root w = Some e" "\<not> pe_pcd e" and x: "x \<in> blk (frame_of e) 12"
    have "\<not> in_range va k w" using none w(2) by auto
    then show "slot s2 x = slot s x" using s2(7) oth w x c unfolding contents_kept_def by simp
  qed
  ultimately show ?thesis using s2(1,5) oth none by auto
qed

text \<open>
  A size that makes \<open>addr + size\<close> wrap around passes the range test of \<^verbatim>\<open>munmap\<close>: the walk then
  leaves the mapping region and reaches the entries of the kernel half, which it unmaps and frees.
\<close>

lemma munmap_accepts_wrap:
  "MunmapHandler USER_MMAP_BASE (- USER_MMAP_BASE) m =
     map_option (\<lambda>s. (0, m\<lparr>mm_pool := s\<rparr>))
       (munmap_loop (mm_cr3 m) USER_MMAP_BASE (2 ^ 52 - 0x500000000) (mm_pool m))"
  "(0x300000000 :: nat) < 2 ^ 52 - 0x500000000" "PML4_IDX (page_no USER_MMAP_BASE 0x300000000) = 256"
proof -
  have r: "round_pages (- USER_MMAP_BASE) = - USER_MMAP_BASE" by code_simp
  have c: "page_count (- USER_MMAP_BASE) = 2 ^ 52 - 0x500000000" unfolding page_count_def USER_MMAP_BASE_def by simp
  have a: "USER_MMAP_BASE AND (PAGE_SIZE - 1) = 0" "- USER_MMAP_BASE \<noteq> 0"
    by (simp_all add: USER_MMAP_BASE_def PAGE_SIZE_def)
  show "MunmapHandler USER_MMAP_BASE (- USER_MMAP_BASE) m =
     map_option (\<lambda>s. (0, m\<lparr>mm_pool := s\<rparr>))
       (munmap_loop (mm_cr3 m) USER_MMAP_BASE (2 ^ 52 - 0x500000000) (mm_pool m))"
    using a by (simp only: MunmapHandler_def Let_def r c) simp
  show "PML4_IDX (page_no USER_MMAP_BASE 0x300000000) = 256"
    by (simp add: page_no_def USER_MMAP_BASE_def PAGE_SIZE_def PML4_IDX_def)
qed simp

section \<open>Properties\<close>

lemma mmap_range:
  assumes "mmap_inv st en U m" and "unat va + 4096 * n \<le> unat USER_MMAP_END" and "va = mm_next (mmap_start m)"
  shows "user_range va n" and "\<forall>j<n. translate (mm_pool m) (mm_cr3 m) (page_no va j) = None"
proof -
  note I = mmap_invD [OF assms(1), folded assms(3)]
  show r: "user_range va n" using I(3) assms(2) mmap_ends by (simp add: user_range_def)
  show "\<forall>j<n. translate (mm_pool m) (mm_cr3 m) (page_no va j) = None"
    using I(6) page_no_unat [OF r] assms(2) by simp
qed

lemma mmap_inv_grown:
  assumes inv: "mmap_inv st en U m" and va: "va = mm_next (mmap_start m)" and r: "user_range va n"
    and lim: "unat va + 4096 * n \<le> unat USER_MMAP_END" and g: "grown st en (mm_pool m) U (mm_cr3 m) s' N"
    and oth: "\<forall>w. user_va w \<and> \<not> in_range va n w \<longrightarrow> translate s' (mm_cr3 m) w = translate (mm_pool m) (mm_cr3 m) w"
    and m': "mm_pool m' = s'" "mm_cr3 m' = mm_cr3 m" "unat (mm_next m') = unat va + 4096 * n"
  shows "mmap_inv st en (with_pages U N) m'"
proof -
  note I = mmap_invD [OF inv, folded va]
  have "2 ^ 12 dvd unat va" using I(3) aligned_dvd [of 12 va] by simp
  then have "2 ^ 12 dvd unat (mm_next m')" unfolding m'(3) by (simp add: dvd_add)
  then have al: "aligned (mm_next m') 12" using aligned_dvd [of 12] by simp
  have "translate s' (mm_cr3 m) w = None" if w: "unat (mm_next m') \<le> unat w" "unat w < unat USER_MMAP_END" for w
  proof -
    have low: "unat w < 2 ^ 47" using w(2) mmap_ends by simp
    have "\<not> in_range va n w" using in_range_below(2) [OF r _ low] w(1) m'(3) by fastforce
    then show ?thesis using oth user_va_low [OF low] I(6) [of w] w m'(3) by simp
  qed
  moreover have "\<forall>w. user_va w \<longrightarrow> open_way s' (mm_cr3 m) w" using g I(7) ways_open by (auto simp: grown_def)
  ultimately show ?thesis
    using mmap_invI [OF grownD [OF g] al _ _ _ m'(1,2) refl] I(4) lim m'(3) by simp
qed

text \<open>
  C37. Anonymous memory.  Take a task whose address space is a tree with nothing mapped from its
  next mapping address up, in which no table forbids writing or execution, and a size that is
  not 0 and at most \<open>2^64 - 2^47\<close> (for sizes close to \<open>2^64\<close> the sums in the handler wrap around, and it can
  report success with no page mapped).  The request always returns.  If the region has no room it
  fails at once.  Otherwise it either hands out the next address, with every page of the range
  mapped to a private fresh page of zeros that the user may read and write but not execute, by the
  rights taken over all the entries the processor reads, or it fails for lack of memory with every
  translation as it was.  In both cases the contents and the rights of all pages mapped before are
  kept (the user bit of a table may be set), no allocated memory outside the address space is
  written, the address space is again a tree that owns exactly what was added, and the region
  invariant holds.
\<close>

theorem mmap_correct:
  assumes "mmap_inv st en U m" and "sz \<noteq> 0" and "unat sz \<le> 2 ^ 64 - 2 ^ 47"
  shows "let va = mm_next (mmap_start m); n = (unat sz + 4095) div 4096; s = mm_pool m; root = mm_cr3 m in
    if unat va + 4096 * n > unat USER_MMAP_END then MmapHandler sz m = Some (Inl (- ENOMEM), mmap_start m)
    else \<exists>r m' N. MmapHandler sz m = Some (r, m') \<and> mmap_inv st en (with_pages U N) m' \<and> mm_cr3 m' = root \<and>
      grown st en s U root (mm_pool m') N \<and> contents_kept s (mm_pool m') root \<and> rights_kept s (mm_pool m') root \<and>
      (r = Inr va \<and> unat (mm_next m') = unat va + 4096 * n \<and> mapped_fresh (mm_pool m') root va n N \<and>
         (\<forall>w. user_va w \<and> \<not> in_range va n w \<longrightarrow> translate (mm_pool m') root w = translate s root w) \<or>
       r = Inl (- ENOMEM) \<and> mm_next m' = va \<and> (\<forall>w. user_va w \<longrightarrow> translate (mm_pool m') root w = translate s root w))"
proof -
  define va where "va = mm_next (mmap_start m)"
  define n where "n = (unat sz + 4095) div 4096"
  let ?s = "mm_pool m" and ?root = "mm_cr3 m" and ?sz = "round_pages sz"
  note I = mmap_invD [OF assms(1), folded va_def]
  have sz: "page_count ?sz = n" "unat ?sz = 4096 * n" using round_pages_count [of sz] assms(3) by (simp_all add: n_def)
  have n: "4096 * n \<le> 2 ^ 64 - 2 ^ 47 + 4096" using assms(3) unfolding n_def by simp
  then have sum: "unat (va + ?sz) = unat va + 4096 * n" using I(5) sz(2) mmap_ends by (simp add: unat_word_ariths)
  have guard: "va + ?sz > USER_MMAP_END \<longleftrightarrow> unat va + 4096 * n > unat USER_MMAP_END" by (simp add: word_less_nat_alt sum)
  show ?thesis
  proof (cases "unat va + 4096 * n > unat USER_MMAP_END")
    case True
    then show ?thesis using assms(2) guard by (simp add: Let_def MmapHandler_def va_def [symmetric] n_def [symmetric])
  next
    case False
    then have lim: "unat va + 4096 * n \<le> unat USER_MMAP_END" by simp
    note R = mmap_range [OF assms(1) lim va_def]
    obtain k ok s1 N where L: "mmap_loop ?root va n ?s = Some (k, ok, s1)" "k \<le> n" "ok \<longrightarrow> k = n"
        "grown st en ?s U ?root s1 N" "contents_kept ?s s1 ?root" "mapped_fresh s1 ?root va k N"
        "\<forall>w. user_va w \<and> \<not> in_range va k w \<longrightarrow> translate s1 ?root w = translate ?s ?root w"
      using mmap_loop_ok [OF I(1,2) R I(7)] by blast
    have "\<exists>r m' N. MmapHandler sz m = Some (r, m') \<and> mmap_inv st en (with_pages U N) m' \<and> mm_cr3 m' = ?root \<and>
      grown st en ?s U ?root (mm_pool m') N \<and> contents_kept ?s (mm_pool m') ?root \<and> rights_kept ?s (mm_pool m') ?root \<and>
      (r = Inr va \<and> unat (mm_next m') = unat va + 4096 * n \<and> mapped_fresh (mm_pool m') ?root va n N \<and>
         (\<forall>w. user_va w \<and> \<not> in_range va n w \<longrightarrow> translate (mm_pool m') ?root w = translate ?s ?root w) \<or>
       r = Inl (- ENOMEM) \<and> mm_next m' = va \<and> (\<forall>w. user_va w \<longrightarrow> translate (mm_pool m') ?root w = translate ?s ?root w))"
    proof (cases ok)
      case True
      let ?m = "(mmap_start m)\<lparr>mm_pool := s1, mm_next := va + ?sz\<rparr>"
      have k: "k = n" using L(3) True by simp
      have "MmapHandler sz m = Some (Inr va, ?m)"
        using assms(2) guard False L(1) True sz(1) by (simp add: MmapHandler_def Let_def va_def [symmetric])
      moreover have "mmap_inv st en (with_pages U N) ?m"
        by (rule mmap_inv_grown [OF assms(1) va_def R(1) lim L(4)]) (use L(7) k sum in simp_all)
      moreover have "rights_kept ?s s1 ?root" using L(4) ways_rights by (simp add: grown_def)
      ultimately show ?thesis using L(4,5,6,7) k sum by (intro exI [of _ "Inr va"] exI [of _ ?m] exI [of _ N]) simp
    next
      case False
      have r: "user_range va k" using R(1) L(2) by (simp add: user_range_def)
      obtain s2 T where s2: "munmap_loop ?root va k s1 = Some s2" "grown st en ?s U ?root s2 T"
          "contents_kept ?s s2 ?root" "\<forall>w. user_va w \<longrightarrow> translate s2 ?root w = translate ?s ?root w"
        using mmap_undo_ok [OF I(2) r L(4,5,6) _ L(7)] R(2) L(2) by auto
      let ?m = "(mmap_start m)\<lparr>mm_pool := s2\<rparr>"
      have "MmapHandler sz m = Some (Inl (- ENOMEM), ?m)"
        using assms(2) guard \<open>\<not> unat va + 4096 * n > unat USER_MMAP_END\<close> L(1) False sz(1) s2(1)
        by (simp add: MmapHandler_def Let_def va_def [symmetric])
      moreover have "mmap_inv st en (with_pages U T) ?m"
        by (rule mmap_inv_grown [OF assms(1) va_def, of 0 s2]) (use I(3,5) s2 mmap_ends in \<open>simp_all add: user_range_def va_def\<close>)
      moreover have "rights_kept ?s s2 ?root" using s2(2) ways_rights by (simp add: grown_def)
      ultimately show ?thesis using s2(2,3,4)
        by (intro exI [of _ "Inl (- ENOMEM)"] exI [of _ ?m] exI [of _ T]) (simp add: va_def)
    qed
    then show ?thesis using False unfolding Let_def va_def n_def by simp
  qed
qed

definition demo_task :: mm where
  "demo_task = \<lparr>mm_pool = demo_empty, mm_cr3 = 0x10000, mm_next = 0\<rparr>"

theorem mmap_correct_witness:
  "\<exists>r m' N. MmapHandler 0x1001 demo_task = Some (r, m') \<and> mmap_inv 0x10000 0x14000 (with_pages demo_used N) m' \<and>
     (r = Inr USER_MMAP_BASE \<and> mapped_fresh (mm_pool m') 0x10000 USER_MMAP_BASE 2 N \<or> r = Inl (- ENOMEM))"
proof -
  have va: "mm_next (mmap_start demo_task) = USER_MMAP_BASE" by (simp add: demo_task_def mmap_start_def)
  have "mmap_inv 0x10000 0x14000 demo_used demo_task"
    unfolding mmap_inv_def va using demo_live demo_aspace demo_translate demo_open
    by (simp add: demo_task_def aligned_def USER_MMAP_BASE_def USER_MMAP_END_def)
  from mmap_correct [OF this, of "0x1001"] show ?thesis
    unfolding va Let_def mmap_ends by (auto simp: demo_task_def)
qed

end
