(* ===== verification/Spec2Isabelle.thy ===== *)
theory Spec2Isabelle
  imports Buddy_Kernel_Props Util_String Util_Memory Scheduler_Props Signal_Props Mutex Waitpid Pipe_Wake Tty_Props Pty_Props
    Vfs_Cwd Vfs_Dirents Vfs_Fd Mmap_Props
begin

text \<open>
  Verification library of the temple-os kernel.

  temple-os is a small 64-bit multiprocessor kernel written in C.  Physical pages come from a
  buddy allocator; page tables are built in those pages; tasks are scheduled round robin on one
  run queue per processor and block on the waiter queues of mutexes, pipes and terminals; signals
  interrupt them; the virtual file system resolves paths over dentries, mounts and symbolic links
  and dispatches to file systems and device drivers through tables of function pointers; the
  system calls tie the parts together.  The library models these parts in the order below.  The
  definitions carry the names of the C functions, and every claim \<open>C1\<close> to \<open>C38\<close> is one theorem next
  to the component it is about.

  \<^bold>\<open>Conventions.\<close>  Machine integers are words of their width, so arithmetic wraps around as it
  does in C; counts that index a list are \<open>nat\<close>; return codes are \<open>int\<close>, with negative error
  numbers.  Structures are records, pointers are numbers with 0 for NULL, the state is passed
  explicitly.  A result of type \<open>option\<close> is \<open>None\<close> where the code does not come back: a loop that
  does not end, a write outside a buffer or an access through NULL.  Such loops are
  \<^theory_text>\<open>partial_function (option)\<close>, and the theorems prove that the value is \<open>Some\<close>; all
  other loops are total functions and there is no fuel anywhere.  A critical section under a
  spinlock with interrupts off is one atomic step; where a function drops its lock and takes it
  again, or sleeps in between, each section is a step of its own and the claims quantify over all
  interleavings by an inductive reachability predicate.  Two operations are one step although the
  source does not make them atomic: \<^verbatim>\<open>task_exit\<close>, which holds \<^verbatim>\<open>tasks_lock\<close>, no lock and
  \<^verbatim>\<open>zombie_list_lock\<close> in turn, and \<^verbatim>\<open>ptmx_open\<close>, which disables interrupts on its own processor
  only.  What the theorems say of them holds when no other processor is between their parts.

  \<^bold>\<open>Prelude.\<close>  \<open>Prelude\<close> holds the types of machine words and the facts on words, lists and
  aligned blocks that the components share.

  \<^bold>\<open>Utilities.\<close>
  \<^item> \<open>Util_Math\<close> (\<^verbatim>\<open>util/math.c\<close>): powers, bit scans, bitmap search.
  \<^item> \<open>Util_String\<close> (\<^verbatim>\<open>util/string.c\<close>): \<open>C8\<close> \<^verbatim>\<open>itoa\<close> and \<^verbatim>\<open>atoi\<close> are inverse; \<open>C9\<close> \<^verbatim>\<open>strcmp\<close> is a total
    order; \<open>C10\<close> the bounded formatter stores the specified text and never leaves its buffer.
  \<^item> \<open>Util_Memory\<close> (\<^verbatim>\<open>util/memory.c\<close>): \<open>C11\<close> to \<open>C13\<close>, the aligned wide paths of \<^verbatim>\<open>memset\<close>, \<^verbatim>\<open>memcpy\<close>
    and \<^verbatim>\<open>memcmp\<close> equal the byte-wise definitions (\<^verbatim>\<open>memcmp\<close> below 16 GiB, where its 32-bit word
    count is exact).

  \<^bold>\<open>Page pool\<close> (\<^verbatim>\<open>allocaters/buddy_alloc.c\<close>, kernel half).  \<open>Buddy_Kernel\<close> has the state (shadow byte
  table, list heads, mask of non-empty orders, the first word of each page) and the operations;
  \<open>Buddy_Kernel_Lists\<close> relates the inline lists and the shadow table to lists and functions;
  \<open>Buddy_Kernel_Inv\<close> states the invariant \<open>pool s F U H\<close> over the sets of free and allocated
  blocks; \<open>Buddy_Kernel_Correct\<close>, \<open>Buddy_Kernel_Boot\<close> and \<open>Buddy_Kernel_Verify\<close> carry it through
  allocation, release, boot and the consistency check.  \<open>Buddy_Kernel_Props\<close> proves \<open>C1\<close> to \<open>C7\<close> for every
  state reachable from boot by requests, releases and arbitrary writes of owners into their own
  blocks: one unique coalesced set of free blocks, requests and releases that always return and do
  exactly their work, a round trip, releases of foreign addresses that change nothing, and
  statistics without wrap-around.  At boot the shadow table starts at or below the pool, as in the
  kernel, where the table's own pages lie in between (\<open>start_kernel_pool\<close>).  \<open>Page_Pool\<close> states the contract of single pages as the locale
  \<open>page_pool\<close> and interprets it on the pool; the page tables rest on that interpretation.

  \<^bold>\<open>Page tables.\<close>  \<open>Paging\<close> (\<^verbatim>\<open>paging/paging.c\<close>) and \<open>Pml4_Clone\<close> (\<^verbatim>\<open>paging/pml4_clone.c\<close>) work in the
  memory of the pool: a table is a page, an entry the machine word at its offset, fields of
  \<^verbatim>\<open>page_entry_t\<close> are bits.  The nested loops over the four levels are one recursion over the level.
  \<open>Paging_Inv\<close> says that an address space is a tree of distinct allocated pages and defines the
  translation \<open>tr\<close> of an address and the rights of the user, of writing and of execution over all
  the entries of a walk (\<open>user_access\<close>, \<open>write_access\<close>, \<open>exec_access\<close>); \<open>Paging_Map\<close>, \<open>Paging_Free\<close> and \<open>Paging_Clone\<close> carry these through the
  operations.  \<open>Paging_Props\<close>: \<open>C33\<close> and \<open>C34\<close>, mapping and unmapping change the translation of
  one page only, and a mapped page has the rights asked for; \<open>C35\<close>, the copy made for a forked
  child has the translations, contents and rights of the parent; \<open>C36\<close>, releasing an address space returns
  exactly the pages it owns.  \<open>Mmap\<close> and \<open>Mmap_Props\<close> (\<^verbatim>\<open>MmapHandler\<close>, \<^verbatim>\<open>MmapFileHandler\<close>,
  \<^verbatim>\<open>MunmapHandler\<close> of \<^verbatim>\<open>interrupts/syscall_handler.c\<close>): \<open>C37\<close>, anonymous mappings are private,
  zeroed and writable, and undone on failure, for sizes up to \<open>2^64 - 2^47\<close>.  The hypotheses ask for a pool below \<open>2^52\<close>, the physical addresses
  an entry can hold; the page attribute tables, the static
  tables of \<^verbatim>\<open>InitPaging\<close> and the shootdown of other processors' translations are outside the model
  (\<^verbatim>\<open>unmap_page_in\<close> returns whether it asks for a shootdown).

  \<^bold>\<open>Tasks\<close> (\<^verbatim>\<open>multi/\<close>).  \<open>Tasks\<close> has the heap of tasks and the intrusive queues threaded through
  \<^verbatim>\<open>next\<close> and \<^verbatim>\<open>prev\<close>; the locales \<open>task_fifo\<close> and \<open>task_fifo_remove\<close> are the contract of
  such a queue and are interpreted on the queues of the scheduler, mutex, pipe and line discipline.
  \<^item> \<open>Scheduler\<close>, \<open>Scheduler_Inv\<close>, \<open>Scheduler_Props\<close> (\<^verbatim>\<open>scheduler.c\<close>, \<^verbatim>\<open>wrappers/timer.c\<close>): \<open>C14\<close> \<^verbatim>\<open>schedule\<close>,
    \<open>C15\<close> the bound on waiting for the processor, \<open>C16\<close> exact wake-up of sleepers.
  \<^item> \<open>Signal\<close>, \<open>Signal_Props\<close> (\<^verbatim>\<open>signal.c\<close>): \<open>C17\<close> delivery enters the handler and return restores the
    frame, \<open>C18\<close> sending wakes the target, asleep or not.  The page lookup of user memory is an argument.
  \<^item> \<open>Mutex\<close> (\<^verbatim>\<open>mutex.c\<close>): \<open>C19\<close>, hand-off in order of arrival; the section under the guard and the
    step after it (giving up the processor, queueing the new owner) are separate.
  \<^item> \<open>Waitpid\<close> (\<^verbatim>\<open>waitpid.c\<close>): \<open>C20\<close>, no exit of a child is missed in any interleaving.
  \<^item> \<open>Waiters\<close>: tasks parked on several queues at once, used by the next group.

  \<^bold>\<open>Byte streams.\<close>  \<open>Ring\<close> is the ring arithmetic and the locale \<open>byte_stream\<close>, interpreted on the ring of
  the pipe and on the raw mode of the line discipline.
  \<^item> \<open>Pipe\<close>, \<open>Pipe_Props\<close>, \<open>Pipe_Wake\<close> (\<^verbatim>\<open>file_system/pipe.c\<close>): \<open>C21\<close> the pipe is a byte stream, \<open>C22\<close> no
    lost wake-up between one reader and one writer, \<open>C23\<close> closing an end.
  \<^item> \<open>Ldisc\<close>, \<open>Ldisc_Props\<close> (\<^verbatim>\<open>drivers/tty_ldisc.c\<close>), \<open>Tty\<close>, \<open>Tty_Props\<close> (\<^verbatim>\<open>drivers/tty.c\<close>): \<open>C24\<close> line
    editing and cooked reads, \<open>C25\<close> no lost wake-up of a single reader.  The screen is the list of bytes sent to it.
  \<^item> \<open>Devfs\<close> (\<^verbatim>\<open>drivers/devfs.c\<close>), \<open>Pty\<close>, \<open>Pty_Props\<close> (\<^verbatim>\<open>drivers/pty.c\<close>): \<open>C26\<close> the output stream with its
    echoes and the drops of pending output, \<open>C27\<close> opening a pair.

  \<^bold>\<open>Files\<close> (\<^verbatim>\<open>file_system/\<close>, \<^verbatim>\<open>interrupts/\<close>).  \<open>Vfs_Types\<close> and \<open>Vfs\<close> have the objects and the dispatch
  layer.  The operation tables of file systems and drivers are the argument \<open>E\<close> of type \<open>'x fsenv\<close>,
  over a state \<open>'x\<close> of their own; what path resolution relies on (allocation does not fail and
  hands out no memory in use, a lookup leaves existing inodes alone) is a named hypothesis, and each
  witness instantiates it with a concrete file system.  The slab allocator is not modelled: the
  addresses \<^verbatim>\<open>kmalloc\<close> returns are the function \<open>kaddr\<close> of \<open>E\<close>, with 0 where it fails.
  \<^item> \<open>Dcache\<close> (\<^verbatim>\<open>dcache.c\<close>): \<open>C28\<close>, the hash table refines a map to stacks (locale \<open>keyed_stack\<close>).
  \<^item> \<open>Vfs_Path\<close>, \<open>Vfs_Path_Inv\<close>, \<open>Vfs_Path_Props\<close> (\<^verbatim>\<open>vfs_dentry.c\<close>, \<^verbatim>\<open>vfs_mount.c\<close>, \<^verbatim>\<open>vfs_path.c\<close>): \<open>C29\<close> every
    walk returns on a kernel stack with room for its link buffers, \<open>C30\<close> the parent walk.  The bound
    on symbolic links in the code makes a walk end; each nested link takes a buffer of 4 KiB on the
    stack, so the number of buffers the stack has room for is a field of \<open>E\<close> (\<open>link_frames\<close>, at most 3
    on the stacks of 16 KiB the kernel has), and a walk that nests deeper has the value \<open>None\<close>.
  \<^item> \<open>Vfs_Path_Ops\<close> (\<^verbatim>\<open>vfs_path_ops.c\<close>), \<open>Vfs_File\<close> (\<^verbatim>\<open>vfs_file.c\<close>), \<open>Vfs_Syscalls\<close> (\<^verbatim>\<open>fd_table.c\<close>,
    \<^verbatim>\<open>vfs_syscalls.c\<close>): the operations and system calls.
  \<^item> \<open>Vfs_Cwd\<close>: \<open>C31\<close>, \<^verbatim>\<open>chdir\<close> leads back to what \<^verbatim>\<open>getcwd\<close> says.  \<open>Vfs_Dirents\<close>: \<open>C32\<close>, \<^verbatim>\<open>getdents\<close> delivers every
    entry once, for a directory whose own run of readdir calls succeeds (\<open>dir_yields\<close>).
  \<^item> \<open>Vfs_Fd\<close> (\<^verbatim>\<open>DupHandler\<close> and \<^verbatim>\<open>Dup2Handler\<close> of \<^verbatim>\<open>syscall_handler.c\<close>): \<open>C38\<close>, reference counts are the
    number of slots that hold a file.  The flags of a slot, always 0, are left out.

  \<^bold>\<open>Not modelled.\<close>  Device input and output, interrupt entry, descriptor tables, processor start-up
  and assembler are below the model.  The user half of the buddy allocator, the slab allocator, the block cache, the
  on-disk file system ext2, procfs and device files are reached through parameters.
  \<^verbatim>\<open>fork.c\<close>, \<^verbatim>\<open>user_task.c\<close> and the ELF loader compose modelled operations with register frames and
  are left out, as are the user programs.
\<close>

end
